(* ===== verification/Prelude.thy ===== *)
theory Prelude
  imports Complex_Main
begin

text \<open>
  Shared vocabulary of the development: the result type of an operation that may raise, generic
  lemmas on lists and on stable sorting, and the named collections the component theories extend
  (\<open>exact\<close>: figures on which the rounded Decimal arithmetic is exact arithmetic; \<open>calendar\<close>: the
  rewrite rules of the civil calendar).
\<close>

named_theorems exact \<open>Decimal arithmetic that does not round\<close>
named_theorems calendar \<open>rules of the civil calendar\<close>

section \<open>Operations that may raise\<close>

text \<open>A raised exception is the left summand; the constructors name the Python classes.\<close>

datatype py_error =
    TypeError
  | ValueError
  | KeyError
  | ValidationError
  | InvalidOperation
  | InvalidGrossPayError
  | InvalidPayPeriodsError
  | InvalidFilingStatusError
  | InvalidDependentCountError
  | UnsupportedStateError
  | PayCalendarError
  | IndexError
  | EndYearError string
  | RecurrenceResolutionError
  | RecurrenceGenerationError
  | MonthStepError
  | EndBoundInputError string
  | AttributeError
  | RuntimeError
  | OverflowError
  | EmptyAuthoredWindowError

type_synonym 'a res = "py_error + 'a"

definition bind_res :: "'a res \<Rightarrow> ('a \<Rightarrow> 'b res) \<Rightarrow> 'b res" where
  "bind_res r f = (case r of Inl e \<Rightarrow> Inl e | Inr x \<Rightarrow> f x)"

lemma bind_res_simps [simp]:
  "bind_res (Inl e) f = Inl e"
  "bind_res (Inr x) f = f x"
  by (simp_all add: bind_res_def)

lemma bind_res_InrE:
  assumes "bind_res r f = Inr y"
  obtains x where "r = Inr x" "f x = Inr y"
  using assms by (cases r) auto

text \<open>A guard clause, and a run of guard clauses: the first that raises decides.\<close>

definition require :: "bool \<Rightarrow> unit res" where
  "require b = (if b then Inr () else Inl ValueError)"

fun all_checked :: "unit res list \<Rightarrow> unit res" where
  "all_checked [] = Inr ()"
| "all_checked (c # cs) = bind_res c (\<lambda>_. all_checked cs)"

lemma require_ok [simp]: "require b = Inr u \<longleftrightarrow> b"
  by (simp add: require_def)

lemma all_checked_ok [simp]: "all_checked cs = Inr u \<longleftrightarrow> list_all (\<lambda>c. c = Inr ()) cs"
  by (induction cs) (auto elim: bind_res_InrE)

declare all_checked.simps [simp del]

section \<open>Lists\<close>

lemma map_fst_zip_same: "length xs = length ys \<Longrightarrow> map fst (zip xs ys) = xs"
  by simp

lemma sum_list_map_add:
  fixes f g :: "'a \<Rightarrow> 'b::comm_monoid_add"
  shows "sum_list (map f xs) + sum_list (map g xs) = sum_list (map (\<lambda>x. f x + g x) xs)"
  by (induction xs) (auto simp: ac_simps)

lemma sum_list_map_diff:
  fixes f g :: "'a \<Rightarrow> 'b::ab_group_add"
  shows "sum_list (map f xs) - sum_list (map g xs) = sum_list (map (\<lambda>x. f x - g x) xs)"
  by (induction xs) (auto simp: algebra_simps)

lemma sum_list_bounds:
  fixes f :: "'a \<Rightarrow> rat"
  assumes "\<And>x. x \<in> set xs \<Longrightarrow> a \<le> f x \<and> f x \<le> b"
  shows "of_nat (length xs) * a \<le> sum_list (map f xs) \<and>
         sum_list (map f xs) \<le> of_nat (length xs) * b"
  using assms
proof (induction xs)
  case Nil
  then show ?case by simp
next
  case (Cons x xs)
  then have "a \<le> f x" "f x \<le> b"
    and "of_nat (length xs) * a \<le> sum_list (map f xs)"
    and "sum_list (map f xs) \<le> of_nat (length xs) * b"
    by auto
  then show ?case by (simp add: algebra_simps)
qed

lemma sum_list_strict_upper:
  fixes f :: "'a \<Rightarrow> rat"
  assumes "\<And>x. x \<in> set xs \<Longrightarrow> f x < b" "xs \<noteq> []"
  shows "sum_list (map f xs) < of_nat (length xs) * b"
  using assms
proof (induction xs)
  case Nil
  then show ?case by simp
next
  case (Cons x xs)
  then have x: "f x < b" by simp
  show ?case
  proof (cases "xs = []")
    case True
    with x show ?thesis by simp
  next
    case False
    with Cons have "sum_list (map f xs) < of_nat (length xs) * b" by simp
    with x show ?thesis by (simp add: algebra_simps)
  qed
qed

lemma sum_list_update_rat:
  fixes xs :: "rat list"
  assumes "i < length xs"
  shows "sum_list (xs[i := v]) = sum_list xs - xs ! i + v"
  using assms by (induction xs arbitrary: i) (auto split: nat.splits)

lemma last_map_neq: "xs \<noteq> [] \<Longrightarrow> last (map f xs) = f (last xs)"
  by (rule last_map)

end
