(* ===== verification/Civil_Dates.thy ===== *)
theory Civil_Dates
  imports Prelude
begin

text \<open>
  \<open>app/utils/dates.py\<close> over the civil calendar of Python's \<open>datetime.date\<close>.  A date is its year,
  month and day, ordered as Python orders dates; the calendar is the proleptic Gregorian one.  Years
  are not capped here: Python raises \<open>ValueError\<close> outside the years 1 to 9999, which
  \<open>clamped_day_py\<close> states and \<open>in_python_domain\<close> names.  The month grid (\<open>clamped_day\<close> and the four
  questions every loan, card, payday and recurrence asks of its grid) is an instance of the locale
  \<open>monthly_grid\<close>, which holds what those questions answer.
\<close>

section \<open>Dates\<close>

datatype date = Date (d_year: int) (d_month: int) (d_day: int)

instantiation date :: linorder
begin

definition less_eq_date :: "date \<Rightarrow> date \<Rightarrow> bool" where
  "less_eq_date a b =
     (d_year a < d_year b \<or> d_year a = d_year b \<and>
       (d_month a < d_month b \<or> d_month a = d_month b \<and> d_day a \<le> d_day b))"

definition less_date :: "date \<Rightarrow> date \<Rightarrow> bool" where
  "less_date a b =
     (d_year a < d_year b \<or> d_year a = d_year b \<and>
       (d_month a < d_month b \<or> d_month a = d_month b \<and> d_day a < d_day b))"

instance
  by standard (auto simp: less_eq_date_def less_date_def intro: date.expand)

end

definition is_leap :: "int \<Rightarrow> bool" where
  "is_leap y = (y mod 4 = 0 \<and> (y mod 100 \<noteq> 0 \<or> y mod 400 = 0))"

definition days_in_month :: "int \<Rightarrow> int \<Rightarrow> int" where
  "days_in_month y m =
     (if m = 2 then (if is_leap y then 29 else 28)
      else if m = 4 \<or> m = 6 \<or> m = 9 \<or> m = 11 then 30 else 31)"

definition valid_date :: "date \<Rightarrow> bool" where
  "valid_date d = (1 \<le> d_month d \<and> d_month d \<le> 12 \<and>
                   1 \<le> d_day d \<and> d_day d \<le> days_in_month (d_year d) (d_month d))"

definition in_python_domain :: "date \<Rightarrow> bool" where
  "in_python_domain d = (valid_date d \<and> 1 \<le> d_year d \<and> d_year d \<le> 9999)"

definition date_max :: date where "date_max = Date 9999 12 31"
definition CALENDAR_DATE_MIN :: date where "CALENDAR_DATE_MIN = Date 2000 1 1"
definition CALENDAR_DATE_MAX :: date where "CALENDAR_DATE_MAX = Date 2100 12 31"

lemma days_in_month_bounds: "28 \<le> days_in_month y m \<and> days_in_month y m \<le> 31"
  by (simp add: days_in_month_def)

section \<open>The month grid\<close>

definition month_ordinal :: "date \<Rightarrow> int" where
  "month_ordinal d = d_year d * 12 + (d_month d - 1)"

definition clamped_day :: "int \<Rightarrow> int \<Rightarrow> date" where
  "clamped_day ordinal nominal_day =
     (let y = ordinal div 12; m = ordinal mod 12 + 1
      in Date y m (min nominal_day (days_in_month y m)))"

text \<open>The same with Python's domain check written out, for a day of at least 1.\<close>

definition clamped_day_py :: "int \<Rightarrow> int \<Rightarrow> date res" where
  "clamped_day_py ordinal nominal_day =
     (if 1 \<le> ordinal div 12 \<and> ordinal div 12 \<le> 9999 \<and> 1 \<le> nominal_day
      then Inr (clamped_day ordinal nominal_day) else Inl ValueError)"

definition grid_month_on_or_before :: "date \<Rightarrow> int \<Rightarrow> int" where
  "grid_month_on_or_before day nominal_day =
     (let ordinal = month_ordinal day
      in if clamped_day ordinal nominal_day \<le> day then ordinal else ordinal - 1)"

definition grid_month_on_or_after :: "date \<Rightarrow> int \<Rightarrow> int" where
  "grid_month_on_or_after day nominal_day =
     (let ordinal = month_ordinal day
      in if day \<le> clamped_day ordinal nominal_day then ordinal else ordinal + 1)"

definition grid_month_after :: "date \<Rightarrow> int \<Rightarrow> int" where
  "grid_month_after day nominal_day = grid_month_on_or_before day nominal_day + 1"

definition grid_months_within :: "int \<Rightarrow> date \<Rightarrow> date \<Rightarrow> int list" where
  "grid_months_within nominal_day first_day last_day =
     [grid_month_on_or_after first_day nominal_day .. grid_month_on_or_before last_day nominal_day]"

definition add_months :: "date \<Rightarrow> int \<Rightarrow> date" where
  "add_months start months =
     (let ordinal = month_ordinal start + months
      in if (9999 + 1) * 12 \<le> ordinal then date_max else clamped_day ordinal (d_day start))"

definition months_between :: "date \<Rightarrow> date \<Rightarrow> int" where
  "months_between s e = (d_year e - d_year s) * 12 + (d_month e - d_month s)"

subsection \<open>What a monthly grid is\<close>

text \<open>
  A monthly grid lands one date in every month.  Whatever day it lands on, the comparisons of the
  source against \<open>land (month_ordinal d)\<close> alone decide which grid days lie before and after \<open>d\<close>.
\<close>

locale monthly_grid =
  fixes land :: "int \<Rightarrow> date"
  assumes land_month: "month_ordinal (land k) = k"
    and land_wf: "1 \<le> d_month (land k) \<and> d_month (land k) \<le> 12"
begin

lemma month_less:
  assumes "1 \<le> d_month a" "d_month a \<le> 12" "1 \<le> d_month b" "d_month b \<le> 12"
    and "month_ordinal a < month_ordinal b"
  shows "a < b"
  using assms by (auto simp: month_ordinal_def less_date_def)

lemma land_strict_mono: "j < k \<Longrightarrow> land j < land k"
  using land_wf land_month by (intro month_less) auto

lemma land_less_iff: "land j < land k \<longleftrightarrow> j < k"
  by (metis land_strict_mono less_asym linorder_neqE)

lemma land_le_iff: "land j \<le> land k \<longleftrightarrow> j \<le> k"
  by (simp add: land_less_iff not_less[symmetric])

lemma land_before:
  assumes "1 \<le> d_month d" "d_month d \<le> 12" "k < month_ordinal d"
  shows "land k < d"
  using assms land_wf land_month by (intro month_less) auto

lemma land_after:
  assumes "1 \<le> d_month d" "d_month d \<le> 12" "month_ordinal d < k"
  shows "d < land k"
  using assms land_wf land_month by (intro month_less) auto

lemma floor_month_iff:
  assumes "1 \<le> d_month d" "d_month d \<le> 12"
  shows "land k \<le> d \<longleftrightarrow>
         k \<le> (if land (month_ordinal d) \<le> d then month_ordinal d else month_ordinal d - 1)"
  using land_before[OF assms, of k] land_after[OF assms, of k]
  by (cases k "month_ordinal d" rule: linorder_cases) auto

lemma ceiling_month_iff:
  assumes "1 \<le> d_month d" "d_month d \<le> 12"
  shows "d \<le> land k \<longleftrightarrow>
         (if d \<le> land (month_ordinal d) then month_ordinal d else month_ordinal d + 1) \<le> k"
  using land_before[OF assms, of k] land_after[OF assms, of k]
  by (cases k "month_ordinal d" rule: linorder_cases) auto

end

lemma month_ordinal_clamped [simp, calendar]: "month_ordinal (clamped_day k n) = k"
  by (simp add: month_ordinal_def clamped_day_def Let_def)

lemma d_month_clamped [simp]: "1 \<le> d_month (clamped_day k n)" "d_month (clamped_day k n) \<le> 12"
  using pos_mod_bound[of 12 k] by (simp_all add: clamped_day_def Let_def)

interpretation grid: monthly_grid "\<lambda>k. clamped_day k n" for n
  by unfold_locales simp_all

lemma valid_dateD:
  "valid_date d \<Longrightarrow> 1 \<le> d_month d" "valid_date d \<Longrightarrow> d_month d \<le> 12"
  "valid_date d \<Longrightarrow> 1 \<le> d_day d" "valid_date d \<Longrightarrow> d_day d \<le> days_in_month (d_year d) (d_month d)"
  by (simp_all add: valid_date_def)

lemma valid_clamped_day: "1 \<le> n \<Longrightarrow> valid_date (clamped_day k n)"
  using days_in_month_bounds[of "k div 12" "k mod 12 + 1"] pos_mod_bound[of 12 k]
  by (auto simp: valid_date_def clamped_day_def Let_def)

lemma clamped_day_own_month:
  assumes "valid_date d"
  shows "clamped_day (month_ordinal d) (d_day d) = d"
proof -
  have "(12 * d_year d + (d_month d - 1)) div 12 = d_year d"
    "(12 * d_year d + (d_month d - 1)) mod 12 = d_month d - 1"
    using assms by (simp_all add: valid_date_def)
  then show ?thesis using assms
    by (simp add: clamped_day_def month_ordinal_def valid_date_def Let_def min_def mult.commute
        add_diff_eq date.expand)
qed

lemma clamped_day_python:
  assumes "12 \<le> k" "k < 120000" "1 \<le> n"
  shows "clamped_day_py k n = Inr (clamped_day k n) \<and> in_python_domain (clamped_day k n)"
proof -
  have "1 \<le> k div 12" "k div 12 \<le> 9999" using assms by auto
  then show ?thesis using assms valid_clamped_day[of n k]
    by (simp add: clamped_day_py_def in_python_domain_def) (simp add: clamped_day_def Let_def)
qed

lemma months_between_ordinal: "months_between s e = month_ordinal e - month_ordinal s"
  by (simp add: months_between_def month_ordinal_def algebra_simps)

text \<open>
  The four questions of the grid, answered: the month found lands on the latest grid day on or
  before the date, the first on or after it, the first after it, and the months between two dates
  are exactly those whose grid day lies between them.
\<close>

lemma on_or_before_iff:
  "valid_date d \<Longrightarrow> clamped_day k n \<le> d \<longleftrightarrow> k \<le> grid_month_on_or_before d n"
  using grid.floor_month_iff[of d k n]
  by (simp add: grid_month_on_or_before_def Let_def valid_dateD)

lemma on_or_after_iff:
  "valid_date d \<Longrightarrow> d \<le> clamped_day k n \<longleftrightarrow> grid_month_on_or_after d n \<le> k"
  using grid.ceiling_month_iff[of d k n]
  by (simp add: grid_month_on_or_after_def Let_def valid_dateD)

lemma after_iff:
  "valid_date d \<Longrightarrow> d < clamped_day k n \<longleftrightarrow> grid_month_after d n \<le> k"
  using on_or_before_iff[of d k n] by (auto simp: grid_month_after_def not_le[symmetric])

lemma set_grid_months_within:
  "valid_date a \<Longrightarrow> valid_date b \<Longrightarrow>
   set (grid_months_within n a b) = {k. a \<le> clamped_day k n \<and> clamped_day k n \<le> b}"
  by (auto simp: grid_months_within_def on_or_before_iff on_or_after_iff)

text \<open>
  C31: the four questions every monthly grid in the application asks are mutually consistent and
  complete: for any date and meant day, a grid day lies on or before the date, on or after it or
  after it exactly when its month is on the right side of the answer, and the grid days between two
  dates are enumerated in strictly ascending order with none missing.
\<close>

theorem monthly_grid_questions:
  assumes "valid_date a" "valid_date b"
  shows "(clamped_day k n \<le> a \<longleftrightarrow> k \<le> grid_month_on_or_before a n) \<and>
         (a \<le> clamped_day k n \<longleftrightarrow> grid_month_on_or_after a n \<le> k) \<and>
         (a < clamped_day k n \<longleftrightarrow> grid_month_after a n \<le> k) \<and>
         set (map (\<lambda>k. clamped_day k n) (grid_months_within n a b)) =
           {d. (\<exists>k. d = clamped_day k n) \<and> a \<le> d \<and> d \<le> b} \<and>
         sorted_wrt (<) (map (\<lambda>k. clamped_day k n) (grid_months_within n a b))"
proof -
  have "sorted_wrt (<) [i..j]" for i j :: int
    by (induction i j rule: upto.induct) (subst upto.simps, simp)
  then have "sorted_wrt (<) (map (\<lambda>k. clamped_day k n) (grid_months_within n a b))"
    by (simp add: sorted_wrt_map grid_months_within_def grid.land_less_iff)
  then show ?thesis
    using assms by (auto simp: on_or_before_iff on_or_after_iff after_iff set_grid_months_within)
qed

lemma monthly_grid_questions_witness:
  "clamped_day (2026 * 12 + 1) 31 \<le> Date 2026 3 1 \<longleftrightarrow>
   2026 * 12 + 1 \<le> grid_month_on_or_before (Date 2026 3 1) 31"
  using monthly_grid_questions[of "Date 2026 3 1" "Date 2026 9 9" "2026 * 12 + 1" 31]
  by (simp add: valid_date_def days_in_month_def)

section \<open>Adding months\<close>

text \<open>
  adding months never leaves the calendar: from any date the result is a date of Python's
  domain, the day is kept unless the target month is shorter (the clamp), the month distance is the
  one asked for, and only a result past the year 9999 is the sentinel \<open>date.max\<close>.
\<close>

theorem add_months_in_calendar:
  assumes "in_python_domain d" "0 \<le> n"
  shows "in_python_domain (add_months d n) \<and>
         (if month_ordinal d + n < 120000
          then months_between d (add_months d n) = n \<and>
               d_day (add_months d n) =
                 min (d_day d) (days_in_month (d_year (add_months d n)) (d_month (add_months d n)))
          else add_months d n = date_max)"
proof (cases "month_ordinal d + n < 120000")
  case True
  have "12 \<le> month_ordinal d" using assms by (simp add: in_python_domain_def valid_date_def month_ordinal_def)
  moreover have "add_months d n = clamped_day (month_ordinal d + n) (d_day d)"
    using True by (simp add: add_months_def Let_def)
  ultimately show ?thesis
    using True assms clamped_day_python[of "month_ordinal d + n" "d_day d"]
    by (simp add: months_between_ordinal in_python_domain_def valid_dateD) (simp add: clamped_day_def Let_def)
next
  case False
  then show ?thesis
    by (simp add: add_months_def date_max_def in_python_domain_def valid_date_def days_in_month_def)
qed

lemma add_months_in_calendar_witness:
  "in_python_domain (add_months (Date 2026 1 31) 1) \<and> add_months (Date 2026 1 31) 1 = Date 2026 2 28"
  using add_months_in_calendar[of "Date 2026 1 31" 1]
  by (simp add: in_python_domain_def valid_date_def days_in_month_def add_months_def month_ordinal_def
      clamped_day_def is_leap_def)

lemma valid_add_months: "valid_date d \<Longrightarrow> valid_date (add_months d n)"
  using valid_clamped_day[of "d_day d" "month_ordinal d + n"]
  by (simp add: add_months_def Let_def valid_dateD)
     (simp add: date_max_def valid_date_def days_in_month_def)

end
