(* ===== verification/Civil_Days.thy ===== *)
theory Civil_Days
  imports Civil_Dates
begin

text \<open>
  Day arithmetic of \<open>app/utils/dates.py\<close>: Python's \<open>date + timedelta(days=n)\<close>, \<open>(a - b).days\<close> and
  \<open>date.weekday\<close> over the calendar of \<open>Civil_Dates\<close>, with the helpers built on them.  A day's number
  is Python's \<open>toordinal\<close>; \<open>day_number_less_iff\<close> says that it orders dates as the calendar does, so
  every later proof about day counts is integer arithmetic.
\<close>

section \<open>The day after and the day before\<close>

definition next_day :: "date \<Rightarrow> date" where
  "next_day d =
     (if d_day d < days_in_month (d_year d) (d_month d)
      then Date (d_year d) (d_month d) (d_day d + 1)
      else if d_month d < 12 then Date (d_year d) (d_month d + 1) 1
      else Date (d_year d + 1) 1 1)"

definition prev_day :: "date \<Rightarrow> date" where
  "prev_day d =
     (if 1 < d_day d then Date (d_year d) (d_month d) (d_day d - 1)
      else if 1 < d_month d
      then Date (d_year d) (d_month d - 1) (days_in_month (d_year d) (d_month d - 1))
      else Date (d_year d - 1) 12 31)"

definition add_days :: "date \<Rightarrow> int \<Rightarrow> date" where
  "add_days d n = (if 0 \<le> n then (next_day ^^ nat n) d else (prev_day ^^ nat (- n)) d)"

definition days_before_year :: "int \<Rightarrow> int" where
  "days_before_year y = (y - 1) * 365 + (y - 1) div 4 - (y - 1) div 100 + (y - 1) div 400"

definition days_before_month :: "int \<Rightarrow> int \<Rightarrow> int" where
  "days_before_month y m = sum_list (map (days_in_month y) [1 .. m - 1])"

definition day_number :: "date \<Rightarrow> int" where
  "day_number d = days_before_year (d_year d) + days_before_month (d_year d) (d_month d) + d_day d"

definition days_between :: "date \<Rightarrow> date \<Rightarrow> int" where
  "days_between a b = day_number a - day_number b"

definition weekday :: "date \<Rightarrow> int" where
  "weekday d = (day_number d + 6) mod 7"

lemma div_step: "0 < k \<Longrightarrow> y div k - (y - 1) div k = (if y mod k = 0 then 1 else 0)" for y k :: int
proof -
  assume k: "0 < k"
  have "(y - 1) div k = (if y mod k = 0 then y div k - 1 else y div k)"
  proof (cases "y mod k = 0")
    case True
    then have "y - 1 = k * (y div k - 1) + (k - 1)"
      using mult_div_mod_eq[of k y] by (simp add: right_diff_distrib)
    then have "(y - 1) div k = y div k - 1" by (rule int_div_pos_eq) (use k in simp_all)
    with True show ?thesis by simp
  next
    case False
    then have m: "0 \<le> y mod k - 1" "y mod k - 1 < k"
      using pos_mod_bound[OF k, of y] pos_mod_sign[OF k, of y] by simp_all
    have "y - 1 = k * (y div k) + (y mod k - 1)" using mult_div_mod_eq[of k y] by simp
    then have "(y - 1) div k = y div k" using m by (intro int_div_pos_eq)
    with False show ?thesis by simp
  qed
  then show ?thesis by simp
qed

lemma mod_multiple_0: "d dvd m \<Longrightarrow> y mod m = 0 \<Longrightarrow> y mod d = 0" for y :: int
  using mod_mod_cancel[of d m y] by simp

lemma dvd_400: "(100::int) dvd 400" and dvd_100: "(4::int) dvd 100"
  by simp_all

lemmas leap_dvd = mod_multiple_0[OF dvd_400] mod_multiple_0[OF dvd_100]

lemma leap_indicator:
  "(c \<Longrightarrow> b) \<Longrightarrow> (b \<Longrightarrow> a) \<Longrightarrow>
   (if a \<and> (\<not> b \<or> c) then 1 else 0 :: int) =
     (if a then 1 else 0) - (if b then 1 else 0) + (if c then 1 else 0)"
  by (cases a; cases b; cases c) simp_all

lemma leap_count_step:
  fixes y :: int
  shows "l = i4 - i100 + i400 \<Longrightarrow> q4 - p4 = i4 \<Longrightarrow> q100 - p100 = i100 \<Longrightarrow> q400 - p400 = i400 \<Longrightarrow>
    y * 365 + q4 - q100 + q400 = (y - 1) * 365 + p4 - p100 + p400 + 365 + l"
  by (simp add: algebra_simps)

lemma days_before_year_step [calendar]:
  "days_before_year (y + 1) = days_before_year y + 365 + (if is_leap y then 1 else 0)"
proof -
  have "(if is_leap y then 1 else 0 :: int) =
        (if y mod 4 = 0 then 1 else 0) - (if y mod 100 = 0 then 1 else 0) + (if y mod 400 = 0 then 1 else 0)"
    unfolding is_leap_def by (rule leap_indicator) (erule leap_dvd)+
  moreover have "y div 4 - (y - 1) div 4 = (if y mod 4 = 0 then 1 else 0)"
    "y div 100 - (y - 1) div 100 = (if y mod 100 = 0 then 1 else 0)"
    "y div 400 - (y - 1) div 400 = (if y mod 400 = 0 then 1 else 0)"
    by (rule div_step, simp)+
  ultimately show ?thesis
    unfolding days_before_year_def add_diff_cancel_right' by (rule leap_count_step)
qed

lemma days_before_month_1 [simp]: "days_before_month y 1 = 0"
  by (simp add: days_before_month_def)

lemma days_before_month_step [calendar]:
  "1 \<le> m \<Longrightarrow> days_before_month y (m + 1) = days_before_month y m + days_in_month y m"
  by (simp add: days_before_month_def upto_rec2)

lemma days_before_month_13: "days_before_month y 13 = 365 + (if is_leap y then 1 else 0)"
  by (simp add: days_before_month_def days_in_month_def upto.simps)

lemma days_before_month_mono:
  assumes "1 \<le> m" "m \<le> n"
  shows "days_before_month y m \<le> days_before_month y n"
proof -
  have "1 \<le> k \<Longrightarrow> days_before_month y k \<le> days_before_month y (k + int j)" for k j
  proof (induction j)
    case (Suc j)
    then show ?case
      using days_before_month_step[of "k + int j" y] days_in_month_bounds[of y "k + int j"]
      by (simp add: ac_simps)
  qed simp
  from this[of m "nat (n - m)"] assms show ?thesis by simp
qed

lemma days_before_year_mono: "x \<le> y \<Longrightarrow> days_before_year x \<le> days_before_year y"
proof -
  assume "x \<le> y"
  have "days_before_year x \<le> days_before_year (x + int j)" for j
  proof (induction j)
    case (Suc j)
    then show ?case using days_before_year_step[of "x + int j"]
      by (simp add: ac_simps split: if_splits)
  qed simp
  from this[of "nat (y - x)"] show ?thesis using \<open>x \<le> y\<close> by simp
qed

lemma valid_next_day: "valid_date d \<Longrightarrow> valid_date (next_day d)"
  using days_in_month_bounds by (auto simp: valid_date_def next_day_def) (smt (verit))+

lemma valid_prev_day: "valid_date d \<Longrightarrow> valid_date (prev_day d)"
  using days_in_month_bounds[of "d_year d" "d_month d - 1"]
  by (auto simp: valid_date_def prev_day_def) (simp_all add: days_in_month_def)

lemma day_number_next: "valid_date d \<Longrightarrow> day_number (next_day d) = day_number d + 1"
proof -
  assume d: "valid_date d"
  show ?thesis
  proof (cases "d_day d < days_in_month (d_year d) (d_month d)")
    case True
    then show ?thesis by (simp add: day_number_def next_day_def)
  next
    case False
    with d have last: "d_day d = days_in_month (d_year d) (d_month d)" by (simp add: valid_date_def)
    show ?thesis
    proof (cases "d_month d < 12")
      case True
      then show ?thesis using d last
        by (simp add: day_number_def next_day_def days_before_month_step valid_dateD)
    next
      case False
      with d have m: "d_month d = 12" by (simp add: valid_date_def)
      have "days_before_month (d_year d) 12 + days_in_month (d_year d) 12 =
            365 + (if is_leap (d_year d) then 1 else 0)"
        using days_before_month_step[of 12 "d_year d"] days_before_month_13[of "d_year d"] by simp
      then show ?thesis using last m
        by (simp add: day_number_def next_day_def days_before_year_step)
    qed
  qed
qed

lemma next_prev_day: "valid_date d \<Longrightarrow> next_day (prev_day d) = d"
  by (cases d) (auto simp: valid_date_def next_day_def prev_day_def days_in_month_def)

lemma day_number_prev: "valid_date d \<Longrightarrow> day_number (prev_day d) = day_number d - 1"
  using day_number_next[OF valid_prev_day, of d] by (simp add: next_prev_day)

lemma day_of_year_bounds:
  assumes "valid_date d"
  shows "days_before_year (d_year d) < day_number d" "day_number d \<le> days_before_year (d_year d + 1)"
  using assms days_before_month_mono[of 1 "d_month d" "d_year d"]
    days_before_month_mono[of "d_month d + 1" 13 "d_year d"]
    days_before_month_step[of "d_month d" "d_year d"] days_before_month_13[of "d_year d"]
  by (simp_all add: valid_date_def day_number_def days_before_year_step)

lemma day_number_strict_mono:
  assumes "valid_date a" "valid_date b" "a < b"
  shows "day_number a < day_number b"
proof -
  consider "d_year a < d_year b" | "d_year a = d_year b" "d_month a < d_month b"
    | "d_year a = d_year b" "d_month a = d_month b" "d_day a < d_day b"
    using assms(3) by (auto simp: less_date_def)
  then show ?thesis
  proof cases
    case 1
    then have "days_before_year (d_year a + 1) \<le> days_before_year (d_year b)"
      by (intro days_before_year_mono) simp
    then show ?thesis using day_of_year_bounds[OF assms(1)] day_of_year_bounds[OF assms(2)] by linarith
  next
    case 2
    then have "days_before_month (d_year b) (d_month a + 1) \<le> days_before_month (d_year b) (d_month b)"
      using assms by (intro days_before_month_mono) (simp_all add: valid_date_def)
    then show ?thesis using 2 assms
      by (simp add: day_number_def days_before_month_step valid_date_def)
  next
    case 3
    then show ?thesis by (simp add: day_number_def)
  qed
qed

lemma day_number_less_iff:
  "valid_date a \<Longrightarrow> valid_date b \<Longrightarrow> a < b \<longleftrightarrow> day_number a < day_number b"
  using day_number_strict_mono[of a b] day_number_strict_mono[of b a]
  by (cases a b rule: linorder_cases) auto

lemma day_number_le_iff:
  "valid_date a \<Longrightarrow> valid_date b \<Longrightarrow> a \<le> b \<longleftrightarrow> day_number a \<le> day_number b"
  using day_number_less_iff[of b a] by auto

lemma day_number_inject:
  "valid_date a \<Longrightarrow> valid_date b \<Longrightarrow> day_number a = day_number b \<longleftrightarrow> a = b"
  using day_number_le_iff[of a b] day_number_le_iff[of b a] by auto

lemma add_days_nat:
  assumes "valid_date d"
  shows "valid_date ((next_day ^^ n) d) \<and> day_number ((next_day ^^ n) d) = day_number d + int n"
    "valid_date ((prev_day ^^ n) d) \<and> day_number ((prev_day ^^ n) d) = day_number d - int n"
  using assms by (induction n) (simp_all add: valid_next_day valid_prev_day day_number_next day_number_prev)

lemma valid_add_days [simp]: "valid_date d \<Longrightarrow> valid_date (add_days d n)"
  by (simp add: add_days_def add_days_nat)

lemma day_number_add_days [simp]: "valid_date d \<Longrightarrow> day_number (add_days d n) = day_number d + n"
  by (simp add: add_days_def add_days_nat)

lemma add_days_0 [simp]: "add_days d 0 = d"
  by (simp add: add_days_def)

lemma add_days_add: "valid_date d \<Longrightarrow> add_days (add_days d m) n = add_days d (m + n)"
  by (rule iffD1[OF day_number_inject]) simp_all

text \<open>
  adding days is the group action \<open>timedelta\<close> is: it stays on the calendar, the difference of the
  result and the start is the count, counts compose, the calendar order is the order of day numbers,
  and the weekday advances with the count modulo seven.
\<close>

theorem add_days_arithmetic:
  assumes "valid_date d" "valid_date e"
  shows "valid_date (add_days d n) \<and> days_between (add_days d n) d = n \<and>
         add_days (add_days d m) n = add_days d (m + n) \<and>
         (d < e \<longleftrightarrow> 0 < days_between e d) \<and> add_days d (days_between e d) = e \<and>
         weekday (add_days d n) = (weekday d + n) mod 7"
proof -
  have "add_days d (days_between e d) = e"
    by (rule iffD1[OF day_number_inject]) (simp_all add: assms days_between_def)
  moreover have "weekday (add_days d n) = (weekday d + n) mod 7"
    using mod_add_left_eq[of "day_number d + 6" 7 n] day_number_add_days[OF assms(1), of n]
    by (simp only: weekday_def ac_simps)
  ultimately show ?thesis
    using assms by (simp add: days_between_def day_number_less_iff add_days_add)
qed

lemma add_days_arithmetic_witness:
  "days_between (add_days (Date 2028 2 21) 14) (Date 2028 2 21) = 14 \<and>
   add_days (Date 2028 2 21) 14 = Date 2028 3 6"
proof -
  have "add_days (Date 2028 2 21) 14 = Date 2028 3 6"
    by (simp add: add_days_def eval_nat_numeral next_day_def days_in_month_def is_leap_def)
  moreover have v: "valid_date (Date 2028 2 21)" by (simp add: valid_date_def days_in_month_def is_leap_def)
  ultimately show ?thesis using add_days_arithmetic[OF v v, of 14 0] by blast
qed

section \<open>Settlement days\<close>

definition days_paid_before_due :: "date option \<Rightarrow> date option \<Rightarrow> int option" where
  "days_paid_before_due due_date settled_on =
     (case (due_date, settled_on) of
        (Some due, Some settled) \<Rightarrow> Some (days_between due settled)
      | _ \<Rightarrow> None)"

definition has_settled_by :: "date option \<Rightarrow> date \<Rightarrow> bool" where
  "has_settled_by settled_on as_of = (case settled_on of None \<Rightarrow> False | Some s \<Rightarrow> s \<le> as_of)"

lemma days_paid_before_due_sign:
  assumes "valid_date due" "valid_date settled" "days_paid_before_due (Some due) (Some settled) = Some n"
  shows "(0 < n \<longleftrightarrow> settled < due) \<and> (n < 0 \<longleftrightarrow> due < settled) \<and> (n = 0 \<longleftrightarrow> due = settled)"
  using assms by (auto simp: days_paid_before_due_def days_between_def day_number_less_iff day_number_inject)

lemma has_settled_by_mono: "has_settled_by s a \<Longrightarrow> a \<le> b \<Longrightarrow> has_settled_by s b"
  by (auto simp: has_settled_by_def split: option.splits)

section \<open>Every day of a range\<close>

text \<open>
  The loop of the source; the guard also asks for calendar dates, which every Python date is, so that
  the loop is known to end.
\<close>

function days_from :: "date \<Rightarrow> date \<Rightarrow> date list" where
  "days_from d last_day =
     (if valid_date d \<and> valid_date last_day \<and> d \<le> last_day
      then d # days_from (next_day d) last_day else [])"
  by pat_completeness auto
termination
  by (relation "measure (\<lambda>(d, l). nat (day_number l + 1 - day_number d))")
     (auto simp: day_number_next day_number_le_iff)

declare days_from.simps [simp del]

definition days_in_range :: "date \<Rightarrow> date \<Rightarrow> date list" where
  "days_in_range first_day last_day = days_from first_day last_day"

lemma days_from_numbers:
  "valid_date d \<Longrightarrow> valid_date l \<Longrightarrow> map day_number (days_from d l) = [day_number d .. day_number l]"
proof (induction d l rule: days_from.induct)
  case (1 d l)
  then show ?case
    by (subst days_from.simps)
       (simp add: valid_next_day day_number_next upto_rec1 day_number_le_iff)
qed

lemma days_from_valid: "x \<in> set (days_from d l) \<Longrightarrow> valid_date x"
proof (induction d l rule: days_from.induct)
  case (1 d l)
  then show ?case
    by (subst (asm) (2) days_from.simps) (auto split: if_splits)
qed

lemma day_number_strict_sorted:
  assumes "\<And>x. x \<in> set ds \<Longrightarrow> valid_date x" "sorted_wrt (<) (map day_number ds)"
  shows "sorted_wrt (<) ds"
  using assms by (induction ds) (auto simp: day_number_less_iff)

lemma sorted_wrt_less_upto: "sorted_wrt (<) [i..j]" for i j :: int
  by (induction i j rule: upto.induct) (subst upto.simps, simp)

lemma days_in_range_sorted:
  "valid_date a \<Longrightarrow> valid_date b \<Longrightarrow> sorted_wrt (<) (days_in_range a b)"
  unfolding days_in_range_def
  by (rule day_number_strict_sorted)
     (simp_all add: days_from_valid days_from_numbers sorted_wrt_less_upto)

lemma set_days_in_range:
  assumes "valid_date a" "valid_date b"
  shows "set (days_in_range a b) = {d. valid_date d \<and> a \<le> d \<and> d \<le> b}"
proof -
  have numbers: "day_number ` set (days_from a b) = {day_number a .. day_number b}"
    using days_from_numbers[OF assms] by (metis set_map set_upto)
  show ?thesis
  proof (intro set_eqI iffI)
    fix d assume d: "d \<in> set (days_in_range a b)"
    then have "day_number d \<in> {day_number a .. day_number b}"
      using numbers by (auto simp: days_in_range_def)
    then show "d \<in> {d. valid_date d \<and> a \<le> d \<and> d \<le> b}"
      using d assms by (auto simp: days_in_range_def day_number_le_iff days_from_valid)
  next
    fix d assume "d \<in> {d. valid_date d \<and> a \<le> d \<and> d \<le> b}"
    then have d: "valid_date d" "day_number d \<in> day_number ` set (days_from a b)"
      using assms numbers by (auto simp: day_number_le_iff)
    then obtain e where "e \<in> set (days_from a b)" "day_number e = day_number d" by auto
    then show "d \<in> set (days_in_range a b)"
      using d days_from_valid by (auto simp: days_in_range_def day_number_inject)
  qed
qed

lemma length_days_in_range:
  "valid_date a \<Longrightarrow> valid_date b \<Longrightarrow> length (days_in_range a b) = nat (days_between b a + 1)"
  using arg_cong[OF days_from_numbers[of a b], of length] by (simp add: days_in_range_def days_between_def)

end
