(* ===== verification/Business_Days.thy ===== *)
theory Business_Days
  imports Civil_Days
begin

text \<open>
  \<open>app/utils/business_days.py\<close>: the federal holidays, the days money moves, and the one displacement
  that moves a date off a day it does not.  The searches are loops over the calendar; that they end is
  proved from the holiday set itself: no four consecutive days are closed, in any year.
\<close>

section \<open>The holiday set\<close>

definition MONDAY :: int where "MONDAY = 0"
definition THURSDAY :: int where "THURSDAY = 3"
definition SATURDAY :: int where "SATURDAY = 5"
definition SUNDAY :: int where "SUNDAY = 6"
definition JUNETEENTH_FIRST_YEAR :: int where "JUNETEENTH_FIRST_YEAR = 2021"

definition nth_weekday :: "int \<Rightarrow> int \<Rightarrow> int \<Rightarrow> int \<Rightarrow> date" where
  "nth_weekday year month wd occurrence =
     (let opens = Date year month 1; lead = (wd - weekday opens) mod 7
      in add_days opens (lead + 7 * (occurrence - 1)))"

definition last_weekday :: "int \<Rightarrow> int \<Rightarrow> int \<Rightarrow> date" where
  "last_weekday year month wd =
     (let closes = Date year month (days_in_month year month)
      in add_days closes (- ((weekday closes - wd) mod 7)))"

definition observed :: "date \<Rightarrow> date" where
  "observed day =
     (if weekday day = SATURDAY then add_days day (- 1)
      else if weekday day = SUNDAY then add_days day 1 else day)"

definition statutory_days :: "int \<Rightarrow> date list" where
  "statutory_days year =
     [Date year 1 1, Date year 7 4, Date year 11 11, Date year 12 25] @
     (if JUNETEENTH_FIRST_YEAR \<le> year then [Date year 6 19] else [])"

definition federal_holidays :: "int \<Rightarrow> date set" where
  "federal_holidays year =
     (let spillover = observed (Date (year + 1) 1 1)
      in set ([day \<leftarrow> map observed (statutory_days year). d_year day = year] @
              (if d_year spillover = year then [spillover] else []) @
              [nth_weekday year 1 MONDAY 3, nth_weekday year 2 MONDAY 3, last_weekday year 5 MONDAY,
               nth_weekday year 9 MONDAY 1, nth_weekday year 10 MONDAY 2, nth_weekday year 11 THURSDAY 4]))"

definition is_business_day :: "date \<Rightarrow> bool" where
  "is_business_day day = (weekday day < SATURDAY \<and> day \<notin> federal_holidays (d_year day))"

section \<open>Where the holidays lie\<close>

lemma weekday_range: "0 \<le> weekday d" "weekday d < 7"
  by (simp_all add: weekday_def)

lemma weekday_add: "valid_date d \<Longrightarrow> weekday (add_days d n) = (weekday d + n) mod 7"
  using mod_add_left_eq[of "day_number d + 6" 7 n] by (simp add: weekday_def ac_simps)

lemma valid_Date: "valid_date (Date y m k) \<longleftrightarrow> 1 \<le> m \<and> m \<le> 12 \<and> 1 \<le> k \<and> k \<le> days_in_month y m"
  by (simp add: valid_date_def)

lemma add_days_eqI: "valid_date d \<Longrightarrow> valid_date e \<Longrightarrow> day_number e = day_number d + n \<Longrightarrow> add_days d n = e"
  by (simp add: day_number_inject[symmetric])

lemma add_days_in_month:
  assumes "valid_date (Date y m k)" "1 \<le> k + n" "k + n \<le> days_in_month y m"
  shows "add_days (Date y m k) n = Date y m (k + n)"
  using assms by (intro add_days_eqI) (auto simp: valid_Date day_number_def)

lemma add_days_next_month:
  assumes "valid_date (Date y m k)" "m < 12" "days_in_month y m < k + n"
    and "k + n \<le> days_in_month y m + days_in_month y (m + 1)"
  shows "add_days (Date y m k) n = Date y (m + 1) (k + n - days_in_month y m)"
  using assms days_before_month_step[of m y] by (intro add_days_eqI) (auto simp: valid_Date day_number_def)

lemma first_of_year: "day_number (Date (y + 1) 1 k) = day_number (Date y 12 31) + k"
  using days_before_month_step[of 12 y] days_before_month_13[of y]
  by (simp add: day_number_def days_before_year_step days_in_month_def)

lemma add_days_next_year:
  assumes "valid_date (Date y 12 k)" "31 < k + n" "k + n \<le> 62"
  shows "add_days (Date y 12 k) n = Date (y + 1) 1 (k + n - 31)"
proof (rule add_days_eqI)
  show "day_number (Date (y + 1) 1 (k + n - 31)) = day_number (Date y 12 k) + n"
    using first_of_year[of y "k + n - 31"] by (simp add: day_number_def)
qed (use assms in \<open>auto simp: valid_Date days_in_month_def\<close>)

text \<open>A weekday of a month, by its rule.\<close>

lemma mod7_lead:
  fixes w wd j :: int
  assumes "0 \<le> wd" "wd < 7"
  shows "(w + ((wd - w) mod 7 + 7 * j)) mod 7 = wd" "(w + - ((w - wd) mod 7)) mod 7 = wd"
proof -
  have "(w + ((wd - w) mod 7 + 7 * j)) mod 7 = (w + (wd - w) mod 7) mod 7"
    unfolding add.assoc[symmetric] by (rule mod_mult_self2)
  also have "\<dots> = (w + (wd - w)) mod 7" by (rule mod_add_right_eq)
  finally show "(w + ((wd - w) mod 7 + 7 * j)) mod 7 = wd" using assms by simp
  have "(w - (w - wd) mod 7) mod 7 = (w - (w - wd)) mod 7" by (rule mod_diff_right_eq)
  then show "(w + - ((w - wd) mod 7)) mod 7 = wd" using assms by simp
qed

lemma nth_weekday_is:
  assumes "1 \<le> m" "m \<le> 12" "1 \<le> n" "n \<le> 4" "0 \<le> wd" "wd < 7"
  shows "\<exists>k. nth_weekday y m wd n = Date y m k \<and> 7 * (n - 1) + 1 \<le> k \<and> k \<le> 7 * n \<and> weekday (Date y m k) = wd"
proof -
  let ?o = "Date y m 1" and ?lead = "(wd - weekday (Date y m 1)) mod 7"
  have v: "valid_date ?o" using assms days_in_month_bounds[of y m] by (simp add: valid_Date)
  have l: "0 \<le> ?lead" "?lead < 7" by simp_all
  have e: "nth_weekday y m wd n = Date y m (1 + (?lead + 7 * (n - 1)))"
    unfolding nth_weekday_def Let_def
    using v l assms days_in_month_bounds[of y m] by (intro add_days_in_month) auto
  have "weekday (nth_weekday y m wd n) = (weekday ?o + (?lead + 7 * (n - 1))) mod 7"
    unfolding nth_weekday_def Let_def by (rule weekday_add[OF v])
  also have "\<dots> = wd" using assms(5,6) by (rule mod7_lead)
  finally have "weekday (Date y m (1 + (?lead + 7 * (n - 1)))) = wd" unfolding e .
  then show ?thesis unfolding e using l by (intro exI conjI) auto
qed

lemma last_weekday_is:
  assumes "1 \<le> m" "m \<le> 12" "0 \<le> wd" "wd < 7"
  shows "\<exists>k. last_weekday y m wd = Date y m k \<and> days_in_month y m - 7 < k \<and> k \<le> days_in_month y m \<and>
    weekday (Date y m k) = wd"
proof -
  let ?e = "days_in_month y m" let ?c = "Date y m ?e" let ?lead = "(weekday ?c - wd) mod 7"
  have v: "valid_date ?c" using assms days_in_month_bounds[of y m] by (simp add: valid_Date)
  have l: "0 \<le> ?lead" "?lead < 7" by simp_all
  have e: "last_weekday y m wd = Date y m (?e + - ?lead)"
    unfolding last_weekday_def Let_def
    using v l assms days_in_month_bounds[of y m] by (intro add_days_in_month) auto
  have "weekday (last_weekday y m wd) = (weekday ?c + - ?lead) mod 7"
    unfolding last_weekday_def Let_def by (rule weekday_add[OF v])
  also have "\<dots> = wd" using assms(3,4) by (rule mod7_lead)
  finally have "weekday (Date y m (?e + - ?lead)) = wd" unfolding e .
  then show ?thesis unfolding e using l by (intro exI conjI) auto
qed
section \<open>No long closed run\<close>

text \<open>
  Every holiday lies in one of twelve short spans of its year, and a span holds one: a fixed date's
  observance, or the one day of its weekday.  The spans are more than three days apart.
\<close>

lemma observed_near:
  assumes "valid_date (Date y m k)" "1 < k" "k < days_in_month y m"
  shows "\<exists>j. observed (Date y m k) = Date y m j \<and> k - 1 \<le> j \<and> j \<le> k + 1"
  using assms by (auto simp: observed_def add_days_in_month)

lemma new_years_eve: "add_days (Date y 1 1) (- 1) = Date (y - 1) 12 31"
  using first_of_year[of "y - 1" 1] by (intro add_days_eqI) (simp_all add: valid_Date days_in_month_def)

lemma observed_new_year: "observed (Date y 1 1) \<in> {Date (y - 1) 12 31, Date y 1 1, Date y 1 2}"
proof -
  have "add_days (Date y 1 1) 1 = Date y 1 2"
    by (subst add_days_in_month) (simp_all add: valid_Date days_in_month_def)
  then show ?thesis by (simp add: observed_def new_years_eve)
qed

text \<open>A span: its month, its first and last day, and the observance or the weekday of its holiday.\<close>

type_synonym span = "int \<times> int \<times> int \<times> (date + int)"

fun in_span :: "int \<Rightarrow> date \<Rightarrow> span \<Rightarrow> bool" where
  "in_span y h (m, a, b, rule) \<longleftrightarrow>
     d_year h = y \<and> d_month h = m \<and> a \<le> d_day h \<and> d_day h \<le> b \<and>
     (case rule of Inl d \<Rightarrow> h = observed d | Inr wd \<Rightarrow> weekday h = wd)"

abbreviation fixed_span :: "int \<Rightarrow> int \<Rightarrow> int \<Rightarrow> span" where
  "fixed_span y m k \<equiv> (m, k - 1, k + 1, Inl (Date y m k))"

abbreviation weekday_span :: "int \<Rightarrow> int \<Rightarrow> int \<Rightarrow> span" where
  "weekday_span m a wd \<equiv> (m, a, a + 6, Inr wd)"

definition holiday_spans :: "int \<Rightarrow> span list" where
  "holiday_spans y =
     [(1, 1, 2, Inl (Date y 1 1)), fixed_span y 6 19, fixed_span y 7 4, fixed_span y 11 11, fixed_span y 12 25,
      (12, 31, 31, Inl (Date (y + 1) 1 1)),
      weekday_span 1 15 0, weekday_span 2 15 0, weekday_span 5 25 0, weekday_span 9 1 0,
      weekday_span 10 8 0, weekday_span 11 22 3]"

lemma fixed_spanI:
  assumes "1 \<le> m" "m \<le> 12" "1 < k" "k < 28"
  shows "in_span y (observed (Date y m k)) (fixed_span y m k)"
proof -
  have "valid_date (Date y m k)" "k < days_in_month y m"
    using assms days_in_month_bounds[of y m] by (auto simp: valid_Date)
  then show ?thesis using observed_near[of y m k] assms by auto
qed

lemma weekday_spanI:
  assumes "1 \<le> m" "m \<le> 12" "1 \<le> n" "n \<le> 4" "0 \<le> wd" "wd < 7"
  shows "in_span y (nth_weekday y m wd n) (weekday_span m (7 * (n - 1) + 1) wd)"
  using nth_weekday_is[OF assms, of y] by auto

lemma federal_holidays_spans:
  assumes "h \<in> federal_holidays y"
  shows "list_ex (in_span y h) (holiday_spans y)"
proof -
  have memorial: "in_span y (last_weekday y 5 MONDAY) (weekday_span 5 25 0)"
    using last_weekday_is[of 5 0 y] by (auto simp: MONDAY_def days_in_month_def)
  have fixed: "list_ex (in_span y (observed (Date y m k))) (holiday_spans y)"
    if "(m, k) \<in> {(6, 19), (7, 4), (11, 11), (12, 25)}" for m k
  proof -
    have "in_span y (observed (Date y m k)) (fixed_span y m k)" using that by (intro fixed_spanI) auto
    moreover have "fixed_span y m k \<in> set (holiday_spans y)" using that by (auto simp: holiday_spans_def)
    ultimately show ?thesis unfolding list_ex_iff by blast
  qed
  have new_year: "list_ex (in_span y (observed (Date y 1 1))) (holiday_spans y)" if "d_year (observed (Date y 1 1)) = y"
  proof -
    have "in_span y (observed (Date y 1 1)) (1, 1, 2, Inl (Date y 1 1))"
      using that observed_new_year[of y] by auto
    then show ?thesis by (simp add: holiday_spans_def)
  qed
  have statutory: "list_ex (in_span y (observed d)) (holiday_spans y)"
    if "d \<in> set (statutory_days y)" "d_year (observed d) = y" for d
  proof -
    note d = that
    consider "d = Date y 1 1" | m k where "d = Date y m k" "(m, k) \<in> {(6, 19), (7, 4), (11, 11), (12, 25)}"
      using d(1) by (auto simp: statutory_days_def split: if_splits)
    then show ?thesis
    proof cases
      case 1
      then show ?thesis using new_year d(2) by simp
    next
      case 2
      then show ?thesis using fixed[of m k] by simp
    qed
  qed
  have spill: "list_ex (in_span y (observed (Date (y + 1) 1 1))) (holiday_spans y)"
    if "d_year (observed (Date (y + 1) 1 1)) = y"
  proof -
    have "in_span y (observed (Date (y + 1) 1 1)) (12, 31, 31, Inl (Date (y + 1) 1 1))"
      using that observed_new_year[of "y + 1"] by auto
    then show ?thesis by (simp add: holiday_spans_def)
  qed
  have floating: "list_ex (in_span y h) (holiday_spans y)"
    if "h \<in> {nth_weekday y 1 MONDAY 3, nth_weekday y 2 MONDAY 3, last_weekday y 5 MONDAY,
      nth_weekday y 9 MONDAY 1, nth_weekday y 10 MONDAY 2, nth_weekday y 11 THURSDAY 4}"
  proof -
    have "in_span y (nth_weekday y 1 MONDAY 3) (weekday_span 1 15 0)" "in_span y (nth_weekday y 2 MONDAY 3) (weekday_span 2 15 0)"
      "in_span y (nth_weekday y 9 MONDAY 1) (weekday_span 9 1 0)" "in_span y (nth_weekday y 10 MONDAY 2) (weekday_span 10 8 0)"
      "in_span y (nth_weekday y 11 THURSDAY 4) (weekday_span 11 22 3)"
      using weekday_spanI[of 1 3 0 y] weekday_spanI[of 2 3 0 y] weekday_spanI[of 9 1 0 y]
        weekday_spanI[of 10 2 0 y] weekday_spanI[of 11 4 3 y] by (simp_all add: MONDAY_def THURSDAY_def)
    then show ?thesis using that memorial unfolding holiday_spans_def by fastforce
  qed
  consider d where "h = observed d" "d \<in> set (statutory_days y)" "d_year (observed d) = y"
    | "h = observed (Date (y + 1) 1 1)" "d_year (observed (Date (y + 1) 1 1)) = y"
    | "h \<in> {nth_weekday y 1 MONDAY 3, nth_weekday y 2 MONDAY 3, last_weekday y 5 MONDAY,
        nth_weekday y 9 MONDAY 1, nth_weekday y 10 MONDAY 2, nth_weekday y 11 THURSDAY 4}"
    using assms unfolding federal_holidays_def Let_def set_append set_filter
    by (auto split: if_splits)
  then show ?thesis
  proof cases
    case 1
    then show ?thesis using statutory by simp
  next
    case 2
    then show ?thesis using spill by simp
  qed (rule floating)
qed
lemma add_days_three:
  assumes "valid_date h" "1 \<le> n" "n \<le> 3"
  shows "d_year (add_days h n) = d_year h \<and> d_month (add_days h n) = d_month h \<and> d_day (add_days h n) = d_day h + n \<or>
    d_year (add_days h n) = d_year h \<and> d_month (add_days h n) = d_month h + 1 \<and>
      d_day (add_days h n) = d_day h + n - days_in_month (d_year h) (d_month h) \<and> d_day (add_days h n) \<le> 3 \<or>
    d_month h = 12 \<and> d_year (add_days h n) = d_year h + 1 \<and> d_month (add_days h n) = 1 \<and>
      d_day (add_days h n) = d_day h + n - 31"
proof -
  obtain y m k where h: "h = Date y m k" by (cases h)
  show ?thesis
  proof (cases "k + n \<le> days_in_month y m")
    case True
    then show ?thesis using assms unfolding h by (subst (1 2 3) add_days_in_month) (auto simp: valid_Date)
  next
    case False
    have k: "valid_date (Date y m k)" "k \<le> days_in_month y m" using assms(1) by (simp_all add: h valid_Date)
    have "add_days h n = Date y (m + 1) (k + n - days_in_month y m)" if "m < 12"
      unfolding h using k that assms(2,3) False days_in_month_bounds[of y "m + 1"]
      by (intro add_days_next_month) auto
    moreover have "add_days h n = Date (y + 1) 1 (k + n - 31)" if "m = 12"
      unfolding h that using k that assms(2,3) False
      by (intro add_days_next_year) (auto simp: days_in_month_def)
    ultimately show ?thesis using assms False unfolding h by (cases "m = 12") (auto simp: valid_Date)
  qed
qed

lemma spans_apart:
  assumes "list_ex (in_span y h) (holiday_spans y)" "list_ex (in_span y h') (holiday_spans y)"
    and "d_month h = d_month h'" "d_day h < d_day h'" "d_day h' \<le> d_day h + 3"
  shows "weekday h = weekday h'"
  using assms by (auto simp: holiday_spans_def)

lemma holidays_apart:
  assumes "valid_date h" "h \<in> federal_holidays (d_year h)" "1 \<le> n" "n \<le> 3"
  shows "add_days h n \<notin> federal_holidays (d_year (add_days h n))"
proof
  let ?h = "add_days h n"
  assume "?h \<in> federal_holidays (d_year ?h)"
  then have Q: "list_ex (in_span (d_year ?h) ?h) (holiday_spans (d_year ?h))" by (rule federal_holidays_spans)
  have P: "list_ex (in_span (d_year h) h) (holiday_spans (d_year h))" using assms(2) by (rule federal_holidays_spans)
  have "?h \<noteq> h" using day_number_add_days[OF assms(1), of n] assms(3) by auto
  have w: "weekday ?h \<noteq> weekday h"
  proof
    assume "weekday ?h = weekday h"
    then have "(day_number h + 6 + n) mod 7 = (day_number h + 6) mod 7"
      using assms(1) by (simp add: weekday_def ac_simps)
    then have "7 dvd n" by (simp add: mod_eq_dvd_iff)
    then show False using assms(3,4) zdvd_imp_le[of 7 n] by simp
  qed
  from add_days_three[OF assms(1,3,4)] consider
      "d_year ?h = d_year h" "d_month ?h = d_month h" "d_day ?h = d_day h + n"
    | "d_year ?h = d_year h" "d_month ?h = d_month h + 1" "d_day ?h \<le> 3"
        "d_day ?h = d_day h + n - days_in_month (d_year h) (d_month h)"
    | "d_month h = 12" "d_year ?h = d_year h + 1" "d_month ?h = 1" "d_day ?h = d_day h + n - 31"
    by blast
  then show False
  proof cases
    case 1
    then show False using spans_apart[of "d_year h" h ?h] P Q w assms(3,4) by auto
  next
    case 2
    then show False using P Q assms(4) by (auto simp: holiday_spans_def days_in_month_def)
  next
    case 3
    then show False using P Q \<open>?h \<noteq> h\<close> assms(3,4) by (auto simp: holiday_spans_def)
  qed
qed
text \<open>Of four consecutive days at most one is a holiday and at most two a weekend, so one is open.\<close>

lemma one_of_four_open:
  assumes "valid_date d"
  shows "\<exists>k \<in> {0, 1, 2, 3}. is_business_day (add_days d k)"
proof (rule ccontr)
  assume "\<not> ?thesis"
  then have closed: "5 \<le> (weekday d + k) mod 7 \<or> add_days d k \<in> federal_holidays (d_year (add_days d k))"
    if "k \<in> {0, 1, 2, 3}" for k
    using that weekday_add[OF assms, of k] by (auto simp: is_business_day_def SATURDAY_def)
  have apart: "add_days d j \<notin> federal_holidays (d_year (add_days d j))"
    if "add_days d i \<in> federal_holidays (d_year (add_days d i))" "i < j" "j \<le> i + 3" for i j
    using holidays_apart[of "add_days d i" "j - i"] that assms by (simp add: add_days_add)
  have "weekday d \<in> {0, 1, 2, 3, 4, 5, 6}" using weekday_range[of d] by auto
  then have weekend: "\<not> (5 \<le> (weekday d + i) mod 7 \<and> 5 \<le> (weekday d + j) mod 7 \<and> 5 \<le> (weekday d + l) mod 7)"
    if "(i, j, l) \<in> {(0, 1, 2), (0, 1, 3), (0, 2, 3), (1, 2, 3)}" for i j l
    using that by (elim insertE) simp_all
  show False
    using closed[of 0] closed[of 1] closed[of 2] closed[of 3] apart[of 0 1] apart[of 0 2] apart[of 0 3]
      apart[of 1 2] apart[of 1 3] apart[of 2 3] weekend[of 0 1 2] weekend[of 0 1 3] weekend[of 0 2 3] weekend[of 1 2 3]
    by auto
qed

section \<open>The displacement\<close>

datatype business_day_shift = No_Shift | Prior_Day | Next_Day

text \<open>
  The loop of the source.  Its guard also asks for a calendar date and a step of one day either way,
  which are all it is called with, so that it is known to end.\<close>

definition open_distance :: "int \<Rightarrow> date \<Rightarrow> nat" where
  "open_distance step d = (LEAST n. is_business_day (add_days d (step * int n)))"

lemma open_distance_ex:
  assumes "valid_date d" "step = 1 \<or> step = - 1"
  shows "\<exists>n \<le> 3. is_business_day (add_days d (step * int n))"
  using assms(2)
proof
  assume [simp]: "step = 1"
  obtain k where "k \<in> {0, 1, 2, 3}" "is_business_day (add_days d k)" using one_of_four_open[OF assms(1)] by blast
  then show ?thesis by (intro exI[of _ "nat k"]) auto
next
  assume [simp]: "step = - 1"
  obtain k where "k \<in> {0, 1, 2, 3}" "is_business_day (add_days (add_days d (- 3)) k)"
    using one_of_four_open[OF valid_add_days[OF assms(1)]] by blast
  then show ?thesis using assms(1) by (intro exI[of _ "nat (3 - k)"]) (auto simp: add_days_add)
qed

lemma open_distance_step:
  assumes "valid_date d" "step = 1 \<or> step = - 1" "\<not> is_business_day d"
  shows "open_distance step (add_days d step) < open_distance step d"
proof -
  have "is_business_day (add_days d (step * int (open_distance step d)))"
    unfolding open_distance_def using open_distance_ex[OF assms(1,2)] by (metis (mono_tags, lifting) LeastI_ex)
  moreover from this have "open_distance step d \<noteq> 0" using assms(3) by (metis add_days_0 mult_zero_right of_nat_0)
  ultimately have "is_business_day (add_days (add_days d step) (step * int (open_distance step d - 1)))"
    using assms(1) by (simp add: add_days_add algebra_simps)
  then have "open_distance step (add_days d step) \<le> open_distance step d - 1"
    unfolding open_distance_def[of step "add_days d step"] by (rule Least_le)
  then show ?thesis using \<open>open_distance step d \<noteq> 0\<close> by simp
qed

function landing_day :: "int \<Rightarrow> date \<Rightarrow> date" where
  "landing_day step landing =
     (if valid_date landing \<and> (step = 1 \<or> step = - 1) \<and> \<not> is_business_day landing
      then landing_day step (add_days landing step) else landing)"
  by pat_completeness auto
termination
  by (relation "measure (\<lambda>(step, d). open_distance step d)") (simp_all add: open_distance_step)

declare landing_day.simps [simp del]

definition shift_to_business_day :: "date \<Rightarrow> business_day_shift \<Rightarrow> date" where
  "shift_to_business_day day shift =
     (if shift = No_Shift \<or> is_business_day day then day
      else let step = (if shift = Prior_Day then - 1 else 1) in landing_day step (add_days day step))"

lemma landing_day_run:
  assumes "valid_date d" "step = 1 \<or> step = - 1"
  shows "\<exists>n. landing_day step d = add_days d (step * int n) \<and> is_business_day (landing_day step d) \<and>
    (\<forall>j < n. \<not> is_business_day (add_days d (step * int j)))"
  using assms
proof (induction step d rule: landing_day.induct)
  case (1 step d)
  show ?case
  proof (cases "is_business_day d")
    case True
    then show ?thesis by (intro exI[of _ 0]) (simp add: landing_day.simps[of step d])
  next
    case False
    then obtain n where n: "landing_day step (add_days d step) = add_days (add_days d step) (step * int n)"
      "is_business_day (landing_day step (add_days d step))"
      "\<forall>j < n. \<not> is_business_day (add_days (add_days d step) (step * int j))"
      using 1 by auto
    have "\<not> is_business_day (add_days d (step * int j))" if "j < Suc n" for j
      using that False n(3) 1(2) by (cases j) (auto simp: add_days_add algebra_simps)
    then show ?thesis using False n(1,2) 1(2,3)
      by (intro exI[of _ "Suc n"]) (auto simp: landing_day.simps[of step d] add_days_add algebra_simps)
  qed
qed
section \<open>Evaluation\<close>

lemma days_before_months:
  "days_before_month y 2 = 31"
  "days_before_month y 3 = (if is_leap y then 60 else 59)"
  "days_before_month y 4 = (if is_leap y then 91 else 90)"
  "days_before_month y 5 = (if is_leap y then 121 else 120)"
  "days_before_month y 6 = (if is_leap y then 152 else 151)"
  "days_before_month y 7 = (if is_leap y then 182 else 181)"
  "days_before_month y 8 = (if is_leap y then 213 else 212)"
  "days_before_month y 9 = (if is_leap y then 244 else 243)"
  "days_before_month y 10 = (if is_leap y then 274 else 273)"
  "days_before_month y 11 = (if is_leap y then 305 else 304)"
  "days_before_month y 12 = (if is_leap y then 335 else 334)"
  by (simp_all add: days_before_month_def days_in_month_def upto.simps)

lemmas evaluate_day = weekday_def day_number_def days_before_year_def days_before_months days_in_month_def
  is_leap_def valid_Date add_days_in_month add_days_next_month add_days_next_year new_years_eve

lemmas evaluate_open = is_business_day_def federal_holidays_def statutory_days_def observed_def nth_weekday_def
  last_weekday_def MONDAY_def THURSDAY_def SATURDAY_def SUNDAY_def JUNETEENTH_FIRST_YEAR_def Let_def evaluate_day

lemma new_year_2026: "is_business_day (Date 2025 12 31)" "\<not> is_business_day (Date 2026 1 1)"
  by (simp_all add: evaluate_open)

lemma closed_weekend_2000:
  "\<not> is_business_day (Date 2000 1 15)" "\<not> is_business_day (Date 2000 1 16)" "\<not> is_business_day (Date 2000 1 17)"
  by (simp_all add: evaluate_open)
section \<open>What a displacement promises\<close>

text \<open>
  All a pay calendar asks of the displacement: it keeps the order of days, moves a day one way only, and
  no further than its reach.  Two days further apart than the reach then stay apart.\<close>

locale displacement =
  fixes move :: "date \<Rightarrow> date" and reach :: int
  assumes move_valid: "valid_date d \<Longrightarrow> valid_date (move d)"
    and move_mono: "valid_date d \<Longrightarrow> valid_date e \<Longrightarrow> d \<le> e \<Longrightarrow> move d \<le> move e"
    and move_near: "valid_date d \<Longrightarrow> \<bar>days_between (move d) d\<bar> \<le> reach"
    and move_one_way: "(\<forall>d. valid_date d \<longrightarrow> d \<le> move d) \<or> (\<forall>d. valid_date d \<longrightarrow> move d \<le> d)"
begin

lemma move_apart:
  assumes "valid_date d" "valid_date e" "reach < days_between e d"
  shows "move d < move e"
proof -
  have v: "valid_date (move d)" "valid_date (move e)" using move_valid assms by blast+
  have near: "\<bar>days_between (move d) d\<bar> \<le> reach" "\<bar>days_between (move e) e\<bar> \<le> reach"
    using move_near assms(1,2) by blast+
  from move_one_way have "day_number (move d) < day_number (move e)"
  proof
    assume "\<forall>d. valid_date d \<longrightarrow> d \<le> move d"
    then have "day_number e \<le> day_number (move e)" using assms(2) v day_number_le_iff by blast
    then show ?thesis using near assms(3) by (simp add: days_between_def)
  next
    assume "\<forall>d. valid_date d \<longrightarrow> move d \<le> d"
    then have "day_number (move d) \<le> day_number d" using assms(1) v day_number_le_iff by blast
    then show ?thesis using near assms(3) by (simp add: days_between_def)
  qed
  then show ?thesis using v by (simp add: day_number_less_iff)
qed

end

subsection \<open>The nearest open day\<close>

lemma shift_is_landing:
  assumes "valid_date d"
  shows "shift_to_business_day d shift =
    (if shift = No_Shift then d else landing_day (if shift = Prior_Day then - 1 else 1) d)"
  using assms by (cases shift) (simp_all add: shift_to_business_day_def Let_def landing_day.simps[of _ d])

lemma landing_day_nearest:
  assumes "valid_date d" "step = 1 \<or> step = - 1"
  shows "valid_date (landing_day step d)" "is_business_day (landing_day step d)"
    "0 \<le> step * days_between (landing_day step d) d" "step * days_between (landing_day step d) d \<le> 3"
    "valid_date x \<Longrightarrow> 0 \<le> step * days_between x d \<Longrightarrow> step * days_between x (landing_day step d) < 0 \<Longrightarrow>
      \<not> is_business_day x"
proof -
  obtain n where n: "landing_day step d = add_days d (step * int n)" "is_business_day (landing_day step d)"
    "\<forall>j < n. \<not> is_business_day (add_days d (step * int j))"
    using landing_day_run[OF assms] by blast
  obtain k where k: "k \<le> 3" "is_business_day (add_days d (step * int k))"
    using open_distance_ex[OF assms] by blast
  have "n \<le> 3" using n(3) k by (meson not_le order_trans)
  have sq: "step * (step * x) = x" for x using assms(2) by auto
  show "valid_date (landing_day step d)" "is_business_day (landing_day step d)"
    using n(1,2) assms(1) by simp_all
  show "0 \<le> step * days_between (landing_day step d) d" "step * days_between (landing_day step d) d \<le> 3"
    using \<open>n \<le> 3\<close> assms(1) by (simp_all add: n(1) days_between_def sq)
  assume x: "valid_date x" "0 \<le> step * days_between x d" "step * days_between x (landing_day step d) < 0"
  define j where "j = nat (step * days_between x d)"
  have "step * int j = days_between x d" using x(2) by (simp add: j_def sq)
  then have "x = add_days d (step * int j)"
    using x(1) assms(1) by (simp add: day_number_inject[symmetric] days_between_def)
  moreover have "j < n"
    using x(2,3) assms(1) by (simp add: j_def n(1) days_between_def right_diff_distrib distrib_left sq)
  ultimately show "\<not> is_business_day x" using n(3) by simp
qed
lemma shift_mono:
  assumes "valid_date d" "valid_date e" "d \<le> e"
  shows "shift_to_business_day d s \<le> shift_to_business_day e s"
proof (cases "s = No_Shift")
  case True
  then show ?thesis using assms by (simp add: shift_is_landing)
next
  case False
  define step :: int where "step = (if s = Prior_Day then - 1 else 1)"
  let ?p = "landing_day step d" and ?q = "landing_day step e"
  have step: "step = 1 \<or> step = - 1" by (simp add: step_def)
  note p = landing_day_nearest[OF assms(1) step] and q = landing_day_nearest[OF assms(2) step]
  have "day_number d \<le> day_number e" using assms by (simp add: day_number_le_iff)
  then have "\<not> day_number ?q < day_number ?p"
    using p(5)[OF q(1)] q(5)[OF p(1)] p(2,3) q(2,3) step by (auto simp: days_between_def)
  then show ?thesis
    using p(1) q(1) False by (simp add: shift_is_landing assms day_number_le_iff step_def)
qed

interpretation shifted: displacement "\<lambda>d. shift_to_business_day d s" 3 for s
proof
  fix d assume d: "valid_date d"
  show "valid_date (shift_to_business_day d s)"
    using d landing_day_nearest(1)[OF d] by (simp add: shift_is_landing)
  show "\<bar>days_between (shift_to_business_day d s) d\<bar> \<le> 3"
    using landing_day_nearest(3,4)[OF d, of 1] landing_day_nearest(3,4)[OF d, of "- 1"]
    by (auto simp: shift_is_landing d) (simp add: days_between_def)
next
  have "day_number d \<le> day_number (landing_day 1 d)" "day_number (landing_day (- 1) d) \<le> day_number d" if "valid_date d" for d
    using landing_day_nearest(3)[OF that, of 1] landing_day_nearest(3)[OF that, of "- 1"] by (simp_all add: days_between_def)
  then show "(\<forall>d. valid_date d \<longrightarrow> d \<le> shift_to_business_day d s) \<or> (\<forall>d. valid_date d \<longrightarrow> shift_to_business_day d s \<le> d)"
    using landing_day_nearest(1) by (cases s) (auto simp: shift_is_landing day_number_le_iff)
qed (rule shift_mono)

text \<open>
  C34: the displacement ends, at most three days away, and answers the nearest open day in the
  convention's direction: an open day stays (and so does every day under the convention that moves
  nothing), the answer is open, every day passed on the way is closed, moving it again changes nothing,
  and the order of days is kept.\<close>

theorem shift_lands_on_nearest_open_day:
  assumes "valid_date d" "valid_date e"
  shows "(s = No_Shift \<or> is_business_day d \<longrightarrow> shift_to_business_day d s = d) \<and>
    \<bar>days_between (shift_to_business_day d s) d\<bar> \<le> 3 \<and>
    (s \<noteq> No_Shift \<longrightarrow> is_business_day (shift_to_business_day d s)) \<and>
    (s = Next_Day \<longrightarrow> d \<le> shift_to_business_day d s \<and>
       (\<forall>x. valid_date x \<and> d \<le> x \<and> x < shift_to_business_day d s \<longrightarrow> \<not> is_business_day x)) \<and>
    (s = Prior_Day \<longrightarrow> shift_to_business_day d s \<le> d \<and>
       (\<forall>x. valid_date x \<and> shift_to_business_day d s < x \<and> x \<le> d \<longrightarrow> \<not> is_business_day x)) \<and>
    shift_to_business_day (shift_to_business_day d s) s = shift_to_business_day d s \<and>
    (d \<le> e \<longrightarrow> shift_to_business_day d s \<le> shift_to_business_day e s)"
proof -
  note up = landing_day_nearest[OF assms(1), of 1] and down = landing_day_nearest[OF assms(1), of "- 1"]
  have stays: "s = No_Shift \<or> is_business_day x \<Longrightarrow> shift_to_business_day x s = x" for x
    by (auto simp: shift_to_business_day_def)
  have opens: "s \<noteq> No_Shift \<Longrightarrow> is_business_day (shift_to_business_day d s)"
    using up(2) down(2) by (simp add: shift_is_landing assms(1))
  have after: "d \<le> shift_to_business_day d s \<and>
      (\<forall>x. valid_date x \<and> d \<le> x \<and> x < shift_to_business_day d s \<longrightarrow> \<not> is_business_day x)" if "s = Next_Day"
    using up(1,3,5) that assms(1) by (auto simp: shift_is_landing days_between_def day_number_le_iff day_number_less_iff)
  have prior: "shift_to_business_day d s \<le> d \<and>
      (\<forall>x. valid_date x \<and> shift_to_business_day d s < x \<and> x \<le> d \<longrightarrow> \<not> is_business_day x)" if "s = Prior_Day"
    using down(1,3,5) that assms(1) by (auto simp: shift_is_landing days_between_def day_number_le_iff day_number_less_iff)
  show ?thesis
    using stays[of d] stays[of "shift_to_business_day d s"] opens after prior shifted.move_near[OF assms(1)]
      shift_mono[OF assms] by blast
qed

lemma shift_lands_on_nearest_open_day_witness:
  "shift_to_business_day (Date 2026 1 1) Prior_Day = Date 2025 12 31 \<and>
   shift_to_business_day (Date 2025 12 31) Prior_Day = Date 2025 12 31"
proof -
  have v: "valid_date (Date 2025 12 31)" "valid_date (Date 2026 1 1)" by (simp_all add: valid_Date days_in_month_def)
  have n: "day_number (Date 2026 1 1) = day_number (Date 2025 12 31) + 1" using first_of_year[of 2025 1] by simp
  let ?p = "shift_to_business_day (Date 2026 1 1) Prior_Day"
  note p = shift_lands_on_nearest_open_day[OF v(2,1), of Prior_Day]
  have "valid_date ?p" by (rule shifted.move_valid[OF v(2)])
  moreover have "?p \<le> Date 2026 1 1" "?p \<noteq> Date 2026 1 1" using p new_year_2026(2) by auto
  moreover have "\<not> ?p < Date 2025 12 31" using p v new_year_2026(1) by (auto simp: less_eq_date_def)
  ultimately have "?p = Date 2025 12 31"
    using n v by (simp add: day_number_le_iff day_number_less_iff day_number_inject[symmetric])
  then show ?thesis
    using shift_lands_on_nearest_open_day[OF v, of Prior_Day] new_year_2026(1) by simp
qed
section \<open>The shortest cadence without a collision\<close>

fun longest_closed_run :: "date list \<Rightarrow> int \<Rightarrow> int \<Rightarrow> int" where
  "longest_closed_run [] run longest = longest"
| "longest_closed_run (day # days) run longest =
     (let run' = if is_business_day day then 0 else run + 1
      in longest_closed_run days run' (max longest run'))"

definition shortest_collision_free_cadence :: int where
  "shortest_collision_free_cadence =
     longest_closed_run (days_in_range CALENDAR_DATE_MIN CALENDAR_DATE_MAX) 0 0 + 1"

lemma longest_closed_run_ge: "longest \<le> longest_closed_run days run longest"
proof (induction days arbitrary: run longest)
  case (Cons day days)
  show ?case by (simp add: Let_def) (metis Cons.IH max.cobounded1 order_trans)
qed simp

lemma longest_closed_run_append:
  "0 \<le> run \<Longrightarrow> \<exists>run' longest'. longest_closed_run (xs @ ys) run longest = longest_closed_run ys run' longest' \<and> 0 \<le> run'"
proof (induction xs arbitrary: run longest)
  case (Cons x xs)
  have "0 \<le> (if is_business_day x then 0 else run + 1)" using Cons.prems by simp
  then show ?case using Cons.IH by (simp add: Let_def)
qed auto

lemma longest_closed_run_le:
  assumes "valid_date d" "0 \<le> run" "\<forall>i. 1 \<le> i \<and> i \<le> run \<longrightarrow> \<not> is_business_day (add_days d (- i))" "longest \<le> 3"
  shows "longest_closed_run (days_from d l) run longest \<le> 3"
  using assms
proof (induction d l arbitrary: run longest rule: days_from.induct)
  case (1 d l)
  define run' where "run' = (if is_business_day d then 0 else run + 1)"
  have before: "add_days (next_day d) (- i) = add_days d (1 - i)" for i
    using 1(2) by (simp add: day_number_inject[symmetric] valid_next_day day_number_next)
  have closed: "\<not> is_business_day (add_days (next_day d) (- i))" if "1 \<le> i" "i \<le> run'" for i
    using that 1(4)[rule_format, of "i - 1"] by (cases "i = 1") (auto simp: before run'_def split: if_splits)
  have "run' \<le> 3"
  proof (rule ccontr)
    assume "\<not> run' \<le> 3"
    then have "\<not> is_business_day (add_days (add_days (next_day d) (- 4)) k)" if "k \<in> {0, 1, 2, 3}" for k
      using closed[of "4 - k"] that 1(2) by (auto simp: add_days_add valid_next_day)
    then show False using one_of_four_open[of "add_days (next_day d) (- 4)"] 1(2) by (auto simp: valid_next_day)
  qed
  then show ?case
    using 1(1)[OF _ valid_next_day[OF 1(2)], of run' "max longest run'"] closed 1(2,3,5)
    by (simp add: days_from.simps[of d l] Let_def flip: run'_def) (simp add: run'_def)
qed

lemma days_from_split:
  "valid_date a \<Longrightarrow> valid_date b \<Longrightarrow> valid_date l \<Longrightarrow> a \<le> b \<Longrightarrow> b \<le> l \<Longrightarrow>
    \<exists>xs. days_from a l = xs @ days_from b l"
proof (induction a l rule: days_from.induct)
  case (1 a l)
  show ?case
  proof (cases "a = b")
    case False
    then have "next_day a \<le> b" using 1(2,3,5)
      by (auto simp: day_number_le_iff valid_next_day day_number_next day_number_inject[symmetric])
    moreover have "a \<le> l" using 1(5,6) by simp
    ultimately obtain xs where "days_from (next_day a) l = xs @ days_from b l"
      using 1(1)[OF _ valid_next_day] 1(2-6) by auto
    then show ?thesis using 1(2,4) \<open>a \<le> l\<close> by (intro exI[of _ "a # xs"]) (simp add: days_from.simps[of a l])
  qed auto
qed

lemma shortest_cadence_4: "shortest_collision_free_cadence = 4"
proof -
  let ?l = CALENDAR_DATE_MAX and ?d = "Date 2000 1 15"
  have v: "valid_date ?l" "valid_date CALENDAR_DATE_MIN" "CALENDAR_DATE_MIN \<le> ?d" "Date 2000 1 17 \<le> ?l"
    "Date 2000 1 15 \<le> ?l" "Date 2000 1 16 \<le> ?l"
    by (simp_all add: CALENDAR_DATE_MAX_def CALENDAR_DATE_MIN_def valid_Date days_in_month_def less_eq_date_def)
  have d: "valid_date (Date 2000 1 15)" "valid_date (Date 2000 1 16)" "valid_date (Date 2000 1 17)"
    "next_day (Date 2000 1 15) = Date 2000 1 16" "next_day (Date 2000 1 16) = Date 2000 1 17"
    by (simp_all add: valid_Date days_in_month_def next_day_def)
  obtain xs where xs: "days_from CALENDAR_DATE_MIN ?l = xs @ days_from ?d ?l"
    using days_from_split[OF v(2) d(1) v(1,3,5)] by blast
  then obtain run longest where "longest_closed_run (days_from CALENDAR_DATE_MIN ?l) 0 0 = longest_closed_run (days_from ?d ?l) run longest"
    "0 \<le> run" using longest_closed_run_append[of 0 xs] by (metis order_refl)
  moreover have "3 \<le> longest_closed_run (days_from ?d ?l) run longest" if "0 \<le> run"
  proof -
    have "3 \<le> max (max (max longest (run + 1)) (run + 1 + 1)) (run + 1 + 1 + 1)" using that by linarith
    also have "\<dots> \<le> longest_closed_run (days_from (next_day (Date 2000 1 17)) ?l) (run + 1 + 1 + 1) \<dots>"
      by (rule longest_closed_run_ge)
    also have "\<dots> = longest_closed_run (days_from ?d ?l) run longest"
      using v d closed_weekend_2000 by (simp add: days_from.simps[of "Date 2000 1 15"] days_from.simps[of "Date 2000 1 16"]
        days_from.simps[of "Date 2000 1 17"] Let_def)
    finally show ?thesis .
  qed
  ultimately have "3 \<le> longest_closed_run (days_from CALENDAR_DATE_MIN ?l) 0 0" by simp
  moreover have "longest_closed_run (days_from CALENDAR_DATE_MIN ?l) 0 0 \<le> 3"
    using v(2) by (intro longest_closed_run_le) auto
  ultimately show ?thesis by (simp add: shortest_collision_free_cadence_def days_in_range_def)
qed

lemma long_weekend_2000:
  assumes "d \<in> {Date 2000 1 15, Date 2000 1 16, Date 2000 1 17, Date 2000 1 18}"
  shows "shift_to_business_day d Next_Day = Date 2000 1 18"
proof -
  have o: "is_business_day (Date 2000 1 18)" by (simp add: evaluate_open)
  have v: "valid_date (Date 2000 1 15)" "valid_date (Date 2000 1 16)" "valid_date (Date 2000 1 17)" "valid_date (Date 2000 1 18)"
    by (simp_all add: valid_Date days_in_month_def)
  have n: "add_days (Date 2000 1 15) 1 = Date 2000 1 16" "add_days (Date 2000 1 16) 1 = Date 2000 1 17"
    "add_days (Date 2000 1 17) 1 = Date 2000 1 18"
    by (simp_all add: add_days_in_month valid_Date days_in_month_def)
  have "landing_day 1 (Date 2000 1 18) = Date 2000 1 18" using o by (simp add: landing_day.simps)
  moreover from this have "landing_day 1 (Date 2000 1 17) = Date 2000 1 18"
    using v closed_weekend_2000 n by (simp add: landing_day.simps[of 1 "Date 2000 1 17"])
  moreover from this have "landing_day 1 (Date 2000 1 16) = Date 2000 1 18"
    using v closed_weekend_2000 n by (simp add: landing_day.simps[of 1 "Date 2000 1 16"])
  moreover from this have "landing_day 1 (Date 2000 1 15) = Date 2000 1 18"
    using v closed_weekend_2000 n by (simp add: landing_day.simps[of 1 "Date 2000 1 15"])
  ultimately show ?thesis using assms v by (auto simp: shift_is_landing)
qed

text \<open>
  the shortest cadence a convention can be carried at is four days on this calendar.  Two nominal
  days at least that far apart are never displaced onto one day, nor out of order; every shorter cadence
  has two nominal days that are, inside the calendar the application admits.\<close>

theorem shortest_cadence_is_exact:
  "shortest_collision_free_cadence = 4 \<and>
   (valid_date d \<and> valid_date e \<and> shortest_collision_free_cadence \<le> days_between e d \<longrightarrow>
     shift_to_business_day d s < shift_to_business_day e s) \<and>
   (0 < n \<and> n < shortest_collision_free_cadence \<longrightarrow>
     (\<exists>a b. CALENDAR_DATE_MIN \<le> a \<and> b \<le> CALENDAR_DATE_MAX \<and> valid_date a \<and> days_between b a = n \<and>
       shift_to_business_day a Next_Day = shift_to_business_day b Next_Day))"
proof -
  have "\<exists>a b. CALENDAR_DATE_MIN \<le> a \<and> b \<le> CALENDAR_DATE_MAX \<and> valid_date a \<and> days_between b a = n \<and>
      shift_to_business_day a Next_Day = shift_to_business_day b Next_Day" if n: "0 < n" "n < 4"
  proof (intro exI conjI)
    let ?a = "Date 2000 1 (18 - n)" and ?b = "Date 2000 1 18"
    show "shift_to_business_day ?a Next_Day = shift_to_business_day ?b Next_Day"
    proof -
      have "n \<in> {1, 2, 3}" using n by auto
      then show ?thesis using long_weekend_2000[of ?a] long_weekend_2000[of ?b] by auto
    qed
  qed (use n in \<open>auto simp: CALENDAR_DATE_MAX_def CALENDAR_DATE_MIN_def valid_Date days_in_month_def less_eq_date_def
        days_between_def day_number_def\<close>)
  moreover have "shift_to_business_day d s < shift_to_business_day e s"
    if "valid_date d" "valid_date e" "4 \<le> days_between e d"
    using shifted.move_apart[of d e s] that by simp
  ultimately show ?thesis unfolding shortest_cadence_4 by blast
qed

lemma shortest_cadence_is_exact_witness:
  "shift_to_business_day (Date 2026 1 1) Next_Day < shift_to_business_day (Date 2026 1 15) Next_Day"
  using shortest_cadence_is_exact[of "Date 2026 1 1" "Date 2026 1 15" Next_Day 1]
  by (simp add: shortest_cadence_4 valid_Date days_in_month_def days_between_def day_number_def)
section \<open>The first nominal day paid after a day\<close>

lemma shift_passes:
  assumes "valid_date c" "valid_date day" "shift_to_business_day c s \<le> day"
  shows "day_number c \<le> day_number day + 3"
  using assms shifted.move_near[OF assms(1), of s] shifted.move_valid[OF assms(1), of s]
  by (auto simp: days_between_def day_number_le_iff)

function nominal_scan :: "date \<Rightarrow> business_day_shift \<Rightarrow> date \<Rightarrow> date" where
  "nominal_scan day shift candidate =
     (if valid_date candidate \<and> valid_date day \<and> shift_to_business_day candidate shift \<le> day
      then nominal_scan day shift (add_days candidate 1) else candidate)"
  by pat_completeness auto
termination
  by (relation "measure (\<lambda>(day, s, c). nat (day_number day + 4 - day_number c))") (auto dest: shift_passes)

declare nominal_scan.simps [simp del]

definition earliest_nominal_paid_after :: "date \<Rightarrow> business_day_shift \<Rightarrow> date" where
  "earliest_nominal_paid_after day shift =
     nominal_scan day shift (add_days day (- (shortest_collision_free_cadence - 1)))"

lemma nominal_scan_first:
  assumes "valid_date candidate" "valid_date day" "\<forall>c. valid_date c \<and> c < candidate \<longrightarrow> shift_to_business_day c s \<le> day"
  defines "r \<equiv> nominal_scan day s candidate"
  shows "valid_date r \<and> candidate \<le> r \<and> day < shift_to_business_day r s \<and>
    (\<forall>c. valid_date c \<and> c < r \<longrightarrow> shift_to_business_day c s \<le> day)"
  using assms(1-3) unfolding r_def
proof (induction day s candidate rule: nominal_scan.induct)
  case (1 day s candidate)
  show ?case
  proof (cases "shift_to_business_day candidate s \<le> day")
    case True
    have "shift_to_business_day c s \<le> day" if "valid_date c" "c < add_days candidate 1" for c
    proof (cases "c = candidate")
      case False
      then have "c < candidate" using that 1(2) by (auto simp: day_number_less_iff day_number_inject[symmetric])
      then show ?thesis using 1(4) that(1) by blast
    qed (simp add: True)
    moreover have "candidate < add_days candidate 1" using 1(2) by (simp add: day_number_less_iff)
    ultimately show ?thesis
      using 1(1) 1(2,3) True by (simp add: nominal_scan.simps[of day s candidate]) (meson less_imp_le order_trans)
  next
    case False
    then show ?thesis using 1(2-4) by (simp add: nominal_scan.simps[of day s candidate])
  qed
qed

text \<open>
  the scan answers the first nominal day whose payday falls strictly after the day asked about,
  the earliest of all of them although it starts only three days back, and ends by the fourth day after;
  under the convention that moves nothing that is the next day.\<close>

theorem earliest_nominal_is_the_first:
  assumes "valid_date day" "valid_date c"
  shows "day < shift_to_business_day (earliest_nominal_paid_after day s) s \<and>
    (day < shift_to_business_day c s \<longrightarrow> earliest_nominal_paid_after day s \<le> c) \<and>
    days_between (earliest_nominal_paid_after day s) day \<in> {- 3..4} \<and>
    earliest_nominal_paid_after day No_Shift = add_days day 1"
proof -
  let ?start = "add_days day (- 3)" and ?r = "\<lambda>s. earliest_nominal_paid_after day s"
  have "shift_to_business_day c s \<le> day" if "valid_date c" "c < ?start" for c s
    using that assms(1) shifted.move_near[of c s] shifted.move_valid[of c s]
    by (auto simp: days_between_def day_number_le_iff day_number_less_iff)
  then have r: "valid_date (?r s)" "?start \<le> ?r s" "day < shift_to_business_day (?r s) s"
    "\<And>c. valid_date c \<Longrightarrow> c < ?r s \<Longrightarrow> shift_to_business_day c s \<le> day" for s
    using nominal_scan_first[of ?start day s] assms(1)
    by (simp_all add: earliest_nominal_paid_after_def shortest_cadence_4)
  have "day_number (?r s) \<le> day_number day + 4"
  proof (rule ccontr)
    assume "\<not> ?thesis"
    then have "add_days day 4 < ?r s" using assms(1) r(1) by (simp add: day_number_less_iff)
    then have "shift_to_business_day (add_days day 4) s \<le> day" using r(4) assms(1) by simp
    then show False using shift_passes[of "add_days day 4" day s] assms(1) by simp
  qed
  moreover have "?r No_Shift = add_days day 1"
  proof -
    have n: "x < add_days day 1 \<longleftrightarrow> x \<le> day" if "valid_date x" for x
      using that assms(1) by (auto simp: day_number_less_iff day_number_le_iff)
    then have "\<not> ?r No_Shift < add_days day 1" using r(1,3)[of No_Shift] by (simp add: shift_to_business_day_def)
    moreover have "\<not> add_days day 1 < ?r No_Shift"
      using r(4)[of "add_days day 1" No_Shift] n[of "add_days day 1"] assms(1) by (auto simp: shift_to_business_day_def)
    ultimately show ?thesis by simp
  qed
  moreover have "day_number day - 3 \<le> day_number (?r s)"
    using r(1,2)[of s] assms(1) by (simp add: day_number_le_iff)
  ultimately show ?thesis
    using r(1-3)[of s] r(4)[of c s] assms by (auto simp: days_between_def not_less[symmetric])
qed

lemma earliest_nominal_is_the_first_witness:
  "earliest_nominal_paid_after (Date 2026 9 6) No_Shift = Date 2026 9 7"
  using earliest_nominal_is_the_first[of "Date 2026 9 6" "Date 2026 9 6"]
  by (simp add: add_days_in_month valid_Date days_in_month_def)

end
