(* ===== verification/Decimals.thy ===== *)
theory Decimals
  imports Prelude
begin

text \<open>
  Python's \<open>decimal.Decimal\<close> under the default context the application runs in (it installs no
  other): 28 significant digits, inexact results rounded half to even.  A Decimal is modelled by
  its value, a rational; every arithmetic operation is the exact operation followed by the context
  rounding \<open>fix28\<close>.  \<open>quantize\<close> has its own rounding mode and is exact otherwise.  The lemmas say
  when the context does not round at all (\<open>exact\<close>), how far it can be off, and what every
  quantization mode the application uses guarantees (locale \<open>rounding\<close>).
\<close>

type_synonym dec = rat

section \<open>Number of digits and the adjusted exponent\<close>

function ndigits :: "int \<Rightarrow> nat" where
  "ndigits n = (if n \<le> 0 then 0 else Suc (ndigits (n div 10)))"
  by pat_completeness auto
termination
  by (relation "measure nat") auto

declare ndigits.simps [simp del]

lemma ndigits_upper: "n < 10 ^ ndigits n"
proof (induction n rule: ndigits.induct)
  case (1 n)
  show ?case
  proof (cases "n \<le> 0")
    case True
    then show ?thesis by (simp add: ndigits.simps[of n])
  next
    case False
    with 1 have "n div 10 + 1 \<le> 10 ^ ndigits (n div 10)" by simp
    then have "n < 10 * 10 ^ ndigits (n div 10)" by linarith
    with False show ?thesis by (simp add: ndigits.simps[of n])
  qed
qed

lemma ndigits_lower: "0 < n \<Longrightarrow> 10 ^ ndigits n \<le> 10 * n"
proof (induction n rule: ndigits.induct)
  case (1 n)
  show ?case
  proof (cases "n div 10 = 0")
    case True
    have "ndigits 0 = 0" by (simp add: ndigits.simps)
    with True 1 have "ndigits n = 1" by (simp add: ndigits.simps[of n])
    with 1 show ?thesis by simp
  next
    case False
    with 1 have pos: "0 < n div 10" by (simp add: pos_imp_zdiv_nonneg_iff order_less_le)
    with 1 have "10 ^ ndigits (n div 10) \<le> 10 * (n div 10)" by simp
    then have "10 ^ ndigits (n div 10) \<le> n" by linarith
    with 1 show ?thesis by (simp add: ndigits.simps[of n])
  qed
qed

lemma ndigits_pos: "0 < n \<Longrightarrow> 0 < ndigits n"
  by (simp add: ndigits.simps[of n])

text \<open>\<open>10 powi adj_exp x\<close> is the power of ten of the leading digit of \<open>x\<close>.\<close>

definition adj_exp :: "rat \<Rightarrow> int" where
  "adj_exp x = (if 1 \<le> \<bar>x\<bar> then int (ndigits \<lfloor>\<bar>x\<bar>\<rfloor>) - 1
                else - int (ndigits (\<lceil>1 / \<bar>x\<bar>\<rceil> - 1)))"

lemma pow10_le_of_int: "(10::int) ^ k \<le> n \<Longrightarrow> (10::rat) ^ k \<le> of_int n"
  by (metis of_int_le_iff of_int_numeral of_int_power)

lemma of_int_le_pow10: "n \<le> (10::int) ^ k \<Longrightarrow> (of_int n :: rat) \<le> 10 ^ k"
  by (metis of_int_le_iff of_int_numeral of_int_power)

lemma adj_exp_large:
  assumes "1 \<le> \<bar>x\<bar>"
  shows "10 powi (adj_exp x) \<le> \<bar>x\<bar>" "\<bar>x\<bar> < 10 powi (adj_exp x + 1)"
proof -
  define n where "n = \<lfloor>\<bar>x\<bar>\<rfloor>"
  have n1: "1 \<le> n" using assms by (simp add: n_def)
  have nx: "of_int n \<le> \<bar>x\<bar>" "\<bar>x\<bar> < of_int n + 1"
    using floor_correct[of "\<bar>x\<bar>"] by (simp_all add: n_def)
  have adj: "adj_exp x = int (ndigits n) - 1" using assms by (simp add: adj_exp_def n_def)
  have "(10::rat) ^ ndigits n \<le> of_int (10 * n)"
    using ndigits_lower[of n] n1 by (intro pow10_le_of_int) simp
  then have lo: "(10::rat) ^ ndigits n \<le> 10 * of_int n" by simp
  have "n + 1 \<le> 10 ^ ndigits n" using ndigits_upper[of n] by simp
  then have "(of_int (n + 1) :: rat) \<le> 10 ^ ndigits n" by (rule of_int_le_pow10)
  then have hi: "of_int n + 1 \<le> (10::rat) ^ ndigits n" by simp
  show "10 powi (adj_exp x) \<le> \<bar>x\<bar>"
    using lo nx by (simp add: adj power_int_diff)
  show "\<bar>x\<bar> < 10 powi (adj_exp x + 1)"
    using hi nx by (simp add: adj)
qed

lemma adj_exp_small:
  assumes "x \<noteq> 0" "\<bar>x\<bar> < 1"
  shows "10 powi (adj_exp x) \<le> \<bar>x\<bar>" "\<bar>x\<bar> < 10 powi (adj_exp x + 1)"
proof -
  define a where "a = \<bar>x\<bar>"
  have a: "0 < a" "a < 1" using assms by (simp_all add: a_def)
  define m where "m = \<lceil>1 / a\<rceil>"
  have m: "1 / a \<le> of_int m" "of_int m - 1 < 1 / a" by (simp_all add: m_def) linarith
  have "1 < 1 / a" using a by simp
  then have m2: "2 \<le> m" using m by linarith
  define k where "k = ndigits (m - 1)"
  have adj: "adj_exp x = - int k" using assms by (simp add: adj_exp_def k_def m_def a_def)
  have "m \<le> 10 ^ k" using ndigits_upper[of "m - 1"] by (simp add: k_def)
  then have "(of_int m :: rat) \<le> 10 ^ k" by (rule of_int_le_pow10)
  with m have hi: "1 / a \<le> 10 ^ k" by linarith
  have "(10::rat) ^ k \<le> of_int (10 * (m - 1))"
    using ndigits_lower[of "m - 1"] m2 by (intro pow10_le_of_int) (simp add: k_def)
  then have lo: "(10::rat) ^ k < 10 / a" using m by simp
  have "1 / 10 ^ k \<le> a" using hi a by (simp add: field_simps)
  then show "10 powi (adj_exp x) \<le> \<bar>x\<bar>"
    by (simp add: adj a_def power_int_minus inverse_eq_divide)
  have "a < 10 / 10 ^ k" using lo a by (simp add: field_simps)
  then show "\<bar>x\<bar> < 10 powi (adj_exp x + 1)"
    by (simp add: adj a_def power_int_diff power_int_add power_int_minus inverse_eq_divide)
qed

lemma adj_exp_bounds:
  assumes "x \<noteq> 0"
  shows "10 powi (adj_exp x) \<le> \<bar>x\<bar>" "\<bar>x\<bar> < 10 powi (adj_exp x + 1)"
  using adj_exp_large[of x] adj_exp_small[of x] assms by (cases "1 \<le> \<bar>x\<bar>"; simp)+

section \<open>Rounding modes\<close>

definition round_half_even :: "rat \<Rightarrow> int" where
  "round_half_even x =
     (let f = \<lfloor>x\<rfloor>; d = x - of_int f
      in if d < 1/2 then f else if 1/2 < d then f + 1 else if even f then f else f + 1)"

definition round_half_up :: "rat \<Rightarrow> int" where
  "round_half_up x = (if 0 \<le> x then \<lfloor>x + 1/2\<rfloor> else - \<lfloor>1/2 - x\<rfloor>)"

text \<open>
  What the application relies on in any of Python's modes: integers stay where they are, the order
  is respected, and the result is less than one unit away.
\<close>

locale rounding =
  fixes r :: "rat \<Rightarrow> int"
  assumes of_int_fixed: "r (of_int k) = k"
    and mono_r: "x \<le> y \<Longrightarrow> r x \<le> r y"
    and near: "\<bar>of_int (r x) - x\<bar> < 1"
begin

lemma zero_fixed: "r 0 = 0"
  using of_int_fixed[of 0] by simp

lemma le_of_int_iff: "x \<le> of_int k \<Longrightarrow> r x \<le> k"
  using mono_r[of x "of_int k"] by (simp add: of_int_fixed)

lemma of_int_le_iff: "of_int k \<le> x \<Longrightarrow> k \<le> r x"
  using mono_r[of "of_int k" x] by (simp add: of_int_fixed)

lemma nonneg: "0 \<le> x \<Longrightarrow> 0 \<le> r x"
  using of_int_le_iff[of 0 x] by simp

lemma nonpos: "x \<le> 0 \<Longrightarrow> r x \<le> 0"
  using le_of_int_iff[of x 0] by simp

lemma between_floor_ceiling: "\<lfloor>x\<rfloor> \<le> r x \<and> r x \<le> \<lceil>x\<rceil>"
  using of_int_le_iff[of "\<lfloor>x\<rfloor>" x] le_of_int_iff[of x "\<lceil>x\<rceil>"] by (simp add: le_of_int_ceiling)

end

lemma round_half_up_near: "\<bar>of_int (round_half_up x) - x\<bar> \<le> 1/2"
proof (cases "0 \<le> x")
  case True
  have "of_int \<lfloor>x + 1/2\<rfloor> \<le> x + 1/2" "x + 1/2 < of_int \<lfloor>x + 1/2\<rfloor> + 1"
    using floor_correct[of "x + 1/2"] by simp_all
  then have "\<bar>of_int \<lfloor>x + 1/2\<rfloor> - x\<bar> \<le> 1/2" by linarith
  with True show ?thesis by (simp add: round_half_up_def)
next
  case False
  have "of_int \<lfloor>1/2 - x\<rfloor> \<le> 1/2 - x" "1/2 - x < of_int \<lfloor>1/2 - x\<rfloor> + 1"
    using floor_correct[of "1/2 - x"] by simp_all
  then have "\<bar>- of_int \<lfloor>1/2 - x\<rfloor> - x\<bar> \<le> 1/2" by linarith
  with False show ?thesis by (simp add: round_half_up_def)
qed

lemma round_half_even_near: "\<bar>of_int (round_half_even x) - x\<bar> \<le> 1/2"
proof -
  define f where "f = \<lfloor>x\<rfloor>"
  have "of_int f \<le> x" "x < of_int f + 1" using floor_correct[of x] by (simp_all add: f_def)
  then show ?thesis by (simp add: round_half_even_def Let_def f_def[symmetric] abs_le_iff)
qed

lemma round_half_up_mono: "x \<le> y \<Longrightarrow> round_half_up x \<le> round_half_up y"
proof (cases "0 \<le> x \<or> y < 0")
  case True
  assume "x \<le> y"
  then show ?thesis using True by (auto simp: round_half_up_def floor_mono)
next
  case False
  have "0 \<le> \<lfloor>1/2 - x\<rfloor>" "0 \<le> \<lfloor>y + 1/2\<rfloor>" using False by simp_all
  then have "- \<lfloor>1/2 - x\<rfloor> \<le> \<lfloor>y + 1/2\<rfloor>" by linarith
  then show ?thesis using False by (simp add: round_half_up_def)
qed

lemma round_half_even_mono:
  assumes "x \<le> y"
  shows "round_half_even x \<le> round_half_even y"
proof (cases "\<lfloor>x\<rfloor> = \<lfloor>y\<rfloor>")
  case True
  then show ?thesis using assms by (auto simp: round_half_even_def Let_def)
next
  case False
  then have "\<lfloor>x\<rfloor> + 1 \<le> \<lfloor>y\<rfloor>" using floor_mono[OF assms] by simp
  moreover have "round_half_even x \<le> \<lfloor>x\<rfloor> + 1" by (simp add: round_half_even_def Let_def)
  moreover have "\<lfloor>y\<rfloor> \<le> round_half_even y" by (simp add: round_half_even_def Let_def)
  ultimately show ?thesis by simp
qed

interpretation half_up: rounding round_half_up
proof
  show "round_half_up (of_int k) = k" for k
    by (simp add: round_half_up_def floor_eq_iff)
  show "\<bar>of_int (round_half_up x) - x\<bar> < 1" for x
    using round_half_up_near[of x] by simp
qed (rule round_half_up_mono)

interpretation half_even: rounding round_half_even
proof
  show "round_half_even (of_int k) = k" for k by (simp add: round_half_even_def)
  show "\<bar>of_int (round_half_even x) - x\<bar> < 1" for x
    using round_half_even_near[of x] by simp
qed (rule round_half_even_mono)

interpretation ceiling_mode: rounding "ceiling :: rat \<Rightarrow> int"
proof
  show "\<bar>of_int \<lceil>x\<rceil> - x\<bar> < 1" for x :: rat using ceiling_correct[of x] by (simp add: abs_less_iff)
qed (simp_all add: ceiling_mono)

interpretation floor_mode: rounding "floor :: rat \<Rightarrow> int"
proof
  show "\<bar>of_int \<lfloor>x\<rfloor> - x\<bar> < 1" for x :: rat using floor_correct[of x] by (simp add: abs_less_iff)
qed (simp_all add: floor_mono)

lemma round_half_up_uminus: "round_half_up (- x) = - round_half_up x"
proof -
  have "\<lfloor>1/2 :: rat\<rfloor> = 0" by (simp add: floor_eq_iff)
  then show ?thesis
    by (cases x "0::rat" rule: linorder_cases) (simp_all add: round_half_up_def add.commute)
qed

section \<open>The context rounding\<close>

definition ulp28 :: "rat \<Rightarrow> rat" where
  "ulp28 x = 10 powi (adj_exp x - 27)"

definition fix28 :: "rat \<Rightarrow> dec" where
  "fix28 x = (if x = 0 then 0 else of_int (round_half_even (x / ulp28 x)) * ulp28 x)"

definition dadd :: "dec \<Rightarrow> dec \<Rightarrow> dec" where "dadd x y = fix28 (x + y)"
definition dsub :: "dec \<Rightarrow> dec \<Rightarrow> dec" where "dsub x y = fix28 (x - y)"
definition dmul :: "dec \<Rightarrow> dec \<Rightarrow> dec" where "dmul x y = fix28 (x * y)"
definition ddiv :: "dec \<Rightarrow> dec \<Rightarrow> dec" where "ddiv x y = fix28 (x / y)"
definition dpow :: "dec \<Rightarrow> nat \<Rightarrow> dec" where "dpow x n = fix28 (x ^ n)"

text \<open>Python's \<open>sum(xs, ZERO)\<close>: one rounded addition per element, left to right.\<close>

definition dsum :: "dec list \<Rightarrow> dec" where
  "dsum xs = foldl dadd 0 xs"

lemma ulp28_pos: "0 < ulp28 x"
  by (simp add: ulp28_def)

lemma ulp28_le: "x \<noteq> 0 \<Longrightarrow> ulp28 x \<le> \<bar>x\<bar> / 10 ^ 27"
  using adj_exp_bounds(1)[of x]
  by (simp add: ulp28_def power_int_diff field_simps)

lemma fix28_0 [simp]: "fix28 0 = 0"
  by (simp add: fix28_def)

lemma fix28_error: "\<bar>fix28 x - x\<bar> \<le> \<bar>x\<bar> / (2 * 10 ^ 27)"
proof (cases "x = 0")
  case False
  define u where "u = ulp28 x"
  have u: "0 < u" "u \<le> \<bar>x\<bar> / 10 ^ 27" using ulp28_pos ulp28_le[OF False] by (simp_all add: u_def)
  have "fix28 x - x = (of_int (round_half_even (x / u)) - x / u) * u"
    using False u by (simp add: fix28_def u_def left_diff_distrib)
  then have "\<bar>fix28 x - x\<bar> = \<bar>of_int (round_half_even (x / u)) - x / u\<bar> * u"
    using u by (simp add: abs_mult)
  also have "\<dots> \<le> 1/2 * u"
    using round_half_even_near u by (intro mult_right_mono) simp_all
  finally show ?thesis using u by simp
qed simp

lemma fix28_nonneg: "0 \<le> x \<Longrightarrow> 0 \<le> fix28 x"
  using half_even.nonneg[of "x / ulp28 x"] ulp28_pos[of x] by (simp add: fix28_def)

lemma fix28_nonpos: "x \<le> 0 \<Longrightarrow> fix28 x \<le> 0"
  using half_even.nonpos[of "x / ulp28 x"] ulp28_pos[of x]
  by (simp add: fix28_def mult_nonpos_nonneg divide_nonpos_pos)

text \<open>The context keeps the order of two non-negative results, across a change of magnitude too.\<close>

lemma fix28_magnitude:
  assumes "0 < x"
  shows "10 powi (adj_exp x) \<le> fix28 x" "fix28 x \<le> 10 powi (adj_exp x + 1)"
proof -
  define u where "u = ulp28 x"
  have u: "0 < u" "u = 10 powi (adj_exp x - 27)" by (simp_all add: u_def ulp28_def)
  have f: "fix28 x = of_int (round_half_even (x / u)) * u" using assms by (simp add: fix28_def u_def)
  have lo: "10 powi (adj_exp x) = of_int (10 ^ 27) * u" and hi: "10 powi (adj_exp x + 1) = of_int (10 ^ 28) * u"
    using u(2) by (simp_all add: power_int_diff power_int_add)
  have "10 powi (adj_exp x) \<le> x" "x < 10 powi (adj_exp x + 1)"
    using adj_exp_bounds[of x] assms by simp_all
  then have "of_int (10 ^ 27) \<le> x / u" "x / u \<le> of_int (10 ^ 28)"
    unfolding lo hi using u(1) by (simp_all only: pos_le_divide_eq pos_divide_le_eq less_imp_le)
  then have "10 ^ 27 \<le> round_half_even (x / u)" "round_half_even (x / u) \<le> 10 ^ 28"
    by (auto intro: half_even.of_int_le_iff half_even.le_of_int_iff)
  then have "of_int (10 ^ 27) \<le> (of_int (round_half_even (x / u)) :: rat)"
    "(of_int (round_half_even (x / u)) :: rat) \<le> of_int (10 ^ 28)"
    by (simp_all only: of_int_le_iff)
  then show "10 powi (adj_exp x) \<le> fix28 x" "fix28 x \<le> 10 powi (adj_exp x + 1)"
    unfolding f lo hi using u(1) by (simp_all only: mult_right_mono less_imp_le)
qed

lemma fix28_mono:
  assumes "0 \<le> x" "x \<le> y"
  shows "fix28 x \<le> fix28 y"
proof (cases "x = 0")
  case True
  then show ?thesis using assms by (simp add: fix28_nonneg)
next
  case False
  then have p: "0 < x" "0 < y" using assms by simp_all
  consider "adj_exp x = adj_exp y" | "adj_exp x + 1 \<le> adj_exp y" | "adj_exp y + 1 \<le> adj_exp x" by linarith
  then show ?thesis
  proof cases
    case 1
    then have "ulp28 y = ulp28 x" by (simp add: ulp28_def)
    moreover have "x / ulp28 x \<le> y / ulp28 x" using assms(2) ulp28_pos[of x] by (simp add: divide_right_mono)
    ultimately show ?thesis
      using p ulp28_pos[of x] half_even.mono_r[of "x / ulp28 x" "y / ulp28 x"] by (simp add: fix28_def mult_right_mono)
  next
    case 2
    then have "(10::rat) powi (adj_exp x + 1) \<le> 10 powi (adj_exp y)" by (intro power_int_increasing) simp_all
    then show ?thesis using fix28_magnitude(2)[OF p(1)] fix28_magnitude(1)[OF p(2)] by linarith
  next
    case 3
    then have "(10::rat) powi (adj_exp y + 1) \<le> 10 powi (adj_exp x)" by (intro power_int_increasing) simp_all
    then show ?thesis using adj_exp_bounds[of x] adj_exp_bounds[of y] p assms(2) by simp
  qed
qed

lemma pow10_less_imp_less:
  assumes "(10::rat) powi m < 10 powi n"
  shows "m < n"
proof (rule ccontr)
  assume "\<not> m < n"
  then have "(10::rat) powi n \<le> 10 powi m" by (intro power_int_increasing) simp_all
  with assms show False by simp
qed

text \<open>A value with at most 28 significant digits is a Decimal: the context leaves it alone.\<close>

lemma fix28_exact:
  assumes x: "x = of_int k * 10 powi n" and k: "\<bar>k\<bar> < 10 ^ 28"
  shows "fix28 x = x"
proof (cases "x = 0")
  case False
  have "\<bar>x\<bar> = of_int \<bar>k\<bar> * 10 powi n" by (simp add: x abs_mult)
  moreover have "(of_int \<bar>k\<bar> :: rat) < 10 ^ 28"
    using k by (metis of_int_less_iff of_int_numeral of_int_power)
  ultimately have "\<bar>x\<bar> < 10 powi (28 + n)" by (simp add: power_int_add)
  with adj_exp_bounds(1)[OF False] have "(10::rat) powi (adj_exp x) < 10 powi (28 + n)" by linarith
  then have "adj_exp x < 28 + n" by (rule pow10_less_imp_less)
  then obtain j where j: "n = adj_exp x - 27 + int j"
    using zle_iff_zadd[of "adj_exp x - 27" n] by auto
  define u where "u = ulp28 x"
  have "(10::rat) powi n = 10 ^ j * u" by (simp add: j u_def ulp28_def power_int_add)
  with x have xu: "x = of_int (k * 10 ^ j) * u" by simp
  have "0 < u" by (simp add: u_def ulp28_pos)
  with xu have "x / u = of_int (k * 10 ^ j)" by simp
  then have "round_half_even (x / u) = k * 10 ^ j" by (simp only: half_even.of_int_fixed)
  moreover have "fix28 x = of_int (round_half_even (x / u)) * u"
    using False by (simp add: fix28_def u_def)
  ultimately show ?thesis using xu by (simp only: )
qed simp

lemma fix28_fixed_28: "fix28 (10 powi n) = 10 powi n"
  using fix28_exact[of "10 powi n" 1 n] by simp

text \<open>The result of a context rounding is a Decimal, so rounding twice is rounding once.\<close>

lemma fix28_idem: "fix28 (fix28 x) = fix28 x"
proof (cases "x = 0")
  case False
  define u where "u = ulp28 x"
  define k where "k = round_half_even (x / u)"
  have fx: "fix28 x = of_int k * 10 powi (adj_exp x - 27)"
    using False by (simp add: fix28_def k_def u_def ulp28_def)
  have u0: "0 < u" by (simp add: u_def ulp28_pos)
  have "10 powi (adj_exp x + 1) = 10 ^ 28 * u"
    by (simp add: u_def ulp28_def power_int_add power_int_diff)
  with adj_exp_bounds(2)[OF False] u0 have "\<bar>x\<bar> / u \<le> 10 ^ 28" by (simp add: field_simps)
  with u0 have "- of_int (10 ^ 28) \<le> x / u" "x / u \<le> of_int (10 ^ 28)"
    by (simp_all add: abs_le_iff field_simps)
  then have "- (10 ^ 28) \<le> k" "k \<le> 10 ^ 28"
    using half_even.le_of_int_iff[of "x / u" "10 ^ 28"] half_even.of_int_le_iff[of "- (10 ^ 28)" "x / u"]
    by (simp_all add: k_def)
  then consider "\<bar>k\<bar> < 10 ^ 28" | "k = 10 ^ 28" | "k = - (10 ^ 28)" by linarith
  then show ?thesis
  proof cases
    case 1
    then show ?thesis by (rule fix28_exact[OF fx])
  next
    case 2
    then have "fix28 x = of_int 1 * 10 powi (adj_exp x + 1)"
      by (simp add: fx power_int_diff power_int_add)
    then show ?thesis by (rule fix28_exact) simp
  next
    case 3
    then have "fix28 x = of_int (-1) * 10 powi (adj_exp x + 1)"
      by (simp add: fx power_int_diff power_int_add)
    then show ?thesis by (rule fix28_exact) simp
  qed
qed simp

section \<open>Cents\<close>

text \<open>
  Money is stored in cents.  On cents below \<open>10 ^ 26\<close> (the database columns hold ten integer digits)
  the context never rounds, so addition and subtraction are exact.
\<close>

definition is_cents :: "dec \<Rightarrow> bool" where
  "is_cents x = (of_int \<lfloor>x * 100\<rfloor> = x * 100)"

lemma is_cents_iff: "is_cents x \<longleftrightarrow> (\<exists>k::int. x = of_int k / 100)"
proof
  assume "is_cents x"
  then have "of_int \<lfloor>x * 100\<rfloor> = x * 100" by (simp only: is_cents_def)
  then have "x = of_int \<lfloor>x * 100\<rfloor> / 100" by linarith
  then show "\<exists>k::int. x = of_int k / 100" by blast
next
  assume "\<exists>k::int. x = of_int k / 100"
  then show "is_cents x" by (auto simp: is_cents_def)
qed

lemma is_centsI: "x = of_int k / 100 \<Longrightarrow> is_cents x"
  by (auto simp: is_cents_iff)

lemma is_centsE:
  assumes "is_cents x"
  obtains k where "x = of_int k / 100"
  using assms by (auto simp: is_cents_iff)

lemma is_cents_0 [simp]: "is_cents 0"
  by (simp add: is_cents_def)

lemma is_cents_add:
  assumes "is_cents x" "is_cents y"
  shows "is_cents (x + y)"
proof -
  obtain j k where "x = of_int j / 100" "y = of_int k / 100" using assms by (auto elim!: is_centsE)
  then show ?thesis by (intro is_centsI[where k = "j + k"]) (simp add: add_divide_distrib)
qed

lemma is_cents_uminus:
  assumes "is_cents x"
  shows "is_cents (- x)"
proof -
  obtain k where "x = of_int k / 100" using assms by (rule is_centsE)
  then show ?thesis by (intro is_centsI[where k = "- k"]) simp
qed

lemma is_cents_diff: "is_cents x \<Longrightarrow> is_cents y \<Longrightarrow> is_cents (x - y)"
  using is_cents_add[of x "- y"] by (simp add: is_cents_uminus)

lemma is_cents_min: "is_cents x \<Longrightarrow> is_cents y \<Longrightarrow> is_cents (min x y)"
  by (simp add: min_def)

lemma is_cents_max: "is_cents x \<Longrightarrow> is_cents y \<Longrightarrow> is_cents (max x y)"
  by (simp add: max_def)

lemma is_cents_of_int [simp]: "is_cents (of_int k)"
  by (rule is_centsI[where k = "100 * k"]) simp

lemma is_cents_numeral [simp]: "is_cents (numeral k)" "is_cents 1"
  using is_cents_of_int[of "numeral k"] is_cents_of_int[of 1] by simp_all

lemma is_cents_sum_list: "(\<And>x. x \<in> set xs \<Longrightarrow> is_cents x) \<Longrightarrow> is_cents (sum_list xs)"
  by (induction xs) (auto intro: is_cents_add)

lemmas is_cents_intros = is_cents_add is_cents_diff is_cents_uminus is_cents_min is_cents_max

text \<open>Two figures in cents that are less than a cent apart are equal.\<close>

lemma cents_gap:
  assumes "is_cents x" "is_cents y" "x < y"
  shows "x + 1/100 \<le> y"
proof -
  obtain j k :: int where jk: "x = of_int j / 100" "y = of_int k / 100"
    using assms(1,2) by (auto elim!: is_centsE)
  with assms(3) have "j + 1 \<le> k" by (simp add: divide_less_cancel)
  then have "(of_int (j + 1) :: rat) \<le> of_int k" by (simp only: of_int_le_iff)
  then show ?thesis by (simp add: jk add_divide_distrib[symmetric] divide_right_mono)
qed

lemma fix28_cents [exact]:
  assumes "is_cents x" "\<bar>x\<bar> < 10 ^ 26"
  shows "fix28 x = x"
proof -
  obtain k where k: "x = of_int k / 100" using assms(1) by (rule is_centsE)
  then have x: "x = of_int k * 10 powi (- 2)" by (simp add: power_int_minus power2_eq_square)
  have "\<bar>of_int k :: rat\<bar> < of_int (10 ^ 28)" using assms(2) by (simp add: k)
  then have "\<bar>k\<bar> < 10 ^ 28" by (simp only: of_int_abs[symmetric] of_int_less_iff)
  with x show ?thesis by (rule fix28_exact)
qed

lemma dadd_exact [exact]: "is_cents x \<Longrightarrow> is_cents y \<Longrightarrow> \<bar>x + y\<bar> < 10 ^ 26 \<Longrightarrow> dadd x y = x + y"
  by (simp add: dadd_def fix28_cents is_cents_add)

lemma dsub_exact [exact]: "is_cents x \<Longrightarrow> is_cents y \<Longrightarrow> \<bar>x - y\<bar> < 10 ^ 26 \<Longrightarrow> dsub x y = x - y"
  by (simp add: dsub_def fix28_cents is_cents_diff)

section \<open>Decimal places\<close>

text \<open>Figures with a fixed number of places: rates have four, and their products with cents six.\<close>

definition places :: "nat \<Rightarrow> dec \<Rightarrow> bool" where
  "places k x = (of_int \<lfloor>x * 10 ^ k\<rfloor> = x * 10 ^ k)"

lemma places_iff: "places k x \<longleftrightarrow> (\<exists>n::int. x = of_int n / 10 ^ k)"
proof
  assume "places k x"
  then have "of_int \<lfloor>x * 10 ^ k\<rfloor> = x * 10 ^ k" by (simp only: places_def)
  then have "x = of_int \<lfloor>x * 10 ^ k\<rfloor> / 10 ^ k" by (metis nonzero_mult_div_cancel_right power_not_zero zero_neq_numeral)
  then show "\<exists>n::int. x = of_int n / 10 ^ k" by blast
qed (auto simp: places_def)

lemma placesI: "x = of_int n / 10 ^ k \<Longrightarrow> places k x"
  by (auto simp: places_iff)

lemma places_2: "places 2 x \<longleftrightarrow> is_cents x"
  by (simp add: places_def is_cents_def)

lemma places_0 [simp]: "places k 0"
  by (simp add: places_def)

lemma places_mult:
  assumes "places j x" "places k y"
  shows "places (j + k) (x * y)"
proof -
  obtain m n where "x = of_int m / 10 ^ j" "y = of_int n / 10 ^ k" using assms by (auto simp: places_iff)
  then show ?thesis by (intro placesI[of _ "m * n"]) (simp add: power_add)
qed

lemma places_more:
  assumes "places j x" "j \<le> k"
  shows "places k x"
proof -
  obtain m where "x = of_int m / 10 ^ j" using assms(1) by (auto simp: places_iff)
  moreover have "(10::rat) ^ k = 10 ^ (k - j) * 10 ^ j" using assms(2) by (simp add: power_add[symmetric])
  ultimately show ?thesis by (intro placesI[of _ "m * 10 ^ (k - j)"]) simp
qed

lemma places_add:
  assumes "places k x" "places k y"
  shows "places k (x + y)"
proof -
  obtain m n where "x = of_int m / 10 ^ k" "y = of_int n / 10 ^ k" using assms by (auto simp: places_iff)
  then show ?thesis by (intro placesI[of _ "m + n"]) (simp add: add_divide_distrib)
qed

lemma places_uminus: "places k x \<Longrightarrow> places k (- x)"
  by (auto simp: places_iff intro: exI[of _ "- n" for n])

lemma places_diff: "places k x \<Longrightarrow> places k y \<Longrightarrow> places k (x - y)"
  using places_add[of k x "- y"] by (simp add: places_uminus)

lemma places_of_int [simp]: "places k (of_int n)"
  by (rule placesI[of _ "n * 10 ^ k"]) simp

lemma places_constants [simp]: "places k (numeral m)" "places k 1" "places k (of_nat i)"
  using places_of_int[of k "numeral m"] places_of_int[of k 1] places_of_int[of k "int i"] by simp_all

lemma places_min: "places k x \<Longrightarrow> places k y \<Longrightarrow> places k (min x y)"
  and places_max: "places k x \<Longrightarrow> places k y \<Longrightarrow> places k (max x y)"
  by (simp_all add: min_def max_def)

lemma fix28_places:
  assumes "places k x" "\<bar>x\<bar> < 10 powi (28 - int k)"
  shows "fix28 x = x"
proof -
  obtain n where n: "x = of_int n / 10 ^ k" using assms(1) by (auto simp: places_iff)
  have "\<bar>of_int n :: rat\<bar> < of_int (10 ^ 28)"
    using assms(2) by (simp add: n power_int_diff field_simps)
  then have "\<bar>n\<bar> < 10 ^ 28" by (simp only: of_int_abs[symmetric] of_int_less_iff)
  moreover have "x = of_int n * 10 powi (- int k)" by (simp add: n power_int_minus divide_inverse)
  ultimately show ?thesis by (intro fix28_exact)
qed

section \<open>Quantization to cents\<close>

definition quantize_cents :: "(rat \<Rightarrow> int) \<Rightarrow> dec \<Rightarrow> dec" where
  "quantize_cents r x = of_int (r (x * 100)) / 100"

text \<open>Python signals \<open>InvalidOperation\<close> when the quantized coefficient has more than 28 digits.\<close>

definition quantize_checked :: "(rat \<Rightarrow> int) \<Rightarrow> dec \<Rightarrow> dec res" where
  "quantize_checked r x =
     (if \<bar>r (x * 100)\<bar> < 10 ^ 28 then Inr (quantize_cents r x) else Inl InvalidOperation)"

lemma is_cents_quantize [simp]: "is_cents (quantize_cents r x)"
  by (rule is_centsI) (simp add: quantize_cents_def)

context rounding
begin

lemma quantize_fixed: "is_cents x \<Longrightarrow> quantize_cents r x = x"
  by (elim is_centsE) (simp add: quantize_cents_def of_int_fixed)

lemma quantize_idem: "quantize_cents r (quantize_cents r x) = quantize_cents r x"
  by (rule quantize_fixed) simp

lemma quantize_mono: "x \<le> y \<Longrightarrow> quantize_cents r x \<le> quantize_cents r y"
  using mono_r[of "x * 100" "y * 100"] by (simp add: quantize_cents_def divide_right_mono)

lemma quantize_nonneg: "0 \<le> x \<Longrightarrow> 0 \<le> quantize_cents r x"
  using nonneg[of "x * 100"] by (simp add: quantize_cents_def)

lemma quantize_near: "\<bar>quantize_cents r x - x\<bar> < 1/100"
proof -
  have eq: "quantize_cents r x - x = (of_int (r (x * 100)) - x * 100) / 100"
    by (simp add: quantize_cents_def diff_divide_distrib)
  show ?thesis unfolding eq using near[of "x * 100"] by (simp add: abs_divide)
qed

lemma quantize_le_cents: "x \<le> c \<Longrightarrow> is_cents c \<Longrightarrow> quantize_cents r x \<le> c"
  using quantize_mono[of x c] by (simp add: quantize_fixed)

lemma cents_le_quantize: "c \<le> x \<Longrightarrow> is_cents c \<Longrightarrow> c \<le> quantize_cents r x"
  using quantize_mono[of c x] by (simp add: quantize_fixed)

text \<open>Below \<open>10 ^ 25\<close> the quantization never signals.\<close>

lemma quantize_checked_defined:
  assumes "\<bar>x\<bar> < 10 ^ 25"
  shows "quantize_checked r x = Inr (quantize_cents r x)"
proof -
  have "\<bar>of_int (r (x * 100)) - x * 100\<bar> < 1" by (rule near)
  with assms have "\<bar>of_int (r (x * 100)) :: rat\<bar> < of_int (10 ^ 28)" by simp
  then have "\<bar>r (x * 100)\<bar> < 10 ^ 28" by (simp only: of_int_abs[symmetric] of_int_less_iff)
  then show ?thesis by (simp add: quantize_checked_def)
qed

end

section \<open>Sums\<close>

lemma dsum_Nil [simp]: "dsum [] = 0"
  by (simp add: dsum_def)

lemma dsum_snoc: "dsum (xs @ [x]) = dadd (dsum xs) x"
  by (simp add: dsum_def)

lemma sum_list_abs_le: "\<bar>sum_list xs\<bar> \<le> sum_list (map abs (xs :: rat list))"
  by (induction xs) auto

lemma dsum_exact [exact]:
  assumes "\<And>x. x \<in> set xs \<Longrightarrow> is_cents x" "sum_list (map abs xs) < 10 ^ 26"
  shows "dsum xs = sum_list xs"
  using assms
proof (induction xs rule: rev_induct)
  case (snoc x xs)
  have "\<bar>sum_list xs + x\<bar> \<le> sum_list (map abs (xs @ [x]))"
    using sum_list_abs_le[of "xs @ [x]"] by simp
  with snoc.prems(2) have lt: "\<bar>sum_list xs + x\<bar> < 10 ^ 26" by linarith
  have "sum_list (map abs xs) < 10 ^ 26" using snoc.prems(2) by simp
  with snoc have "dsum xs = sum_list xs" by simp
  moreover have "is_cents (sum_list xs)" using snoc.prems(1) by (intro is_cents_sum_list) simp
  ultimately show ?case using snoc.prems(1) lt by (simp add: dsum_snoc dadd_exact)
qed simp

lemma dsum_error:
  assumes "\<And>x. x \<in> set xs \<Longrightarrow> \<bar>x\<bar> \<le> 10 ^ 11" "length xs \<le> 10 ^ 9"
  shows "\<bar>dsum xs - sum_list xs\<bar> \<le> of_nat (length xs) / 10 ^ 6"
  using assms
proof (induction xs rule: rev_induct)
  case (snoc x xs)
  let ?n = "of_nat (length xs) :: rat"
  have IH: "\<bar>dsum xs - sum_list xs\<bar> \<le> ?n / 10 ^ 6" using snoc by simp
  have "length xs < 10 ^ 9" using snoc.prems(2) by simp
  then have n: "?n < 10 ^ 9"
    by (metis of_nat_less_iff of_nat_numeral of_nat_power)
  have "sum_list (map abs xs) \<le> ?n * 10 ^ 11"
    using sum_list_bounds[of xs 0 abs "10 ^ 11"] snoc.prems(1) by simp
  then have "\<bar>sum_list xs\<bar> \<le> ?n * 10 ^ 11" using sum_list_abs_le[of xs] by linarith
  with n have S: "\<bar>sum_list xs\<bar> \<le> 10 ^ 20" by simp
  have x: "\<bar>x\<bar> \<le> 10 ^ 11" using snoc.prems(1) by simp
  have "?n / 10 ^ 6 \<le> 1000" using n by simp
  with IH have "\<bar>dsum xs - sum_list xs\<bar> \<le> 1000" by linarith
  with S x have "\<bar>dsum xs + x\<bar> \<le> 10 ^ 21" by (simp add: abs_le_iff)
  then have "\<bar>dadd (dsum xs) x - (dsum xs + x)\<bar> \<le> 1 / 10 ^ 6"
    using fix28_error[of "dsum xs + x"] by (simp add: dadd_def)
  with IH have "\<bar>dadd (dsum xs) x - (sum_list xs + x)\<bar> \<le> ?n / 10 ^ 6 + 1 / 10 ^ 6" by linarith
  then show ?case by (simp add: dsum_snoc add_divide_distrib)
qed simp

end
