(* ===== verification/Money.thy ===== *)
theory Money
  imports Decimals
begin

text \<open>
  \<open>app/utils/money.py\<close>: the monetary rounding boundary, the progress-bar percentage and the two
  halves of a loan payment (the monthly accrual and the allocation of a payment's cash), which every
  walk over a loan shares.
\<close>

section \<open>The rounding boundary\<close>

text \<open>
  A caller may hand the helpers any Python value; only a Decimal passes the \<open>isinstance\<close> check.
  Within the development the arguments are Decimals already, so \<open>round_money\<close> is the value the
  boundary returns for them (lemma \<open>round_money_py_defined\<close>).
\<close>

datatype py_value = DecimalV dec | FloatV | IntV int | StrV string | OtherV

definition MONTHS_PER_YEAR :: dec where "MONTHS_PER_YEAR = 12"
definition HUNDRED :: dec where "HUNDRED = 100"
definition CENTS :: dec where "CENTS = 1/100"
definition MONEY_COLUMN_MAX :: dec where "MONEY_COLUMN_MAX = 999999999999 / 100"

definition round_money :: "dec \<Rightarrow> dec" where
  "round_money x = quantize_cents round_half_up x"

definition round_money_ceiling :: "dec \<Rightarrow> dec" where
  "round_money_ceiling x = quantize_cents ceiling x"

definition round_money_floor :: "dec \<Rightarrow> dec" where
  "round_money_floor x = quantize_cents floor x"

definition round_money_py :: "py_value \<Rightarrow> dec res" where
  "round_money_py v =
     (case v of DecimalV x \<Rightarrow> quantize_checked round_half_up x | _ \<Rightarrow> Inl TypeError)"

definition round_money_ceiling_py :: "py_value \<Rightarrow> dec res" where
  "round_money_ceiling_py v =
     (case v of DecimalV x \<Rightarrow> quantize_checked ceiling x | _ \<Rightarrow> Inl TypeError)"

definition round_money_floor_py :: "py_value \<Rightarrow> dec res" where
  "round_money_floor_py v =
     (case v of DecimalV x \<Rightarrow> quantize_checked floor x | _ \<Rightarrow> Inl TypeError)"

lemma is_cents_round_money [simp]:
  "is_cents (round_money x)" "is_cents (round_money_ceiling x)" "is_cents (round_money_floor x)"
  by (simp_all add: round_money_def round_money_ceiling_def round_money_floor_def)

lemma round_money_py_defined:
  "\<bar>x\<bar> < 10 ^ 25 \<Longrightarrow> round_money_py (DecimalV x) = Inr (round_money x)"
  by (simp add: round_money_py_def round_money_def half_up.quantize_checked_defined)

lemma round_money_fixed [simp]: "is_cents x \<Longrightarrow> round_money x = x"
  by (simp add: round_money_def half_up.quantize_fixed)

lemma round_money_mono: "x \<le> y \<Longrightarrow> round_money x \<le> round_money y"
  by (simp add: round_money_def half_up.quantize_mono)

lemma round_money_nonneg: "0 \<le> x \<Longrightarrow> 0 \<le> round_money x"
  by (simp add: round_money_def half_up.quantize_nonneg)

lemma round_money_near: "\<bar>round_money x - x\<bar> \<le> 1/200"
proof -
  have eq: "round_money x - x = (of_int (round_half_up (x * 100)) - x * 100) / 100"
    by (simp add: round_money_def quantize_cents_def diff_divide_distrib)
  show ?thesis unfolding eq using round_half_up_near[of "x * 100"] by (simp add: abs_divide)
qed

lemma round_money_le_cents: "x \<le> c \<Longrightarrow> is_cents c \<Longrightarrow> round_money x \<le> c"
  by (simp add: round_money_def half_up.quantize_le_cents)

lemma cents_le_round_money: "c \<le> x \<Longrightarrow> is_cents c \<Longrightarrow> c \<le> round_money x"
  by (simp add: round_money_def half_up.cents_le_quantize)

lemma round_money_floor_le: "round_money_floor x \<le> x"
  using of_int_floor_le[of "x * 100"] by (simp add: round_money_floor_def quantize_cents_def)

lemma round_money_floor_gt: "x < round_money_floor x + 1/100"
  using floor_mode.quantize_near[of x] unfolding round_money_floor_def by linarith

lemma round_money_ceiling_ge: "x \<le> round_money_ceiling x"
  using le_of_int_ceiling[of "x * 100"] by (simp add: round_money_ceiling_def quantize_cents_def)

section \<open>Percentages\<close>

definition percent_complete :: "dec \<Rightarrow> dec \<Rightarrow> dec" where
  "percent_complete tot target =
     (if target \<le> 0 then 0
      else let pct = quantize_cents round_half_up (dmul (ddiv tot target) HUNDRED)
           in if HUNDRED < pct then 100 else if pct < 0 then 0 else pct)"

section \<open>The monthly accrual\<close>

definition accrue_monthly_interest :: "dec \<Rightarrow> dec \<Rightarrow> dec" where
  "accrue_monthly_interest balance annual_rate =
     (if annual_rate \<le> 0 then 0
      else round_money (dmul balance (ddiv annual_rate MONTHS_PER_YEAR)))"

text \<open>
  The other association of the same product, \<open>(balance * rate) / 12\<close>, which the source's commentary
  warns against: it is not the same function.
\<close>

definition accrue_other_association :: "dec \<Rightarrow> dec \<Rightarrow> dec" where
  "accrue_other_association balance annual_rate =
     (if annual_rate \<le> 0 then 0
      else round_money (ddiv (dmul balance annual_rate) MONTHS_PER_YEAR))"

lemma is_cents_accrue [simp]: "is_cents (accrue_monthly_interest b r)"
  by (simp add: accrue_monthly_interest_def)

lemma accrue_nonneg: "0 \<le> b \<Longrightarrow> 0 \<le> accrue_monthly_interest b r"
  by (simp add: accrue_monthly_interest_def MONTHS_PER_YEAR_def ddiv_def dmul_def
      round_money_nonneg fix28_nonneg)

lemma accrue_mono:
  assumes "0 \<le> a" "a \<le> b" "0 \<le> r"
  shows "accrue_monthly_interest a r \<le> accrue_monthly_interest b r"
proof -
  have "0 \<le> ddiv r MONTHS_PER_YEAR" using assms(3) by (simp add: ddiv_def MONTHS_PER_YEAR_def fix28_nonneg)
  then have "dmul a (ddiv r MONTHS_PER_YEAR) \<le> dmul b (ddiv r MONTHS_PER_YEAR)"
    unfolding dmul_def using assms by (intro fix28_mono mult_right_mono) simp_all
  then show ?thesis by (simp add: accrue_monthly_interest_def round_money_mono)
qed

lemma accrue_zero_rate [simp]: "r \<le> 0 \<Longrightarrow> accrue_monthly_interest b r = 0"
  by (simp add: accrue_monthly_interest_def)

lemma accrue_zero_balance [simp]: "accrue_monthly_interest 0 r = 0"
  by (simp add: accrue_monthly_interest_def dmul_def)

section \<open>The allocation of a payment's cash\<close>

record payment_cash_split =
  interest :: dec
  escrow :: dec
  principal :: dec
  excess :: dec
  balance_after :: dec

definition apply_payment_cash :: "dec \<Rightarrow> dec \<Rightarrow> dec \<Rightarrow> dec \<Rightarrow> payment_cash_split" where
  "apply_payment_cash cash balance charged_interest charged_escrow =
     (if balance \<le> 0
      then \<lparr>interest = 0, escrow = 0, principal = 0, excess = cash, balance_after = balance\<rparr>
      else let prin = dsub (dsub cash charged_interest) charged_escrow
           in if balance < prin
              then \<lparr>interest = charged_interest, escrow = charged_escrow, principal = balance,
                    excess = dsub prin balance, balance_after = dsub balance balance\<rparr>
              else \<lparr>interest = charged_interest, escrow = charged_escrow, principal = prin,
                    excess = 0, balance_after = dsub balance prin\<rparr>)"

text \<open>
  \<open>amount x\<close>: a figure in cents of a size every sum the application forms stays below.  A figure of a
  \<open>Numeric(12, 2)\<close> column is one.  Two of them add and subtract without rounding.
\<close>

definition amount :: "dec \<Rightarrow> bool" where
  "amount x = (is_cents x \<and> \<bar>x\<bar> \<le> 10 ^ 20)"

definition in_column :: "dec \<Rightarrow> bool" where
  "in_column x = (is_cents x \<and> \<bar>x\<bar> \<le> MONEY_COLUMN_MAX)"

lemma in_column_amount: "in_column x \<Longrightarrow> amount x"
  by (simp add: in_column_def amount_def MONEY_COLUMN_MAX_def)

lemma amount_cents [simp]: "amount x \<Longrightarrow> is_cents x"
  by (simp add: amount_def)

lemma amount_0 [simp]: "amount 0"
  by (simp add: amount_def)

lemma amount_between:
  assumes "is_cents x" "0 \<le> x" "x \<le> y" "amount y"
  shows "amount x"
  using assms by (simp add: amount_def)

lemma dsub_amount [exact]: "amount x \<Longrightarrow> amount y \<Longrightarrow> dsub x y = x - y"
  by (rule dsub_exact) (auto simp: amount_def abs_le_iff abs_less_iff)

lemma dadd_amount [exact]: "amount x \<Longrightarrow> amount y \<Longrightarrow> dadd x y = x + y"
  by (rule dadd_exact) (auto simp: amount_def abs_le_iff abs_less_iff)

lemma dsub_amount3: "amount x \<Longrightarrow> amount y \<Longrightarrow> amount z \<Longrightarrow> dsub (dsub x y) z = x - y - z"
  by (subst dsub_amount, assumption, assumption, rule dsub_exact)
     (auto simp: amount_def is_cents_diff abs_le_iff abs_less_iff)

lemma dsub_self [simp]: "dsub x x = 0"
  by (simp add: dsub_def)

lemma dsub_nonneg: "y \<le> x \<Longrightarrow> 0 \<le> dsub x y"
  by (simp add: dsub_def fix28_nonneg)

subsection \<open>Allocation\<close>

lemma apply_payment_cash_closed:
  "balance \<le> 0 \<Longrightarrow> apply_payment_cash cash balance i e =
     \<lparr>interest = 0, escrow = 0, principal = 0, excess = cash, balance_after = balance\<rparr>"
  by (simp add: apply_payment_cash_def)

lemma apply_payment_cash_open:
  assumes "0 < balance" "amount cash" "amount balance" "amount i" "amount e"
  shows "apply_payment_cash cash balance i e =
    \<lparr>interest = i, escrow = e, principal = min (cash - i - e) balance,
     excess = max (cash - i - e - balance) 0,
     balance_after = balance - min (cash - i - e) balance\<rparr>"
proof -
  define p where "p = cash - i - e"
  have p: "dsub (dsub cash i) e = p" using assms by (simp add: dsub_amount3 p_def)
  have pc: "is_cents p" using assms by (simp add: p_def is_cents_diff)
  have pb: "\<bar>p - balance\<bar> < 10 ^ 26"
    using assms by (auto simp: amount_def p_def abs_less_iff abs_le_iff)
  have "dsub p balance = p - balance" "dsub balance p = balance - p"
    using pc pb assms by (simp_all add: dsub_exact abs_minus_commute)
  then show ?thesis using assms(1) by (simp add: apply_payment_cash_def p p_def[symmetric] Let_def)
qed

lemma balance_after_nonneg:
  "0 \<le> balance \<Longrightarrow> 0 \<le> balance_after (apply_payment_cash cash balance i e)"
  by (auto simp: apply_payment_cash_def Let_def intro: dsub_nonneg)

lemma excess_closes: "0 < excess (apply_payment_cash cash balance i e) \<Longrightarrow> 0 \<le> balance \<Longrightarrow>
    balance_after (apply_payment_cash cash balance i e) = 0"
  by (auto simp: apply_payment_cash_def Let_def split: if_splits)

text \<open>
  C22: the one allocation rule conserves the cash.  For money-column figures the four economic parts
  of a payment add up to the cash it moved, the balance falls by exactly the principal, and on a
  loan that owed something nothing is refunded unless the loan is closed exactly at zero.
\<close>

theorem apply_payment_cash_conserves:
  assumes "in_column cash" "in_column balance" "in_column i" "in_column e" "0 \<le> balance"
  defines "s \<equiv> apply_payment_cash cash balance i e"
  shows "interest s + escrow s + principal s + excess s = cash \<and>
         balance_after s = balance - principal s \<and>
         0 \<le> balance_after s \<and>
         (0 < excess s \<and> 0 < balance \<longrightarrow> balance_after s = 0 \<and> principal s = balance)"
proof (cases "balance = 0")
  case True
  then show ?thesis by (simp add: s_def apply_payment_cash_closed)
next
  case False
  with assms show ?thesis
    by (simp add: s_def apply_payment_cash_open in_column_amount)
qed

lemma apply_payment_cash_conserves_witness:
  "let s = apply_payment_cash 531.94 1000 12.5 100 in
     interest s + escrow s + principal s + excess s = 531.94 \<and> balance_after s = 1000 - principal s"
proof -
  have c: "in_column 531.94" "in_column 1000" "in_column 12.5" "in_column 100"
    by (simp_all add: in_column_def is_cents_def MONEY_COLUMN_MAX_def)
  show ?thesis using apply_payment_cash_conserves[OF c] by (simp add: Let_def)
qed

subsection \<open>Percentages and rounding\<close>

text \<open>
  a progress bar never receives a width outside 0 to 100, whatever the two figures are, and the
  percentage is in cents of a percent.
\<close>

theorem percent_complete_range:
  "0 \<le> percent_complete tot target \<and> percent_complete tot target \<le> 100 \<and>
   is_cents (percent_complete tot target)"
  by (simp add: percent_complete_def HUNDRED_def Let_def)

text \<open>
  the boundary rounding is round-half-up to cents: the result is in cents, at most half a cent
  away, and a tie goes away from zero (so \<open>2.345\<close> is \<open>2.35\<close> and never the banker's \<open>2.34\<close>).
\<close>

theorem round_money_half_up:
  "is_cents (round_money x) \<and> \<bar>round_money x - x\<bar> \<le> 1/200 \<and>
   (\<bar>round_money x - x\<bar> = 1/200 \<longrightarrow> \<bar>x\<bar> < \<bar>round_money x\<bar>)"
proof -
  have "\<bar>x\<bar> < \<bar>round_money x\<bar>" if "\<bar>round_money x - x\<bar> = 1/200"
  proof (cases "0 \<le> x")
    case True
    have "round_money x = of_int \<lfloor>x * 100 + 1/2\<rfloor> / 100"
      using True by (simp add: round_money_def quantize_cents_def round_half_up_def)
    moreover have "x * 100 + 1/2 < of_int \<lfloor>x * 100 + 1/2\<rfloor> + 1"
      using floor_correct[of "x * 100 + 1/2"] by simp
    ultimately have "x * 100 - 1/2 < round_money x * 100" by simp
    with that have "round_money x = x + 1/200" by linarith
    with True show ?thesis by simp
  next
    case False
    have "round_money x = - of_int \<lfloor>1/2 - x * 100\<rfloor> / 100"
      using False by (simp add: round_money_def quantize_cents_def round_half_up_def)
    moreover have "1/2 - x * 100 < of_int \<lfloor>1/2 - x * 100\<rfloor> + 1"
      using floor_correct[of "1/2 - x * 100"] by simp
    ultimately have "round_money x * 100 < x * 100 + 1/2" by simp
    with that have "round_money x = x - 1/200" by linarith
    with False show ?thesis by simp
  qed
  then show ?thesis using round_money_near[of x] by simp
qed

lemma round_money_half_up_witness:
  "\<bar>2.345 :: dec\<bar> < \<bar>round_money 2.345\<bar> \<and> round_money 2.345 = 2.35 \<and> round_money (-2.345) = -2.35"
proof -
  have v: "round_money 2.345 = 2.35" "round_money (-2.345) = -2.35"
    by (simp_all add: round_money_def quantize_cents_def round_half_up_def)
  then show ?thesis using round_money_half_up[of "2.345"] by simp
qed

subsection \<open>Accrual\<close>

lemma accrual_context_error:
  assumes "\<bar>b\<bar> \<le> 10 ^ 10" "0 \<le> r" "r \<le> 1"
  shows "\<bar>dmul b (ddiv r MONTHS_PER_YEAR) - b * r / 12\<bar> \<le> 1 / 10 ^ 15"
proof -
  define q where "q = ddiv r MONTHS_PER_YEAR"
  have "\<bar>q - r/12\<bar> \<le> \<bar>r/12\<bar> / (2 * 10 ^ 27)"
    using fix28_error[of "r/12"] by (simp add: q_def ddiv_def MONTHS_PER_YEAR_def)
  then have q: "\<bar>q - r/12\<bar> \<le> 1 / 10 ^ 27" and q0: "\<bar>q - r/12\<bar> \<le> 1 / 10"
    using assms by simp_all
  have q1: "\<bar>q\<bar> \<le> 1" using q0 assms(2,3) by linarith
  have "\<bar>b * q - b * r / 12\<bar> = \<bar>b\<bar> * \<bar>q - r/12\<bar>"
    by (simp add: abs_mult[symmetric] right_diff_distrib)
  also have "\<dots> \<le> 10 ^ 10 * (1 / 10 ^ 27)" using assms(1) q by (intro mult_mono) simp_all
  finally have bq: "\<bar>b * q - b * r / 12\<bar> \<le> 1 / 10 ^ 17" by simp
  have "\<bar>b * q\<bar> \<le> 10 ^ 10 * 1" unfolding abs_mult using assms(1) q1 by (intro mult_mono) simp_all
  then have "\<bar>fix28 (b * q) - b * q\<bar> \<le> 1 / 10 ^ 17" using fix28_error[of "b * q"] by simp
  with bq have "\<bar>fix28 (b * q) - b * r / 12\<bar> \<le> 1 / 10 ^ 17 + 1 / 10 ^ 17" by linarith
  then have "\<bar>fix28 (b * q) - b * r / 12\<bar> \<le> 1 / 10 ^ 15" by simp
  then show ?thesis by (simp add: dmul_def q_def[symmetric])
qed

text \<open>
  one month's interest is the exact \<open>balance * rate / 12\<close> rounded once to cents: for a
  money-column balance and a rate of at most 100% the 28-digit context adds less than \<open>10 ^ -15\<close> to
  the half cent of the boundary, and a non-negative balance never accrues negative interest.
\<close>

theorem accrue_monthly_interest_accurate:
  assumes "\<bar>b\<bar> \<le> MONEY_COLUMN_MAX" "0 \<le> r" "r \<le> 1"
  shows "is_cents (accrue_monthly_interest b r) \<and>
         \<bar>accrue_monthly_interest b r - b * r / 12\<bar> \<le> 1/200 + 1 / 10 ^ 15 \<and>
         (0 \<le> b \<longrightarrow> 0 \<le> accrue_monthly_interest b r)"
proof (cases "r = 0")
  case False
  define m where "m = dmul b (ddiv r MONTHS_PER_YEAR)"
  have "\<bar>m - b * r / 12\<bar> \<le> 1 / 10 ^ 15"
    using accrual_context_error[of b r] assms by (simp add: m_def MONEY_COLUMN_MAX_def)
  moreover have "\<bar>round_money m - m\<bar> \<le> 1/200" by (rule round_money_near)
  ultimately have "\<bar>round_money m - b * r / 12\<bar> \<le> 1/200 + 1 / 10 ^ 15" by linarith
  moreover have "accrue_monthly_interest b r = round_money m"
    using False assms(2) by (simp add: accrue_monthly_interest_def m_def)
  ultimately show ?thesis using accrue_nonneg[of b r] by simp
qed simp

lemma accrue_monthly_interest_accurate_witness:
  "\<bar>accrue_monthly_interest 271375.20 0.025 - 271375.20 * 0.025 / 12\<bar> \<le> 1/200 + 1 / 10 ^ 15"
  using accrue_monthly_interest_accurate[of "271375.20" "0.025"] by (simp add: MONEY_COLUMN_MAX_def)

text \<open>
  The association is observable: on the balance and rate the source names, the canonical primitive
  charges a cent less than the other grouping of the same product.
\<close>

lemma accrual_association_differs:
  "accrue_monthly_interest 271375.20 0.025 = 565.36 \<and>
   accrue_other_association 271375.20 0.025 = 565.37"
  by code_simp

section \<open>How far a balance can grow\<close>

text \<open>
  At a rate of at most 36% a balance grows by at most 3.1% a month, whatever is (not) paid; over 600
  months (fifty years) no figure leaves the range in which sums of cents are exact.
\<close>

definition growth :: "nat \<Rightarrow> dec" where
  "growth m = 10 ^ 10 * (1031/1000) ^ m"

lemma growth_Suc: "growth (Suc m) = growth m * 1031/1000"
  by (simp add: growth_def)

lemma growth_ge: "10 ^ 10 \<le> growth m"
  by (simp add: growth_def)

lemma growth_mono: "m \<le> n \<Longrightarrow> growth m \<le> growth n"
  by (simp add: growth_def power_increasing)

lemma growth_600: "m \<le> 600 \<Longrightarrow> growth m \<le> 10 ^ 19"
proof -
  assume m: "m \<le> 600"
  have a: "(1031/1000 :: rat) ^ 10 \<le> 136/100" by (simp add: power_divide)
  have "(1031/1000 :: rat) ^ 600 = (((1031/1000) ^ 10) ^ 10) ^ 6" by (simp flip: power_mult)
  also have "\<dots> \<le> ((136/100) ^ 10) ^ 6" by (intro power_mono a) simp_all
  also have "((136/100 :: rat) ^ 10) \<le> 22" by (simp add: power_divide)
  then have "((136/100 :: rat) ^ 10) ^ 6 \<le> 22 ^ 6" by (intro power_mono) simp_all
  also have "(22 :: rat) ^ 6 \<le> 10 ^ 9" by simp
  finally have "growth 600 \<le> 10 ^ 10 * 10 ^ 9" unfolding growth_def by (intro mult_left_mono) simp_all
  with growth_mono[OF m] show ?thesis by simp
qed

lemma fix28_upper: "0 \<le> x \<Longrightarrow> fix28 x \<le> x * (1 + 1/10 ^ 27)"
proof -
  assume x: "0 \<le> x"
  have "fix28 x \<le> x + \<bar>x\<bar> / (2 * 10 ^ 27)" using fix28_error[of x] by linarith
  also have "\<dots> \<le> x + x / 10 ^ 27" using x by (simp add: field_simps)
  also have "\<dots> = x * (1 + 1/10 ^ 27)" by (simp add: distrib_left)
  finally show ?thesis .
qed

lemma accrual_growth:
  assumes "0 \<le> b" "0 \<le> r" "r \<le> 36/100"
  shows "accrue_monthly_interest b r \<le> b * (305/10000) + 1/200"
proof (cases "r = 0")
  case False
  define q where "q = ddiv r MONTHS_PER_YEAR"
  have q0: "0 \<le> q" using assms by (simp add: q_def ddiv_def MONTHS_PER_YEAR_def fix28_nonneg)
  have "q \<le> r / 12 * (1 + 1/10 ^ 27)"
    using assms fix28_upper[of "r / 12"] by (simp add: q_def ddiv_def MONTHS_PER_YEAR_def)
  also have "\<dots> \<le> 3/100 * (1 + 1/10 ^ 27)" using assms by (intro mult_right_mono) simp_all
  also have "\<dots> \<le> 301/10000" by simp
  finally have q: "q \<le> 301/10000" .
  have "dmul b q \<le> b * q * (1 + 1/10 ^ 27)"
    using assms(1) q0 fix28_upper[of "b * q"] by (simp add: dmul_def)
  also have "\<dots> \<le> b * (301/10000) * (1 + 1/10 ^ 27)"
    using assms(1) q by (intro mult_right_mono mult_left_mono) simp_all
  also have "\<dots> = b * (301/10000 * (1 + 1/10 ^ 27))" by (simp only: mult.assoc)
  also have "\<dots> \<le> b * (305/10000)" using assms(1) by (intro mult_left_mono) simp_all
  finally have "dmul b q \<le> b * (305/10000)" .
  moreover have "accrue_monthly_interest b r = round_money (dmul b q)"
    using False assms(2) by (simp add: accrue_monthly_interest_def q_def)
  moreover have "round_money (dmul b q) \<le> dmul b q + 1/200"
    using round_money_near[of "dmul b q"] by linarith
  ultimately show ?thesis by linarith
qed (use assms in simp)

lemma accrual_step:
  assumes "0 \<le> b" "b \<le> B" "10 \<le> B" "0 \<le> r" "r \<le> 36/100"
  shows "b + accrue_monthly_interest b r \<le> B * 1031/1000"
  using accrual_growth[OF assms(1,4,5)] assms(1-3) by simp

lemma amount_nonneg: "is_cents x \<Longrightarrow> 0 \<le> x \<Longrightarrow> x \<le> 10 ^ 20 \<Longrightarrow> amount x"
  by (simp add: amount_def)

end
