(* ===== verification/Pay_Grid.thy ===== *)
theory Pay_Grid
  imports Business_Days Money
begin

text \<open>
  How often an owner is paid: the cadence values of \<open>app/services/pay_rhythm.py\<close>, the nominal pay grid
  of \<open>pay_calendar/_grid.py\<close> and the bounds \<open>pay_calendar/_eras.py\<close> holds a cadence
  to.  The grid's two functions are the locale \<open>pay_grid\<close>: a
  strictly ascending run of days, and the step of the last one on or before a day.
\<close>

section \<open>Cadences\<close>

definition SHORTEST_MONTH_DAYS :: int where "SHORTEST_MONTH_DAYS = 28"

datatype cadence = Fixed_Days int | Monthly int | Semi_Monthly int int

text \<open>A pair of days of the month is kept in ascending order.\<close>

definition semi_monthly :: "int \<Rightarrow> int \<Rightarrow> cadence" where
  "semi_monthly a b = (if b < a then Semi_Monthly b a else Semi_Monthly a b)"

definition member_of :: "int \<times> int \<Rightarrow> date \<Rightarrow> int" where
  "member_of days anchor = (if d_day anchor = fst days then 0 else 1)"

fun shortest_gap :: "cadence \<Rightarrow> int" where
  "shortest_gap (Fixed_Days days) = days"
| "shortest_gap (Monthly day) = SHORTEST_MONTH_DAYS"
| "shortest_gap (Semi_Monthly lower upper) =
     (let upper_in_february = min upper SHORTEST_MONTH_DAYS
      in min (upper_in_february - lower) (SHORTEST_MONTH_DAYS - upper_in_february + lower))"

record rhythm =
  cadence_of :: cadence
  shift_of :: business_day_shift

record era =
  effective_from :: date
  era_rhythm :: rhythm

section \<open>The nominal grid\<close>

definition fixed_days_payday :: "date \<Rightarrow> int \<Rightarrow> int \<Rightarrow> date" where
  "fixed_days_payday anchor days steps = add_days anchor (steps * days)"

definition fixed_days_steps_to :: "date \<Rightarrow> int \<Rightarrow> date \<Rightarrow> int" where
  "fixed_days_steps_to anchor days day = days_between day anchor div days"

definition monthly_payday :: "date \<Rightarrow> int \<Rightarrow> int \<Rightarrow> date" where
  "monthly_payday anchor day_of_month steps = clamped_day (month_ordinal anchor + steps) day_of_month"

definition monthly_steps_to :: "date \<Rightarrow> int \<Rightarrow> date \<Rightarrow> int" where
  "monthly_steps_to anchor day_of_month day = grid_month_on_or_before day day_of_month - month_ordinal anchor"

definition semi_monthly_payday :: "date \<Rightarrow> int \<times> int \<Rightarrow> int \<Rightarrow> date" where
  "semi_monthly_payday anchor days steps =
     (let i = member_of days anchor + steps; months = i div 2; member = i mod 2
      in clamped_day (month_ordinal anchor + months) (if member = 0 then fst days else snd days))"

definition semi_monthly_steps_to :: "date \<Rightarrow> int \<times> int \<Rightarrow> date \<Rightarrow> int" where
  "semi_monthly_steps_to anchor days day =
     (let (lower, upper) = days;
          index = max (2 * grid_month_on_or_before day upper + 1) (2 * grid_month_on_or_before day lower)
      in index - 2 * month_ordinal anchor - member_of days anchor)"

fun nominal_payday :: "date \<Rightarrow> cadence \<Rightarrow> int \<Rightarrow> date" where
  "nominal_payday anchor (Fixed_Days days) steps = fixed_days_payday anchor days steps"
| "nominal_payday anchor (Monthly day) steps = monthly_payday anchor day steps"
| "nominal_payday anchor (Semi_Monthly lower upper) steps = semi_monthly_payday anchor (lower, upper) steps"

fun cadence_steps_to :: "date \<Rightarrow> cadence \<Rightarrow> date \<Rightarrow> int" where
  "cadence_steps_to anchor (Fixed_Days days) day = fixed_days_steps_to anchor days day"
| "cadence_steps_to anchor (Monthly d) day = monthly_steps_to anchor d day"
| "cadence_steps_to anchor (Semi_Monthly lower upper) day = semi_monthly_steps_to anchor (lower, upper) day"

section \<open>The bounds of a cadence\<close>

definition MIN_CADENCE_DAYS :: int where "MIN_CADENCE_DAYS = 1"
definition MAX_CADENCE_DAYS :: int where "MAX_CADENCE_DAYS = 365"
definition MIN_DAY_OF_MONTH :: int where "MIN_DAY_OF_MONTH = 1"
definition MAX_DAY_OF_MONTH :: int where "MAX_DAY_OF_MONTH = 31"
definition MAX_SEMI_MONTHLY_LOWER_DAY :: int where "MAX_SEMI_MONTHLY_LOWER_DAY = SHORTEST_MONTH_DAYS - 1"

definition refuse_unless :: "py_error \<Rightarrow> bool \<Rightarrow> unit res" where
  "refuse_unless e b = (if b then Inr () else Inl e)"

definition require_day_of_month :: "py_error \<Rightarrow> int \<Rightarrow> unit res" where
  "require_day_of_month e day = refuse_unless e (MIN_DAY_OF_MONTH \<le> day \<and> day \<le> MAX_DAY_OF_MONTH)"

fun check_cadence :: "py_error \<Rightarrow> cadence \<Rightarrow> unit res" where
  "check_cadence e (Fixed_Days days) = refuse_unless e (MIN_CADENCE_DAYS \<le> days \<and> days \<le> MAX_CADENCE_DAYS)"
| "check_cadence e (Monthly day) = require_day_of_month e day"
| "check_cadence e (Semi_Monthly lower upper) =
     all_checked
       [require_day_of_month e lower, require_day_of_month e upper,
        refuse_unless e (lower \<noteq> upper), refuse_unless e (lower \<le> MAX_SEMI_MONTHLY_LOWER_DAY)]"

text \<open>The calendar's check and the write door's: the same bounds, each with its own exception.\<close>

definition validate_cadence :: "cadence \<Rightarrow> unit res" where
  "validate_cadence c = check_cadence PayCalendarError c"

definition reject_out_of_range_cadence :: "cadence \<Rightarrow> unit res" where
  "reject_out_of_range_cadence c = check_cadence ValidationError c"

definition reject_shift_on_short_cadence :: "rhythm \<Rightarrow> unit res" where
  "reject_shift_on_short_cadence r =
     (if shift_of r = No_Shift then Inr ()
      else refuse_unless ValidationError (shortest_collision_free_cadence \<le> shortest_gap (cadence_of r)))"

definition reject_phase_off_grid :: "date \<Rightarrow> cadence \<Rightarrow> unit res" where
  "reject_phase_off_grid first_day c =
     refuse_unless ValidationError (nominal_payday first_day c 0 = first_day)"

text \<open>A cadence value: the pair of a semi-monthly one is in order.\<close>

fun ordered :: "cadence \<Rightarrow> bool" where
  "ordered (Semi_Monthly lower upper) = (lower \<le> upper)"
| "ordered _ = True"

lemma refuse_unless_ok [simp]: "refuse_unless e b = Inr u \<longleftrightarrow> b"
  by (simp add: refuse_unless_def)

lemma ordered_semi_monthly: "ordered (semi_monthly a b)"
  by (simp add: semi_monthly_def)

lemma check_cadence_iff:
  "check_cadence e (Fixed_Days n) = Inr () \<longleftrightarrow> 1 \<le> n \<and> n \<le> 365"
  "check_cadence e (Monthly k) = Inr () \<longleftrightarrow> 1 \<le> k \<and> k \<le> 31"
  "check_cadence e (Semi_Monthly a b) = Inr () \<longleftrightarrow> 1 \<le> a \<and> a \<le> 27 \<and> 1 \<le> b \<and> b \<le> 31 \<and> a \<noteq> b"
  by (auto simp: require_day_of_month_def MIN_CADENCE_DAYS_def MAX_CADENCE_DAYS_def MIN_DAY_OF_MONTH_def
      MAX_DAY_OF_MONTH_def MAX_SEMI_MONTHLY_LOWER_DAY_def SHORTEST_MONTH_DAYS_def)
section \<open>What a pay grid is\<close>

text \<open>
  Every reader of a grid rests on this contract: days at least \<open>gap\<close> apart, in order, and the step of
  the last one on or before any day.\<close>

locale pay_grid =
  fixes payday :: "int \<Rightarrow> date" and steps_to :: "date \<Rightarrow> int" and gap :: int
  assumes payday_valid: "valid_date (payday k)"
    and gap_pos: "0 < gap"
    and payday_gap: "day_number (payday k) + gap \<le> day_number (payday (k + 1))"
    and steps_to_le: "valid_date d \<Longrightarrow> payday (steps_to d) \<le> d"
    and steps_to_less: "valid_date d \<Longrightarrow> d < payday (steps_to d + 1)"
begin

lemma payday_add: "day_number (payday k) + gap * int n \<le> day_number (payday (k + int n))"
proof (induction n)
  case (Suc n)
  then show ?case using payday_gap[of "k + int n"] by (simp add: algebra_simps)
qed simp

lemma payday_later: "j \<le> k \<Longrightarrow> day_number (payday j) + gap * (k - j) \<le> day_number (payday k)"
  using payday_add[of j "nat (k - j)"] by simp

lemma payday_less_iff: "payday j < payday k \<longleftrightarrow> j < k"
proof -
  have "day_number (payday i) < day_number (payday l)" if "i < l" for i l
  proof -
    have "0 < gap * (l - i)" using that gap_pos by (intro mult_pos_pos) simp_all
    then show ?thesis using payday_later[of i l] that by linarith
  qed
  then have "day_number (payday j) < day_number (payday k) \<longleftrightarrow> j < k"
    by (cases j k rule: linorder_cases) fastforce+
  then show ?thesis using payday_valid by (simp add: day_number_less_iff)
qed

lemma payday_le_iff: "payday j \<le> payday k \<longleftrightarrow> j \<le> k"
  using payday_less_iff[of k j] by auto

lemma payday_eq_iff: "payday j = payday k \<longleftrightarrow> j = k"
  using payday_le_iff[of j k] payday_le_iff[of k j] by auto

lemma le_steps_to_iff: "valid_date d \<Longrightarrow> payday k \<le> d \<longleftrightarrow> k \<le> steps_to d"
proof
  assume d: "valid_date d" "payday k \<le> d"
  then have "payday k < payday (steps_to d + 1)" using steps_to_less[of d] by simp
  then show "k \<le> steps_to d" by (simp add: payday_less_iff)
next
  assume d: "valid_date d" "k \<le> steps_to d"
  then have "payday k \<le> payday (steps_to d)" by (simp add: payday_le_iff)
  then show "payday k \<le> d" using steps_to_le[OF d(1)] by (rule order_trans)
qed

lemma steps_to_payday: "steps_to (payday k) = k"
  using le_steps_to_iff[OF payday_valid, of _ k] payday_le_iff by (metis order_antisym order_refl)

end

subsection \<open>The three kinds\<close>

text \<open>Days of consecutive months, by their numbers.\<close>

definition month_days :: "int \<Rightarrow> int" where
  "month_days k = days_in_month (k div 12) (k mod 12 + 1)"

definition month_base :: "int \<Rightarrow> int" where
  "month_base k = days_before_year (k div 12) + days_before_month (k div 12) (k mod 12 + 1)"

lemma month_days_bounds: "28 \<le> month_days k" "month_days k \<le> 31"
  using days_in_month_bounds[of "k div 12" "k mod 12 + 1"] by (simp_all add: month_days_def)

lemma day_number_clamped: "day_number (clamped_day k n) = month_base k + min n (month_days k)"
  by (simp add: day_number_def clamped_day_def Let_def month_base_def month_days_def)

lemma month_base_step: "month_base (k + 1) = month_base k + month_days k"
proof -
  have k: "k + 1 = 12 * (k div 12) + (k mod 12 + 1)" by simp
  show ?thesis
  proof (cases "k mod 12 = 11")
    case True
    then have "k + 1 = 12 * (k div 12 + 1) + 0" using k by simp
    then have "(k + 1) div 12 = k div 12 + 1" "(k + 1) mod 12 = 0"
      using int_div_pos_eq[of "k + 1" 12 "k div 12 + 1" 0] int_mod_pos_eq[of "k + 1" 12 "k div 12 + 1" 0] by simp_all
    moreover have "days_before_month (k div 12) 12 + days_in_month (k div 12) 12 = 365 + (if is_leap (k div 12) then 1 else 0)"
      using days_before_month_step[of 12 "k div 12"] days_before_month_13[of "k div 12"] by simp
    ultimately show ?thesis
      using True by (simp add: month_base_def month_days_def days_before_year_step)
  next
    case False
    then have r: "0 \<le> k mod 12 + 1" "k mod 12 + 1 < 12" using pos_mod_bound[of 12 k] pos_mod_sign[of 12 k] by linarith+
    have "(k + 1) div 12 = k div 12" "(k + 1) mod 12 = k mod 12 + 1"
      using int_div_pos_eq[OF k r] int_mod_pos_eq[OF k r] by simp_all
    then show ?thesis
      using days_before_month_step[of "k mod 12 + 1" "k div 12"] by (simp add: month_base_def month_days_def add.commute)
  qed
qed

lemma fixed_days_grid:
  assumes "valid_date anchor" "1 \<le> n"
  shows "pay_grid (fixed_days_payday anchor n) (fixed_days_steps_to anchor n) n"
proof
  fix d assume d: "valid_date d"
  define x where "x = days_between d anchor"
  have m: "0 \<le> x mod n" "x mod n < n" "x div n * n + x mod n = x" using assms(2) by simp_all
  then have "x div n * n \<le> x" by linarith
  moreover have "x < (x div n + 1) * n" unfolding distrib_right mult_1 using m by linarith
  ultimately have "(days_between d anchor div n) * n \<le> days_between d anchor"
    "days_between d anchor < (days_between d anchor div n + 1) * n" by (simp_all only: x_def)
  then show "fixed_days_payday anchor n (fixed_days_steps_to anchor n d) \<le> d"
    "d < fixed_days_payday anchor n (fixed_days_steps_to anchor n d + 1)"
    using assms(1) d by (simp_all add: fixed_days_payday_def fixed_days_steps_to_def day_number_le_iff
      day_number_less_iff days_between_def)
qed (use assms in \<open>simp_all add: fixed_days_payday_def algebra_simps\<close>)

lemma monthly_grid_is_pay_grid:
  assumes "1 \<le> n" "n \<le> 31"
  shows "pay_grid (monthly_payday anchor n) (monthly_steps_to anchor n) SHORTEST_MONTH_DAYS"
proof
  fix k
  show "day_number (monthly_payday anchor n k) + SHORTEST_MONTH_DAYS \<le> day_number (monthly_payday anchor n (k + 1))"
    using assms month_base_step[of "month_ordinal anchor + k"] month_days_bounds[of "month_ordinal anchor + k"]
      month_days_bounds[of "month_ordinal anchor + k + 1"]
    by (auto simp: monthly_payday_def day_number_clamped SHORTEST_MONTH_DAYS_def add.assoc[symmetric])
next
  fix d assume d: "valid_date d"
  show "monthly_payday anchor n (monthly_steps_to anchor n d) \<le> d"
    using d by (simp add: monthly_payday_def monthly_steps_to_def on_or_before_iff)
  show "d < monthly_payday anchor n (monthly_steps_to anchor n d + 1)"
    using d by (simp add: monthly_payday_def monthly_steps_to_def after_iff grid_month_after_def)
qed (use assms in \<open>simp_all add: monthly_payday_def valid_clamped_day SHORTEST_MONTH_DAYS_def\<close>)
text \<open>Half-months, numbered from the year 0: twice the month and which of the pair.\<close>

definition half_day :: "int \<Rightarrow> int \<Rightarrow> int \<Rightarrow> date" where
  "half_day lower upper h = clamped_day (h div 2) (if h mod 2 = 0 then lower else upper)"

lemma half_day_simps [simp]:
  "half_day lower upper (2 * q) = clamped_day q lower"
  "half_day lower upper (2 * q + 1) = clamped_day q upper"
  by (simp_all add: half_day_def)

lemma half_day_next [simp]:
  "half_day lower upper (2 * q + 2) = clamped_day (q + 1) lower"
  "half_day lower upper (2 + 2 * q) = clamped_day (q + 1) lower"
  using half_day_simps(1)[of lower upper "q + 1"] by (simp_all only: distrib_left mult_1_right add.commute)

lemma half_cases: obtains q where "h = 2 * q" | q where "h = 2 * q + (1::int)"
  by (metis evenE oddE)

lemma semi_monthly_payday_half:
  "semi_monthly_payday anchor (lower, upper) steps =
     half_day lower upper (2 * month_ordinal anchor + (member_of (lower, upper) anchor + steps))"
  by (simp add: semi_monthly_payday_def half_day_def Let_def)

lemma semi_monthly_grid_is_pay_grid:
  assumes "1 \<le> lower" "lower \<le> 27" "lower < upper" "upper \<le> 31"
  shows "pay_grid (semi_monthly_payday anchor (lower, upper)) (semi_monthly_steps_to anchor (lower, upper))
    (shortest_gap (Semi_Monthly lower upper))"
proof
  have gap: "day_number (half_day lower upper h) + shortest_gap (Semi_Monthly lower upper) \<le> day_number (half_day lower upper (h + 1))" for h
  proof (cases h rule: half_cases)
    case (1 q)
    then show ?thesis using assms month_days_bounds[of q] by (auto simp: day_number_clamped SHORTEST_MONTH_DAYS_def Let_def)
  next
    case (2 q)
    then have "half_day lower upper (h + 1) = clamped_day (q + 1) lower" by simp
    then show ?thesis using 2 assms month_days_bounds[of q] month_days_bounds[of "q + 1"]
      by (auto simp: day_number_clamped month_base_step SHORTEST_MONTH_DAYS_def Let_def)
  qed
  then show "day_number (semi_monthly_payday anchor (lower, upper) k) + shortest_gap (Semi_Monthly lower upper)
      \<le> day_number (semi_monthly_payday anchor (lower, upper) (k + 1))" for k
    by (simp add: semi_monthly_payday_half add.assoc[symmetric])
  show positive: "0 < shortest_gap (Semi_Monthly lower upper)"
    using assms by (auto simp: SHORTEST_MONTH_DAYS_def Let_def)
  have valid: "valid_date (half_day lower upper h)" for h
    using assms by (simp add: half_day_def valid_clamped_day)
  then show "valid_date (semi_monthly_payday anchor (lower, upper) k)" for k by (simp add: semi_monthly_payday_half)
  fix d assume d: "valid_date d"
  define a b where "a = grid_month_on_or_before d lower" and "b = grid_month_on_or_before d upper"
  have in_order: "half_day lower upper h < half_day lower upper (h + 1)" for h
    using gap[of h] positive valid by (simp add: day_number_less_iff)
  have apart: "clamped_day q lower < clamped_day q upper" "clamped_day q upper < clamped_day (q + 1) lower" for q
    using in_order[of "2 * q"] in_order[of "2 * q + 1"] by simp_all
  have "clamped_day b upper \<le> d" using d by (simp add: on_or_before_iff b_def)
  then have "clamped_day b lower \<le> d" using apart(1)[of b] by simp
  then have ba: "b \<le> a" using d by (simp add: on_or_before_iff a_def)
  have "\<not> clamped_day (b + 1) upper \<le> d" using d by (simp add: on_or_before_iff b_def)
  then have "\<not> clamped_day (b + 1 + 1) lower \<le> d" using apart(2)[of "b + 1"] by simp
  then have ab: "a \<le> b + 1" using d by (simp add: on_or_before_iff a_def)
  have steps: "2 * month_ordinal anchor + (member_of (lower, upper) anchor + semi_monthly_steps_to anchor (lower, upper) d)
      = max (2 * b + 1) (2 * a)"
    by (simp add: semi_monthly_steps_to_def a_def b_def)
  have "half_day lower upper (max (2 * b + 1) (2 * a)) \<le> d \<and> d < half_day lower upper (max (2 * b + 1) (2 * a) + 1)"
  proof (cases "a = b")
    case True
    then have "max (2 * b + 1) (2 * a) = 2 * b + 1" by simp
    moreover have "d < clamped_day (b + 1) lower" using d True by (simp add: on_or_before_iff not_le[symmetric] a_def)
    ultimately show ?thesis using \<open>clamped_day b upper \<le> d\<close> by simp
  next
    case False
    then have "max (2 * b + 1) (2 * a) = 2 * a" "b < a" using ab ba by simp_all
    moreover have "clamped_day a lower \<le> d" using d by (simp add: on_or_before_iff a_def)
    moreover have "d < clamped_day a upper" using d \<open>b < a\<close> by (simp add: on_or_before_iff not_le[symmetric] b_def)
    ultimately show ?thesis by simp
  qed
  then show "semi_monthly_payday anchor (lower, upper) (semi_monthly_steps_to anchor (lower, upper) d) \<le> d"
    "d < semi_monthly_payday anchor (lower, upper) (semi_monthly_steps_to anchor (lower, upper) d + 1)"
    unfolding semi_monthly_payday_half by (simp_all only: add.assoc[symmetric] steps[unfolded add.assoc[symmetric]])
qed
section \<open>Eras\<close>

text \<open>
  An era a write door admits: a calendar date on its own grid, a cadence in its bounds, and a convention
  the cadence is long enough to carry.\<close>

definition cadence_ok :: "cadence \<Rightarrow> bool" where
  "cadence_ok c \<longleftrightarrow> ordered c \<and> validate_cadence c = Inr ()"

definition rhythm_ok :: "rhythm \<Rightarrow> bool" where
  "rhythm_ok r \<longleftrightarrow> cadence_ok (cadence_of r) \<and> reject_shift_on_short_cadence r = Inr ()"

lemma nominal_eta:
  "nominal_payday a (Fixed_Days n) = fixed_days_payday a n" "cadence_steps_to a (Fixed_Days n) = fixed_days_steps_to a n"
  "nominal_payday a (Monthly n) = monthly_payday a n" "cadence_steps_to a (Monthly n) = monthly_steps_to a n"
  "nominal_payday a (Semi_Monthly l u) = semi_monthly_payday a (l, u)"
  "cadence_steps_to a (Semi_Monthly l u) = semi_monthly_steps_to a (l, u)"
  by (simp_all add: fun_eq_iff)

lemma nominal_grid:
  assumes "valid_date anchor" "cadence_ok c"
  shows "pay_grid (nominal_payday anchor c) (cadence_steps_to anchor c) (shortest_gap c)"
proof (cases c)
  case (Fixed_Days n)
  then show ?thesis using fixed_days_grid[of anchor n] assms
    by (simp add: cadence_ok_def validate_cadence_def check_cadence_iff nominal_eta del: check_cadence.simps)
next
  case (Monthly n)
  then show ?thesis using monthly_grid_is_pay_grid[of n anchor] assms
    by (simp add: cadence_ok_def validate_cadence_def check_cadence_iff nominal_eta del: check_cadence.simps)
next
  case (Semi_Monthly a b)
  then show ?thesis using semi_monthly_grid_is_pay_grid[of a b anchor] assms
    by (simp add: cadence_ok_def validate_cadence_def check_cadence_iff nominal_eta del: check_cadence.simps shortest_gap.simps)
qed

text \<open>
  C33: the nominal grid and its inverse, for every kind of cadence.  The days of a grid ascend, never
  closer than the cadence's shortest gap; the step of a day is that of the last grid day on or before it,
  below the anchor too; and the step of a grid day is its own.\<close>

theorem grid_and_inverse:
  assumes "valid_date anchor" "ordered c" "validate_cadence c = Inr ()" "valid_date d"
  shows "(nominal_payday anchor c k \<le> d \<longleftrightarrow> k \<le> cadence_steps_to anchor c d) \<and>
    nominal_payday anchor c (cadence_steps_to anchor c d) \<le> d \<and>
    d < nominal_payday anchor c (cadence_steps_to anchor c d + 1) \<and>
    cadence_steps_to anchor c (nominal_payday anchor c k) = k \<and>
    (j < k \<longrightarrow> shortest_gap c * (k - j) \<le> days_between (nominal_payday anchor c k) (nominal_payday anchor c j)) \<and>
    0 < shortest_gap c"
proof -
  note grid = nominal_grid[OF assms(1), of c, unfolded cadence_ok_def, OF conjI[OF assms(2,3)]]
  show ?thesis
    using pay_grid.le_steps_to_iff[OF grid assms(4)] pay_grid.steps_to_le[OF grid assms(4)]
      pay_grid.steps_to_less[OF grid assms(4)] pay_grid.steps_to_payday[OF grid] pay_grid.gap_pos[OF grid]
      pay_grid.payday_later[OF grid, of j k]
    by (auto simp: days_between_def)
qed

lemma grid_and_inverse_witness:
  "cadence_steps_to (Date 2026 2 28) (Monthly 31) (Date 2026 4 15) = 1 \<and>
   nominal_payday (Date 2026 2 28) (Monthly 31) 1 = Date 2026 3 31"
proof -
  have "nominal_payday (Date 2026 2 28) (Monthly 31) 1 = Date 2026 3 31"
    "nominal_payday (Date 2026 2 28) (Monthly 31) 2 = Date 2026 4 30"
    by (simp_all add: monthly_payday_def month_ordinal_def clamped_day_def days_in_month_def is_leap_def)
  moreover have "valid_date (Date 2026 2 28)" "valid_date (Date 2026 4 15)" "validate_cadence (Monthly 31) = Inr ()"
    by (simp_all add: valid_Date days_in_month_def validate_cadence_def check_cadence_iff del: check_cadence.simps)
  then have "nominal_payday (Date 2026 2 28) (Monthly 31) k \<le> Date 2026 4 15
      \<longleftrightarrow> k \<le> cadence_steps_to (Date 2026 2 28) (Monthly 31) (Date 2026 4 15)" for k
    using grid_and_inverse[of "Date 2026 2 28" "Monthly 31" "Date 2026 4 15" k k] by simp
  from this[of 1] this[of 2] calculation show ?thesis by (simp add: less_eq_date_def del: nominal_payday.simps cadence_steps_to.simps)
qed

section \<open>A grid whose paydays are displaced\<close>

locale displaced_grid = pay_grid payday steps_to gap + displacement move reach
  for payday :: "int \<Rightarrow> date" and steps_to :: "date \<Rightarrow> int" and gap :: int
    and move :: "date \<Rightarrow> date" and reach :: int +
  assumes reach_gap: "reach < gap"
begin

abbreviation paid :: "int \<Rightarrow> date" where
  "paid k \<equiv> move (payday k)"

lemma paid_valid: "valid_date (paid k)"
  by (simp add: move_valid payday_valid)

lemma paid_less_iff: "paid j < paid k \<longleftrightarrow> j < k"
proof -
  have "paid i < paid l" if "i < l" for i l
  proof -
    have "gap \<le> gap * (l - i)" using gap_pos that by (simp add: mult_le_cancel_left1)
    then have "reach < days_between (payday l) (payday i)"
      using payday_later[of i l] that reach_gap by (simp add: days_between_def)
    then show ?thesis using move_apart payday_valid by simp
  qed
  then show ?thesis by (cases j k rule: linorder_cases) fastforce+
qed

lemma paid_le_iff: "paid j \<le> paid k \<longleftrightarrow> j \<le> k"
  using paid_less_iff[of k j] by auto

lemma paid_near: "\<bar>day_number (paid k) - day_number (payday k)\<bar> \<le> reach"
  using move_near[OF payday_valid, of k] by (simp add: days_between_def)

text \<open>One step below the estimate is paid before the day, two steps above it after.\<close>

lemma paid_below: "valid_date d \<Longrightarrow> paid (steps_to d - 1) < d"
proof -
  assume d: "valid_date d"
  have "day_number (payday (steps_to d)) \<le> day_number d"
    using steps_to_le[OF d] payday_valid d by (simp add: day_number_le_iff)
  then have "day_number (paid (steps_to d - 1)) < day_number d"
    using payday_gap[of "steps_to d - 1"] paid_near[of "steps_to d - 1"] reach_gap by simp
  then show ?thesis using paid_valid d by (simp add: day_number_less_iff)
qed

lemma paid_above: "valid_date d \<Longrightarrow> d < paid (steps_to d + 2)"
proof -
  assume d: "valid_date d"
  have "day_number d < day_number (payday (steps_to d + 1))"
    using steps_to_less[OF d] payday_valid d by (simp add: day_number_less_iff)
  then have "day_number d < day_number (paid (steps_to d + 2))"
    using payday_gap[of "steps_to d + 1"] paid_near[of "steps_to d + 2"] reach_gap by (simp add: add.commute)
  then show ?thesis using paid_valid d by (simp add: day_number_less_iff)
qed

end

end
