(* ===== verification/Pay_Eras.thy ===== *)
theory Pay_Eras
  imports Pay_Grid
begin

text \<open>
  \<open>app/services/pay_calendar/_eras.py\<close> and the era rule of \<open>pay_rhythm.py\<close>: where an era's paydays
  fall once displaced, which planned payday a recorded one stands for, where one era stops and the next
  starts, and the plan past and below the record.
\<close>

section \<open>The producer\<close>

definition projected_payday :: "date \<Rightarrow> rhythm \<Rightarrow> int \<Rightarrow> date" where
  "projected_payday anchor r steps =
     shift_to_business_day (nominal_payday anchor (cadence_of r) steps) (shift_of r)"

definition first_payday_of :: "era \<Rightarrow> date" where
  "first_payday_of e = projected_payday (effective_from e) (era_rhythm e) 0"

text \<open>The era covering a day, in nominal days and in cash days.\<close>

fun era_covering_loop :: "era \<Rightarrow> era list \<Rightarrow> date \<Rightarrow> era" where
  "era_covering_loop covering [] day = covering"
| "era_covering_loop covering (e # es) day =
     (if day < effective_from e then covering else era_covering_loop e es day)"

definition era_covering :: "era list \<Rightarrow> date \<Rightarrow> era" where
  "era_covering eras day = era_covering_loop (hd eras) eras day"

fun era_index_loop :: "nat \<Rightarrow> nat \<Rightarrow> era list \<Rightarrow> date \<Rightarrow> nat" where
  "era_index_loop covering index [] day = covering"
| "era_index_loop covering index (e # es) day =
     (if day < first_payday_of e then covering else era_index_loop index (Suc index) es day)"

definition era_index_at :: "era list \<Rightarrow> date \<Rightarrow> nat" where
  "era_index_at eras day = era_index_loop 0 0 eras day"

definition step_after :: "date \<Rightarrow> rhythm \<Rightarrow> date \<Rightarrow> int res" where
  "step_after anchor r day =
     (let estimate = cadence_steps_to anchor (cadence_of r) day
      in case find (\<lambda>steps. day < projected_payday anchor r steps) [estimate .. estimate + 2] of
           Some steps \<Rightarrow> Inr steps
         | None \<Rightarrow> Inl PayCalendarError)"

section \<open>A grid an era pays on\<close>

definition grid_ok :: "era \<Rightarrow> bool" where
  "grid_ok e \<longleftrightarrow> valid_date (effective_from e) \<and> rhythm_ok (era_rhythm e)"

lemma grid_ok_exists: "grid_ok \<lparr>effective_from = Date 2026 1 2, era_rhythm = \<lparr>cadence_of = Fixed_Days 14, shift_of = No_Shift\<rparr>\<rparr>"
  by (simp add: grid_ok_def rhythm_ok_def cadence_ok_def validate_cadence_def check_cadence_iff valid_Date
      days_in_month_def reject_shift_on_short_cadence_def del: check_cadence.simps)

typedef sound_era = "{e. grid_ok e}"
  morphisms era_of Sound_Era
  using grid_ok_exists by blast

lemma displacement_of_shift:
  "displacement (\<lambda>d. shift_to_business_day d s) (if s = No_Shift then 0 else 3)"
proof (cases "s = No_Shift")
  case True
  then show ?thesis by unfold_locales (simp_all add: shift_to_business_day_def days_between_def)
next
  case False
  then show ?thesis using shifted.displacement_axioms[of s] by simp
qed

lemma rhythm_reach:
  assumes "rhythm_ok r"
  shows "(if shift_of r = No_Shift then 0 else 3) < shortest_gap (cadence_of r)"
  using assms pay_grid.gap_pos[OF nominal_grid, of "Date 2000 1 1" "cadence_of r"]
  by (auto simp: rhythm_ok_def reject_shift_on_short_cadence_def shortest_cadence_4 valid_Date days_in_month_def
      split: if_splits)

interpretation paydays: displaced_grid
  "nominal_payday (effective_from (era_of e)) (cadence_of (era_rhythm (era_of e)))"
  "cadence_steps_to (effective_from (era_of e)) (cadence_of (era_rhythm (era_of e)))"
  "shortest_gap (cadence_of (era_rhythm (era_of e)))"
  "\<lambda>d. shift_to_business_day d (shift_of (era_rhythm (era_of e)))"
  "if shift_of (era_rhythm (era_of e)) = No_Shift then 0 else 3"
  for e
proof -
  have e: "valid_date (effective_from (era_of e))" "rhythm_ok (era_rhythm (era_of e))"
    using era_of[of e] by (simp_all add: grid_ok_def)
  show "displaced_grid (nominal_payday (effective_from (era_of e)) (cadence_of (era_rhythm (era_of e))))
      (cadence_steps_to (effective_from (era_of e)) (cadence_of (era_rhythm (era_of e))))
      (shortest_gap (cadence_of (era_rhythm (era_of e))))
      (\<lambda>d. shift_to_business_day d (shift_of (era_rhythm (era_of e))))
      (if shift_of (era_rhythm (era_of e)) = No_Shift then 0 else 3)"
    using e nominal_grid[OF e(1)] displacement_of_shift[of "shift_of (era_rhythm (era_of e))"] rhythm_reach[OF e(2)]
    by (auto simp: displaced_grid_def displaced_grid_axioms_def rhythm_ok_def)
qed

text \<open>The paydays of an era, as the code computes them.\<close>

abbreviation era_payday :: "era \<Rightarrow> int \<Rightarrow> date" where
  "era_payday e \<equiv> projected_payday (effective_from e) (era_rhythm e)"

abbreviation era_steps_to :: "era \<Rightarrow> date \<Rightarrow> int" where
  "era_steps_to e \<equiv> cadence_steps_to (effective_from e) (cadence_of (era_rhythm e))"

lemma era_payday_facts:
  assumes "grid_ok e"
  shows "valid_date (era_payday e k)" "era_payday e j < era_payday e k \<longleftrightarrow> j < k"
    "era_payday e j \<le> era_payday e k \<longleftrightarrow> j \<le> k"
    "valid_date d \<Longrightarrow> era_payday e (era_steps_to e d - 1) < d"
    "valid_date d \<Longrightarrow> d < era_payday e (era_steps_to e d + 2)"
  using paydays.paid_valid[of "Sound_Era e" k] paydays.paid_less_iff[of "Sound_Era e" j k]
    paydays.paid_le_iff[of "Sound_Era e" j k] paydays.paid_below[of d "Sound_Era e"]
    paydays.paid_above[of d "Sound_Era e"] assms
  by (simp_all add: projected_payday_def Sound_Era_inverse)
lemma step_after_finds:
  assumes "grid_ok e" "valid_date d"
  shows "\<exists>s. step_after (effective_from e) (era_rhythm e) d = Inr s \<and> d < era_payday e s \<and> era_payday e (s - 1) \<le> d"
proof -
  let ?est = "era_steps_to e d"
  have "[?est .. ?est + 2] = [?est, ?est + 1, ?est + 2]" by (simp add: upto.simps)
  then show ?thesis
    using era_payday_facts(4,5)[OF assms] by (auto simp: step_after_def Let_def add.commute)
qed

lemma step_after_iff:
  assumes "grid_ok e" "valid_date d" "step_after (effective_from e) (era_rhythm e) d = Inr s"
  shows "d < era_payday e k \<longleftrightarrow> s \<le> k"
proof -
  have s: "d < era_payday e s" "era_payday e (s - 1) \<le> d"
    using step_after_finds[OF assms(1,2)] assms(3) by auto
  show ?thesis
  proof
    assume "d < era_payday e k"
    with s(2) have "era_payday e (s - 1) < era_payday e k" by simp
    then show "s \<le> k" using era_payday_facts(2)[OF assms(1)] by simp
  next
    assume "s \<le> k"
    then have "era_payday e s \<le> era_payday e k" using era_payday_facts(3)[OF assms(1)] by simp
    with s(1) show "d < era_payday e k" by simp
  qed
qed

section \<open>The planned payday a record stands for\<close>

definition payday_distance :: "date \<Rightarrow> rhythm \<Rightarrow> date \<Rightarrow> int \<Rightarrow> int" where
  "payday_distance anchor r payday steps = \<bar>days_between (projected_payday anchor r steps) payday\<bar>"

text \<open>
  The scan of the source, which stops at the first step further than the last.  Its guard also asks for
  the validated era and the calendar day it is called with, so that it is known to end.\<close>

lemma distance_grows:
  assumes "grid_ok e" "valid_date d" "d < era_payday e j" "j < k"
  shows "payday_distance (effective_from e) (era_rhythm e) d j < payday_distance (effective_from e) (era_rhythm e) d k"
proof -
  have "day_number (era_payday e j) < day_number (era_payday e k)" "day_number d < day_number (era_payday e j)"
    using assms era_payday_facts(1,2)[OF assms(1)] by (simp_all add: day_number_less_iff[symmetric])
  then show ?thesis by (simp add: payday_distance_def days_between_def)
qed

lemma distance_falls:
  assumes "grid_ok e" "valid_date d" "era_payday e k \<le> d" "j < k"
  shows "payday_distance (effective_from e) (era_rhythm e) d k < payday_distance (effective_from e) (era_rhythm e) d j"
proof -
  have "day_number (era_payday e j) < day_number (era_payday e k)" "day_number (era_payday e k) \<le> day_number d"
    using assms era_payday_facts(1,2)[OF assms(1)] by (simp_all add: day_number_less_iff[symmetric] day_number_le_iff[symmetric])
  then show ?thesis by (simp add: payday_distance_def days_between_def)
qed

function matched_scan :: "date \<Rightarrow> rhythm \<Rightarrow> date \<Rightarrow> int \<Rightarrow> int" where
  "matched_scan anchor r payday nearest =
     (if grid_ok \<lparr>effective_from = anchor, era_rhythm = r\<rparr> \<and> valid_date payday \<and>
         payday_distance anchor r payday (nearest + 1) \<le> payday_distance anchor r payday nearest
      then matched_scan anchor r payday (nearest + 1) else nearest)"
  by pat_completeness auto
termination
proof (relation "measure (\<lambda>(a, r, d, k). nat (cadence_steps_to a (cadence_of r) d + 2 - k))", simp, clarify)
  fix anchor r payday and nearest :: int
  let ?e = "\<lparr>effective_from = anchor, era_rhythm = r\<rparr>" and ?est = "cadence_steps_to anchor (cadence_of r) payday"
  assume h: "grid_ok ?e" "valid_date payday"
    "payday_distance anchor r payday (nearest + 1) \<le> payday_distance anchor r payday nearest"
  have "nearest < ?est + 2"
  proof (rule ccontr)
    assume "\<not> ?thesis"
    then have "era_payday ?e (?est + 2) \<le> era_payday ?e nearest" using era_payday_facts(3)[OF h(1)] by simp
    then have "payday < era_payday ?e nearest" using era_payday_facts(5)[OF h(1,2)] by simp
    then show False using distance_grows[OF h(1,2), of nearest "nearest + 1"] h(3) by simp
  qed
  then show "((anchor, r, payday, nearest + 1), anchor, r, payday, nearest)
      \<in> measure (\<lambda>(a, r, d, k). nat (cadence_steps_to a (cadence_of r) d + 2 - k))" by simp
qed

declare matched_scan.simps [simp del]

definition matched_step :: "date \<Rightarrow> rhythm \<Rightarrow> date \<Rightarrow> int" where
  "matched_step anchor r payday = matched_scan anchor r payday (cadence_steps_to anchor (cadence_of r) payday - 1)"

lemma matched_scan_nearest:
  assumes "grid_ok \<lparr>effective_from = a, era_rhythm = r\<rparr>" "valid_date d"
    and "\<forall>k < nearest. payday_distance a r d nearest \<le> payday_distance a r d k"
  shows "(\<forall>k < matched_scan a r d nearest. payday_distance a r d (matched_scan a r d nearest) \<le> payday_distance a r d k) \<and>
    (\<forall>k > matched_scan a r d nearest. payday_distance a r d (matched_scan a r d nearest) < payday_distance a r d k)"
  using assms
proof (induction a r d nearest rule: matched_scan.induct)
  case (1 a r d n)
  let ?e = "\<lparr>effective_from = a, era_rhythm = r\<rparr>" and ?dist = "payday_distance a r d"
  show ?case
  proof (cases "?dist (n + 1) \<le> ?dist n")
    case True
    have "?dist (n + 1) \<le> ?dist k" if "k < n + 1" for k
      using True 1(4)[rule_format, of k] that by (cases "k = n") auto
    then show ?thesis using 1(1)[OF conjI[OF 1(2) conjI[OF 1(3) True]] 1(2,3)] True 1(2,3)
      by (simp add: matched_scan.simps[of a r d n])
  next
    case False
    have "d < era_payday ?e (n + 1)"
      using distance_falls[OF 1(2,3), of "n + 1" n] False by force
    then have "?dist (n + 1) \<le> ?dist k" if "n < k" for k
      using distance_grows[OF 1(2,3), of "n + 1" k] that by (cases "n + 1 = k") auto
    then show ?thesis using False 1(4) by (force simp: matched_scan.simps[of a r d n])
  qed
qed

lemma matched_step_nearest:
  assumes "grid_ok e" "valid_date d"
  defines "m \<equiv> matched_step (effective_from e) (era_rhythm e) d"
  shows "payday_distance (effective_from e) (era_rhythm e) d m \<le> payday_distance (effective_from e) (era_rhythm e) d k"
    "m < k \<Longrightarrow> payday_distance (effective_from e) (era_rhythm e) d m < payday_distance (effective_from e) (era_rhythm e) d k"
proof -
  have e: "\<lparr>effective_from = effective_from e, era_rhythm = era_rhythm e\<rparr> = e" by simp
  let ?dist = "payday_distance (effective_from e) (era_rhythm e) d"
  have "?dist (era_steps_to e d - 1) \<le> ?dist k" if "k < era_steps_to e d - 1" for k
    using distance_falls[OF assms(1,2) less_imp_le[OF era_payday_facts(4)[OF assms(1,2)]] that] by simp
  then have n: "(\<forall>k < m. ?dist m \<le> ?dist k) \<and> (\<forall>k > m. ?dist m < ?dist k)"
    unfolding m_def matched_step_def using assms(1,2) by (intro matched_scan_nearest) (simp_all add: e)
  then show "m < k \<Longrightarrow> ?dist m < ?dist k" by blast
  show "?dist m \<le> ?dist k" using n by (cases m k rule: linorder_cases) (auto intro: less_imp_le)
qed
section \<open>The plan across eras\<close>

definition last_step_of :: "era list \<Rightarrow> nat \<Rightarrow> int option res" where
  "last_step_of eras index =
     (if index + 1 = length eras then Inr None
      else let e = eras ! index; seam = first_payday_of (eras ! (index + 1))
           in bind_res (step_after (effective_from e) (era_rhythm e) seam) (\<lambda>s. Inr (Some (s - 2))))"

definition matched_planned :: "era list \<Rightarrow> date \<Rightarrow> (nat \<times> int) res" where
  "matched_planned eras payday =
     (let index = era_index_at eras payday; e = eras ! index;
          steps = matched_step (effective_from e) (era_rhythm e) payday
      in bind_res (last_step_of eras index)
           (\<lambda>last. case last of
              None \<Rightarrow> Inr (index, steps)
            | Some l \<Rightarrow>
                if steps < l then Inr (index, steps)
                else let own = \<bar>days_between (projected_payday (effective_from e) (era_rhythm e) l) payday\<bar>;
                         following = \<bar>days_between (first_payday_of (eras ! (index + 1))) payday\<bar>
                     in if following \<le> own then Inr (index + 1, 0) else Inr (index, l)))"

definition following_planned :: "era list \<Rightarrow> nat \<Rightarrow> int \<Rightarrow> (nat \<times> int) res" where
  "following_planned eras index steps =
     bind_res (last_step_of eras index)
       (\<lambda>last. case last of
          Some l \<Rightarrow> if l \<le> steps then Inr (index + 1, 0) else Inr (index, steps + 1)
        | None \<Rightarrow> Inr (index, steps + 1))"

definition horizon_step :: "era list \<Rightarrow> date \<Rightarrow> (nat \<times> int) res" where
  "horizon_step eras last_payday =
     bind_res (matched_planned eras last_payday) (\<lambda>(index, steps). following_planned eras index steps)"

text \<open>The generator of the source, as the list of the first paydays it yields.\<close>

fun planned_from :: "era list \<Rightarrow> nat \<Rightarrow> int \<Rightarrow> nat \<Rightarrow> date list res" where
  "planned_from eras index steps 0 = Inr []"
| "planned_from eras index steps (Suc n) =
     (let e = eras ! index; payday = projected_payday (effective_from e) (era_rhythm e) steps
      in if n = 0 then Inr [payday]
         else bind_res (following_planned eras index steps)
           (\<lambda>(index', steps'). bind_res (planned_from eras index' steps' n) (\<lambda>later. Inr (payday # later))))"

definition planned_paydays_after :: "era list \<Rightarrow> date \<Rightarrow> nat \<Rightarrow> date list res" where
  "planned_paydays_after eras last_payday n =
     bind_res (horizon_step eras last_payday) (\<lambda>(index, steps). planned_from eras index steps n)"

definition payday_after :: "era list \<Rightarrow> date \<Rightarrow> date res" where
  "payday_after eras last_payday =
     bind_res (horizon_step eras last_payday)
       (\<lambda>(index, steps). let e = eras ! index in Inr (projected_payday (effective_from e) (era_rhythm e) steps))"

section \<open>Below the record\<close>

definition rephased :: "era \<Rightarrow> int \<Rightarrow> era" where
  "rephased e steps =
     \<lparr>effective_from = nominal_payday (effective_from e) (cadence_of (era_rhythm e)) steps,
      era_rhythm = era_rhythm e\<rparr>"

definition grid_below_record :: "era list \<Rightarrow> date \<Rightarrow> era \<times> int" where
  "grid_below_record eras opening =
     (let e = hd eras in (e, matched_step (effective_from e) (era_rhythm e) opening - 1))"

definition earlier_paydays :: "era list \<Rightarrow> date \<Rightarrow> int \<Rightarrow> era \<times> date list" where
  "earlier_paydays eras opening count =
     (let (e, top_step) = grid_below_record eras opening; first = top_step - count + 1
      in (rephased e first, map (projected_payday (effective_from e) (era_rhythm e)) [first .. top_step]))"

definition opening_rephase :: "era list \<Rightarrow> date \<Rightarrow> era option res" where
  "opening_rephase eras opening =
     bind_res (matched_planned eras opening)
       (\<lambda>(index, steps). if index \<noteq> 0 then Inr None else Inr (Some (rephased (hd eras) steps)))"

section \<open>The sequences a calendar is built on\<close>

definition check_era :: "era \<Rightarrow> unit res" where
  "check_era e =
     bind_res (validate_cadence (cadence_of (era_rhythm e)))
       (\<lambda>_. refuse_unless PayCalendarError
          (nominal_payday (effective_from e) (cadence_of (era_rhythm e)) 0 = effective_from e))"

definition check_pays :: "era list \<Rightarrow> nat \<Rightarrow> unit res" where
  "check_pays eras index =
     bind_res (last_step_of eras index)
       (\<lambda>last. refuse_unless PayCalendarError (case last of None \<Rightarrow> True | Some l \<Rightarrow> 0 \<le> l))"

definition validate_eras :: "era list \<Rightarrow> unit res" where
  "validate_eras eras =
     all_checked
       (refuse_unless PayCalendarError (eras \<noteq> []) # map check_era eras @
        map (\<lambda>(earlier, later). refuse_unless PayCalendarError (effective_from earlier < effective_from later))
            (zip eras (tl eras)) @
        map (check_pays eras) [0 ..< length eras - 1])"

text \<open>What the write door adds: calendar dates, ordered pairs, and cadences their convention allows.\<close>

definition stored_era :: "era \<Rightarrow> bool" where
  "stored_era e \<longleftrightarrow> valid_date (effective_from e) \<and> ordered (cadence_of (era_rhythm e)) \<and>
     reject_shift_on_short_cadence (era_rhythm e) = Inr ()"

definition sound_eras :: "era list \<Rightarrow> bool" where
  "sound_eras eras \<longleftrightarrow> validate_eras eras = Inr () \<and> list_all stored_era eras"

lemma sound_eras_facts:
  assumes "sound_eras eras"
  shows "eras \<noteq> []" "i < length eras \<Longrightarrow> grid_ok (eras ! i)"
    "i < length eras \<Longrightarrow> nominal_payday (effective_from (eras ! i)) (cadence_of (era_rhythm (eras ! i))) 0 = effective_from (eras ! i)"
    "i + 1 < length eras \<Longrightarrow> check_pays eras i = Inr ()"
proof -
  have "eras \<noteq> [] \<and> list_all (\<lambda>c. c = Inr ()) (map check_era eras) \<and>
    list_all (\<lambda>c. c = Inr ()) (map (check_pays eras) [0 ..< length eras - 1])"
    using assms
    unfolding sound_eras_def validate_eras_def all_checked_ok list.pred_inject list_all_append refuse_unless_ok by blast
  then have c: "eras \<noteq> []" "list_all (\<lambda>c. c = Inr ()) (map check_era eras)"
    "list_all (\<lambda>c. c = Inr ()) (map (check_pays eras) [0 ..< length eras - 1])" by blast+
  show "eras \<noteq> []" by (rule c(1))
  have e: "check_era (eras ! i) = Inr ()" "stored_era (eras ! i)" if "i < length eras"
    using c(2) assms that by (simp_all add: list_all_length sound_eras_def)
  show "i < length eras \<Longrightarrow> grid_ok (eras ! i)"
    "i < length eras \<Longrightarrow> nominal_payday (effective_from (eras ! i)) (cadence_of (era_rhythm (eras ! i))) 0 = effective_from (eras ! i)"
    using e by (auto simp: check_era_def stored_era_def grid_ok_def rhythm_ok_def cadence_ok_def elim!: bind_res_InrE)
  show "i + 1 < length eras \<Longrightarrow> check_pays eras i = Inr ()"
    using c(3) by (simp add: list_all_length)
qed
subsection \<open>Seams\<close>

lemma era_index_loop_spec:
  "(era_index_loop c i es day = c \<and> (es = [] \<or> day < first_payday_of (hd es))) \<or>
   (\<exists>k < length es. era_index_loop c i es day = i + k \<and> first_payday_of (es ! k) \<le> day \<and>
      (k + 1 < length es \<longrightarrow> day < first_payday_of (es ! (k + 1))))"
proof (induction es arbitrary: c i)
  case (Cons e es)
  show ?case
  proof (cases "day < first_payday_of e")
    case False
    from Cons[of i "Suc i"] show ?thesis
    proof
      assume "era_index_loop i (Suc i) es day = i \<and> (es = [] \<or> day < first_payday_of (hd es))"
      then show ?thesis using False by (intro disjI2 exI[of _ 0]) (auto simp: hd_conv_nth)
    next
      assume "\<exists>k < length es. era_index_loop i (Suc i) es day = Suc i + k \<and> first_payday_of (es ! k) \<le> day \<and>
        (k + 1 < length es \<longrightarrow> day < first_payday_of (es ! (k + 1)))"
      then obtain k where "k < length es" "era_index_loop i (Suc i) es day = Suc i + k" "first_payday_of (es ! k) \<le> day"
        "k + 1 < length es \<longrightarrow> day < first_payday_of (es ! (k + 1))" by blast
      then show ?thesis using False by (intro disjI2 exI[of _ "Suc k"]) auto
    qed
  qed simp
qed simp

lemma seam:
  assumes "sound_eras eras" "i + 1 < length eras"
  obtains l where "last_step_of eras i = Inr (Some l)" "0 \<le> l"
    "era_payday (eras ! i) (l + 1) \<le> first_payday_of (eras ! (i + 1))"
    "first_payday_of (eras ! (i + 1)) < era_payday (eras ! i) (l + 2)"
proof -
  have ok: "grid_ok (eras ! i)" "grid_ok (eras ! (i + 1))" using sound_eras_facts(2)[OF assms(1)] assms(2) by simp_all
  let ?seam = "first_payday_of (eras ! (i + 1))"
  have v: "valid_date ?seam" using era_payday_facts(1)[OF ok(2)] by (simp add: first_payday_of_def)
  obtain s where s: "step_after (effective_from (eras ! i)) (era_rhythm (eras ! i)) ?seam = Inr s"
    "?seam < era_payday (eras ! i) s" "era_payday (eras ! i) (s - 1) \<le> ?seam"
    using step_after_finds[OF ok(1) v] by blast
  then have l: "last_step_of eras i = Inr (Some (s - 2))" using assms(2) by (simp add: last_step_of_def Let_def)
  moreover have "0 \<le> s - 2" using sound_eras_facts(4)[OF assms] by (simp add: check_pays_def l)
  ultimately show thesis using s by (intro that[of "s - 2"]) (simp_all add: add.commute)
qed

lemma last_step_latest: "i + 1 = length eras \<Longrightarrow> last_step_of eras i = Inr None"
  by (simp add: last_step_of_def)

lemma first_paydays_ascend:
  assumes "sound_eras eras" "i < j" "j < length eras"
  shows "first_payday_of (eras ! i) < first_payday_of (eras ! j)"
  using assms(2,3)
proof (induction j)
  case (Suc j)
  have ok: "grid_ok (eras ! j)" using sound_eras_facts(2)[OF assms(1)] Suc.prems(2) by simp
  obtain l where l: "0 \<le> l" "era_payday (eras ! j) (l + 1) \<le> first_payday_of (eras ! Suc j)"
    using seam[OF assms(1), of j] Suc.prems(2) by (metis Suc_eq_plus1)
  have "first_payday_of (eras ! j) < era_payday (eras ! j) (l + 1)"
    using l(1) by (simp add: first_payday_of_def era_payday_facts(2)[OF ok])
  then have "first_payday_of (eras ! j) < first_payday_of (eras ! Suc j)" using l(2) by simp
  then show ?case using Suc by (cases "i = j") auto
qed simp

lemma era_index_at_spec:
  assumes "sound_eras eras"
  shows "era_index_at eras day < length eras"
    "0 < era_index_at eras day \<Longrightarrow> first_payday_of (eras ! era_index_at eras day) \<le> day"
    "era_index_at eras day + 1 < length eras \<Longrightarrow> day < first_payday_of (eras ! (era_index_at eras day + 1))"
proof -
  have ne: "eras \<noteq> []" by (rule sound_eras_facts(1)[OF assms])
  note spec = era_index_loop_spec[of 0 0 eras day, folded era_index_at_def]
  show "era_index_at eras day < length eras" using spec ne by auto
  show "0 < era_index_at eras day \<Longrightarrow> first_payday_of (eras ! era_index_at eras day) \<le> day" using spec by auto
  assume r: "era_index_at eras day + 1 < length eras"
  from spec show "day < first_payday_of (eras ! (era_index_at eras day + 1))"
  proof
    assume "era_index_at eras day = 0 \<and> (eras = [] \<or> day < first_payday_of (hd eras))"
    then show ?thesis using ne r first_paydays_ascend[OF assms, of 0 1] by (auto simp: hd_conv_nth)
  qed (use r in auto)
qed

text \<open>The positions of the plan: an era and a step it pays.  The earliest era runs backward too.\<close>

definition planned :: "era list \<Rightarrow> nat \<Rightarrow> int \<Rightarrow> bool" where
  "planned eras i s \<longleftrightarrow> i < length eras \<and> (0 < i \<longrightarrow> 0 \<le> s) \<and>
     (\<forall>l. last_step_of eras i = Inr (Some l) \<longrightarrow> s \<le> l)"

lemma planned_zero:
  assumes "sound_eras eras" "i < length eras"
  shows "planned eras i 0"
proof (cases "i + 1 < length eras")
  case True
  then show ?thesis using seam[OF assms(1) True]
    by (metis (no_types, lifting) planned_def assms(2) Inr_inject order_refl option.inject)
next
  case False
  then show ?thesis using assms(2) last_step_latest[of i eras] by (auto simp: planned_def)
qed

lemma following_planned_later:
  assumes "sound_eras eras" "planned eras i s"
  obtains i' s' where "following_planned eras i s = Inr (i', s')" "planned eras i' s'"
    "era_payday (eras ! i) s < era_payday (eras ! i') s'"
    "i' = i \<and> s' = s + 1 \<or> i' = i + 1 \<and> s' = 0 \<and> last_step_of eras i = Inr (Some s)"
proof (cases "i + 1 < length eras")
  case True
  have ok: "grid_ok (eras ! i)" using sound_eras_facts(2)[OF assms(1)] True by simp
  obtain l where l: "last_step_of eras i = Inr (Some l)" "0 \<le> l"
      "era_payday (eras ! i) (l + 1) \<le> first_payday_of (eras ! (i + 1))"
    using seam[OF assms(1) True] by metis
  have sl: "s \<le> l" using assms(2) l(1) by (simp add: planned_def)
  show thesis
  proof (cases "s = l")
    case True
    have "era_payday (eras ! i) s < first_payday_of (eras ! (i + 1))"
      using l(3) era_payday_facts(2)[OF ok, of s "l + 1"] sl by simp
    moreover have "planned eras (i + 1) 0" using planned_zero[OF assms(1)] \<open>i + 1 < length eras\<close> by simp
    ultimately show thesis
      using True l(1) by (intro that[of "i + 1" 0]) (simp_all add: following_planned_def first_payday_of_def)
  next
    case False
    then show thesis
      using sl l(1) assms(2) era_payday_facts(2)[OF ok, of s "s + 1"]
      by (intro that[of i "s + 1"]) (auto simp: following_planned_def planned_def)
  qed
next
  case False
  then have i: "i + 1 = length eras" using assms(2) by (simp add: planned_def)
  then have ok: "grid_ok (eras ! i)" using sound_eras_facts(2)[OF assms(1)] by simp
  show thesis
    using assms(2) i era_payday_facts(2)[OF ok, of s "s + 1"]
    by (intro that[of i "s + 1"]) (auto simp: following_planned_def planned_def last_step_latest)
qed
lemma planned_order:
  assumes "sound_eras eras" "planned eras i s" "planned eras j t" "i < j"
  shows "era_payday (eras ! i) s < first_payday_of (eras ! j)" "first_payday_of (eras ! j) \<le> era_payday (eras ! j) t"
proof -
  have len: "i + 1 < length eras" "j < length eras" using assms(3,4) by (auto simp: planned_def)
  have ok: "grid_ok (eras ! i)" "grid_ok (eras ! j)" using sound_eras_facts(2)[OF assms(1)] len by simp_all
  obtain l where l: "last_step_of eras i = Inr (Some l)" "era_payday (eras ! i) (l + 1) \<le> first_payday_of (eras ! (i + 1))"
    using seam[OF assms(1) len(1)] by metis
  have "s \<le> l" using assms(2) l(1) by (simp add: planned_def)
  then have "era_payday (eras ! i) s < era_payday (eras ! i) (l + 1)" by (simp add: era_payday_facts(2)[OF ok(1)])
  moreover have "first_payday_of (eras ! (i + 1)) \<le> first_payday_of (eras ! j)"
    using first_paydays_ascend[OF assms(1), of "i + 1" j] assms(4) len(2) by (cases "i + 1 = j") auto
  ultimately show "era_payday (eras ! i) s < first_payday_of (eras ! j)" using l(2) by simp
  show "first_payday_of (eras ! j) \<le> era_payday (eras ! j) t"
    using assms(3,4) by (simp add: first_payday_of_def era_payday_facts(3)[OF ok(2)] planned_def)
qed

abbreviation plan_distance :: "era list \<Rightarrow> date \<Rightarrow> nat \<Rightarrow> int \<Rightarrow> int" where
  "plan_distance eras d i s \<equiv> payday_distance (effective_from (eras ! i)) (era_rhythm (eras ! i)) d s"

lemma distance_of_day:
  "plan_distance eras d i s = \<bar>day_number (era_payday (eras ! i) s) - day_number d\<bar>"
  by (simp add: payday_distance_def days_between_def)

text \<open>The record is placed in the era that covers it; the eras before and after are further away.\<close>

lemma other_eras_further:
  assumes "sound_eras eras" "valid_date d" "planned eras j t"
  shows "j < era_index_at eras d \<Longrightarrow> plan_distance eras d (era_index_at eras d) 0 < plan_distance eras d j t"
    "era_index_at eras d < j \<Longrightarrow> planned eras (era_index_at eras d + 1) 0 \<and>
       plan_distance eras d (era_index_at eras d + 1) 0 \<le> plan_distance eras d j t \<and>
       (plan_distance eras d (era_index_at eras d + 1) 0 < plan_distance eras d j t \<or>
        j = era_index_at eras d + 1 \<and> t = 0)"
proof -
  let ?i = "era_index_at eras d"
  note i = era_index_at_spec[OF assms(1), of d]
  have j: "j < length eras" "valid_date (era_payday (eras ! j) t)"
    using assms(3) era_payday_facts(1)[OF sound_eras_facts(2)[OF assms(1)]] by (auto simp: planned_def)
  have v: "valid_date (first_payday_of (eras ! k))" if "k < length eras" for k
    using era_payday_facts(1)[OF sound_eras_facts(2)[OF assms(1) that]] by (simp add: first_payday_of_def)
  {
    assume "j < ?i"
    have p: "planned eras ?i 0" by (rule planned_zero[OF assms(1) i(1)])
    have "era_payday (eras ! j) t < first_payday_of (eras ! ?i)" "first_payday_of (eras ! ?i) \<le> d"
      using planned_order(1)[OF assms(1,3) p \<open>j < ?i\<close>] i(2) \<open>j < ?i\<close> by simp_all
    then have "day_number (era_payday (eras ! j) t) < day_number (first_payday_of (eras ! ?i))"
      "day_number (first_payday_of (eras ! ?i)) \<le> day_number d"
      using v[OF i(1)] j(2) assms(2) by (simp_all add: day_number_less_iff day_number_le_iff)
    then show "plan_distance eras d ?i 0 < plan_distance eras d j t"
      unfolding distance_of_day by (simp add: first_payday_of_def)
  next
    assume "?i < j"
    then have len: "?i + 1 < length eras" using j(1) by simp
    have p: "planned eras (?i + 1) 0" by (rule planned_zero[OF assms(1) len])
    have d: "day_number d < day_number (first_payday_of (eras ! (?i + 1)))"
      using i(3)[OF len] v[OF len] assms(2) by (simp add: day_number_less_iff)
    have "first_payday_of (eras ! (?i + 1)) \<le> era_payday (eras ! j) t \<and>
        (first_payday_of (eras ! (?i + 1)) < era_payday (eras ! j) t \<or> j = ?i + 1 \<and> t = 0)"
    proof (cases "j = ?i + 1")
      case True
      then show ?thesis
        using assms(3) era_payday_facts(2,3)[OF sound_eras_facts(2)[OF assms(1) len], of 0 t]
        by (auto simp: planned_def first_payday_of_def)
    next
      case False
      then show ?thesis
        using planned_order[OF assms(1) p assms(3)] \<open>?i < j\<close> by (auto simp: first_payday_of_def)
    qed
    then have "day_number (first_payday_of (eras ! (?i + 1))) \<le> day_number (era_payday (eras ! j) t) \<and>
        (day_number (first_payday_of (eras ! (?i + 1))) < day_number (era_payday (eras ! j) t) \<or> j = ?i + 1 \<and> t = 0)"
      using v[OF len] j(2) by (auto simp: day_number_less_iff day_number_le_iff)
    then show "planned eras (?i + 1) 0 \<and> plan_distance eras d (?i + 1) 0 \<le> plan_distance eras d j t \<and>
       (plan_distance eras d (?i + 1) 0 < plan_distance eras d j t \<or> j = ?i + 1 \<and> t = 0)"
      using p d unfolding distance_of_day by (auto simp: first_payday_of_def)
  }
qed
text \<open>Among the steps of the covering era, with its last step in the way.\<close>

lemma clipped_nearest:
  assumes "grid_ok e" "valid_date d" "t \<le> l" "l \<le> matched_step (effective_from e) (era_rhythm e) d"
  shows "payday_distance (effective_from e) (era_rhythm e) d l \<le> payday_distance (effective_from e) (era_rhythm e) d t"
proof -
  note near = matched_step_nearest[OF assms(1,2)]
  show ?thesis
  proof (cases "era_payday e l \<le> d")
    case True
    then show ?thesis using distance_falls[OF assms(1,2) True, of t] assms(3) by (cases "t = l") auto
  next
    case False
    then have "d < era_payday e l" by simp
    then have "matched_step (effective_from e) (era_rhythm e) d = l"
      using distance_grows[OF assms(1,2), of l "matched_step (effective_from e) (era_rhythm e) d"] near(1)[of l] assms(4)
      by (cases "l = matched_step (effective_from e) (era_rhythm e) d") auto
    then show ?thesis using near(1)[of t] by simp
  qed
qed

lemma matched_planned_cases:
  assumes "sound_eras eras" "valid_date d"
  defines "i \<equiv> era_index_at eras d"
  defines "m \<equiv> matched_step (effective_from (eras ! i)) (era_rhythm (eras ! i)) d"
  obtains
    (within) "matched_planned eras d = Inr (i, m)" "planned eras i m"
      "\<forall>l. last_step_of eras i = Inr (Some l) \<longrightarrow> m < l"
  | (clipped) l where "matched_planned eras d = Inr (i, l)" "planned eras i l" "last_step_of eras i = Inr (Some l)"
      "l \<le> m" "plan_distance eras d i l < plan_distance eras d (i + 1) 0" "i + 1 < length eras"
  | (crossed) l where "matched_planned eras d = Inr (i + 1, 0)" "last_step_of eras i = Inr (Some l)" "l \<le> m"
      "plan_distance eras d (i + 1) 0 \<le> plan_distance eras d i l" "i + 1 < length eras"
proof -
  have len: "i < length eras" unfolding i_def by (rule era_index_at_spec(1)[OF assms(1)])
  have ok: "grid_ok (eras ! i)" by (rule sound_eras_facts(2)[OF assms(1) len])
  have m0: "0 \<le> m" if "0 < i"
  proof (rule ccontr)
    assume "\<not> 0 \<le> m"
    have "era_payday (eras ! i) 0 \<le> d"
      using era_index_at_spec(2)[OF assms(1), of d] that by (simp add: i_def first_payday_of_def)
    then have "plan_distance eras d i 0 < plan_distance eras d i m"
      using distance_falls[OF ok assms(2)] \<open>\<not> 0 \<le> m\<close> by simp
    then show False using matched_step_nearest(1)[OF ok assms(2), of 0] by (simp add: m_def)
  qed
  show thesis
  proof (cases "i + 1 = length eras")
    case True
    then have "last_step_of eras i = Inr None" by (rule last_step_latest)
    then show thesis using m0 len by (intro within) (simp_all add: matched_planned_def i_def[symmetric] m_def planned_def Let_def)
  next
    case False
    then have next_era: "i + 1 < length eras" using len by simp
    obtain l where l: "last_step_of eras i = Inr (Some l)" "0 \<le> l" using seam[OF assms(1) next_era] by metis
    have result: "matched_planned eras d =
        (if m < l then Inr (i, m) else if plan_distance eras d (i + 1) 0 \<le> plan_distance eras d i l then Inr (i + 1, 0) else Inr (i, l))"
      using l(1) by (simp add: matched_planned_def i_def[symmetric] m_def[symmetric] Let_def payday_distance_def first_payday_of_def)
    consider "m < l" | "l \<le> m" "plan_distance eras d (i + 1) 0 \<le> plan_distance eras d i l"
      | "l \<le> m" "plan_distance eras d i l < plan_distance eras d (i + 1) 0" by linarith
    then show thesis
    proof cases
      case 1
      then show thesis using result l m0 len by (intro within) (auto simp: planned_def)
    next
      case 2
      then show thesis using result l next_era by (intro crossed[of l]) simp_all
    next
      case 3
      then show thesis using result l len next_era by (intro clipped[of l]) (auto simp: planned_def)
    qed
  qed
qed
lemma following_least:
  assumes "sound_eras eras" "planned eras i s" "following_planned eras i s = Inr (i', s')"
    and "planned eras j t" "era_payday (eras ! i) s < era_payday (eras ! j) t"
  shows "era_payday (eras ! i') s' \<le> era_payday (eras ! j) t"
proof -
  have i': "planned eras i' s'" "i' = i \<and> s' = s + 1 \<or> i' = i + 1 \<and> s' = 0 \<and> last_step_of eras i = Inr (Some s)"
    using following_planned_later[OF assms(1,2)] assms(3) by auto
  have ok: "grid_ok (eras ! i)" "grid_ok (eras ! j)"
    using sound_eras_facts(2)[OF assms(1)] assms(2,4) by (simp_all add: planned_def)
  have "\<not> j < i" using planned_order[OF assms(1,4,2)] assms(5) by auto
  then consider "j = i" | "i < j" by linarith
  then show ?thesis
  proof cases
    case 1
    then have "s < t" using assms(5) era_payday_facts(2)[OF ok(1)] by simp
    moreover from this have "\<not> (i' = i + 1 \<and> s' = 0 \<and> last_step_of eras i = Inr (Some s))"
      using assms(4) 1 by (auto simp: planned_def)
    ultimately show ?thesis using i'(2) 1 era_payday_facts(3)[OF ok(1)] by auto
  next
    case 2
    show ?thesis
    proof (cases "i' = j")
      case True
      then have "s' = 0" using i'(2) 2 by auto
      then show ?thesis using True 2 assms(4) era_payday_facts(3)[OF ok(2)] by (simp add: planned_def)
    next
      case False
      then have "i' < j" using i'(2) 2 by auto
      then show ?thesis using planned_order[OF assms(1) i'(1) assms(4)] by simp
    qed
  qed
qed

lemma matched_planned_own:
  assumes "sound_eras eras" "valid_date d" "matched_planned eras d = Inr (i, s)"
  shows "planned eras i s"
    "planned eras (era_index_at eras d) u \<Longrightarrow> plan_distance eras d i s \<le> plan_distance eras d (era_index_at eras d) u"
    "era_index_at eras d + 1 < length eras \<Longrightarrow>
       plan_distance eras d i s \<le> plan_distance eras d (era_index_at eras d + 1) 0"
proof -
  let ?k = "era_index_at eras d"
  let ?m = "matched_step (effective_from (eras ! ?k)) (era_rhythm (eras ! ?k)) d"
  have ok: "grid_ok (eras ! ?k)" by (rule sound_eras_facts(2)[OF assms(1) era_index_at_spec(1)[OF assms(1)]])
  note near = matched_step_nearest[OF ok assms(2)]
  have "planned eras i s \<and> (planned eras ?k u \<longrightarrow> plan_distance eras d i s \<le> plan_distance eras d ?k u) \<and>
      (?k + 1 < length eras \<longrightarrow> plan_distance eras d i s \<le> plan_distance eras d (?k + 1) 0)"
    using assms(1,2)
  proof (cases rule: matched_planned_cases)
    case within
    then have "plan_distance eras d i s = plan_distance eras d ?k ?m" using assms(3) by simp
    moreover have "plan_distance eras d ?k ?m < plan_distance eras d (?k + 1) 0" if len: "?k + 1 < length eras"
    proof -
      obtain l where l: "last_step_of eras ?k = Inr (Some l)" "era_payday (eras ! ?k) (l + 1) \<le> first_payday_of (eras ! (?k + 1))"
        using seam[OF assms(1) len] by metis
      have "d < era_payday (eras ! ?k) (?m + 1)"
        using near(2)[of "?m + 1"] distance_falls[OF ok assms(2), of "?m + 1" ?m] by force
      moreover have "era_payday (eras ! ?k) (?m + 1) \<le> first_payday_of (eras ! (?k + 1))"
        using l within(3) era_payday_facts(3)[OF ok, of "?m + 1" "l + 1"] by (meson add_right_mono less_imp_le order_trans)
      ultimately have "plan_distance eras d ?k (?m + 1) \<le> plan_distance eras d (?k + 1) 0"
        using assms(2) era_payday_facts(1)[OF ok] era_payday_facts(1)[OF sound_eras_facts(2)[OF assms(1) len]]
        unfolding distance_of_day by (auto simp: day_number_le_iff day_number_less_iff first_payday_of_def)
      then show ?thesis using near(2)[of "?m + 1"] by simp
    qed
    ultimately show ?thesis using near(1)[of u] within assms(3) by auto
  next
    case (clipped l)
    have "plan_distance eras d ?k l \<le> plan_distance eras d ?k u" if "planned eras ?k u"
      using that clipped(3) clipped_nearest[OF ok assms(2) _ clipped(4), of u] by (simp add: planned_def)
    then show ?thesis using clipped assms(3) by auto
  next
    case (crossed l)
    have "plan_distance eras d ?k l \<le> plan_distance eras d ?k u" if "planned eras ?k u"
      using that crossed(2) clipped_nearest[OF ok assms(2) _ crossed(3), of u] by (simp add: planned_def)
    then show ?thesis using crossed assms(3) planned_zero[OF assms(1) crossed(5)] by fastforce
  qed
  then show "planned eras i s"
    "planned eras ?k u \<Longrightarrow> plan_distance eras d i s \<le> plan_distance eras d ?k u"
    "?k + 1 < length eras \<Longrightarrow> plan_distance eras d i s \<le> plan_distance eras d (?k + 1) 0" by blast+
qed

lemma matched_planned_nearest:
  assumes "sound_eras eras" "valid_date d" "matched_planned eras d = Inr (i, s)" "planned eras j t"
  shows "plan_distance eras d i s \<le> plan_distance eras d j t"
proof -
  let ?k = "era_index_at eras d"
  note own = matched_planned_own[OF assms(1-3)] and far = other_eras_further[OF assms(1,2,4)]
  consider "j < ?k" | "j = ?k" | "?k < j" by linarith
  then show ?thesis
  proof cases
    case 1
    then show ?thesis using far(1) own(2)[OF planned_zero[OF assms(1) era_index_at_spec(1)[OF assms(1)]]] by simp
  next
    case 2
    then show ?thesis using own(2) assms(4) by simp
  next
    case 3
    then have "?k + 1 < length eras" using assms(4) by (simp add: planned_def)
    then show ?thesis using far(2)[OF 3] own(3) by simp
  qed
qed

lemma matched_planned_returns:
  assumes "sound_eras eras" "valid_date d"
  obtains i s where "matched_planned eras d = Inr (i, s)"
  using assms by (cases rule: matched_planned_cases) auto

text \<open>What follows the matched payday is after the record.\<close>

lemma following_after_record:
  assumes "sound_eras eras" "valid_date d" "matched_planned eras d = Inr (i, s)" "following_planned eras i s = Inr (i', s')"
  shows "d < era_payday (eras ! i') s'" "plan_distance eras d i s < plan_distance eras d i' s'"
proof -
  let ?k = "era_index_at eras d"
  let ?m = "matched_step (effective_from (eras ! ?k)) (era_rhythm (eras ! ?k)) d"
  have ok: "grid_ok (eras ! ?k)" by (rule sound_eras_facts(2)[OF assms(1) era_index_at_spec(1)[OF assms(1)]])
  have later: "era_payday (eras ! i) s < era_payday (eras ! i') s'"
    using following_planned_later[OF assms(1) matched_planned_own(1)[OF assms(1-3)]] assms(4) by auto
  have "d < era_payday (eras ! i') s' \<and> plan_distance eras d i s < plan_distance eras d i' s'"
    using assms(1,2)
  proof (cases rule: matched_planned_cases)
    case within
    then have "following_planned eras i s = Inr (?k, ?m + 1)"
      using assms(3) era_index_at_spec(1)[OF assms(1), of d] seam[OF assms(1), of ?k] last_step_latest[of ?k eras]
      by (cases "?k + 1 < length eras") (force simp: following_planned_def)+
    moreover have "d < era_payday (eras ! ?k) (?m + 1)"
      using matched_step_nearest(2)[OF ok assms(2), of "?m + 1"] distance_falls[OF ok assms(2), of "?m + 1" ?m] by force
    ultimately show ?thesis
      using assms(3,4) within matched_step_nearest(2)[OF ok assms(2), of "?m + 1"] by auto
  next
    case (clipped l)
    then have "following_planned eras i s = Inr (?k + 1, 0)" using assms(3) by (simp add: following_planned_def)
    then show ?thesis
      using assms(3,4) clipped era_index_at_spec(3)[OF assms(1) clipped(6)] by (auto simp: first_payday_of_def)
  next
    case (crossed l)
    then have i: "i = ?k + 1" "s = 0" using assms(3) by simp_all
    then have d: "d < era_payday (eras ! i) s"
      using era_index_at_spec(3)[OF assms(1) crossed(5)] by (simp add: first_payday_of_def)
    have len: "i < length eras" "i' < length eras"
      using i crossed(5) following_planned_later[OF assms(1) matched_planned_own(1)[OF assms(1-3)]] assms(4)
      by (auto simp: planned_def)
    then have "day_number d < day_number (era_payday (eras ! i) s)"
      "day_number (era_payday (eras ! i) s) < day_number (era_payday (eras ! i') s')"
      using d later assms(2) era_payday_facts(1)[OF sound_eras_facts(2)[OF assms(1)]] by (simp_all add: day_number_less_iff)
    then show ?thesis using d later unfolding distance_of_day by auto
  qed
  then show "d < era_payday (eras ! i') s'" "plan_distance eras d i s < plan_distance eras d i' s'" by blast+
qed
text \<open>
  C5: the plan past the record.  A recorded payday, wherever the bank put it, stands for the planned
  payday nearest to it in the whole plan across eras, and a tie goes to the later; the next projected
  payday is the one planned right after that, strictly after the record, so no paycheck is counted twice
  and none is skipped; and none of the refusals is reached.\<close>

theorem record_stands_for_the_nearest:
  assumes "sound_eras eras" "valid_date payday"
  shows "\<exists>i s p. matched_planned eras payday = Inr (i, s) \<and> planned eras i s \<and>
    (\<forall>j t. planned eras j t \<longrightarrow>
       \<bar>days_between (era_payday (eras ! i) s) payday\<bar> \<le> \<bar>days_between (era_payday (eras ! j) t) payday\<bar> \<and>
       (era_payday (eras ! i) s < era_payday (eras ! j) t \<longrightarrow>
          p \<le> era_payday (eras ! j) t \<and>
          \<bar>days_between (era_payday (eras ! i) s) payday\<bar> < \<bar>days_between (era_payday (eras ! j) t) payday\<bar>)) \<and>
    payday_after eras payday = Inr p \<and> payday < p \<and> era_payday (eras ! i) s < p"
proof -
  obtain i s where m: "matched_planned eras payday = Inr (i, s)" by (rule matched_planned_returns[OF assms])
  note pl = matched_planned_own(1)[OF assms m]
  obtain i' s' where f: "following_planned eras i s = Inr (i', s')" "planned eras i' s'"
    "era_payday (eras ! i) s < era_payday (eras ! i') s'" using following_planned_later[OF assms(1) pl] by metis
  let ?p = "era_payday (eras ! i') s'"
  have after: "payday < ?p" by (rule following_after_record(1)[OF assms m f(1)])
  have near: "\<bar>days_between (era_payday (eras ! i) s) payday\<bar> \<le> \<bar>days_between (era_payday (eras ! j) t) payday\<bar>"
    if "planned eras j t" for j t
    using matched_planned_nearest[OF assms m that] by (simp add: payday_distance_def)
  have v: "valid_date (era_payday (eras ! j) t)" if "planned eras j t" for j t
    using that era_payday_facts(1)[OF sound_eras_facts(2)[OF assms(1)]] by (simp add: planned_def)
  have least: "?p \<le> era_payday (eras ! j) t" if "planned eras j t" "era_payday (eras ! i) s < era_payday (eras ! j) t" for j t
    by (rule following_least[OF assms(1) pl f(1) that])
  have strict: "\<bar>days_between (era_payday (eras ! i) s) payday\<bar> < \<bar>days_between (era_payday (eras ! j) t) payday\<bar>"
    if "planned eras j t" "era_payday (eras ! i) s < era_payday (eras ! j) t" for j t
  proof -
    have "\<bar>days_between (era_payday (eras ! i) s) payday\<bar> < \<bar>days_between ?p payday\<bar>"
      using following_after_record(2)[OF assms m f(1)] by (simp add: payday_distance_def)
    moreover have "day_number payday < day_number ?p" "day_number ?p \<le> day_number (era_payday (eras ! j) t)"
      using after least[OF that] v[OF f(2)] v[OF that(1)] assms(2) by (simp_all add: day_number_less_iff day_number_le_iff)
    ultimately show ?thesis by (simp add: days_between_def)
  qed
  show ?thesis
    using m pl near least strict after f by (intro exI[of _ i] exI[of _ s] exI[of _ ?p]) (auto simp: payday_after_def horizon_step_def Let_def)
qed

definition two_eras :: "era list" where
  "two_eras =
     [\<lparr>effective_from = Date 2026 1 2, era_rhythm = \<lparr>cadence_of = Fixed_Days 14, shift_of = No_Shift\<rparr>\<rparr>,
      \<lparr>effective_from = Date 2026 2 2, era_rhythm = \<lparr>cadence_of = Fixed_Days 7, shift_of = No_Shift\<rparr>\<rparr>]"

lemma two_eras_sound: "sound_eras two_eras"
proof -
  have p: "projected_payday (Date 2026 1 2) \<lparr>cadence_of = Fixed_Days 14, shift_of = No_Shift\<rparr> k = add_days (Date 2026 1 2) (k * 14)"
    "first_payday_of (two_eras ! 1) = Date 2026 2 2" for k
    by (simp_all add: projected_payday_def shift_to_business_day_def fixed_days_payday_def first_payday_of_def two_eras_def)
  have "cadence_steps_to (Date 2026 1 2) (Fixed_Days 14) (Date 2026 2 2) = 2"
    by (simp add: fixed_days_steps_to_def days_between_def evaluate_day)
  moreover have "add_days (Date 2026 1 2) 28 = Date 2026 1 30" "add_days (Date 2026 1 2) 42 = Date 2026 2 13"
    by (simp_all add: evaluate_day)
  moreover have "[2 .. 4] = [2, 3, 4 :: int]" by (simp add: upto.simps)
  ultimately have "last_step_of two_eras 0 = Inr (Some 1)"
    using p by (simp add: last_step_of_def step_after_def Let_def two_eras_def less_date_def del: cadence_steps_to.simps)
  then have "check_pays two_eras 0 = Inr ()" by (simp add: check_pays_def)
  then show ?thesis
    by (simp add: sound_eras_def validate_eras_def two_eras_def check_era_def validate_cadence_def
        fixed_days_payday_def stored_era_def reject_shift_on_short_cadence_def valid_Date days_in_month_def is_leap_def
        less_date_def refuse_unless_def MIN_CADENCE_DAYS_def MAX_CADENCE_DAYS_def)
qed

lemma record_stands_for_the_nearest_witness:
  "\<exists>p. payday_after two_eras (Date 2026 2 1) = Inr p \<and> Date 2026 2 1 < p"
  using record_stands_for_the_nearest[OF two_eras_sound, of "Date 2026 2 1"]
  by (auto simp: valid_Date days_in_month_def is_leap_def)

end
