(* ===== verification/Pay_Calendar.thy ===== *)
theory Pay_Calendar
  imports Pay_Eras "HOL-Library.Multiset"
begin

text \<open>
  \<open>app/services/pay_calendar/_derive.py\<close> and \<open>_searches.py\<close>: an owner's paydays in, their pay periods
  out, and the searches over them.
\<close>

section \<open>Periods\<close>

record derived_period =
  period_id :: "int option"
  period_index :: int
  start_date :: date
  end_date :: date
  end_is_projected :: bool

definition is_projected :: "derived_period \<Rightarrow> bool" where
  "is_projected p = (period_id p = None)"

definition covers :: "derived_period \<Rightarrow> date \<Rightarrow> bool" where
  "covers p day = (start_date p \<le> day \<and> day \<le> end_date p)"

definition attribution_day :: "derived_period \<Rightarrow> date option \<Rightarrow> date" where
  "attribution_day p preferred =
     (case preferred of
        None \<Rightarrow> start_date p
      | Some d \<Rightarrow> if d < start_date p then start_date p else if end_date p < d then end_date p else d)"

section \<open>The derivation\<close>

fun repeated :: "date list \<Rightarrow> bool" where
  "repeated (a # b # ds) = (a = b \<or> repeated (b # ds))"
| "repeated _ = False"

definition derive_one ::
  "era list \<Rightarrow> (int option \<times> date) list \<Rightarrow> nat \<Rightarrow> derived_period res" where
  "derive_one eras rows position =
     (let (pid, payday) = rows ! position; is_last = (position = length rows - 1)
      in bind_res (if is_last then payday_after eras payday else Inr (snd (rows ! (position + 1))))
           (\<lambda>next_payday. Inr
              \<lparr>period_id = pid, period_index = int position, start_date = payday,
               end_date = add_days next_payday (- 1), end_is_projected = is_last\<rparr>))"

fun collect :: "'a res list \<Rightarrow> 'a list res" where
  "collect [] = Inr []"
| "collect (r # rs) = bind_res r (\<lambda>x. bind_res (collect rs) (\<lambda>xs. Inr (x # xs)))"

definition derive_periods :: "(int option \<times> date) list \<Rightarrow> era list \<Rightarrow> derived_period list res" where
  "derive_periods paydays eras =
     bind_res (validate_eras eras)
       (\<lambda>_. let rows = sort_key snd paydays
            in if repeated (map snd rows) then Inl PayCalendarError
               else collect (map (derive_one eras rows) [0 ..< length rows]))"

section \<open>Searches\<close>

definition bisect_right_start :: "derived_period list \<Rightarrow> date \<Rightarrow> nat" where
  "bisect_right_start periods day = length (takeWhile (\<lambda>p. start_date p \<le> day) periods)"

definition bisect_left_start :: "derived_period list \<Rightarrow> date \<Rightarrow> nat" where
  "bisect_left_start periods day = length (takeWhile (\<lambda>p. start_date p < day) periods)"

definition containing_index :: "derived_period list \<Rightarrow> date \<Rightarrow> nat option" where
  "containing_index periods day =
     (let n = bisect_right_start periods day
      in if n = 0 then None else if covers (periods ! (n - 1)) day then Some (n - 1) else None)"

definition containing_period :: "derived_period list \<Rightarrow> date \<Rightarrow> derived_period option" where
  "containing_period periods day = map_option ((!) periods) (containing_index periods day)"

definition latest_started_period :: "derived_period list \<Rightarrow> date \<Rightarrow> derived_period option" where
  "latest_started_period periods day =
     (let n = bisect_right_start periods day in if n = 0 then None else Some (periods ! (n - 1)))"

definition earliest_started_period :: "derived_period list \<Rightarrow> date \<Rightarrow> derived_period option" where
  "earliest_started_period periods day =
     (let n = bisect_left_start periods day in if length periods \<le> n then None else Some (periods ! n))"

definition paydays_between :: "derived_period list \<Rightarrow> date \<Rightarrow> date \<Rightarrow> date list" where
  "paydays_between periods first_day last_day =
     (if last_day < first_day then []
      else let lower = bisect_left_start periods first_day; upper = bisect_right_start periods last_day
           in map start_date (take (upper - lower) (drop lower periods)))"

definition opening_payday :: "derived_period list \<Rightarrow> date option" where
  "opening_payday periods = (case periods of [] \<Rightarrow> None | p # _ \<Rightarrow> Some (start_date p))"

definition period_by_id :: "derived_period list \<Rightarrow> int option \<Rightarrow> derived_period option" where
  "period_by_id periods pid =
     (case pid of None \<Rightarrow> None | Some _ \<Rightarrow> find (\<lambda>p. period_id p = pid) periods)"

definition require_period :: "derived_period list \<Rightarrow> int \<Rightarrow> derived_period res" where
  "require_period periods filed =
     (case period_by_id periods (Some filed) of None \<Rightarrow> Inl RuntimeError | Some p \<Rightarrow> Inr p)"

definition materialised_periods :: "derived_period list \<Rightarrow> derived_period list" where
  "materialised_periods periods = [p \<leftarrow> periods. period_id p \<noteq> None]"

text \<open>A dictionary keeps the last of two entries with one key.\<close>

definition saved_by_id :: "derived_period list \<Rightarrow> int \<rightharpoonup> derived_period" where
  "saved_by_id periods = map_of (rev (map (\<lambda>p. (the (period_id p), p)) (materialised_periods periods)))"

definition final_covered_day :: "derived_period list \<Rightarrow> date option" where
  "final_covered_day periods = (if periods = [] then None else Some (end_date (last periods)))"
section \<open>Periods that tile\<close>

definition tiles :: "derived_period list \<Rightarrow> bool" where
  "tiles ps \<longleftrightarrow>
     (\<forall>p \<in> set ps. valid_date (start_date p) \<and> valid_date (end_date p) \<and> start_date p \<le> end_date p) \<and>
     (\<forall>i. i + 1 < length ps \<longrightarrow> start_date (ps ! (i + 1)) = add_days (end_date (ps ! i)) 1)"

lemma tiles_facts:
  assumes "tiles ps" "i < length ps"
  shows "valid_date (start_date (ps ! i))" "valid_date (end_date (ps ! i))" "start_date (ps ! i) \<le> end_date (ps ! i)"
    "i + 1 < length ps \<Longrightarrow> start_date (ps ! (i + 1)) = add_days (end_date (ps ! i)) 1"
  using assms nth_mem[OF assms(2)] by (auto simp: tiles_def)

lemma tiles_ascend:
  assumes "tiles ps" "i < j" "j < length ps"
  shows "end_date (ps ! i) < start_date (ps ! j)"
  using assms(2,3)
proof (induction j)
  case (Suc j)
  have j: "end_date (ps ! j) < start_date (ps ! Suc j)"
    using tiles_facts(2,4)[OF assms(1), of j] Suc.prems(2) by (simp add: day_number_less_iff)
  then show ?case
    using Suc tiles_facts(3)[OF assms(1), of j] by (cases "i = j") auto
qed simp

lemma bisect_right_bounds:
  "i < bisect_right_start ps day \<Longrightarrow> start_date (ps ! i) \<le> day"
  "bisect_right_start ps day < length ps \<Longrightarrow> day < start_date (ps ! bisect_right_start ps day)"
  "bisect_right_start ps day \<le> length ps"
proof -
  let ?P = "\<lambda>p. start_date p \<le> day"
  show "i < bisect_right_start ps day \<Longrightarrow> start_date (ps ! i) \<le> day"
    using set_takeWhileD[of "takeWhile ?P ps ! i" ?P ps]
    by (simp add: bisect_right_start_def takeWhile_nth[symmetric])
  show "bisect_right_start ps day < length ps \<Longrightarrow> day < start_date (ps ! bisect_right_start ps day)"
    using nth_length_takeWhile[of ?P ps] by (simp add: bisect_right_start_def)
  show "bisect_right_start ps day \<le> length ps"
    by (simp add: bisect_right_start_def length_takeWhile_le)
qed

lemma tiles_cover:
  assumes "tiles ps" "ps \<noteq> []" "valid_date day" "start_date (hd ps) \<le> day" "day \<le> end_date (last ps)"
  obtains i where "i < length ps" "containing_index ps day = Some i" "covers (ps ! i) day"
    "\<And>j. j < length ps \<Longrightarrow> covers (ps ! j) day \<Longrightarrow> j = i"
proof -
  let ?n = "bisect_right_start ps day"
  note b = bisect_right_bounds(1)[of _ ps day] bisect_right_bounds(2,3)[of ps day]
  have "0 < ?n"
    using b(2) assms(2,4) by (metis gr0I hd_conv_nth length_greater_0_conv not_le)
  define i where "i = ?n - 1"
  have i: "i < length ps" "start_date (ps ! i) \<le> day" using b(1)[of i] b(3) \<open>0 < ?n\<close> by (auto simp: i_def)
  have "day \<le> end_date (ps ! i)"
  proof (cases "?n < length ps")
    case True
    then have "day < add_days (end_date (ps ! i)) 1"
      using b(2) tiles_facts(4)[OF assms(1) i(1)] \<open>0 < ?n\<close> by (simp add: i_def)
    then show ?thesis using assms(3) tiles_facts(2)[OF assms(1) i(1)] by (simp add: day_number_less_iff day_number_le_iff)
  next
    case False
    then have "i = length ps - 1" using b(3) by (simp add: i_def)
    then show ?thesis using assms(2,5) by (simp add: last_conv_nth)
  qed
  then have c: "covers (ps ! i) day" using i(2) by (simp add: covers_def)
  show thesis
  proof (rule that)
    show "containing_index ps day = Some i" using \<open>0 < ?n\<close> c by (simp add: containing_index_def i_def Let_def)
    fix j assume "j < length ps" "covers (ps ! j) day"
    then show "j = i"
      using tiles_ascend[OF assms(1), of i j] tiles_ascend[OF assms(1), of j i] i(1) c
      by (cases i j rule: linorder_cases) (auto simp: covers_def)
  qed (use i(1) c in auto)
qed

section \<open>The derived calendar\<close>

lemma repeated_sorted: "sorted ds \<Longrightarrow> repeated ds \<longleftrightarrow> \<not> distinct ds"
  by (induction ds rule: repeated.induct) (auto dest: antisym)

lemma collect_map: "(\<And>x. x \<in> set xs \<Longrightarrow> f x = Inr (g x)) \<Longrightarrow> collect (map f xs) = Inr (map g xs)"
  by (induction xs) auto
definition derived :: "era list \<Rightarrow> (int option \<times> date) list \<Rightarrow> nat \<Rightarrow> derived_period" where
  "derived eras rows i =
     \<lparr>period_id = fst (rows ! i), period_index = int i, start_date = snd (rows ! i),
      end_date = add_days (if i = length rows - 1 then projr (payday_after eras (snd (rows ! i))) else snd (rows ! (i + 1))) (- 1),
      end_is_projected = (i = length rows - 1)\<rparr>"

lemma payday_after_value:
  assumes "sound_eras eras" "valid_date d"
  obtains p where "payday_after eras d = Inr p" "d < p" "valid_date p"
proof -
  obtain i s where m: "matched_planned eras d = Inr (i, s)" by (rule matched_planned_returns[OF assms])
  obtain i' s' where f: "following_planned eras i s = Inr (i', s')" "planned eras i' s'"
    using following_planned_later[OF assms(1) matched_planned_own(1)[OF assms m]] by metis
  have "valid_date (era_payday (eras ! i') s')"
    using f(2) era_payday_facts(1)[OF sound_eras_facts(2)[OF assms(1)]] by (simp add: planned_def)
  then show thesis
    using m f following_after_record(1)[OF assms m f(1)]
    by (intro that[of "era_payday (eras ! i') s'"]) (simp_all add: payday_after_def horizon_step_def Let_def)
qed

lemma derive_one_value:
  assumes "sound_eras eras" "valid_date (snd (rows ! i))"
  shows "derive_one eras rows i = Inr (derived eras rows i)"
proof -
  obtain p where "payday_after eras (snd (rows ! i)) = Inr p" by (rule payday_after_value[OF assms])
  then show ?thesis by (auto simp: derive_one_def derived_def Let_def split_def)
qed

lemma derived_tiles:
  assumes "sound_eras eras" "\<forall>row \<in> set rows. valid_date (snd row)" "sorted_wrt (<) (map snd rows)"
  shows "tiles (map (derived eras rows) [0 ..< length rows])"
proof -
  have v: "valid_date (snd (rows ! i))" if "i < length rows" for i using assms(2) that by simp
  have less: "snd (rows ! i) < snd (rows ! (i + 1))" if "i + 1 < length rows" for i
    using assms(3) that by (simp add: sorted_wrt_iff_nth_less)
  have ok: "valid_date (start_date (derived eras rows i)) \<and> valid_date (end_date (derived eras rows i)) \<and>
      start_date (derived eras rows i) \<le> end_date (derived eras rows i)" if i: "i < length rows" for i
  proof (cases "i = length rows - 1")
    case True
    obtain p where "payday_after eras (snd (rows ! i)) = Inr p" "snd (rows ! i) < p" "valid_date p"
      by (rule payday_after_value[OF assms(1) v[OF i]])
    then show ?thesis using True v[OF i] by (simp add: derived_def day_number_less_iff day_number_le_iff)
  next
    case False
    then have n: "i + 1 < length rows" using i by simp
    then show ?thesis using False v[OF i] v[OF n] less[OF n] by (simp add: derived_def day_number_less_iff day_number_le_iff)
  qed
  moreover have "start_date (derived eras rows (i + 1)) = add_days (end_date (derived eras rows i)) 1" if "i + 1 < length rows" for i
  proof -
    have "i \<noteq> length rows - 1" using that by simp
    then show ?thesis using v[OF that] by (simp add: derived_def add_days_add)
  qed
  ultimately show ?thesis by (auto simp: tiles_def)
qed

lemma derive_periods_value:
  assumes "sound_eras eras" "\<forall>row \<in> set paydays. valid_date (snd row)" "distinct (map snd paydays)"
  obtains ps where "derive_periods paydays eras = Inr ps" "tiles ps"
    "mset (map (\<lambda>p. (period_id p, start_date p)) ps) = mset paydays" "map period_index ps = map int [0 ..< length ps]"
    "\<forall>i < length ps. end_is_projected (ps ! i) \<longleftrightarrow> i + 1 = length ps"
    "ps \<noteq> [] \<longrightarrow> payday_after eras (start_date (last ps)) = Inr (add_days (end_date (last ps)) 1)"
proof -
  define rows where "rows = sort_key snd paydays"
  let ?ps = "map (derived eras rows) [0 ..< length rows]"
  have valid: "validate_eras eras = Inr ()" using assms(1) by (simp add: sound_eras_def)
  have rows: "sorted (map snd rows)" "mset rows = mset paydays" "distinct (map snd rows)"
    using assms(3) by (simp_all add: rows_def) (metis mset_eq_imp_distinct_iff mset_map mset_sort)
  then have v: "\<forall>row \<in> set rows. valid_date (snd row)" using assms(2) by (metis set_mset_mset)
  have ascend: "sorted_wrt (<) (map snd rows)" using rows(1,3) by (simp add: strict_sorted_iff)
  have one: "collect (map (derive_one eras rows) [0 ..< length rows]) = Inr ?ps"
    using v by (intro collect_map derive_one_value[OF assms(1)]) simp
  show thesis
  proof (rule that[of ?ps])
    show "derive_periods paydays eras = Inr ?ps"
      using one repeated_sorted[OF rows(1)] rows(3) valid by (simp add: derive_periods_def rows_def[symmetric] Let_def)
    show "tiles ?ps" by (rule derived_tiles[OF assms(1) v ascend])
    have "map (\<lambda>p. (period_id p, start_date p)) ?ps = rows" by (simp add: derived_def comp_def map_nth)
    then show "mset (map (\<lambda>p. (period_id p, start_date p)) ?ps) = mset paydays" using rows(2) by simp
    have "payday_after eras (start_date (last ?ps)) = Inr (add_days (end_date (last ?ps)) 1)" if "?ps \<noteq> []"
    proof -
      have l: "last ?ps = derived eras rows (length rows - 1)" "length rows - 1 < length rows" using that by (simp_all add: last_map)
      obtain p where "payday_after eras (snd (rows ! (length rows - 1))) = Inr p" "valid_date p"
        by (rule payday_after_value[OF assms(1)]) (use v l(2) in auto)
      then show ?thesis unfolding l(1) by (simp add: derived_def add_days_add)
    qed
    then show "?ps \<noteq> [] \<longrightarrow> payday_after eras (start_date (last ?ps)) = Inr (add_days (end_date (last ?ps)) 1)" by blast
  qed (auto simp: derived_def comp_def)
qed

text \<open>
  C4: the derived calendar.  From an owner's paydays in any order, one period opens on each, in the
  order of their dates and numbered in that order; the periods tile, each running to the day before the
  next, the last one to the day before the payday the eras project after it, and only that end is a
  projection; every day from the first payday to the last end is found, in exactly one period.  A payday
  given twice is refused, and nothing else is.\<close>

theorem derived_periods_tile:
  assumes "sound_eras eras" "\<forall>row \<in> set paydays. valid_date (snd row)"
  shows "if distinct (map snd paydays)
    then \<exists>ps. derive_periods paydays eras = Inr ps \<and> tiles ps \<and>
      mset (map (\<lambda>p. (period_id p, start_date p)) ps) = mset paydays \<and>
      map period_index ps = map int [0 ..< length ps] \<and>
      (\<forall>i < length ps. end_is_projected (ps ! i) \<longleftrightarrow> i + 1 = length ps) \<and>
      (ps \<noteq> [] \<longrightarrow> payday_after eras (start_date (last ps)) = Inr (add_days (end_date (last ps)) 1)) \<and>
      (\<forall>day. ps \<noteq> [] \<and> valid_date day \<and> start_date (hd ps) \<le> day \<and> day \<le> end_date (last ps) \<longrightarrow>
         (\<exists>i < length ps. containing_index ps day = Some i \<and> (\<forall>j < length ps. covers (ps ! j) day \<longleftrightarrow> j = i)))
    else derive_periods paydays eras = Inl PayCalendarError"
proof (cases "distinct (map snd paydays)")
  case True
  obtain ps where "derive_periods paydays eras = Inr ps" "tiles ps"
    "mset (map (\<lambda>p. (period_id p, start_date p)) ps) = mset paydays" "map period_index ps = map int [0 ..< length ps]"
    "\<forall>i < length ps. end_is_projected (ps ! i) \<longleftrightarrow> i + 1 = length ps"
    "ps \<noteq> [] \<longrightarrow> payday_after eras (start_date (last ps)) = Inr (add_days (end_date (last ps)) 1)"
    by (rule derive_periods_value[OF assms True])
  moreover from this(2) have "\<exists>i < length ps. containing_index ps day = Some i \<and> (\<forall>j < length ps. covers (ps ! j) day \<longleftrightarrow> j = i)"
    if "ps \<noteq> []" "valid_date day" "start_date (hd ps) \<le> day" "day \<le> end_date (last ps)" for day
    using tiles_cover[OF _ that] by metis
  ultimately show ?thesis using True by (intro if_P[THEN iffD2] exI[of _ ps]) simp_all
next
  case False
  have "distinct (map snd (sort_key snd paydays)) = distinct (map snd paydays)"
    by (metis mset_eq_imp_distinct_iff mset_map mset_sort)
  then show ?thesis
    using False assms(1) repeated_sorted[of "map snd (sort_key snd paydays)"]
    by (simp add: derive_periods_def sound_eras_def Let_def)
qed

lemma derived_periods_tile_witness:
  "\<exists>ps. derive_periods [(Some 2, Date 2026 1 16), (Some 1, Date 2026 1 2)] two_eras = Inr ps \<and> tiles ps \<and> length ps = 2"
proof -
  let ?paydays = "[(Some 2, Date 2026 1 16), (Some (1 :: int), Date 2026 1 2)]"
  obtain ps where ps: "derive_periods ?paydays two_eras = Inr ps" "tiles ps"
    "mset (map (\<lambda>p. (period_id p, start_date p)) ps) = mset ?paydays"
    using derived_periods_tile[OF two_eras_sound, of ?paydays] by (auto simp: valid_Date days_in_month_def)
  then have "length ps = 2" using mset_eq_length[OF ps(3)] by simp
  then show ?thesis using ps(1,2) by blast
qed

end
