(* ===== verification/Pay_Projection.thy ===== *)
theory Pay_Projection
  imports Pay_Calendar
begin

text \<open>
  \<open>app/services/pay_calendar/_projection.py\<close>: the calendar continued past the record by the plan of the
  owner's eras, one projected period for any day.
\<close>

section \<open>The projection past the record\<close>

fun paid_before_era :: "era list \<Rightarrow> nat \<Rightarrow> int res" where
  "paid_before_era eras 0 = Inr 0"
| "paid_before_era eras (Suc j) =
     bind_res (paid_before_era eras j)
       (\<lambda>n. bind_res (last_step_of eras j)
          (\<lambda>last. case last of None \<Rightarrow> Inl TypeError | Some l \<Rightarrow> Inr (n + (l + 1))))"

definition plan_ordinal :: "era list \<Rightarrow> nat \<Rightarrow> int \<Rightarrow> int res" where
  "plan_ordinal eras index steps = bind_res (paid_before_era eras index) (\<lambda>n. Inr (n + steps))"

definition projected_candidate :: "era list \<Rightarrow> nat \<Rightarrow> int \<Rightarrow> int \<Rightarrow> derived_period res" where
  "projected_candidate eras index steps ordinal =
     (let e = eras ! index
      in bind_res (following_planned eras index steps)
           (\<lambda>(next_index, next_steps). let following = eras ! next_index in Inr
              \<lparr>period_id = None, period_index = ordinal,
               start_date = projected_payday (effective_from e) (era_rhythm e) steps,
               end_date = add_days (projected_payday (effective_from following) (era_rhythm following) next_steps) (- 1),
               end_is_projected = True\<rparr>))"

fun covering_projection :: "derived_period res list \<Rightarrow> date \<Rightarrow> derived_period res" where
  "covering_projection [] day = Inl PayCalendarError"
| "covering_projection (c # cs) day =
     bind_res c (\<lambda>candidate. if covers candidate day then Inr candidate else covering_projection cs day)"

definition projection_window :: "nat \<Rightarrow> int option \<Rightarrow> int \<Rightarrow> int list" where
  "projection_window index top_step estimate =
     [steps \<leftarrow> [estimate, estimate - 1, estimate + 1].
        (index = 0 \<or> 0 \<le> steps) \<and> (case top_step of None \<Rightarrow> True | Some t \<Rightarrow> steps \<le> t)]"

definition project_period_after :: "derived_period list \<Rightarrow> era list \<Rightarrow> date \<Rightarrow> derived_period res" where
  "project_period_after periods eras day =
     (let final = last periods; index = era_index_at eras day; e = eras ! index
      in bind_res (last_step_of eras index)
           (\<lambda>top_step. let raw = cadence_steps_to (effective_from e) (cadence_of (era_rhythm e)) day;
                estimate = (case top_step of None \<Rightarrow> raw | Some t \<Rightarrow> min raw t)
            in bind_res (horizon_step eras (start_date final))
                 (\<lambda>(h_index, h_steps). covering_projection
                    (map (\<lambda>steps.
                       bind_res (plan_ordinal eras index steps)
                         (\<lambda>here. bind_res (plan_ordinal eras h_index h_steps)
                           (\<lambda>horizon. projected_candidate eras index steps
                              (period_index final + 1 + here - horizon))))
                       (projection_window index top_step estimate))
                    day)))"

subsection \<open>Where a day falls in the plan\<close>

lemma plan_ordinal_following:
  assumes "sound_eras eras" "planned eras i s"
  obtains n where "plan_ordinal eras i s = Inr n"
    "\<And>i' s'. following_planned eras i s = Inr (i', s') \<Longrightarrow> plan_ordinal eras i' s' = Inr (n + 1)"
proof -
  have "\<exists>n. paid_before_era eras k = Inr n" if "k < length eras" for k
    using that
  proof (induction k)
    case (Suc k)
    then obtain n where "paid_before_era eras k = Inr n" by auto
    moreover obtain l where "last_step_of eras k = Inr (Some l)" using seam[OF assms(1), of k] Suc.prems by auto
    ultimately show ?case by simp
  qed simp
  then obtain n where n: "paid_before_era eras i = Inr n" using assms(2) by (auto simp: planned_def)
  show thesis
  proof (rule that)
    show "plan_ordinal eras i s = Inr (n + s)" by (simp add: plan_ordinal_def n)
    fix i' s' assume f: "following_planned eras i s = Inr (i', s')"
    have "i' = i \<and> s' = s + 1 \<or> i' = i + 1 \<and> s' = 0 \<and> last_step_of eras i = Inr (Some s)"
      using following_planned_later[OF assms] f by auto
    then show "plan_ordinal eras i' s' = Inr (n + s + 1)" by (auto simp: plan_ordinal_def n)
  qed
qed

lemma latest_planned:
  assumes "sound_eras eras" "valid_date day"
    and i: "i = era_index_at eras day" and e: "last_step_of eras i = Inr top_step"
    "estimate = (case top_step of None \<Rightarrow> era_steps_to (eras ! i) day | Some t \<Rightarrow> min (era_steps_to (eras ! i) day) t)"
  obtains s i' s' where "planned eras i s" "era_payday (eras ! i) s \<le> day"
    "following_planned eras i s = Inr (i', s')" "planned eras i' s'" "day < era_payday (eras ! i') s'"
    "s \<in> {estimate - 1, estimate, estimate + 1}"
proof -
  let ?st = "era_steps_to (eras ! i) day"
  have len: "i < length eras" and ok: "grid_ok (eras ! i)"
    using era_index_at_spec(1)[OF assms(1)] sound_eras_facts(2)[OF assms(1)] by (simp_all add: i)
  obtain T where T: "day < era_payday (eras ! i) (T + 1)" "era_payday (eras ! i) T \<le> day"
    using step_after_finds[OF ok assms(2)] by (metis diff_add_cancel)
  have "era_payday (eras ! i) (?st - 1) < era_payday (eras ! i) (T + 1)"
    "era_payday (eras ! i) T < era_payday (eras ! i) (?st + 2)"
    using T era_payday_facts(4,5)[OF ok assms(2)] by auto
  then have near: "?st - 1 \<le> T" "T \<le> ?st + 1" using era_payday_facts(2)[OF ok] by auto
  have T0: "0 \<le> T" if "0 < i"
  proof -
    have "era_payday (eras ! i) 0 < era_payday (eras ! i) (T + 1)"
      using era_index_at_spec(2)[OF assms(1), of day] that T(1) by (simp add: i first_payday_of_def)
    then show ?thesis using era_payday_facts(2)[OF ok] by auto
  qed
  show thesis
  proof (cases top_step)
    case None
    then have "planned eras i T" "planned eras i (T + 1)" using T0 len e by (simp_all add: planned_def)
    then show thesis using T near None e by (intro that[of T i "T + 1"]) (auto simp: following_planned_def)
  next
    case (Some t)
    then have "i + 1 \<noteq> length eras" using e last_step_latest[of i eras] by auto
    then have next_era: "i + 1 < length eras" using len by simp
    have t0: "0 \<le> t" using seam[OF assms(1) next_era] Some e by auto
    show thesis
    proof (cases "T < t")
      case True
      then have "planned eras i T" "planned eras i (T + 1)" using T0 len e Some by (simp_all add: planned_def)
      then show thesis using T near True Some e by (intro that[of T i "T + 1"]) (auto simp: following_planned_def)
    next
      case False
      have "era_payday (eras ! i) t \<le> day"
        using False T(2) era_payday_facts(3)[OF ok, of t T] by (meson le_less_linear order_trans)
      moreover have "planned eras i t" using t0 len e Some by (simp add: planned_def)
      moreover have "day < era_payday (eras ! (i + 1)) 0"
        using era_index_at_spec(3)[OF assms(1)] next_era by (simp add: i first_payday_of_def)
      ultimately show thesis
        using near False Some e planned_zero[OF assms(1) next_era]
        by (intro that[of t "i + 1" 0]) (auto simp: following_planned_def)
    qed
  qed
qed
lemma planned_injective:
  assumes "sound_eras eras" "planned eras i s" "planned eras j t" "era_payday (eras ! i) s = era_payday (eras ! j) t"
  shows "i = j \<and> s = t"
proof -
  have "\<not> i < j" "\<not> j < i" using planned_order[OF assms(1)] assms(2-4) by force+
  then have ij: "i = j" by simp
  have "grid_ok (eras ! i)" using sound_eras_facts(2)[OF assms(1)] assms(2) by (simp add: planned_def)
  then show ?thesis using era_payday_facts(3)[of "eras ! i"] assms(4) ij by (metis order.antisym order.refl)
qed

lemma plan_position_unique:
  assumes "sound_eras eras"
    and "planned eras i s" "following_planned eras i s = Inr (i', s')" "era_payday (eras ! i) s \<le> day" "day < era_payday (eras ! i') s'"
    and "planned eras j t" "following_planned eras j t = Inr (j', t')" "era_payday (eras ! j) t \<le> day" "day < era_payday (eras ! j') t'"
  shows "i = j \<and> s = t"
proof (rule planned_injective[OF assms(1,2,6)])
  show "era_payday (eras ! i) s = era_payday (eras ! j) t"
    using following_least[OF assms(1-3,6)] following_least[OF assms(1,6,7,2)] assms(4,5,8,9)
    by (meson le_less_trans linorder_neqE not_le)
qed

lemma covering_projection_finds:
  assumes "Inr q \<in> set cs" "covers q day" "\<And>c. c \<in> set cs \<Longrightarrow> \<exists>p. c = Inr p \<and> (covers p day \<longrightarrow> p = q)"
  shows "covering_projection cs day = Inr q"
  using assms
proof (induction cs)
  case (Cons c cs)
  obtain p where p: "c = Inr p" "covers p day \<longrightarrow> p = q" using Cons.prems(3)[of c] by auto
  show ?case
  proof (cases "covers p day")
    case False
    then have "Inr q \<in> set cs" using Cons.prems(1,2) p(1) by auto
    then show ?thesis using Cons.IH Cons.prems False p(1) by simp
  qed (use p in simp)
qed simp

subsection \<open>The projected periods\<close>

text \<open>The period the plan puts at a position, its end and its place in the plan.\<close>

definition ordinal_of :: "era list \<Rightarrow> nat \<Rightarrow> int \<Rightarrow> int" where
  "ordinal_of eras i s = projr (plan_ordinal eras i s)"

definition plan_end :: "era list \<Rightarrow> nat \<Rightarrow> int \<Rightarrow> date" where
  "plan_end eras i s =
     (let (i', s') = projr (following_planned eras i s) in add_days (era_payday (eras ! i') s') (- 1))"

definition plan_period :: "derived_period list \<Rightarrow> era list \<Rightarrow> nat \<Rightarrow> int \<Rightarrow> derived_period" where
  "plan_period ps eras i s =
     (let (h, k) = projr (horizon_step eras (start_date (last ps)))
      in \<lparr>period_id = None, period_index = period_index (last ps) + 1 + ordinal_of eras i s - ordinal_of eras h k,
          start_date = era_payday (eras ! i) s, end_date = plan_end eras i s, end_is_projected = True\<rparr>)"

lemma planned_valid: "sound_eras eras \<Longrightarrow> planned eras i s \<Longrightarrow> valid_date (era_payday (eras ! i) s)"
  using era_payday_facts(1)[OF sound_eras_facts(2)] by (simp add: planned_def)

lemma plan_step:
  assumes "sound_eras eras" "planned eras i s"
  obtains i' s' where "following_planned eras i s = Inr (i', s')" "planned eras i' s'"
    "plan_end eras i s = add_days (era_payday (eras ! i') s') (- 1)" "era_payday (eras ! i') s' = add_days (plan_end eras i s) 1"
    "era_payday (eras ! i) s \<le> plan_end eras i s" "valid_date (plan_end eras i s)"
    "plan_ordinal eras i s = Inr (ordinal_of eras i s)" "ordinal_of eras i' s' = ordinal_of eras i s + 1"
proof -
  obtain i' s' where f: "following_planned eras i s = Inr (i', s')" "planned eras i' s'"
    "era_payday (eras ! i) s < era_payday (eras ! i') s'" using following_planned_later[OF assms] by metis
  obtain n where n: "plan_ordinal eras i s = Inr n" "plan_ordinal eras i' s' = Inr (n + 1)"
    using plan_ordinal_following[OF assms] f(1) by metis
  have v: "valid_date (era_payday (eras ! i) s)" "valid_date (era_payday (eras ! i') s')"
    using planned_valid[OF assms(1)] assms(2) f(2) by simp_all
  have e: "plan_end eras i s = add_days (era_payday (eras ! i') s') (- 1)" using f(1) by (simp add: plan_end_def)
  show thesis
    using f n v e by (intro that[of i' s']) (simp_all add: ordinal_of_def add_days_add day_number_le_iff day_number_less_iff)
qed

lemma planned_outside:
  assumes "sound_eras eras" "planned eras i s" "planned eras j t" "era_payday (eras ! i) s < era_payday (eras ! j) t"
  shows "plan_end eras i s < era_payday (eras ! j) t"
proof -
  obtain i' s' where p: "following_planned eras i s = Inr (i', s')" "planned eras i' s'" "valid_date (plan_end eras i s)"
    "plan_end eras i s = add_days (era_payday (eras ! i') s') (- 1)" using plan_step[OF assms(1,2)] by metis
  show ?thesis
    using following_least[OF assms(1,2) p(1) assms(3,4)] p(3,4) planned_valid[OF assms(1)] p(2) assms(3)
    by (simp add: day_number_less_iff day_number_le_iff)
qed

lemma planned_position:
  assumes "sound_eras eras" "valid_date day"
  obtains i s where "planned eras i s" "era_payday (eras ! i) s \<le> day" "day \<le> plan_end eras i s"
proof -
  have "\<exists>x. last_step_of eras (era_index_at eras day) = Inr x"
    using seam[OF assms(1), of "era_index_at eras day"] last_step_latest[of "era_index_at eras day" eras]
      era_index_at_spec(1)[OF assms(1), of day] by (metis Suc_eq_plus1 Suc_lessI)
  then obtain i s i' s' where p: "planned eras i s" "following_planned eras i s = Inr (i', s')" "era_payday (eras ! i) s \<le> day"
    "day < era_payday (eras ! i') s'" "planned eras i' s'" using latest_planned[OF assms refl _ refl] by metis
  then have "day \<le> plan_end eras i s"
    using planned_valid[OF assms(1) p(5)] assms(2) by (simp add: plan_end_def day_number_less_iff day_number_le_iff)
  with p(1,3) show thesis by (rule that)
qed

lemma horizon_position:
  assumes "sound_eras eras" "valid_date d"
  obtains h k where "horizon_step eras d = Inr (h, k)" "planned eras h k" "payday_after eras d = Inr (era_payday (eras ! h) k)"
proof -
  obtain a b where m: "matched_planned eras d = Inr (a, b)" by (rule matched_planned_returns[OF assms])
  obtain h k where "following_planned eras a b = Inr (h, k)" "planned eras h k"
    using following_planned_later[OF assms(1) matched_planned_own(1)[OF assms m]] by metis
  then show thesis using m by (intro that[of h k]) (simp_all add: horizon_step_def payday_after_def Let_def)
qed

lemma project_period_after_value:
  assumes "sound_eras eras" "valid_date (start_date (last ps))" "valid_date day"
    and pos: "planned eras i s" "era_payday (eras ! i) s \<le> day" "day \<le> plan_end eras i s"
  shows "project_period_after ps eras day = Inr (plan_period ps eras i s)"
proof -
  let ?i = "era_index_at eras day"
  have len: "?i < length eras" by (rule era_index_at_spec(1)[OF assms(1)])
  obtain i' s' where p: "following_planned eras i s = Inr (i', s')" "planned eras i' s'" "valid_date (plan_end eras i s)"
    "era_payday (eras ! i') s' = add_days (plan_end eras i s) 1"
    using plan_step[OF assms(1) pos(1)] by metis
  then have before: "day < era_payday (eras ! i') s'" using pos(3) assms(3) by (simp add: day_number_less_iff day_number_le_iff)
  obtain h k where h: "horizon_step eras (start_date (last ps)) = Inr (h, k)" "planned eras h k"
    using horizon_position[OF assms(1,2)] by metis
  obtain top_step where e: "last_step_of eras ?i = Inr top_step"
    using seam[OF assms(1), of ?i] last_step_latest[of ?i eras] len by (metis Suc_eq_plus1 Suc_lessI)
  define estimate where "estimate = (case top_step of None \<Rightarrow> era_steps_to (eras ! ?i) day | Some t \<Rightarrow> min (era_steps_to (eras ! ?i) day) t)"
  obtain u j t where u: "planned eras ?i u" "era_payday (eras ! ?i) u \<le> day" "following_planned eras ?i u = Inr (j, t)"
    "day < era_payday (eras ! j) t" "u \<in> {estimate - 1, estimate, estimate + 1}"
    by (rule latest_planned[OF assms(1,3) refl e estimate_def])
  have near: "i = ?i" "s = u" using plan_position_unique[OF assms(1) pos(1) p(1) pos(2) before u(1,3,2,4)] by auto
  let ?cand = "\<lambda>steps. bind_res (plan_ordinal eras ?i steps)
     (\<lambda>here. bind_res (plan_ordinal eras h k) (\<lambda>horizon.
        projected_candidate eras ?i steps (period_index (last ps) + 1 + here - horizon)))"
  have project: "project_period_after ps eras day = covering_projection (map ?cand (projection_window ?i top_step estimate)) day"
    using e h(1) by (simp add: project_period_after_def Let_def estimate_def)
  have cand: "?cand w = Inr (plan_period ps eras ?i w)" if pw: "planned eras ?i w" for w
  proof -
    obtain j t where "following_planned eras ?i w = Inr (j, t)" "plan_ordinal eras ?i w = Inr (ordinal_of eras ?i w)"
      using plan_step[OF assms(1) pw] by metis
    moreover have "plan_ordinal eras h k = Inr (ordinal_of eras h k)" using plan_step[OF assms(1) h(2)] by metis
    ultimately show ?thesis using h(1) by (simp add: projected_candidate_def plan_period_def plan_end_def Let_def)
  qed
  have inside: "w \<in> set (projection_window ?i top_step estimate) \<longleftrightarrow> w \<in> {estimate - 1, estimate, estimate + 1} \<and> planned eras ?i w" for w
    using len e by (auto simp: projection_window_def planned_def split: option.splits)
  have start: "start_date (plan_period ps eras j t) = era_payday (eras ! j) t" "end_date (plan_period ps eras j t) = plan_end eras j t" for j t
    by (simp_all add: plan_period_def split_def Let_def)
  show ?thesis unfolding project
  proof (rule covering_projection_finds)
    show "Inr (plan_period ps eras i s) \<in> set (map ?cand (projection_window ?i top_step estimate))"
      using cand[OF u(1)] u(1,5) near inside by force
    show "covers (plan_period ps eras i s) day" using pos(2,3) by (simp add: covers_def start)
    fix c assume "c \<in> set (map ?cand (projection_window ?i top_step estimate))"
    then obtain w where w: "c = ?cand w" "planned eras ?i w" using inside by auto
    have "\<not> era_payday (eras ! ?i) w < era_payday (eras ! i) s" if "day \<le> plan_end eras ?i w"
      using planned_outside[OF assms(1) w(2) pos(1)] pos(2) that by auto
    moreover have "\<not> era_payday (eras ! i) s < era_payday (eras ! ?i) w" if "era_payday (eras ! ?i) w \<le> day"
      using planned_outside[OF assms(1) pos(1) w(2)] pos(3) that by auto
    ultimately have "era_payday (eras ! ?i) w = era_payday (eras ! i) s" if "covers (plan_period ps eras ?i w) day"
      using that by (simp add: covers_def start)
    then have "w = s" if "covers (plan_period ps eras ?i w) day" using that planned_injective[OF assms(1) w(2) pos(1)] by simp
    then show "\<exists>q. c = Inr q \<and> (covers q day \<longrightarrow> q = plan_period ps eras i s)" using w cand near by auto
  qed
qed

lemma plan_period_simps [simp]:
  "period_id (plan_period ps eras i s) = None" "start_date (plan_period ps eras i s) = era_payday (eras ! i) s"
  "end_date (plan_period ps eras i s) = plan_end eras i s" "end_is_projected (plan_period ps eras i s)"
  by (simp_all add: plan_period_def split_def Let_def)

lemma plan_period_index:
  "ordinal_of eras i' s' = ordinal_of eras i s + 1 \<Longrightarrow>
    period_index (plan_period ps eras i' s') = period_index (plan_period ps eras i s) + 1"
  "horizon_step eras (start_date (last ps)) = Inr (h, k) \<Longrightarrow> period_index (plan_period ps eras h k) = period_index (last ps) + 1"
  by (simp_all add: plan_period_def split_def Let_def)

text \<open>
  C10: the calendar past the record.  For any day, whatever eras lie between, a projected period is found:
  it covers the day, opens on a planned payday, runs to the day before the next planned one, and names no
  stored row; the day after its end is covered by the next projected period, numbered one higher; and the
  period that opens on the first planned payday after the record is numbered right after the last
  recorded one.\<close>

theorem projection_continues:
  assumes "sound_eras eras" "valid_date (start_date (last ps))" "valid_date day"
  shows "\<exists>q r. project_period_after ps eras day = Inr q \<and> covers q day \<and> is_projected q \<and> end_is_projected q \<and>
    (\<exists>i s. planned eras i s \<and> start_date q = era_payday (eras ! i) s) \<and>
    (\<forall>i s. planned eras i s \<longrightarrow> \<not> (start_date q < era_payday (eras ! i) s \<and> era_payday (eras ! i) s \<le> end_date q)) \<and>
    project_period_after ps eras (add_days (end_date q) 1) = Inr r \<and>
    start_date r = add_days (end_date q) 1 \<and> period_index r = period_index q + 1 \<and>
    (payday_after eras (start_date (last ps)) = Inr (start_date q) \<longrightarrow> period_index q = period_index (last ps) + 1)"
proof -
  obtain i s where pos: "planned eras i s" "era_payday (eras ! i) s \<le> day" "day \<le> plan_end eras i s"
    by (rule planned_position[OF assms(1,3)])
  obtain i' s' where n: "planned eras i' s'" "era_payday (eras ! i') s' = add_days (plan_end eras i s) 1"
    "ordinal_of eras i' s' = ordinal_of eras i s + 1" using plan_step[OF assms(1) pos(1)] by metis
  have "era_payday (eras ! i') s' \<le> plan_end eras i' s'" using plan_step[OF assms(1) n(1)] by metis
  then have r: "project_period_after ps eras (add_days (plan_end eras i s) 1) = Inr (plan_period ps eras i' s')"
    using project_period_after_value[OF assms(1,2) planned_valid[OF assms(1) n(1)] n(1)] n(2) by simp
  obtain h k where h: "horizon_step eras (start_date (last ps)) = Inr (h, k)" "planned eras h k"
    "payday_after eras (start_date (last ps)) = Inr (era_payday (eras ! h) k)" by (rule horizon_position[OF assms(1,2)])
  have "period_index (plan_period ps eras i s) = period_index (last ps) + 1" if "era_payday (eras ! h) k = era_payday (eras ! i) s"
    using planned_injective[OF assms(1) h(2) pos(1) that] plan_period_index(2)[OF h(1)] by simp
  moreover have "\<not> (era_payday (eras ! i) s < era_payday (eras ! j) t \<and> era_payday (eras ! j) t \<le> plan_end eras i s)"
    if "planned eras j t" for j t using planned_outside[OF assms(1) pos(1) that] by auto
  ultimately show ?thesis
    using project_period_after_value[OF assms pos] pos n(2) r h(3) plan_period_index(1)[OF n(3)]
    by (intro exI[of _ "plan_period ps eras i s"] exI[of _ "plan_period ps eras i' s'"] conjI allI impI)
      (auto simp: covers_def is_projected_def)
qed

lemma projection_continues_witness:
  "\<exists>q. project_period_after
      [\<lparr>period_id = Some 1, period_index = 0, start_date = Date 2026 1 2, end_date = Date 2026 1 15, end_is_projected = True\<rparr>]
      two_eras (Date 2026 3 1) = Inr q \<and> covers q (Date 2026 3 1)"
  using projection_continues[OF two_eras_sound, of
      "[\<lparr>period_id = Some 1, period_index = 0, start_date = Date 2026 1 2, end_date = Date 2026 1 15, end_is_projected = True\<rparr>]"
      "Date 2026 3 1"]
  by (auto simp: valid_Date days_in_month_def)

end
