(* ===== verification/Pay_Cadence.thy ===== *)
theory Pay_Cadence
  imports Pay_Grid
begin

text \<open>
  \<open>app/services/pay_calendar/_cadence.py\<close>: how many paychecks a year and a span of months hold at a
  cadence, and the conversions between amounts per paycheck, per month and per year.
\<close>

section \<open>Counts\<close>

definition DAYS_PER_YEAR :: dec where "DAYS_PER_YEAR = 3652425 / 10000"

definition pay_cadence :: "cadence \<Rightarrow> cadence res" where
  "pay_cadence c = bind_res (validate_cadence c) (\<lambda>_. Inr c)"

fun paydays_per_month :: "cadence \<Rightarrow> dec" where
  "paydays_per_month (Semi_Monthly lower upper) = 2"
| "paydays_per_month _ = 1"

definition fixed_days_periods_per_year :: "int \<Rightarrow> dec" where
  "fixed_days_periods_per_year days = of_int (round_half_up (ddiv DAYS_PER_YEAR (of_int days)))"

definition month_kind_periods_per_year :: "cadence \<Rightarrow> dec" where
  "month_kind_periods_per_year c = dmul (paydays_per_month c) MONTHS_PER_YEAR"

fun periods_per_year :: "cadence \<Rightarrow> dec" where
  "periods_per_year (Fixed_Days days) = fixed_days_periods_per_year days"
| "periods_per_year c = month_kind_periods_per_year c"

definition fixed_days_paychecks_within :: "int \<Rightarrow> int \<Rightarrow> int" where
  "fixed_days_paychecks_within days months =
     \<lfloor>ddiv (dmul (of_int months) DAYS_PER_YEAR) (dmul MONTHS_PER_YEAR (of_int days))\<rfloor>"

definition month_kind_paychecks_within :: "cadence \<Rightarrow> int \<Rightarrow> int" where
  "month_kind_paychecks_within c months =
     (let n = dmul (paydays_per_month c) (of_int months) in if 0 \<le> n then \<lfloor>n\<rfloor> else \<lceil>n\<rceil>)"

fun paychecks_within :: "cadence \<Rightarrow> int \<Rightarrow> int" where
  "paychecks_within (Fixed_Days days) months = fixed_days_paychecks_within days months"
| "paychecks_within c months = month_kind_paychecks_within c months"

section \<open>Conversions\<close>

definition times_paychecks_per_month :: "cadence \<Rightarrow> dec \<Rightarrow> dec" where
  "times_paychecks_per_month c x = ddiv (dmul x (periods_per_year c)) MONTHS_PER_YEAR"

definition per_paycheck_to_monthly :: "cadence \<Rightarrow> dec \<Rightarrow> dec" where
  "per_paycheck_to_monthly c per_paycheck = times_paychecks_per_month c per_paycheck"

definition months_to_paychecks :: "cadence \<Rightarrow> dec \<Rightarrow> dec" where
  "months_to_paychecks c months = times_paychecks_per_month c months"

definition monthly_to_per_paycheck :: "cadence \<Rightarrow> dec \<Rightarrow> dec" where
  "monthly_to_per_paycheck c monthly = ddiv (dmul monthly MONTHS_PER_YEAR) (periods_per_year c)"

definition annual_to_per_paycheck :: "cadence \<Rightarrow> dec \<Rightarrow> dec" where
  "annual_to_per_paycheck c annual = ddiv annual (periods_per_year c)"

section \<open>Exact counts\<close>

lemma floor_fix28:
  fixes q :: rat
  assumes "0 \<le> q" "q \<le> 10 ^ 15" "q * of_int b = of_int a" "0 < b" "b \<le> 10 ^ 9"
  shows "\<lfloor>fix28 q\<rfloor> = \<lfloor>q\<rfloor>"
proof (rule floor_unique)
  have "fix28 (of_int \<lfloor>q\<rfloor>) = of_int \<lfloor>q\<rfloor>"
  proof (rule fix28_places)
    show "places 0 (of_int \<lfloor>q\<rfloor>)" by simp
    show "\<bar>of_int \<lfloor>q\<rfloor>\<bar> < (10 :: rat) powi (28 - int 0)"
      using assms(1,2) of_int_floor_le[of q] by (simp add: abs_of_nonneg)
  qed
  then show "of_int \<lfloor>q\<rfloor> \<le> fix28 q" using fix28_mono[of "of_int \<lfloor>q\<rfloor>" q] assms(1) by simp
  have "of_int a < (of_int \<lfloor>q\<rfloor> + 1) * (of_int b :: rat)"
    using mult_strict_right_mono[of q "of_int \<lfloor>q\<rfloor> + 1" "of_int b"] assms(3,4) floor_less_iff[of q "\<lfloor>q\<rfloor> + 1"] by simp
  then have "of_int a < (of_int ((\<lfloor>q\<rfloor> + 1) * b) :: rat)" by simp
  then have "a + 1 \<le> (\<lfloor>q\<rfloor> + 1) * b" by (simp only: of_int_less_iff)
  then have "(of_int (a + 1) :: rat) \<le> of_int ((\<lfloor>q\<rfloor> + 1) * b)" by (simp only: of_int_le_iff)
  then have "q * of_int b + 1 \<le> (of_int \<lfloor>q\<rfloor> + 1) * of_int b" using assms(3) by simp
  then have "1 \<le> (of_int \<lfloor>q\<rfloor> + 1 - q) * of_int b" by (simp add: algebra_simps)
  also have "\<dots> \<le> (of_int \<lfloor>q\<rfloor> + 1 - q) * 10 ^ 9"
    using assms(5) of_int_le_iff[of b "10 ^ 9", where 'a=rat] by (intro mult_left_mono) (simp_all, linarith)
  finally have "q + 1 / 10 ^ 9 \<le> of_int \<lfloor>q\<rfloor> + 1" by simp
  moreover have "fix28 q \<le> q + q / (2 * 10 ^ 27)" using fix28_error[of q] assms(1) by linarith
  ultimately show "fix28 q < of_int \<lfloor>q\<rfloor> + 1" using assms(2) by simp
qed

lemma DAYS_PER_YEAR_places: "places 4 DAYS_PER_YEAR"
  using placesI[of DAYS_PER_YEAR 3652425 4] by (simp add: DAYS_PER_YEAR_def)

lemma fixed_days_paychecks_within_exact:
  assumes "1 \<le> days" "days \<le> 365" "0 \<le> months" "months \<le> 10 ^ 6"
  shows "fixed_days_paychecks_within days months = \<lfloor>of_int months * DAYS_PER_YEAR / (12 * of_int days)\<rfloor>"
proof -
  let ?q = "of_int months * DAYS_PER_YEAR / (12 * of_int days)"
  have m: "(0 :: rat) \<le> of_int months" "(of_int months :: rat) \<le> 10 ^ 6"
    using assms(3,4) of_int_le_iff[of months "10 ^ 6", where 'a=rat] by simp_all
  have d: "(1 :: rat) \<le> of_int days" "(of_int days :: rat) \<le> 365" using assms(1,2) by simp_all
  have "dmul (of_int months) DAYS_PER_YEAR = of_int months * DAYS_PER_YEAR"
    unfolding dmul_def using m places_mult[of 0 "of_int months" 4 DAYS_PER_YEAR] DAYS_PER_YEAR_places
    by (intro fix28_places[of 4]) (simp_all add: DAYS_PER_YEAR_def abs_mult)
  moreover have "dmul MONTHS_PER_YEAR (of_int days) = 12 * of_int days"
    unfolding dmul_def MONTHS_PER_YEAR_def using d by (intro fix28_places[of 0]) (simp_all add: places_mult[of 0 _ 0, simplified])
  moreover have "\<lfloor>fix28 ?q\<rfloor> = \<lfloor>?q\<rfloor>"
  proof (rule floor_fix28)
    show "0 \<le> ?q" using m d by (simp add: DAYS_PER_YEAR_def)
    show "?q \<le> 10 ^ 15" using m d by (simp add: DAYS_PER_YEAR_def divide_le_eq)
    show "?q * of_int (120000 * days) = of_int (months * 3652425)" using d by (simp add: DAYS_PER_YEAR_def)
  qed (use assms in simp_all)
  ultimately show ?thesis by (simp add: fixed_days_paychecks_within_def ddiv_def)
qed

lemma month_kind_paychecks_within_exact:
  assumes "\<And>days. c \<noteq> Fixed_Days days" "0 \<le> months" "months \<le> 10 ^ 6"
  shows "month_kind_paychecks_within c months = (case c of Semi_Monthly _ _ \<Rightarrow> 2 * months | _ \<Rightarrow> months)"
proof -
  have "fix28 (of_int k) = of_int k" if "0 \<le> k" "k \<le> 10 ^ 7" for k :: int
    using that of_int_le_iff[of k "10 ^ 7", where 'a=rat] by (intro fix28_places[of 0]) simp_all
  from this[of months] this[of "2 * months"] show ?thesis
    using assms floor_of_int[of "2 * months", where 'a=rat]
    by (cases c) (simp_all add: month_kind_paychecks_within_def dmul_def Let_def)
qed

lemma round_half_up_pos: "1/2 \<le> x \<Longrightarrow> 1 \<le> round_half_up x"
  using round_half_up_mono[of "1/2" x] by (simp add: round_half_up_def)

lemma periods_per_year_count:
  assumes "validate_cadence c = Inr ()"
  obtains n where "periods_per_year c = of_int n" "1 \<le> n" "n \<le> 366"
proof (cases c)
  case (Fixed_Days days)
  then have d: "1 \<le> days" "days \<le> 365"
    using assms by (auto simp: validate_cadence_def refuse_unless_def MIN_CADENCE_DAYS_def MAX_CADENCE_DAYS_def split: if_splits)
  let ?q = "DAYS_PER_YEAR / of_int days"
  have q: "1 \<le> ?q" "?q \<le> DAYS_PER_YEAR" using d by (simp_all add: DAYS_PER_YEAR_def divide_le_eq)
  have one: "fix28 1 = 1" "fix28 366 = 366" using fix28_places[of 0 1] fix28_places[of 0 366] by simp_all
  have "1 \<le> fix28 ?q" "fix28 ?q \<le> 366"
    using fix28_mono[OF _ q(1)] fix28_mono[of ?q 366] one q d by (simp_all add: DAYS_PER_YEAR_def)
  then have "1 \<le> round_half_up (fix28 ?q)" "round_half_up (fix28 ?q) \<le> 366"
    using round_half_up_pos[of "fix28 ?q"] round_half_up_mono[of "fix28 ?q" 366] round_half_up_def[of 366] floor_unique[of 366 "733/2 :: rat"] by simp_all
  then show thesis using Fixed_Days by (intro that) (simp_all add: fixed_days_periods_per_year_def ddiv_def)
next
  case (Monthly day)
  then show thesis using fix28_places[of 0 12]
    by (intro that[of 12]) (simp_all add: month_kind_periods_per_year_def dmul_def MONTHS_PER_YEAR_def)
next
  case (Semi_Monthly lower upper)
  then show thesis using fix28_places[of 0 24]
    by (intro that[of 24]) (simp_all add: month_kind_periods_per_year_def dmul_def MONTHS_PER_YEAR_def)
qed

section \<open>What the counts and conversions mean\<close>

text \<open>The day a span of months closes on, from a payday: the same stated day of the month, so many months on.\<close>

fun stated_day :: "date \<Rightarrow> cadence \<Rightarrow> int \<Rightarrow> int" where
  "stated_day anchor (Monthly day) steps = day"
| "stated_day anchor (Semi_Monthly lower upper) steps =
     (if even (member_of (lower, upper) anchor + steps) then lower else upper)"
| "stated_day anchor _ steps = d_day anchor"

lemma within_month_kind:
  assumes "\<And>days. c \<noteq> Fixed_Days days" "0 \<le> months" "months \<le> 10 ^ 6"
  shows "nominal_payday anchor c (steps + paychecks_within c months) =
    clamped_day (month_ordinal (nominal_payday anchor c steps) + months) (stated_day anchor c steps)"
proof (cases c)
  case (Semi_Monthly lower upper)
  have "(i + 2 * months) div 2 = i div 2 + months" "(i + 2 * months) mod 2 = i mod 2" for i by simp_all
  then show ?thesis
    using Semi_Monthly month_kind_paychecks_within_exact[OF assms]
    by (simp add: semi_monthly_payday_def Let_def add.assoc[symmetric] even_iff_mod_2_eq_zero) (simp add: ac_simps)
qed (use assms month_kind_paychecks_within_exact[OF assms] in \<open>simp_all add: monthly_payday_def add.assoc\<close>)

text \<open>
  C35: how many paychecks a span of months holds.  Counted from any payday, the count is that of the last
  paycheck to arrive within the span: no later one does, and every earlier one does.  A span of months is
  that many twelfths of 365.2425 days at a cadence of days; at a monthly or semi-monthly one it closes on
  the same day of the month, that many months on.\<close>

theorem paychecks_within_arrive:
  assumes "valid_date anchor" "ordered c" "validate_cadence c = Inr ()" "0 \<le> months" "months \<le> 10 ^ 6"
  shows "k \<le> paychecks_within c months \<longleftrightarrow>
    (case c of
       Fixed_Days _ \<Rightarrow> 12 * of_int (days_between (nominal_payday anchor c (steps + k)) (nominal_payday anchor c steps))
         \<le> of_int months * DAYS_PER_YEAR
     | _ \<Rightarrow> nominal_payday anchor c (steps + k)
         \<le> clamped_day (month_ordinal (nominal_payday anchor c steps) + months) (stated_day anchor c steps))"
proof -
  have le: "k \<le> paychecks_within c months \<longleftrightarrow>
      nominal_payday anchor c (steps + k) \<le> nominal_payday anchor c (steps + paychecks_within c months)"
    using pay_grid.payday_le_iff[OF nominal_grid[OF assms(1), of c]] assms(2,3) by (simp add: cadence_ok_def)
  show ?thesis
  proof (cases c)
    case (Fixed_Days days)
    then have d: "1 \<le> days" "days \<le> 365"
      using assms(3) by (auto simp: validate_cadence_def refuse_unless_def MIN_CADENCE_DAYS_def MAX_CADENCE_DAYS_def split: if_splits)
    have "days_between (fixed_days_payday anchor days (steps + k)) (fixed_days_payday anchor days steps) = k * days"
      using assms(1) by (simp add: fixed_days_payday_def days_between_def algebra_simps)
    moreover have "k \<le> \<lfloor>of_int months * DAYS_PER_YEAR / (12 * of_int days)\<rfloor> \<longleftrightarrow> 12 * (of_int k * of_int days) \<le> of_int months * DAYS_PER_YEAR"
      using d by (simp add: le_floor_iff pos_le_divide_eq algebra_simps)
    ultimately show ?thesis using Fixed_Days fixed_days_paychecks_within_exact[OF d assms(4,5)] by simp
  next
    case (Monthly day)
    then show ?thesis using le within_month_kind[of c months anchor steps] assms(4,5) by simp
  next
    case (Semi_Monthly lower upper)
    then show ?thesis using le within_month_kind[of c months anchor steps] assms(4,5) by simp
  qed
qed

lemma paychecks_within_arrive_witness:
  "paychecks_within (Fixed_Days 14) 6 = 13 \<and> paychecks_within (Fixed_Days 31) 12 = 11"
proof -
  have "validate_cadence (Fixed_Days 14) = Inr ()" "validate_cadence (Fixed_Days 31) = Inr ()" "valid_date (Date 2026 1 2)"
    by (simp_all add: validate_cadence_def refuse_unless_def MIN_CADENCE_DAYS_def MAX_CADENCE_DAYS_def valid_Date days_in_month_def)
  note at = paychecks_within_arrive[OF this(3) _ this(1), of 6 _ 0] paychecks_within_arrive[OF this(3) _ this(2), of 12 _ 0]
  have "days_between (fixed_days_payday (Date 2026 1 2) n k) (fixed_days_payday (Date 2026 1 2) n 0) = k * n" for n k
    using \<open>valid_date (Date 2026 1 2)\<close> by (simp add: fixed_days_payday_def days_between_def)
  with at(1)[of 13] at(1)[of 14] at(2)[of 11] at(2)[of 12] show ?thesis
    by (simp add: DAYS_PER_YEAR_def del: paychecks_within.simps)
qed

lemma round_money_nearby:
  assumes "is_cents m" "\<bar>x - m\<bar> < 1/200"
  shows "round_money x = m"
proof (rule ccontr)
  assume "round_money x \<noteq> m"
  then have "1/100 \<le> \<bar>round_money x - m\<bar>"
    using cents_gap[OF assms(1), of "round_money x"] cents_gap[OF _ assms(1), of "round_money x"]
    by (cases "round_money x" m rule: linorder_cases) auto
  then show False using round_money_near[of x] assms(2) by linarith
qed

lemma fix28_step:
  fixes x q k :: rat
  assumes "\<bar>x - q\<bar> \<le> k * \<bar>q\<bar>" "k \<le> 1"
  shows "\<bar>fix28 x - q\<bar> \<le> (k + 1 / 10 ^ 27) * \<bar>q\<bar>"
proof -
  have "k * \<bar>q\<bar> \<le> 1 * \<bar>q\<bar>" using assms(2) by (intro mult_right_mono) simp_all
  then have "\<bar>x\<bar> \<le> 2 * \<bar>q\<bar>" using assms(1) by linarith
  then have "\<bar>x\<bar> / (2 * 10 ^ 27) \<le> 2 * \<bar>q\<bar> / (2 * 10 ^ 27)" by (intro divide_right_mono) simp_all
  then have "\<bar>fix28 x - x\<bar> \<le> \<bar>q\<bar> / 10 ^ 27" using fix28_error[of x] by simp
  then have "\<bar>fix28 x - q\<bar> \<le> k * \<bar>q\<bar> + \<bar>q\<bar> / 10 ^ 27" using assms(1) by linarith
  then show ?thesis by (simp add: distrib_right)
qed

lemma scale_error:
  fixes x q a :: rat
  assumes "\<bar>x - q\<bar> \<le> k * \<bar>q\<bar>" "1 \<le> a"
  shows "\<bar>x * a - q * a\<bar> \<le> k * \<bar>q * a\<bar>" "\<bar>x / a - q / a\<bar> \<le> k * \<bar>q / a\<bar>"
  using mult_right_mono[OF assms(1), of a] divide_right_mono[OF assms(1), of a] assms(2)
    abs_mult[of "x - q" a] abs_divide[of "x - q" a]
  by (simp_all add: abs_mult left_diff_distrib diff_divide_distrib)

lemma scaled_and_back:
  fixes m a n :: rat
  assumes "\<bar>m\<bar> \<le> 10 ^ 20" "1 \<le> a" "1 \<le> n"
  shows "\<bar>fix28 (fix28 (fix28 (m * a / n) * n) / a) - m\<bar> < 1/200"
proof -
  let ?y = "fix28 (m * a / n)" let ?z = "fix28 (?y * n)"
  have "\<bar>?y - m * a / n\<bar> \<le> 1 / 10 ^ 27 * \<bar>m * a / n\<bar>"
    using fix28_step[of "m * a / n" "m * a / n" 0] by simp
  then have "\<bar>?y * n - m * a / n * n\<bar> \<le> 1 / 10 ^ 27 * \<bar>m * a / n * n\<bar>" using assms(3) by (rule scale_error)
  then have "\<bar>?y * n - m * a\<bar> \<le> 1 / 10 ^ 27 * \<bar>m * a\<bar>" using assms(3) by simp
  then have "\<bar>?z - m * a\<bar> \<le> (1 / 10 ^ 27 + 1 / 10 ^ 27) * \<bar>m * a\<bar>" by (rule fix28_step) simp
  then have "\<bar>?z / a - m * a / a\<bar> \<le> (1 / 10 ^ 27 + 1 / 10 ^ 27) * \<bar>m * a / a\<bar>" using assms(2) by (rule scale_error)
  then have "\<bar>?z / a - m\<bar> \<le> (1 / 10 ^ 27 + 1 / 10 ^ 27) * \<bar>m\<bar>" using assms(2) by simp
  then have "\<bar>fix28 (?z / a) - m\<bar> \<le> (1 / 10 ^ 27 + 1 / 10 ^ 27 + 1 / 10 ^ 27) * \<bar>m\<bar>" by (rule fix28_step) simp
  also have "\<dots> \<le> (1 / 10 ^ 27 + 1 / 10 ^ 27 + 1 / 10 ^ 27) * 10 ^ 20" using assms(1) by (intro mult_left_mono) simp_all
  finally show ?thesis by simp
qed

lemma fix28_scaled:
  assumes "is_cents m" "\<bar>m\<bar> \<le> 10 ^ 20" "0 \<le> n" "n \<le> 366"
  shows "fix28 (m * of_int n) = m * of_int n"
proof (rule fix28_cents)
  obtain k where "m = of_int k / 100" using assms(1) by (rule is_centsE)
  then show "is_cents (m * of_int n)" by (intro is_centsI[of _ "k * n"]) simp
  have "\<bar>m\<bar> * of_int n \<le> 10 ^ 20 * 366" using assms by (intro mult_mono) simp_all
  then show "\<bar>m * of_int n\<bar> < 10 ^ 26" using assms(3) by (simp add: abs_mult)
qed

text \<open>
  the conversions undo each other.  A monthly amount expressed per paycheck and back, and a
  per-paycheck amount expressed per month and back, is the amount again once it is rounded to cents, at
  every cadence: the roundings of the three or four decimal operations never reach half a cent.\<close>

theorem conversions_roundtrip:
  assumes "validate_cadence c = Inr ()" "amount m"
  shows "round_money (per_paycheck_to_monthly c (monthly_to_per_paycheck c m)) = m \<and>
    round_money (monthly_to_per_paycheck c (per_paycheck_to_monthly c m)) = m"
proof -
  have m: "is_cents m" "\<bar>m\<bar> \<le> 10 ^ 20" using assms(2) by (simp_all add: amount_def)
  obtain n where n: "periods_per_year c = of_int n" "1 \<le> n" "n \<le> 366" by (rule periods_per_year_count[OF assms(1)])
  have "fix28 (m * 12) = m * 12" "fix28 (m * of_int n) = m * of_int n"
    using fix28_scaled[OF m, of 12] fix28_scaled[OF m, of n] n by simp_all
  then show ?thesis
    using scaled_and_back[of m 12 "of_int n"] scaled_and_back[of m "of_int n" 12] m n
    by (simp add: per_paycheck_to_monthly_def monthly_to_per_paycheck_def times_paychecks_per_month_def
        MONTHS_PER_YEAR_def dmul_def ddiv_def round_money_nearby)
qed

lemma conversions_roundtrip_witness:
  "round_money (per_paycheck_to_monthly (Fixed_Days 14) (monthly_to_per_paycheck (Fixed_Days 14) 100)) = 100"
  using conversions_roundtrip[of "Fixed_Days 14" 100]
  by (simp add: validate_cadence_def refuse_unless_def MIN_CADENCE_DAYS_def MAX_CADENCE_DAYS_def amount_def)

end
