(* ===== verification/Pay_Views.thy ===== *)
theory Pay_Views
  imports Pay_Projection Pay_Cadence
begin

text \<open>
  \<open>app/services/pay_calendar/_window.py\<close>, \<open>_views.py\<close>, \<open>_calendar.py\<close> and \<open>_walks.py\<close>: the
  slices a surface reports over, the calendar value and its questions, and the walks past the record.
\<close>

section \<open>Windows\<close>

fun unbroken :: "derived_period list \<Rightarrow> bool" where
  "unbroken (earlier # later # ps) = (start_date later = add_days (end_date earlier) 1 \<and> unbroken (later # ps))"
| "unbroken _ = True"

definition period_window :: "derived_period list \<Rightarrow> derived_period list res" where
  "period_window periods =
     (let ordered = sort_key start_date periods in if unbroken ordered then Inr ordered else Inl PayCalendarError)"

definition window_item :: "derived_period list \<Rightarrow> int \<Rightarrow> derived_period res" where
  "window_item periods index =
     (let i = if index < 0 then index + int (length periods) else index
      in if 0 \<le> i \<and> i < int (length periods) then Inr (periods ! nat i) else Inl IndexError)"

section \<open>Views\<close>

text \<open>
  The generator of projected paychecks, as the list of what it yields up to the end of the application's
  calendar; a refusal ends it.  The guards on calendar dates, which every period of a derived calendar
  has, make it end for any other too.\<close>

lemma covering_projection_covers: "covering_projection cs day = Inr p \<Longrightarrow> covers p day"
  by (induction cs) (auto elim!: bind_res_InrE split: if_splits)

lemma project_period_after_covers: "project_period_after ps eras day = Inr p \<Longrightarrow> covers p day"
  by (auto simp: project_period_after_def Let_def elim!: bind_res_InrE dest: covering_projection_covers)

function projected_from :: "derived_period list \<Rightarrow> era list \<Rightarrow> date \<Rightarrow> derived_period res list" where
  "projected_from periods eras opens_at =
     (if valid_date opens_at \<and> opens_at \<le> CALENDAR_DATE_MAX
      then case project_period_after periods eras opens_at of
             Inl e \<Rightarrow> [Inl e]
           | Inr p \<Rightarrow> Inr p #
               (if valid_date (end_date p) then projected_from periods eras (add_days (end_date p) 1) else [])
      else [])"
  by pat_completeness auto
termination
proof (relation "measure (\<lambda>(ps, eras, d). nat (day_number CALENDAR_DATE_MAX + 1 - day_number d))", simp)
  fix periods eras opens_at p
  assume h: "valid_date opens_at \<and> opens_at \<le> CALENDAR_DATE_MAX"
    "project_period_after periods eras opens_at = Inr p" "valid_date (end_date p)"
  have "opens_at \<le> end_date p" using project_period_after_covers[OF h(2)] by (simp add: covers_def)
  moreover have "valid_date CALENDAR_DATE_MAX" by (simp add: CALENDAR_DATE_MAX_def valid_Date days_in_month_def)
  ultimately show "((periods, eras, add_days (end_date p) 1), periods, eras, opens_at)
      \<in> measure (\<lambda>(ps, eras, d). nat (day_number CALENDAR_DATE_MAX + 1 - day_number d))"
    using h day_number_le_iff[of opens_at CALENDAR_DATE_MAX] by (simp add: day_number_le_iff)
qed

declare projected_from.simps [simp del]

definition projected_paychecks :: "derived_period list \<Rightarrow> era list \<Rightarrow> date option \<Rightarrow> derived_period res list" where
  "projected_paychecks periods eras from_day =
     (case final_covered_day periods of
        None \<Rightarrow> []
      | Some horizon \<Rightarrow>
          let opens_at = add_days horizon 1
          in case from_day of
               None \<Rightarrow> projected_from periods eras opens_at
             | Some d \<Rightarrow>
                 if opens_at < d
                 then case project_period_after periods eras d of
                        Inl e \<Rightarrow> [Inl e]
                      | Inr p \<Rightarrow> projected_from periods eras (start_date p)
                 else projected_from periods eras opens_at)"

fun taken_until :: "date \<Rightarrow> derived_period res list \<Rightarrow> derived_period list res" where
  "taken_until last_day [] = Inr []"
| "taken_until last_day (c # cs) =
     bind_res c (\<lambda>p. if start_date p \<le> last_day then bind_res (taken_until last_day cs) (\<lambda>ps. Inr (p # ps)) else Inr [])"

definition saved_window :: "derived_period list \<Rightarrow> derived_period list res" where
  "saved_window periods = period_window (materialised_periods periods)"

definition index_window :: "derived_period list \<Rightarrow> int \<Rightarrow> int \<Rightarrow> derived_period list res" where
  "index_window periods first_index n =
     (if n \<le> 0 then period_window []
      else period_window [p \<leftarrow> periods. first_index \<le> period_index p \<and> period_index p < first_index + n])"

definition overlapping_window :: "derived_period list \<Rightarrow> date \<Rightarrow> date \<Rightarrow> derived_period list res" where
  "overlapping_window periods first_day last_day =
     (if last_day < first_day then Inl PayCalendarError
      else period_window [p \<leftarrow> periods. start_date p \<le> last_day \<and> first_day \<le> end_date p])"

definition current_and_future_window :: "derived_period list \<Rightarrow> date \<Rightarrow> derived_period list res" where
  "current_and_future_window periods day = period_window [p \<leftarrow> periods. day \<le> end_date p]"

definition axis_window :: "derived_period list \<Rightarrow> era list \<Rightarrow> date \<Rightarrow> date \<Rightarrow> derived_period list res" where
  "axis_window periods eras first_day last_day =
     bind_res (overlapping_window periods first_day last_day)
       (\<lambda>saved.
          if (case opening_payday periods of None \<Rightarrow> False | Some opening \<Rightarrow> first_day < opening) then Inl PayCalendarError
          else case final_covered_day periods of
                 None \<Rightarrow> Inr saved
               | Some horizon \<Rightarrow>
                   if last_day \<le> horizon then Inr saved
                   else bind_res (taken_until last_day (projected_paychecks periods eras None))
                     (\<lambda>projected. period_window (saved @ [p \<leftarrow> projected. first_day \<le> end_date p])))"

definition projection_axis_window :: "derived_period list \<Rightarrow> era list \<Rightarrow> date \<Rightarrow> date \<Rightarrow> derived_period list res" where
  "projection_axis_window periods eras first_day last_day =
     (if last_day < first_day then axis_window periods eras first_day last_day
      else case opening_payday periods of
             None \<Rightarrow> period_window []
           | Some opening \<Rightarrow>
               let window_opens = max first_day opening
               in if last_day < window_opens then period_window [] else axis_window periods eras window_opens last_day)"
section \<open>The calendar value\<close>

record pay_calendar =
  cal_periods :: "derived_period list"
  cal_eras :: "era list"
  history_opens_on :: "date option"

definition from_paydays :: "(int option \<times> date) list \<Rightarrow> era list \<Rightarrow> date option \<Rightarrow> pay_calendar res" where
  "from_paydays paydays eras opens =
     bind_res (derive_periods paydays eras)
       (\<lambda>periods. Inr \<lparr>cal_periods = periods, cal_eras = eras, history_opens_on = opens\<rparr>)"

definition cal_cadence :: "pay_calendar \<Rightarrow> cadence res" where
  "cal_cadence cal = pay_cadence (cadence_of (era_rhythm (last (cal_eras cal))))"

definition opening_bound :: "pay_calendar \<Rightarrow> date option" where
  "opening_bound cal = opening_payday (cal_periods cal)"

definition horizon :: "pay_calendar \<Rightarrow> date option" where
  "horizon cal = final_covered_day (cal_periods cal)"

definition period_containing :: "pay_calendar \<Rightarrow> date \<Rightarrow> derived_period option" where
  "period_containing cal day = containing_period (materialised_periods (cal_periods cal)) day"

definition span_containing :: "pay_calendar \<Rightarrow> date \<Rightarrow> derived_period option res" where
  "span_containing cal day =
     (case opening_bound cal of
        None \<Rightarrow> Inr None
      | Some opening \<Rightarrow>
          if day < opening then Inr None
          else case period_containing cal day of
                 Some saved \<Rightarrow> Inr (Some saved)
               | None \<Rightarrow> bind_res (project_period_after (cal_periods cal) (cal_eras cal) day) (\<lambda>p. Inr (Some p)))"

definition filing_period :: "pay_calendar \<Rightarrow> date \<Rightarrow> derived_period res" where
  "filing_period cal day =
     (let saved = materialised_periods (cal_periods cal)
      in if saved = [] then Inl PayCalendarError
         else Inr (case latest_started_period saved day of Some p \<Rightarrow> p | None \<Rightarrow> hd saved))"

definition period_starting_on_or_after :: "pay_calendar \<Rightarrow> date \<Rightarrow> derived_period option" where
  "period_starting_on_or_after cal day = earliest_started_period (cal_periods cal) day"

definition period_starting_on_or_before :: "pay_calendar \<Rightarrow> date \<Rightarrow> derived_period option" where
  "period_starting_on_or_before cal day = latest_started_period (cal_periods cal) day"

definition period_starting_after :: "pay_calendar \<Rightarrow> date \<Rightarrow> derived_period option" where
  "period_starting_after cal day = earliest_started_period (materialised_periods (cal_periods cal)) (add_days day 1)"

definition period_starting_before :: "pay_calendar \<Rightarrow> date \<Rightarrow> derived_period option" where
  "period_starting_before cal day = latest_started_period (materialised_periods (cal_periods cal)) (add_days day (- 1))"

section \<open>Walks\<close>

definition paychecks_from :: "pay_calendar \<Rightarrow> date \<Rightarrow> derived_period res list" where
  "paychecks_from cal day =
     (case current_and_future_window (cal_periods cal) day of
        Inl e \<Rightarrow> [Inl e]
      | Inr saved \<Rightarrow> map Inr saved @
          [c \<leftarrow> projected_paychecks (cal_periods cal) (cal_eras cal) None.
             case c of Inl _ \<Rightarrow> True | Inr p \<Rightarrow> day \<le> end_date p])"

definition span_starting_on_or_after :: "pay_calendar \<Rightarrow> date \<Rightarrow> derived_period option res" where
  "span_starting_on_or_after cal day =
     (case period_starting_on_or_after cal day of
        Some saved \<Rightarrow> Inr (Some saved)
      | None \<Rightarrow>
          case horizon cal of
            None \<Rightarrow> Inr None
          | Some final \<Rightarrow>
              bind_res (project_period_after (cal_periods cal) (cal_eras cal) (max day (add_days final 1)))
                (\<lambda>covering.
                   if day \<le> start_date covering then Inr (Some covering)
                   else bind_res (project_period_after (cal_periods cal) (cal_eras cal) (add_days (end_date covering) 1))
                     (\<lambda>p. Inr (Some p))))"

section \<open>Slices of a calendar that tiles\<close>

lemma tiles_Nil [simp]: "tiles []"
  by (simp add: tiles_def)

lemma tiles_Cons:
  "tiles (p # ps) \<longleftrightarrow> valid_date (start_date p) \<and> valid_date (end_date p) \<and> start_date p \<le> end_date p \<and>
     (ps \<noteq> [] \<longrightarrow> start_date (hd ps) = add_days (end_date p) 1) \<and> tiles ps" (is "?lhs = ?rhs")
proof
  assume ?lhs
  then have "start_date ((p # ps) ! (Suc i + 1)) = add_days (end_date ((p # ps) ! Suc i)) 1" if "i + 1 < length ps" for i
    using that unfolding tiles_def by (metis Suc_eq_plus1 add_Suc length_Cons not_less_eq)
  moreover have "start_date (hd ps) = add_days (end_date p) 1" if "ps \<noteq> []"
    using \<open>?lhs\<close> that unfolding tiles_def by (cases ps) force+
  ultimately show ?rhs using \<open>?lhs\<close> by (auto simp: tiles_def)
next
  assume r: ?rhs
  have "start_date ((p # ps) ! (i + 1)) = add_days (end_date ((p # ps) ! i)) 1" if "i + 1 < length (p # ps)" for i
    using r that by (cases i) (auto simp: tiles_def hd_conv_nth)
  then show ?lhs using r by (auto simp: tiles_def)
qed

lemma tiles_append:
  "tiles (ps @ qs) \<longleftrightarrow> tiles ps \<and> tiles qs \<and> (ps \<noteq> [] \<and> qs \<noteq> [] \<longrightarrow> start_date (hd qs) = add_days (end_date (last ps)) 1)"
  by (induction ps) (auto simp: tiles_Cons)

lemma tiles_later: "tiles (p # ps) \<Longrightarrow> q \<in> set ps \<Longrightarrow> end_date p < start_date q"
  using tiles_ascend[of "p # ps" 0 "Suc i" for i] by (fastforce simp: in_set_conv_nth)

lemma tiles_member: "tiles ps \<Longrightarrow> q \<in> set ps \<Longrightarrow> valid_date (start_date q) \<and> valid_date (end_date q) \<and> start_date q \<le> end_date q"
  by (simp add: tiles_def)

lemma tiles_sorted: "tiles ps \<Longrightarrow> sorted_wrt (<) (map start_date ps)"
proof (induction ps)
  case (Cons p ps)
  then show ?case using tiles_later[of p ps] by (fastforce simp: tiles_Cons)
qed simp

lemma tiles_unbroken: "tiles ps \<Longrightarrow> unbroken ps"
  by (induction ps rule: unbroken.induct) (auto simp: tiles_Cons)

lemma period_window_tiles: "tiles ps \<Longrightarrow> period_window ps = Inr ps"
  using tiles_sorted[of ps] tiles_unbroken[of ps] by (simp add: period_window_def sorted_sort_id sort_key_id_if_sorted strict_sorted_iff)

lemma filter_started: "tiles ps \<Longrightarrow> [p \<leftarrow> ps. start_date p \<le> day] = takeWhile (\<lambda>p. start_date p \<le> day) ps"
proof (induction ps)
  case (Cons p ps)
  have "day < start_date q" if "q \<in> set ps" "\<not> start_date p \<le> day" for q
    using tiles_later[OF Cons.prems that(1)] that(2) Cons.prems by (auto simp: tiles_Cons)
  moreover from this have "[q \<leftarrow> ps. start_date q \<le> day] = []" if "\<not> start_date p \<le> day"
    using that by (auto simp: filter_empty_conv not_le)
  ultimately show ?case using Cons by (simp add: tiles_Cons)
qed simp

lemma filter_unended: "tiles ps \<Longrightarrow> [p \<leftarrow> ps. day \<le> end_date p] = dropWhile (\<lambda>p. end_date p < day) ps"
proof (induction ps)
  case (Cons p ps)
  have "day \<le> end_date q" if "q \<in> set ps" "day \<le> end_date p" for q
    using tiles_later[OF Cons.prems that(1)] that tiles_member[of ps q] Cons.prems by (auto simp: tiles_Cons)
  then show ?case using Cons by (auto simp: tiles_Cons filter_id_conv)
qed simp

lemma tiles_started: "tiles ps \<Longrightarrow> tiles [p \<leftarrow> ps. start_date p \<le> day]"
  using tiles_append[of "takeWhile (\<lambda>p. start_date p \<le> day) ps" "dropWhile (\<lambda>p. start_date p \<le> day) ps"]
  by (simp add: filter_started)

lemma tiles_unended: "tiles ps \<Longrightarrow> tiles [p \<leftarrow> ps. day \<le> end_date p]"
  using tiles_append[of "takeWhile (\<lambda>p. end_date p < day) ps" "dropWhile (\<lambda>p. end_date p < day) ps"]
  by (simp add: filter_unended)

lemma overlapping_value:
  assumes "tiles ps" "first_day \<le> last_day"
  shows "overlapping_window ps first_day last_day = Inr [p \<leftarrow> ps. start_date p \<le> last_day \<and> first_day \<le> end_date p]"
    "tiles [p \<leftarrow> ps. start_date p \<le> last_day \<and> first_day \<le> end_date p]"
proof -
  show t: "tiles [p \<leftarrow> ps. start_date p \<le> last_day \<and> first_day \<le> end_date p]"
    using tiles_unended[OF tiles_started[OF assms(1)], of first_day last_day] by (simp add: conj_commute)
  show "overlapping_window ps first_day last_day = Inr [p \<leftarrow> ps. start_date p \<le> last_day \<and> first_day \<le> end_date p]"
    using period_window_tiles[OF t] assms(2) by (simp add: overlapping_window_def)
qed

lemma taken_until_map: "taken_until l (map Inr qs) = Inr (takeWhile (\<lambda>p. start_date p \<le> l) qs)"
  by (induction qs) auto

section \<open>The walk past the record\<close>

lemma projected_walk:
  assumes "sound_eras eras" "valid_date (start_date (last ps))" "planned eras i s"
  obtains qs where "projected_from ps eras (era_payday (eras ! i) s) = map Inr qs" "tiles qs"
    "\<forall>q \<in> set qs. start_date q \<le> CALENDAR_DATE_MAX \<and> (\<exists>j t. planned eras j t \<and> q = plan_period ps eras j t)"
    "qs \<noteq> [] \<longrightarrow> hd qs = plan_period ps eras i s \<and> CALENDAR_DATE_MAX \<le> end_date (last qs)"
    "qs = [] \<longleftrightarrow> CALENDAR_DATE_MAX < era_payday (eras ! i) s"
    "map period_index qs = map (\<lambda>k. period_index (plan_period ps eras i s) + int k) [0 ..< length qs]"
proof -
  have "\<exists>qs. projected_from ps eras d = map Inr qs \<and> tiles qs \<and>
    (\<forall>q \<in> set qs. start_date q \<le> CALENDAR_DATE_MAX \<and> (\<exists>j t. planned eras j t \<and> q = plan_period ps eras j t)) \<and>
    (qs \<noteq> [] \<longrightarrow> hd qs = plan_period ps eras i s \<and> CALENDAR_DATE_MAX \<le> end_date (last qs)) \<and>
    (qs = [] \<longleftrightarrow> CALENDAR_DATE_MAX < d) \<and>
    map period_index qs = map (\<lambda>k. period_index (plan_period ps eras i s) + int k) [0 ..< length qs]"
    if "d = era_payday (eras ! i) s" "planned eras i s" "sound_eras eras" "valid_date (start_date (last ps))" for d
    using that
  proof (induction ps eras d arbitrary: i s rule: projected_from.induct)
    case (1 ps eras d)
    let ?p = "plan_period ps eras i s"
    obtain i' s' where n: "planned eras i' s'" "era_payday (eras ! i') s' = add_days (plan_end eras i s) 1"
      "era_payday (eras ! i) s \<le> plan_end eras i s" "valid_date (plan_end eras i s)" "ordinal_of eras i' s' = ordinal_of eras i s + 1"
      using plan_step[OF 1(4,3)] by metis
    have v: "valid_date d" using planned_valid[OF 1(4,3)] 1(2) by simp
    have p: "project_period_after ps eras d = Inr ?p"
      using project_period_after_value[OF 1(4,5) v 1(3)] 1(2) n(3) by simp
    show ?case
    proof (cases "d \<le> CALENDAR_DATE_MAX")
      case False
      then show ?thesis by (intro exI[of _ "[]"]) (simp add: projected_from.simps[of ps eras d])
    next
      case True
      then obtain qs where qs: "projected_from ps eras (add_days (plan_end eras i s) 1) = map Inr qs" "tiles qs"
        "\<forall>q \<in> set qs. start_date q \<le> CALENDAR_DATE_MAX \<and> (\<exists>j t. planned eras j t \<and> q = plan_period ps eras j t)"
        "qs \<noteq> [] \<longrightarrow> hd qs = plan_period ps eras i' s' \<and> CALENDAR_DATE_MAX \<le> end_date (last qs)"
        "qs = [] \<longleftrightarrow> CALENDAR_DATE_MAX < add_days (plan_end eras i s) 1"
        "map period_index qs = map (\<lambda>k. period_index (plan_period ps eras i' s') + int k) [0 ..< length qs]"
        using 1(1)[OF conjI[OF v True] p, of i' s'] n(1,2,4) 1(4,5) by auto
      have "valid_date CALENDAR_DATE_MAX" by (simp add: CALENDAR_DATE_MAX_def valid_Date days_in_month_def)
      then have "CALENDAR_DATE_MAX \<le> plan_end eras i s" if "qs = []"
        using that qs(5) n(4) by (simp add: day_number_less_iff day_number_le_iff)
      moreover have "projected_from ps eras d = map Inr (?p # qs)"
        using v True p n(4) qs(1) by (simp add: projected_from.simps[of ps eras d])
      moreover have "tiles (?p # qs)" using qs(2,4) n v 1(2) by (auto simp: tiles_Cons)
      moreover have "map period_index (?p # qs) = map (\<lambda>k. period_index ?p + int k) [0 ..< length (?p # qs)]"
        using qs(6) plan_period_index(1)[OF n(5), of ps] by (simp add: upt_conv_Cons map_Suc_upt[symmetric] del: upt_Suc)
      ultimately show ?thesis
        using qs(3,4) True 1(2,3) by (intro exI[of _ "?p # qs"]) auto
    qed
  qed
  then show thesis using that assms by blast
qed
section \<open>The axis\<close>

definition calendar_ok :: "pay_calendar \<Rightarrow> bool" where
  "calendar_ok cal \<longleftrightarrow> sound_eras (cal_eras cal) \<and> tiles (cal_periods cal) \<and>
     map period_index (cal_periods cal) = map int [0 ..< length (cal_periods cal)] \<and>
     (cal_periods cal \<noteq> [] \<longrightarrow>
        payday_after (cal_eras cal) (start_date (last (cal_periods cal))) = Inr (add_days (end_date (last (cal_periods cal))) 1))"

lemma from_paydays_ok:
  assumes "sound_eras eras" "\<forall>row \<in> set paydays. valid_date (snd row)" "from_paydays paydays eras opens = Inr cal"
  shows "calendar_ok cal" "cal_eras cal = eras" "history_opens_on cal = opens"
    "set (map start_date (cal_periods cal)) = snd ` set paydays"
proof -
  obtain ps where d: "derive_periods paydays eras = Inr ps" "cal = \<lparr>cal_periods = ps, cal_eras = eras, history_opens_on = opens\<rparr>"
    using assms(3) by (auto simp: from_paydays_def elim!: bind_res_InrE)
  have "distinct (map snd paydays)"
  proof (rule ccontr)
    assume n: "\<not> ?thesis"
    have "distinct (map snd (sort_key snd paydays)) = distinct (map snd paydays)"
      by (metis mset_eq_imp_distinct_iff mset_map mset_sort)
    then show False using n d(1) repeated_sorted[of "map snd (sort_key snd paydays)"]
      by (auto simp: derive_periods_def Let_def elim!: bind_res_InrE)
  qed
  from derive_periods_value[OF assms(1,2) this] d(1) have t: "tiles ps"
    "mset (map (\<lambda>p. (period_id p, start_date p)) ps) = mset paydays" "map period_index ps = map int [0 ..< length ps]"
    "ps \<noteq> [] \<longrightarrow> payday_after eras (start_date (last ps)) = Inr (add_days (end_date (last ps)) 1)"
    by (metis Inr_inject)+
  show "calendar_ok cal" using t assms(1) d(2) by (simp add: calendar_ok_def)
  show "cal_eras cal = eras" "history_opens_on cal = opens" using d(2) by simp_all
  have "snd ` set (map (\<lambda>p. (period_id p, start_date p)) ps) = snd ` set paydays" using t(2) by (metis set_mset_mset)
  then show "set (map start_date (cal_periods cal)) = snd ` set paydays" using d(2) by (simp add: image_image)
qed

text \<open>The projection of a calendar: the record continued to the end of the application's calendar.\<close>

lemma continued:
  assumes "calendar_ok cal" "cal_periods cal = ps" "cal_eras cal = eras" "ps \<noteq> []"
  obtains h k qs where "planned eras h k" "era_payday (eras ! h) k = add_days (end_date (last ps)) 1"
    "projected_paychecks ps eras None = map Inr qs" "tiles (ps @ qs)" "map period_index (ps @ qs) = map int [0 ..< length (ps @ qs)]"
    "CALENDAR_DATE_MAX \<le> end_date (last (ps @ qs))" "\<forall>q \<in> set qs. is_projected q"
proof -
  have c: "sound_eras eras" "tiles ps" "map period_index ps = map int [0 ..< length ps]"
    "payday_after eras (start_date (last ps)) = Inr (add_days (end_date (last ps)) 1)"
    using assms by (auto simp: calendar_ok_def)
  have v: "valid_date (start_date (last ps))" "valid_date (end_date (last ps))"
    using tiles_member[OF c(2) last_in_set[OF assms(4)]] by simp_all
  obtain h k where h: "horizon_step eras (start_date (last ps)) = Inr (h, k)" "planned eras h k"
    "payday_after eras (start_date (last ps)) = Inr (era_payday (eras ! h) k)" by (rule horizon_position[OF c(1) v(1)])
  then have at: "era_payday (eras ! h) k = add_days (end_date (last ps)) 1" using c(4) by simp
  obtain qs where qs: "projected_from ps eras (era_payday (eras ! h) k) = map Inr qs" "tiles qs"
    "\<forall>q \<in> set qs. start_date q \<le> CALENDAR_DATE_MAX \<and> (\<exists>j t. planned eras j t \<and> q = plan_period ps eras j t)"
    "qs \<noteq> [] \<longrightarrow> hd qs = plan_period ps eras h k \<and> CALENDAR_DATE_MAX \<le> end_date (last qs)"
    "qs = [] \<longleftrightarrow> CALENDAR_DATE_MAX < era_payday (eras ! h) k"
    "map period_index qs = map (\<lambda>n. period_index (plan_period ps eras h k) + int n) [0 ..< length qs]"
    by (rule projected_walk[OF c(1) v(1) h(2)])
  have "valid_date CALENDAR_DATE_MAX" by (simp add: CALENDAR_DATE_MAX_def valid_Date days_in_month_def)
  then have "CALENDAR_DATE_MAX \<le> end_date (last ps)" if "qs = []"
    using that qs(5) at v(2) by (simp add: day_number_less_iff day_number_le_iff)
  moreover have "period_index (last ps) = int (length ps) - 1"
    using arg_cong[OF c(3), of last] assms(4)
    by (simp add: last_map of_nat_diff Suc_leI)
  then have "map period_index qs = map int [length ps ..< length ps + length qs]"
    unfolding qs(6) plan_period_index(2)[OF h(1)] by (intro nth_equalityI) simp_all
  then have "map period_index (ps @ qs) = map int [0 ..< length (ps @ qs)]" 
    using c(3) upt_add_eq_append[of 0 "length ps" "length qs"] by simp
  moreover have "tiles (ps @ qs)" using qs(2,4) c(2) at by (auto simp: tiles_append)
  moreover have "projected_paychecks ps eras None = map Inr qs"
    using qs(1) at assms(4) by (simp add: projected_paychecks_def final_covered_day_def)
  moreover have "\<forall>q \<in> set qs. is_projected q" using qs(3) by (auto simp: is_projected_def)
  ultimately show thesis using h(2) at qs(4) by (intro that[of h k qs]) (auto simp: last_append)
qed

abbreviation overlap :: "date \<Rightarrow> date \<Rightarrow> derived_period \<Rightarrow> bool" where
  "overlap first_day last_day p \<equiv> start_date p \<le> last_day \<and> first_day \<le> end_date p"

lemma axis_value:
  assumes "tiles (ps @ qs)" "ps \<noteq> []" "projected_paychecks ps eras None = map Inr qs"
    and "start_date (hd ps) \<le> first_day" "first_day \<le> last_day"
  shows "axis_window ps eras first_day last_day = Inr (filter (overlap first_day last_day) (ps @ qs))"
proof -
  have t: "tiles ps" "tiles qs" using assms(1) by (simp_all add: tiles_append)
  have slice: "tiles (filter (overlap first_day last_day) (ps @ qs))" by (rule overlapping_value(2)[OF assms(1,5)])
  have first: "\<not> first_day < start_date (hd ps)" "opening_payday ps = Some (start_date (hd ps))"
    using assms(2,4) by (cases ps; simp add: opening_payday_def)+
  show ?thesis
  proof (cases "last_day \<le> end_date (last ps)")
    case True
    have "start_date (hd qs) \<le> start_date q" if "q \<in> set qs" for q
      using that tiles_sorted[OF t(2)] by (cases qs) auto
    moreover have "end_date (last ps) < start_date (hd qs)" if "qs \<noteq> []"
      using that assms(1,2) tiles_member[OF t(1) last_in_set[OF assms(2)]] by (simp add: tiles_append day_number_less_iff)
    ultimately have "filter (overlap first_day last_day) qs = []" using True by (fastforce simp: filter_empty_conv)
    then show ?thesis using True first assms(2,5) overlapping_value(1)[OF t(1) assms(5)]
      by (simp add: axis_window_def final_covered_day_def)
  next
    case False
    have "[p \<leftarrow> takeWhile (\<lambda>p. start_date p \<le> last_day) qs. first_day \<le> end_date p] = filter (overlap first_day last_day) qs"
      unfolding filter_started[OF t(2), symmetric] by (simp add: conj_commute)
    then show ?thesis
      using False first assms(2,3,5) overlapping_value(1)[OF t(1) assms(5)] period_window_tiles[OF slice]
      by (simp add: axis_window_def final_covered_day_def taken_until_map)
  qed
qed

lemma tiles_cover_member:
  assumes "tiles ps" "p \<in> set ps" "covers p day" "valid_date day"
  shows "\<exists>i < length ps. containing_index ps day = Some i \<and> (\<forall>j < length ps. covers (ps ! j) day \<longleftrightarrow> j = i)"
proof -
  obtain k where k: "k < length ps" "p = ps ! k" using assms(2) by (auto simp: in_set_conv_nth)
  then have ne: "ps \<noteq> []" by auto
  have "start_date (ps ! 0) \<le> start_date p"
  proof (cases "k = 0")
    case False
    then have "end_date (ps ! 0) < start_date p" using tiles_ascend[OF assms(1), of 0 k] k by simp
    moreover have "start_date (ps ! 0) \<le> end_date (ps ! 0)" using tiles_facts(3)[OF assms(1), of 0] ne by simp
    ultimately show ?thesis by simp
  qed (use k in simp)
  moreover have "end_date p \<le> end_date (ps ! (length ps - 1))"
  proof (cases "k = length ps - 1")
    case False
    then have "end_date p < start_date (ps ! (length ps - 1))" using tiles_ascend[OF assms(1), of k "length ps - 1"] k by simp
    moreover have "start_date (ps ! (length ps - 1)) \<le> end_date (ps ! (length ps - 1))"
      using tiles_facts(3)[OF assms(1), of "length ps - 1"] ne by simp
    ultimately show ?thesis by simp
  qed (use k in simp)
  ultimately have "start_date (hd ps) \<le> start_date p" "end_date p \<le> end_date (last ps)"
    using ne by (simp_all add: hd_conv_nth last_conv_nth)
  then have "start_date (hd ps) \<le> day" "day \<le> end_date (last ps)" using assms(3) by (auto simp: covers_def)
  then obtain i where "i < length ps" "containing_index ps day = Some i" "covers (ps ! i) day"
    "\<And>j. j < length ps \<Longrightarrow> covers (ps ! j) day \<Longrightarrow> j = i" using tiles_cover[OF assms(1) ne assms(4)] by blast
  then show ?thesis by blast
qed

lemma map_slice_index:
  "(\<And>i. i < length xs \<Longrightarrow> f (xs ! i) = int i) \<Longrightarrow>
    map f (drop a (take b xs)) = map int [a ..< a + length (drop a (take b xs))]"
  by (rule nth_equalityI, simp, subst nth_map, simp, subst nth_drop) auto

lemma slice_indices:
  assumes "tiles ps" "map period_index ps = map int [0 ..< length ps]"
  shows "\<exists>a. map period_index (filter (overlap first_day last_day) ps) =
    map int [a ..< a + length (filter (overlap first_day last_day) ps)]"
proof -
  let ?b = "length (takeWhile (\<lambda>p. start_date p \<le> last_day) ps)"
  let ?a = "length (takeWhile (\<lambda>p. end_date p < first_day) (take ?b ps))"
  have slice: "filter (overlap first_day last_day) ps = drop ?a (take ?b ps)"
  proof -
    have "filter (overlap first_day last_day) ps = [p \<leftarrow> [p \<leftarrow> ps. start_date p \<le> last_day]. first_day \<le> end_date p]"
      by (simp add: conj_commute)
    also have "\<dots> = dropWhile (\<lambda>p. end_date p < first_day) [p \<leftarrow> ps. start_date p \<le> last_day]"
      by (rule filter_unended[OF tiles_started[OF assms(1)]])
    also have "[p \<leftarrow> ps. start_date p \<le> last_day] = take ?b ps"
      unfolding filter_started[OF assms(1)] by (rule takeWhile_eq_take)
    finally show ?thesis by (simp only: dropWhile_eq_drop)
  qed
  have index: "period_index (ps ! i) = int i" if "i < length ps" for i
    using arg_cong[OF assms(2), of "\<lambda>xs. xs ! i"] that by simp
  have "map period_index (drop ?a (take ?b ps)) = map int [?a ..< ?a + length (drop ?a (take ?b ps))]"
    by (rule map_slice_index[OF index])
  then show ?thesis unfolding slice by blast
qed

text \<open>
  C11: the axis a surface draws.  For any range from the first payday on, within the application's
  calendar, the window is built without a refusal: its periods tile, each overlaps the range, every day
  of the range falls in exactly one of them and is found there, they are numbered consecutively across
  the record's end, and the recorded ones in it are exactly the recorded ones the range overlaps.\<close>

theorem axis_covers_the_range:
  assumes "sound_eras eras" "\<forall>row \<in> set paydays. valid_date (snd row)" "from_paydays paydays eras opens = Inr cal"
    and "opening_bound cal = Some opening" "opening \<le> first_day" "first_day \<le> last_day" "last_day \<le> CALENDAR_DATE_MAX"
  shows "\<exists>w a. axis_window (cal_periods cal) eras first_day last_day = Inr w \<and> tiles w \<and>
    (\<forall>p \<in> set w. start_date p \<le> last_day \<and> first_day \<le> end_date p) \<and>
    (\<forall>day. valid_date day \<and> first_day \<le> day \<and> day \<le> last_day \<longrightarrow>
       (\<exists>i < length w. containing_index w day = Some i \<and> (\<forall>j < length w. covers (w ! j) day \<longleftrightarrow> j = i))) \<and>
    map period_index w = map int [a ..< a + length w] \<and>
    (\<forall>p. p \<in> set w \<and> \<not> is_projected p \<longleftrightarrow>
       p \<in> set (cal_periods cal) \<and> \<not> is_projected p \<and> start_date p \<le> last_day \<and> first_day \<le> end_date p)"
proof -
  note ok = from_paydays_ok[OF assms(1-3)]
  let ?ps = "cal_periods cal"
  have ne: "?ps \<noteq> []" "start_date (hd ?ps) = opening"
    using assms(4) by (cases ?ps; simp add: opening_bound_def opening_payday_def)+
  obtain qs where qs: "projected_paychecks ?ps eras None = map Inr qs" "tiles (?ps @ qs)"
    "map period_index (?ps @ qs) = map int [0 ..< length (?ps @ qs)]" "CALENDAR_DATE_MAX \<le> end_date (last (?ps @ qs))"
    "\<forall>q \<in> set qs. is_projected q"
    by (rule continued[OF ok(1) refl ok(2) ne(1)])
  define all where "all = ?ps @ qs"
  note qs = qs[folded all_def]
  let ?w = "filter (overlap first_day last_day) all"
  have axis: "axis_window ?ps eras first_day last_day = Inr ?w"
    unfolding all_def by (rule axis_value[OF qs(2)[unfolded all_def] ne(1) qs(1)]) (use ne(2) assms(5,6) in auto)
  have t: "tiles ?w" by (rule overlapping_value(2)[OF qs(2) assms(6)])
  have "\<exists>i < length ?w. containing_index ?w day = Some i \<and> (\<forall>j < length ?w. covers (?w ! j) day \<longleftrightarrow> j = i)"
    if day: "valid_date day" "first_day \<le> day" "day \<le> last_day" for day
  proof -
    have "all \<noteq> []" "start_date (hd all) \<le> day" "day \<le> end_date (last all)"
      using ne qs(4) assms(5,7) day by (auto simp: all_def)
    then obtain i where i: "i < length all" "covers (all ! i) day" using tiles_cover[OF qs(2) _ day(1)] by metis
    then have "all ! i \<in> set ?w" using day(2,3) nth_mem[OF i(1)] by (auto simp: covers_def intro: order_trans)
    then show ?thesis using tiles_cover_member[OF t _ i(2) day(1)] by blast
  qed
  moreover obtain a where "map period_index ?w = map int [a ..< a + length ?w]" using slice_indices[OF qs(2,3)] by blast
  moreover have "p \<in> set ?w \<and> \<not> is_projected p \<longleftrightarrow>
      p \<in> set ?ps \<and> \<not> is_projected p \<and> start_date p \<le> last_day \<and> first_day \<le> end_date p" for p
    using qs(5) by (auto simp: all_def)
  ultimately show ?thesis using axis t by (intro exI[of _ ?w] exI[of _ a]) simp
qed

definition two_paydays :: "(int option \<times> date) list" where
  "two_paydays = [(Some 2, Date 2026 1 16), (Some 1, Date 2026 1 2)]"

lemma two_paydays_calendar:
  obtains cal where "from_paydays two_paydays two_eras opens = Inr cal"
    "opening_bound cal = Some (Date 2026 1 2)" "\<forall>row \<in> set two_paydays. valid_date (snd row)"
proof -
  let ?paydays = two_paydays
  have v: "\<forall>row \<in> set ?paydays. valid_date (snd row)" by (simp add: two_paydays_def valid_Date days_in_month_def)
  have "distinct (map snd ?paydays)" by (simp add: two_paydays_def)
  then obtain ps where ps: "derive_periods ?paydays two_eras = Inr ps" using derive_periods_value[OF two_eras_sound v] by metis
  then obtain cal where cal: "from_paydays ?paydays two_eras opens = Inr cal" by (simp add: from_paydays_def)
  note ok = from_paydays_ok[OF two_eras_sound v cal]
  obtain p qs where p: "cal_periods cal = p # qs" using ok(4) by (cases "cal_periods cal") (auto simp: two_paydays_def)
  have "start_date p < start_date q" if "q \<in> set qs" for q
    using that tiles_sorted[of "cal_periods cal"] ok(1) p by (simp add: calendar_ok_def)
  moreover have "start_date p \<in> {Date 2026 1 16, Date 2026 1 2}" "Date 2026 1 2 \<in> start_date ` set (p # qs)" using ok(4) p by (auto simp: two_paydays_def)
  moreover have "\<not> Date 2026 1 16 < Date 2026 1 2" by (simp add: less_date_def)
  ultimately have "start_date p = Date 2026 1 2" by (cases "start_date p = Date 2026 1 2") (simp, force)
  then show thesis using that[OF cal _ v] p by (simp add: opening_bound_def opening_payday_def)
qed

lemma axis_covers_the_range_witness:
  "\<exists>cal w. from_paydays two_paydays two_eras None = Inr cal \<and>
     axis_window (cal_periods cal) two_eras (Date 2026 1 10) (Date 2026 3 1) = Inr w \<and> tiles w"
proof -
  obtain cal where cal: "from_paydays two_paydays two_eras None = Inr cal"
    "opening_bound cal = Some (Date 2026 1 2)" "\<forall>row \<in> set two_paydays. valid_date (snd row)"
    by (rule two_paydays_calendar)
  show ?thesis
    using axis_covers_the_range[OF two_eras_sound cal(3,1,2), of "Date 2026 1 10" "Date 2026 3 1"] cal(1)
    by (auto simp: less_eq_date_def CALENDAR_DATE_MAX_def)
qed

end
