(* ===== verification/Pay_Counts.thy ===== *)
theory Pay_Counts
  imports Pay_Views
begin

text \<open>
  \<open>app/services/pay_calendar/_rhythm.py\<close>: the paydays of a span, below, on and past the record, and the
  cadence in force on a payday.
\<close>

section \<open>Counts\<close>

definition backdated_paydays :: "pay_calendar \<Rightarrow> date \<Rightarrow> date \<Rightarrow> date list" where
  "backdated_paydays cal first_day last_day =
     (case history_opens_on cal of
        None \<Rightarrow> []
      | Some floor_day \<Rightarrow>
          let opening = start_date (hd (cal_periods cal));
              lower = max first_day floor_day;
              upper = min last_day (add_days opening (- 1))
          in if upper < lower then []
             else let (e, top_step) = grid_below_record (cal_eras cal) opening;
                      anchor = effective_from e; r = era_rhythm e;
                      first_step = cadence_steps_to anchor (cadence_of r) lower;
                      last_step = min (cadence_steps_to anchor (cadence_of r) upper + 1) top_step
                  in [payday \<leftarrow> map (projected_payday anchor r) [first_step .. last_step]. lower \<le> payday \<and> payday \<le> upper])"

definition rhythm_between :: "pay_calendar \<Rightarrow> date \<Rightarrow> date \<Rightarrow> date list res" where
  "rhythm_between cal first_day last_day =
     (let periods = cal_periods cal
      in if last_day < first_day \<or> periods = [] then Inr []
         else let backdated = (if first_day < start_date (hd periods) then backdated_paydays cal first_day last_day else []);
                  saved = paydays_between periods first_day last_day
              in bind_res
                   (if end_date (last periods) < last_day
                    then bind_res (taken_until last_day (projected_paychecks periods (cal_eras cal) (Some first_day)))
                           (\<lambda>taken. Inr [d \<leftarrow> map start_date taken. first_day \<le> d])
                    else Inr [])
                   (\<lambda>projected. Inr (backdated @ saved @ projected)))"

definition month_opens :: "date \<Rightarrow> date" where
  "month_opens day = Date (d_year day) (d_month day) 1"

definition paydays_in_month_through :: "pay_calendar \<Rightarrow> date \<Rightarrow> date list res" where
  "paydays_in_month_through cal day = rhythm_between cal (month_opens day) day"

definition saved_paydays_in_month_through :: "pay_calendar \<Rightarrow> date \<Rightarrow> date list" where
  "saved_paydays_in_month_through cal day = paydays_between (cal_periods cal) (month_opens day) day"

definition paydays_in_year_before :: "pay_calendar \<Rightarrow> date \<Rightarrow> date list res" where
  "paydays_in_year_before cal day = rhythm_between cal (Date (d_year day) 1 1) (add_days day (- 1))"

definition cadence_on :: "pay_calendar \<Rightarrow> date \<Rightarrow> cadence res" where
  "cadence_on cal payday =
     bind_res (matched_planned (cal_eras cal) payday)
       (\<lambda>(index, _). pay_cadence (cadence_of (era_rhythm (cal_eras cal ! index))))"
section \<open>The counts of paydays\<close>

lemma sorted_from:
  "sorted_wrt (<) (map f xs) \<Longrightarrow> [x \<leftarrow> xs. a \<le> f x] = dropWhile (\<lambda>x. f x < a) xs" for a :: "'a :: linorder"
proof (induction xs)
  case (Cons x xs)
  then have "dropWhile (\<lambda>x. f x < a) xs = xs" if "a \<le> f x" using that by (cases xs) auto
  then show ?case using Cons by (cases "a \<le> f x") auto
qed simp

lemma sorted_upto:
  "sorted_wrt (<) (map f xs) \<Longrightarrow> [x \<leftarrow> xs. f x \<le> a] = takeWhile (\<lambda>x. f x \<le> a) xs" for a :: "'a :: linorder"
proof (induction xs)
  case (Cons x xs)
  then have "takeWhile (\<lambda>x. f x \<le> a) xs = []" if "a < f x" using that by (cases xs) auto
  then show ?case using Cons by (cases "a < f x") (auto simp: not_le)
qed simp

lemma paydays_between_value:
  assumes "tiles ps"
  shows "paydays_between ps a b = map start_date [p \<leftarrow> ps. a \<le> start_date p \<and> start_date p \<le> b]"
proof (cases "b < a")
  case True
  then have "[p \<leftarrow> ps. a \<le> start_date p \<and> start_date p \<le> b] = []" by (auto simp: filter_empty_conv)
  then show ?thesis using True by (simp add: paydays_between_def)
next
  case False
  note sorted = tiles_sorted[OF assms]
  let ?taken = "takeWhile (\<lambda>p. start_date p \<le> b) ps"
  have prefix: "takeWhile (\<lambda>p. start_date p < a) ps = takeWhile (\<lambda>p. start_date p < a) ?taken"
    using False by (induction ps) auto
  have "take (length ?taken - n) (drop n ps) = drop n ?taken" for n
    by (metis drop_take takeWhile_eq_take)
  then have "take (bisect_right_start ps b - bisect_left_start ps a) (drop (bisect_left_start ps a) ps) =
      dropWhile (\<lambda>p. start_date p < a) ?taken"
    by (simp add: bisect_right_start_def bisect_left_start_def prefix dropWhile_eq_drop)
  also have "sorted_wrt (<) (map start_date ?taken)"
    using sorted by (metis sorted_wrt_take take_map takeWhile_eq_take)
  then have "dropWhile (\<lambda>p. start_date p < a) ?taken = [p \<leftarrow> ?taken. a \<le> start_date p]" by (rule sorted_from[symmetric])
  also have "\<dots> = [p \<leftarrow> ps. a \<le> start_date p \<and> start_date p \<le> b]"
    unfolding sorted_upto[OF sorted, symmetric] by (simp add: conj_commute)
  finally show ?thesis using False by (simp add: paydays_between_def Let_def)
qed

lemma walk_starts:
  assumes "sound_eras eras" "valid_date (start_date (last ps))" "planned eras i s"
  obtains qs where "projected_from ps eras (era_payday (eras ! i) s) = map Inr qs" "sorted_wrt (<) (map start_date qs)"
    "set (map start_date qs) = {d. \<exists>j t. planned eras j t \<and> d = era_payday (eras ! j) t \<and>
        era_payday (eras ! i) s \<le> d \<and> d \<le> CALENDAR_DATE_MAX}"
proof -
  obtain qs where qs: "projected_from ps eras (era_payday (eras ! i) s) = map Inr qs" "tiles qs"
    "\<forall>q \<in> set qs. start_date q \<le> CALENDAR_DATE_MAX \<and> (\<exists>j t. planned eras j t \<and> q = plan_period ps eras j t)"
    "qs \<noteq> [] \<longrightarrow> hd qs = plan_period ps eras i s \<and> CALENDAR_DATE_MAX \<le> end_date (last qs)"
    "qs = [] \<longleftrightarrow> CALENDAR_DATE_MAX < era_payday (eras ! i) s"
    by (rule projected_walk[OF assms])
  have lo: "era_payday (eras ! i) s \<le> start_date q" if "q \<in> set qs" for q
    using that tiles_sorted[OF qs(2)] qs(4) by (cases qs) auto
  have found: "\<exists>q \<in> set qs. start_date q = era_payday (eras ! j) t"
    if p: "planned eras j t" "era_payday (eras ! i) s \<le> era_payday (eras ! j) t" "era_payday (eras ! j) t \<le> CALENDAR_DATE_MAX" for j t
  proof -
    have ne: "qs \<noteq> []" using qs(5) p(2,3) by auto
    have "start_date (hd qs) \<le> era_payday (eras ! j) t" "era_payday (eras ! j) t \<le> end_date (last qs)"
      using qs(4) ne p(2,3) by auto
    then obtain k where k: "k < length qs" "covers (qs ! k) (era_payday (eras ! j) t)"
      by (rule tiles_cover[OF qs(2) ne planned_valid[OF assms(1) p(1)]])
    then obtain j' t' where q: "planned eras j' t'" "qs ! k = plan_period ps eras j' t'" using qs(3) nth_mem by blast
    then have "\<not> era_payday (eras ! j') t' < era_payday (eras ! j) t"
      using planned_outside[OF assms(1) q(1) p(1)] k(2) by (auto simp: covers_def)
    then show ?thesis using k q nth_mem[OF k(1)] by (intro bexI[of _ "qs ! k"]) (auto simp: covers_def)
  qed
  have "set (map start_date qs) = {d. \<exists>j t. planned eras j t \<and> d = era_payday (eras ! j) t \<and>
      era_payday (eras ! i) s \<le> d \<and> d \<le> CALENDAR_DATE_MAX}" (is "_ = ?paydays")
  proof (intro equalityI subsetI)
    fix d assume "d \<in> set (map start_date qs)"
    then obtain q where q: "q \<in> set qs" "d = start_date q" by auto
    then obtain j t where "planned eras j t" "q = plan_period ps eras j t" "start_date q \<le> CALENDAR_DATE_MAX" using qs(3) by blast
    then show "d \<in> ?paydays" using lo[OF q(1)] q(2) by auto
  next
    fix d assume "d \<in> ?paydays"
    then show "d \<in> set (map start_date qs)" using found by force
  qed
  then show thesis using qs(1) tiles_sorted[OF qs(2)] by (intro that)
qed

lemma backdated_value:
  assumes "grid_ok (hd (cal_eras cal))" "valid_date a" "valid_date b" "history_opens_on cal = Some floor_day" "valid_date floor_day"
    and "cal_periods cal \<noteq> []" "opening = start_date (hd (cal_periods cal))" "valid_date opening"
  shows "sorted_wrt (<) (backdated_paydays cal a b) \<and>
    (\<forall>d. d \<in> set (backdated_paydays cal a b) \<longleftrightarrow> a \<le> d \<and> d \<le> b \<and> floor_day \<le> d \<and> d < opening \<and>
       (\<exists>k < matched_step (effective_from (hd (cal_eras cal))) (era_rhythm (hd (cal_eras cal))) opening.
          d = era_payday (hd (cal_eras cal)) k))"
proof -
  let ?e = "hd (cal_eras cal)"
  define lower upper where bounds: "lower = max a floor_day" "upper = min b (add_days opening (- 1))"
  let ?m = "matched_step (effective_from ?e) (era_rhythm ?e) opening"
  have v: "valid_date lower" "valid_date upper" using assms by (simp_all add: bounds max_def min_def)
  have up: "d \<le> add_days opening (- 1) \<longleftrightarrow> d < opening" if "valid_date d" for d
    using that assms(8) by (simp add: day_number_le_iff day_number_less_iff)
  let ?steps = "[era_steps_to ?e lower .. min (era_steps_to ?e upper + 1) (?m - 1)]"
  have listed: "backdated_paydays cal a b =
      (if upper < lower then [] else [d \<leftarrow> map (era_payday ?e) ?steps. lower \<le> d \<and> d \<le> upper])"
    using assms by (simp add: backdated_paydays_def grid_below_record_def Let_def bounds)
  have inside: "era_steps_to ?e lower \<le> k \<and> k \<le> era_steps_to ?e upper + 1"
    if "lower \<le> era_payday ?e k" "era_payday ?e k \<le> upper" for k
  proof -
    have "era_payday ?e (era_steps_to ?e lower - 1) < era_payday ?e k" "era_payday ?e k < era_payday ?e (era_steps_to ?e upper + 2)"
      by (rule less_le_trans[OF era_payday_facts(4)[OF assms(1) v(1)] that(1)],
          rule le_less_trans[OF that(2) era_payday_facts(5)[OF assms(1) v(2)]])
    then show ?thesis using era_payday_facts(2)[OF assms(1)] by auto
  qed
  have "sorted_wrt (<) (map (era_payday ?e) ?steps)"
    using era_payday_facts(2)[OF assms(1)] sorted_wrt_less_upto by (simp add: sorted_wrt_map)
  then have "sorted_wrt (<) (backdated_paydays cal a b)" unfolding listed by (simp add: sorted_wrt_filter)
  moreover have "d \<in> set (backdated_paydays cal a b) \<longleftrightarrow> lower \<le> d \<and> d \<le> upper \<and> (\<exists>k < ?m. d = era_payday ?e k)" for d
    using inside unfolding listed by (auto simp: image_iff)
  moreover have "d \<le> upper \<longleftrightarrow> d \<le> b \<and> d < opening" if "\<exists>k < ?m. d = era_payday ?e k" for d
    using that up era_payday_facts(1)[OF assms(1)] by (auto simp: bounds)
  moreover have "lower \<le> d \<longleftrightarrow> a \<le> d \<and> floor_day \<le> d" for d by (simp add: bounds)
  ultimately show ?thesis by blast
qed

lemma projected_part:
  assumes "calendar_ok cal" "cal_periods cal \<noteq> []" "valid_date a"
  obtains qs where "projected_paychecks (cal_periods cal) (cal_eras cal) (Some a) = map Inr qs" "sorted_wrt (<) (map start_date qs)"
    "\<forall>q \<in> set qs. end_date (last (cal_periods cal)) < start_date q"
    "\<forall>d. a \<le> d \<and> d \<le> CALENDAR_DATE_MAX \<longrightarrow> (d \<in> set (map start_date qs) \<longleftrightarrow>
       end_date (last (cal_periods cal)) < d \<and> (\<exists>j t. planned (cal_eras cal) j t \<and> d = era_payday (cal_eras cal ! j) t))"
proof -
  let ?ps = "cal_periods cal" and ?eras = "cal_eras cal"
  have c: "sound_eras ?eras" "tiles ?ps" "payday_after ?eras (start_date (last ?ps)) = Inr (add_days (end_date (last ?ps)) 1)"
    using assms(1,2) by (auto simp: calendar_ok_def)
  have v: "valid_date (start_date (last ?ps))" "valid_date (end_date (last ?ps))"
    using tiles_member[OF c(2) last_in_set[OF assms(2)]] by simp_all
  obtain h k where h: "planned ?eras h k" "era_payday (?eras ! h) k = add_days (end_date (last ?ps)) 1"
    using horizon_position[OF c(1) v(1)] c(3) by (metis Inr_inject)
  have past: "end_date (last ?ps) < d \<longleftrightarrow> era_payday (?eras ! h) k \<le> d" if "valid_date d" for d
    using that v(2) h(2) by (auto simp: day_number_less_iff day_number_le_iff)
  obtain i s where at: "planned ?eras i s" "era_payday (?eras ! h) k \<le> era_payday (?eras ! i) s"
    "era_payday (?eras ! i) s \<le> a \<or> i = h \<and> s = k"
    "projected_paychecks ?ps ?eras (Some a) = projected_from ?ps ?eras (era_payday (?eras ! i) s)"
  proof (cases "add_days (end_date (last ?ps)) 1 < a")
    case False
    then show thesis using h assms(2) by (intro that[of h k]) (simp_all add: projected_paychecks_def final_covered_day_def Let_def)
  next
    case True
    obtain i s where pos: "planned ?eras i s" "era_payday (?eras ! i) s \<le> a" "a \<le> plan_end ?eras i s"
      by (rule planned_position[OF c(1) assms(3)])
    have "\<not> era_payday (?eras ! i) s < era_payday (?eras ! h) k"
      using planned_outside[OF c(1) pos(1) h(1)] pos(3) True h(2) by auto
    then show thesis
      using pos True assms(2) project_period_after_value[OF c(1) v(1) assms(3) pos]
      by (intro that[of i s]) (simp_all add: projected_paychecks_def final_covered_day_def Let_def)
  qed
  obtain qs where qs: "projected_from ?ps ?eras (era_payday (?eras ! i) s) = map Inr qs" "sorted_wrt (<) (map start_date qs)"
    "set (map start_date qs) = {d. \<exists>j t. planned ?eras j t \<and> d = era_payday (?eras ! j) t \<and>
        era_payday (?eras ! i) s \<le> d \<and> d \<le> CALENDAR_DATE_MAX}"
    by (rule walk_starts[OF c(1) v(1) at(1)])
  have pv: "valid_date (era_payday (?eras ! j) t)" if "planned ?eras j t" for j t by (rule planned_valid[OF c(1) that])
  show thesis
  proof (rule that[of qs])
    show "projected_paychecks ?ps ?eras (Some a) = map Inr qs" using at(4) qs(1) by simp
    show "\<forall>q \<in> set qs. end_date (last ?ps) < start_date q"
    proof
      fix q assume "q \<in> set qs"
      then have "start_date q \<in> set (map start_date qs)" by simp
      then obtain j t where "planned ?eras j t" "start_date q = era_payday (?eras ! j) t" "era_payday (?eras ! i) s \<le> start_date q"
        unfolding qs(3) by blast
      then show "end_date (last ?ps) < start_date q" using past pv at(2) by force
    qed
    show "\<forall>d. a \<le> d \<and> d \<le> CALENDAR_DATE_MAX \<longrightarrow> (d \<in> set (map start_date qs) \<longleftrightarrow>
        end_date (last ?ps) < d \<and> (\<exists>j t. planned ?eras j t \<and> d = era_payday (?eras ! j) t))"
    proof (intro allI impI iffI)
      fix d assume d: "a \<le> d \<and> d \<le> CALENDAR_DATE_MAX" "d \<in> set (map start_date qs)"
      then obtain j t where "planned ?eras j t" "d = era_payday (?eras ! j) t" "era_payday (?eras ! i) s \<le> d"
        unfolding qs(3) by blast
      then show "end_date (last ?ps) < d \<and> (\<exists>j t. planned ?eras j t \<and> d = era_payday (?eras ! j) t)"
        using past[OF pv] at(2) by (metis order_trans)
    next
      fix d assume d: "a \<le> d \<and> d \<le> CALENDAR_DATE_MAX"
        "end_date (last ?ps) < d \<and> (\<exists>j t. planned ?eras j t \<and> d = era_payday (?eras ! j) t)"
      then obtain j t where j: "planned ?eras j t" "d = era_payday (?eras ! j) t" by blast
      have "era_payday (?eras ! i) s \<le> d" using at(3) d past[OF pv[OF j(1)]] j(2) by auto
      then show "d \<in> set (map start_date qs)" unfolding qs(3) using d(1) j by blast
    qed
  qed (rule qs(2))
qed

lemma tiles_within:
  assumes "tiles ps" "p \<in> set ps"
  shows "start_date (hd ps) \<le> start_date p" "start_date p \<le> end_date (last ps)"
proof -
  obtain as bs where ps: "ps = as @ p # bs" using assms(2) by (auto simp: in_set_conv_decomp)
  show "start_date (hd ps) \<le> start_date p"
    using tiles_sorted[OF assms(1)] by (cases as) (auto simp: ps sorted_wrt_append)
  have t: "tiles (p # bs)" using assms(1) by (simp add: ps tiles_append)
  show "start_date p \<le> end_date (last ps)"
  proof (cases "bs = []")
    case True
    then show ?thesis using t by (simp add: ps tiles_Cons)
  next
    case False
    then have "end_date p < start_date (last bs)" using tiles_later[OF t last_in_set] by simp
    moreover have "start_date (last bs) \<le> end_date (last bs)" "start_date p \<le> end_date p"
      using t False by (auto simp: tiles_Cons tiles_def)
    ultimately show ?thesis using False by (simp add: ps)
  qed
qed

lemma ahead_part:
  assumes "calendar_ok cal" "cal_periods cal \<noteq> []" "valid_date a" "b \<le> CALENDAR_DATE_MAX"
  obtains ahead where "(if end_date (last (cal_periods cal)) < b
      then bind_res (taken_until b (projected_paychecks (cal_periods cal) (cal_eras cal) (Some a)))
             (\<lambda>taken. Inr [d \<leftarrow> map start_date taken. a \<le> d])
      else Inr []) = Inr ahead" "sorted_wrt (<) ahead"
    "\<forall>d. d \<in> set ahead \<longleftrightarrow> a \<le> d \<and> d \<le> b \<and> end_date (last (cal_periods cal)) < d \<and>
       (\<exists>i s. planned (cal_eras cal) i s \<and> d = era_payday (cal_eras cal ! i) s)"
proof (cases "end_date (last (cal_periods cal)) < b")
  case False
  then show thesis by (intro that[of "[]"]) auto
next
  case True
  let ?ps = "cal_periods cal"
  obtain qs where qs: "projected_paychecks ?ps (cal_eras cal) (Some a) = map Inr qs" "sorted_wrt (<) (map start_date qs)"
    "\<forall>q \<in> set qs. end_date (last ?ps) < start_date q"
    "\<forall>d. a \<le> d \<and> d \<le> CALENDAR_DATE_MAX \<longrightarrow> (d \<in> set (map start_date qs) \<longleftrightarrow>
       end_date (last ?ps) < d \<and> (\<exists>j t. planned (cal_eras cal) j t \<and> d = era_payday (cal_eras cal ! j) t))"
    by (rule projected_part[OF assms(1-3)])
  let ?ahead = "[d \<leftarrow> map start_date qs. a \<le> d \<and> d \<le> b]"
  have "[d \<leftarrow> map start_date (takeWhile (\<lambda>p. start_date p \<le> b) qs). a \<le> d] = ?ahead"
    unfolding sorted_upto[OF qs(2), symmetric] by (simp add: filter_map comp_def conj_commute)
  moreover have "\<forall>d. d \<in> set ?ahead \<longleftrightarrow> a \<le> d \<and> d \<le> b \<and> end_date (last ?ps) < d \<and>
      (\<exists>i s. planned (cal_eras cal) i s \<and> d = era_payday (cal_eras cal ! i) s)"
    using qs(4) assms(4) unfolding set_filter by (blast intro: order_trans)
  moreover have "sorted_wrt (<) ?ahead" using qs(2) by (rule sorted_wrt_filter)
  ultimately show thesis using True qs(1) by (intro that[of ?ahead]) (simp_all add: taken_until_map)
qed

text \<open>The days an owner is paid: recorded, planned past the record, and planned below it below to a stated day.\<close>

definition rhythm_payday :: "pay_calendar \<Rightarrow> date \<Rightarrow> bool" where
  "rhythm_payday cal d \<longleftrightarrow>
     d \<in> start_date ` set (cal_periods cal) \<or>
     end_date (last (cal_periods cal)) < d \<and> (\<exists>i s. planned (cal_eras cal) i s \<and> d = era_payday (cal_eras cal ! i) s) \<or>
     (\<exists>floor_day k. history_opens_on cal = Some floor_day \<and> floor_day \<le> d \<and> d < start_date (hd (cal_periods cal)) \<and>
        k < matched_step (effective_from (hd (cal_eras cal))) (era_rhythm (hd (cal_eras cal))) (start_date (hd (cal_periods cal))) \<and>
        d = era_payday (hd (cal_eras cal)) k)"

lemma rhythm_value:
  assumes "calendar_ok cal" "cal_periods cal \<noteq> []" "valid_date a" "valid_date b" "b \<le> CALENDAR_DATE_MAX"
    and "\<forall>d. history_opens_on cal = Some d \<longrightarrow> valid_date d"
  obtains ds where "rhythm_between cal a b = Inr ds" "sorted_wrt (<) ds"
    "\<forall>d. d \<in> set ds \<longleftrightarrow> a \<le> d \<and> d \<le> b \<and> rhythm_payday cal d"
proof (cases "b < a")
  case True
  then show thesis by (intro that[of "[]"]) (auto simp: rhythm_between_def)
next
  case False
  let ?ps = "cal_periods cal" and ?eras = "cal_eras cal"
  let ?opening = "start_date (hd ?ps)" and ?e = "hd ?eras"
  let ?m = "matched_step (effective_from ?e) (era_rhythm ?e) ?opening"
  have c: "sound_eras ?eras" "tiles ?ps" using assms(1) by (simp_all add: calendar_ok_def)
  have e: "grid_ok ?e" using sound_eras_facts(1)[OF c(1)] sound_eras_facts(2)[OF c(1), of 0] by (simp add: hd_conv_nth)
  have vo: "valid_date ?opening" using tiles_member[OF c(2) hd_in_set[OF assms(2)]] by simp
  define below where "below = (if a < ?opening then backdated_paydays cal a b else [])"
  have below: "sorted_wrt (<) below" "\<And>d. d \<in> set below \<longleftrightarrow> a \<le> d \<and> d \<le> b \<and>
      (\<exists>floor_day k. history_opens_on cal = Some floor_day \<and> floor_day \<le> d \<and> d < ?opening \<and> k < ?m \<and> d = era_payday ?e k)"
  proof -
    have "sorted_wrt (<) below \<and> (\<forall>d. d \<in> set below \<longleftrightarrow> a \<le> d \<and> d \<le> b \<and>
      (\<exists>floor_day k. history_opens_on cal = Some floor_day \<and> floor_day \<le> d \<and> d < ?opening \<and> k < ?m \<and> d = era_payday ?e k))"
    proof (cases "history_opens_on cal")
      case None
      then show ?thesis by (simp add: below_def backdated_paydays_def)
    next
      case (Some floor_day)
      show ?thesis
      proof (cases "a < ?opening")
        case True
        then show ?thesis
          using backdated_value[OF e assms(3,4) Some _ assms(2) refl vo] Some assms(6) by (auto simp: below_def)
      qed (auto simp: below_def)
    qed
    then show "sorted_wrt (<) below" "\<And>d. d \<in> set below \<longleftrightarrow> a \<le> d \<and> d \<le> b \<and>
      (\<exists>floor_day k. history_opens_on cal = Some floor_day \<and> floor_day \<le> d \<and> d < ?opening \<and> k < ?m \<and> d = era_payday ?e k)"
      by blast+
  qed
  define saved where "saved = paydays_between ?ps a b"
  have saved_eq: "saved = [d \<leftarrow> map start_date ?ps. a \<le> d \<and> d \<le> b]"
    by (simp add: saved_def paydays_between_value[OF c(2)] filter_map comp_def)
  have saved: "sorted_wrt (<) saved" "\<And>d. d \<in> set saved \<longleftrightarrow> a \<le> d \<and> d \<le> b \<and> d \<in> start_date ` set ?ps"
    unfolding saved_eq using tiles_sorted[OF c(2)] by (auto simp: sorted_wrt_filter)
  have bounds: "?opening \<le> start_date p" "start_date p \<le> end_date (last ?ps)" if "p \<in> set ?ps" for p
    using tiles_within[OF c(2) that] by simp_all
  obtain ahead where ahead: "(if end_date (last ?ps) < b
      then bind_res (taken_until b (projected_paychecks ?ps ?eras (Some a))) (\<lambda>taken. Inr [d \<leftarrow> map start_date taken. a \<le> d])
      else Inr []) = Inr ahead" "sorted_wrt (<) ahead"
    "\<forall>d. d \<in> set ahead \<longleftrightarrow> a \<le> d \<and> d \<le> b \<and> end_date (last ?ps) < d \<and> (\<exists>i s. planned ?eras i s \<and> d = era_payday (?eras ! i) s)"
    by (rule ahead_part[OF assms(1-3,5)])
  have "rhythm_between cal a b = Inr (below @ saved @ ahead)"
    using False assms(2) ahead(1) by (simp add: rhythm_between_def Let_def below_def saved_def)
  moreover have ordered_parts: "x < y" if "x \<in> set below \<and> y \<in> set saved \<or> x \<in> set below \<and> y \<in> set ahead \<or> x \<in> set saved \<and> y \<in> set ahead" for x y
  proof -
    have "x < ?opening" if "x \<in> set below" for x using that unfolding below(2) by blast
    moreover have "?opening \<le> y \<and> y \<le> end_date (last ?ps)" if "y \<in> set saved" for y
      using that bounds unfolding saved(2) by blast
    moreover have "end_date (last ?ps) < y" if "y \<in> set ahead" for y
      using that unfolding ahead(3)[rule_format] by blast
    moreover have "?opening \<le> end_date (last ?ps)" using bounds[OF hd_in_set[OF assms(2)]] by simp
    ultimately show ?thesis using that by (meson le_less_trans less_le_trans less_trans)
  qed
  moreover have "sorted_wrt (<) (below @ saved @ ahead)"
    unfolding sorted_wrt_append using below(1) saved(1) ahead(2) by (auto intro: ordered_parts)
  moreover have "d \<in> set (below @ saved @ ahead) \<longleftrightarrow> a \<le> d \<and> d \<le> b \<and> rhythm_payday cal d" for d
    unfolding set_append Un_iff below(2) saved(2) ahead(3)[rule_format] rhythm_payday_def by blast
  ultimately show thesis by (intro that) auto
qed
text \<open>
  C12: the count of paydays.  Over any span within the application's calendar the days counted are the
  days the owner is paid, each once and in order: those recorded, those the eras plan past the last
  recorded period, and, where the owner said when their paychecks began, those the earliest era plans
  below the first recorded one back to that day and no further.\<close>

theorem paydays_of_a_span:
  assumes "sound_eras eras" "\<forall>row \<in> set paydays. valid_date (snd row)" "paydays \<noteq> []"
    and "from_paydays paydays eras opens = Inr cal" "\<forall>d. opens = Some d \<longrightarrow> valid_date d"
    and "valid_date first_day" "valid_date last_day" "last_day \<le> CALENDAR_DATE_MAX"
  shows "\<exists>ds. rhythm_between cal first_day last_day = Inr ds \<and> sorted_wrt (<) ds \<and>
    (\<forall>d. d \<in> set ds \<longleftrightarrow> first_day \<le> d \<and> d \<le> last_day \<and>
       (d \<in> snd ` set paydays \<or>
        end_date (last (cal_periods cal)) < d \<and> (\<exists>i s. planned eras i s \<and> d = era_payday (eras ! i) s) \<or>
        (\<exists>floor_day k. opens = Some floor_day \<and> floor_day \<le> d \<and> d < start_date (hd (cal_periods cal)) \<and>
           k < matched_step (effective_from (hd eras)) (era_rhythm (hd eras)) (start_date (hd (cal_periods cal))) \<and>
           d = era_payday (hd eras) k)))"
proof -
  note ok = from_paydays_ok[OF assms(1,2,4)]
  have ne: "cal_periods cal \<noteq> []" using ok(4) assms(3) by auto
  have opens: "\<forall>d. history_opens_on cal = Some d \<longrightarrow> valid_date d" using ok(3) assms(5) by simp
  obtain ds where ds: "rhythm_between cal first_day last_day = Inr ds" "sorted_wrt (<) ds"
    "\<forall>d. d \<in> set ds \<longleftrightarrow> first_day \<le> d \<and> d \<le> last_day \<and> rhythm_payday cal d"
    by (rule rhythm_value[OF ok(1) ne assms(6-8) opens])
  have "start_date ` set (cal_periods cal) = snd ` set paydays" using ok(4) by simp
  then show ?thesis using ds by (intro exI[of _ ds]) (simp add: rhythm_payday_def ok(2,3))
qed

lemma paydays_of_a_span_witness:
  "\<exists>cal ds. from_paydays two_paydays two_eras (Some (Date 2025 12 1)) = Inr cal \<and>
     rhythm_between cal (Date 2026 1 1) (Date 2026 1 20) = Inr ds \<and> sorted_wrt (<) ds \<and> Date 2026 1 16 \<in> set ds"
proof -
  obtain cal where cal: "from_paydays two_paydays two_eras (Some (Date 2025 12 1)) = Inr cal"
    "\<forall>row \<in> set two_paydays. valid_date (snd row)" by (rule two_paydays_calendar)
  have "two_paydays \<noteq> []" by (simp add: two_paydays_def)
  then obtain ds where ds: "rhythm_between cal (Date 2026 1 1) (Date 2026 1 20) = Inr ds" "sorted_wrt (<) ds"
    "Date 2026 1 1 \<le> d \<and> d \<le> Date 2026 1 20 \<and> d \<in> snd ` set two_paydays \<Longrightarrow> d \<in> set ds" for d
    using paydays_of_a_span[OF two_eras_sound cal(2) _ cal(1), of "Date 2026 1 1" "Date 2026 1 20"]
    by (auto simp: valid_Date days_in_month_def less_eq_date_def CALENDAR_DATE_MAX_def)
  have "Date 2026 1 16 \<in> set ds" by (rule ds(3)) (simp add: two_paydays_def less_eq_date_def)
  then show ?thesis using cal(1) ds(1,2) by blast
qed
text \<open>The paydays of a year up to a day are the first ones of the paydays of the whole year.\<close>

definition year_paydays :: "pay_calendar \<Rightarrow> int \<Rightarrow> date list" where
  "year_paydays cal year = projr (rhythm_between cal (Date year 1 1) (Date year 12 31))"

lemma sorted_below_nth:
  fixes ds :: "'a :: linorder list"
  assumes "sorted_wrt (<) ds" "k < length ds"
  shows "[d \<leftarrow> ds. d < ds ! k] = take k ds"
proof -
  note split = id_take_nth_drop[OF assms(2)]
  have s: "sorted_wrt (<) (take k ds @ ds ! k # drop (Suc k) ds)" using assms(1) split by simp
  have "[d \<leftarrow> take k ds @ ds ! k # drop (Suc k) ds. d < ds ! k] = take k ds"
    using s by (auto simp: sorted_wrt_append filter_empty_conv filter_id_conv)
  then show ?thesis using split by simp
qed

lemma rhythm_payday_valid:
  assumes "calendar_ok cal" "cal_periods cal \<noteq> []" "rhythm_payday cal d"
  shows "valid_date d"
proof -
  have c: "sound_eras (cal_eras cal)" "tiles (cal_periods cal)" using assms(1) by (simp_all add: calendar_ok_def)
  have e: "grid_ok (hd (cal_eras cal))"
    using sound_eras_facts(1)[OF c(1)] sound_eras_facts(2)[OF c(1), of 0] by (simp add: hd_conv_nth)
  show ?thesis
    using assms(3) tiles_member[OF c(2)] planned_valid[OF c(1)] era_payday_facts(1)[OF e]
    unfolding rhythm_payday_def by auto
qed

lemma paydays_in_year_before_prefix:
  assumes "calendar_ok cal" "cal_periods cal \<noteq> []" "\<forall>d. history_opens_on cal = Some d \<longrightarrow> valid_date d"
    and "1 \<le> year" "year \<le> 2100" "k < length (year_paydays cal year)"
  shows "paydays_in_year_before cal (year_paydays cal year ! k) = Inr (take k (year_paydays cal year))"
    "valid_date (year_paydays cal year ! k)" "d_year (year_paydays cal year ! k) = year"
proof -
  have y: "valid_date (Date year 1 1)" "valid_date (Date year 12 31)" "Date year 12 31 \<le> CALENDAR_DATE_MAX"
    using assms(4,5) by (auto simp: valid_Date days_in_month_def less_eq_date_def CALENDAR_DATE_MAX_def)
  obtain ds where ds: "rhythm_between cal (Date year 1 1) (Date year 12 31) = Inr ds" "sorted_wrt (<) ds"
    "\<forall>d. d \<in> set ds \<longleftrightarrow> Date year 1 1 \<le> d \<and> d \<le> Date year 12 31 \<and> rhythm_payday cal d"
    by (rule rhythm_value[OF assms(1,2) y assms(3)])
  have yp: "year_paydays cal year = ds" by (simp add: year_paydays_def ds(1))
  have k: "k < length ds" using assms(6) by (simp add: yp)
  define x where "x = ds ! k"
  have x: "Date year 1 1 \<le> x" "x \<le> Date year 12 31" "rhythm_payday cal x"
    using ds(3) nth_mem[OF k] by (auto simp: x_def)
  have v: "valid_date x" by (rule rhythm_payday_valid[OF assms(1,2) x(3)])
  have xy: "d_year x = year" using x(1,2) by (auto simp: less_eq_date_def)
  have before: "d \<le> add_days x (- 1) \<longleftrightarrow> d < x" if "valid_date d" for d
    using that v by (simp add: day_number_le_iff day_number_less_iff)
  have "add_days x (- 1) \<le> CALENDAR_DATE_MAX"
    using v x(2) y(2,3) by (metis before le_less_trans less_imp_le order_refl order_trans valid_add_days)
  then obtain es where es: "rhythm_between cal (Date year 1 1) (add_days x (- 1)) = Inr es" "sorted_wrt (<) es"
    "\<forall>d. d \<in> set es \<longleftrightarrow> Date year 1 1 \<le> d \<and> d \<le> add_days x (- 1) \<and> rhythm_payday cal d"
    using rhythm_value[OF assms(1,2) y(1) valid_add_days[OF v] _ assms(3)] by blast
  have "d \<in> set es \<longleftrightarrow> d \<in> set [d \<leftarrow> ds. d < x]" for d
    using es(3) ds(3) before rhythm_payday_valid[OF assms(1,2), of d] x(2) by auto
  then have "es = [d \<leftarrow> ds. d < x]"
    using es(2) sorted_wrt_filter[OF ds(2)] by (intro strict_sorted_equal) (auto simp: set_eq_iff)
  then have "es = take k ds" using sorted_below_nth[OF ds(2) k] by (simp add: x_def)
  then show "paydays_in_year_before cal (year_paydays cal year ! k) = Inr (take k (year_paydays cal year))"
    using es(1) xy by (simp add: paydays_in_year_before_def yp x_def)
  show "valid_date (year_paydays cal year ! k)" "d_year (year_paydays cal year ! k) = year"
    using v xy by (simp_all add: yp x_def)
qed

end
