(* ===== verification/Recurrence_Rules.thy ===== *)
theory Recurrence_Rules
  imports Pay_Counts
begin

text \<open>
  \<open>app/services/recurrence/\<close>, the rule: its units and placements (\<open>_vocabulary\<close>), how often it fires
  (\<open>_frequency\<close>), the day of the month a clamped first occurrence stands for (\<open>_nominal_day\<close>), the bounds
  that close it (\<open>_bounds\<close>, \<open>_closing\<close>), what may be authored (\<open>_offer\<close>) and the resolution of a stated rule
  against its owner's calendar (\<open>_resolution\<close>); with \<open>app/utils/books_boundary.py\<close>.  The classes of bounds
  and stops are datatypes and their methods functions by cases; a calendar's owner is an argument, as the
  calendar's model does not carry it.
\<close>

section \<open>Vocabulary\<close>

datatype recurrence_unit = Period_Unit | Week_Unit | Month_Unit | Year_Unit

datatype placement = Containing_Date | Starting_On_Or_After

definition recurrence_units :: "recurrence_unit list" where
  "recurrence_units = [Period_Unit, Week_Unit, Month_Unit, Year_Unit]"

definition placements :: "placement list" where
  "placements = [Containing_Date, Starting_On_Or_After]"

text \<open>The reference rows live in the database: the ids of the members are arguments.\<close>

definition modelled_unit :: "(recurrence_unit \<Rightarrow> int) \<Rightarrow> int \<Rightarrow> recurrence_unit option" where
  "modelled_unit ids unit_id = find (\<lambda>u. ids u = unit_id) recurrence_units"

definition modelled_placement :: "(placement \<Rightarrow> int) \<Rightarrow> int \<Rightarrow> placement option" where
  "modelled_placement ids placement_id = find (\<lambda>p. ids p = placement_id) placements"

definition unit_member :: "(recurrence_unit \<Rightarrow> int) \<Rightarrow> int \<Rightarrow> recurrence_unit res" where
  "unit_member ids unit_id =
     (case modelled_unit ids unit_id of None \<Rightarrow> Inl RecurrenceResolutionError | Some u \<Rightarrow> Inr u)"

definition placement_member :: "(placement \<Rightarrow> int) \<Rightarrow> int \<Rightarrow> placement res" where
  "placement_member ids placement_id =
     (case modelled_placement ids placement_id of None \<Rightarrow> Inl RecurrenceResolutionError | Some p \<Rightarrow> Inr p)"

section \<open>Months\<close>

fun months_per_unit :: "recurrence_unit \<Rightarrow> int option" where
  "months_per_unit Month_Unit = Some 1"
| "months_per_unit Year_Unit = Some 12"
| "months_per_unit _ = None"

definition months_per_step :: "recurrence_unit \<Rightarrow> int \<Rightarrow> int res" where
  "months_per_step u interval_n =
     (case months_per_unit u of None \<Rightarrow> Inl MonthStepError | Some months \<Rightarrow> Inr (months * interval_n))"

definition has_day_of_month_coordinate :: "recurrence_unit \<Rightarrow> bool" where
  "has_day_of_month_coordinate u = (months_per_unit u \<noteq> None)"

definition can_repeat_within_month :: "recurrence_unit \<Rightarrow> bool" where
  "can_repeat_within_month u = (\<not> has_day_of_month_coordinate u)"

section \<open>Frequency\<close>

record rule_cadence =
  every_n :: int
  cadence_unit :: recurrence_unit
  month_ceiling :: "int option"

definition units_per_year :: "rule_cadence \<Rightarrow> cadence \<Rightarrow> dec" where
  "units_per_year c pay =
     (case cadence_unit c of
        Period_Unit \<Rightarrow> periods_per_year pay
      | Week_Unit \<Rightarrow> periods_per_year (Fixed_Days 7)
      | Month_Unit \<Rightarrow> MONTHS_PER_YEAR
      | Year_Unit \<Rightarrow> 1)"

definition ceiling_binds :: "rule_cadence \<Rightarrow> cadence \<Rightarrow> bool" where
  "ceiling_binds c pay =
     (case month_ceiling c of None \<Rightarrow> False
      | Some n \<Rightarrow> dmul (dmul (of_int n) MONTHS_PER_YEAR) (of_int (every_n c)) < units_per_year c pay)"

definition occurrences_per_year :: "rule_cadence \<Rightarrow> cadence \<Rightarrow> dec" where
  "occurrences_per_year c pay =
     (if ceiling_binds c pay then dmul (of_int (the (month_ceiling c))) MONTHS_PER_YEAR
      else ddiv (units_per_year c pay) (of_int (every_n c)))"

definition monthly_equivalent :: "rule_cadence \<Rightarrow> dec \<Rightarrow> cadence \<Rightarrow> dec" where
  "monthly_equivalent c figure pay =
     (if ceiling_binds c pay then dmul figure (of_int (the (month_ceiling c)))
      else ddiv (dmul figure (units_per_year c pay)) (dmul (of_int (every_n c)) MONTHS_PER_YEAR))"

definition require_positive_interval :: "int \<Rightarrow> unit res" where
  "require_positive_interval interval_n = (if interval_n < 1 then Inl RecurrenceResolutionError else Inr ())"

definition canonical_cadence :: "int \<Rightarrow> recurrence_unit \<Rightarrow> int option \<Rightarrow> rule_cadence" where
  "canonical_cadence interval_n u max_per_month =
     (if u \<noteq> Month_Unit \<or> interval_n mod 12 \<noteq> 0
      then \<lparr>every_n = interval_n, cadence_unit = u, month_ceiling = max_per_month\<rparr>
      else \<lparr>every_n = interval_n div 12, cadence_unit = Year_Unit, month_ceiling = max_per_month\<rparr>)"

section \<open>The nominal day\<close>

definition cadence_day_of_month :: "recurrence_unit \<Rightarrow> date \<Rightarrow> int option \<Rightarrow> int option" where
  "cadence_day_of_month u starts_on nominal_day =
     (if \<not> has_day_of_month_coordinate u then None
      else case nominal_day of None \<Rightarrow> Some (d_day starts_on) | Some n \<Rightarrow> Some n)"

definition offerable_nominal_days :: "recurrence_unit \<Rightarrow> date \<Rightarrow> int list" where
  "offerable_nominal_days u starts_on =
     (if \<not> has_day_of_month_coordinate u then []
      else if d_day starts_on \<noteq> days_in_month (d_year starts_on) (d_month starts_on) then []
      else [day \<leftarrow> [29..31]. d_day starts_on < day])"

definition is_offerable_nominal_day :: "recurrence_unit \<Rightarrow> date \<Rightarrow> int option \<Rightarrow> bool" where
  "is_offerable_nominal_day u starts_on nominal_day =
     (case nominal_day of None \<Rightarrow> True | Some n \<Rightarrow> n \<in> set (offerable_nominal_days u starts_on))"

definition require_nominal_day_pair :: "recurrence_unit \<Rightarrow> date \<Rightarrow> int option \<Rightarrow> unit res" where
  "require_nominal_day_pair u starts_on nominal_day =
     (if is_offerable_nominal_day u starts_on nominal_day then Inr () else Inl RecurrenceResolutionError)"

section \<open>Closing bounds\<close>

record bound_reading =
  read_occurrences :: "date list"
  read_horizon :: "date option"

definition owes_from :: "bound_reading \<Rightarrow> date \<Rightarrow> bool" where
  "owes_from r day = (\<exists>occurrence \<in> set (read_occurrences r). day \<le> occurrence)"

definition reading_reaches :: "bound_reading \<Rightarrow> date \<Rightarrow> bool" where
  "reading_reaches r day = (case read_horizon r of None \<Rightarrow> False | Some h \<Rightarrow> day \<le> h)"

definition date_bound_has_closed :: "date \<Rightarrow> date \<Rightarrow> bound_reading \<Rightarrow> bool" where
  "date_bound_has_closed last_day on r =
     (if last_day < on then True else if owes_from r on then False else reading_reaches r last_day)"

datatype end_bound = Never_Ends | Ends_On_Date date | Ends_After_Occurrences int

definition ends_after_occurrences :: "int \<Rightarrow> end_bound res" where
  "ends_after_occurrences n =
     (if n < 1 then Inl (EndBoundInputError ''max_occurrences'') else Inr (Ends_After_Occurrences n))"

fun bound_columns :: "end_bound \<Rightarrow> date option \<times> int option" where
  "bound_columns Never_Ends = (None, None)"
| "bound_columns (Ends_On_Date day) = (Some day, None)"
| "bound_columns (Ends_After_Occurrences n) = (None, Some n)"

fun bound_admits :: "end_bound \<Rightarrow> int \<Rightarrow> date \<Rightarrow> bool" where
  "bound_admits Never_Ends emitted occurrence = True"
| "bound_admits (Ends_On_Date day) emitted occurrence = (occurrence \<le> day)"
| "bound_admits (Ends_After_Occurrences n) emitted occurrence = (emitted < n)"

fun bound_has_closed :: "end_bound \<Rightarrow> date \<Rightarrow> bound_reading \<Rightarrow> bool" where
  "bound_has_closed Never_Ends on r = False"
| "bound_has_closed (Ends_On_Date day) on r = date_bound_has_closed day on r"
| "bound_has_closed (Ends_After_Occurrences n) on r =
     (if owes_from r on then False else n \<le> int (length (read_occurrences r)))"

definition end_bound_from_columns :: "date option \<Rightarrow> int option \<Rightarrow> end_bound res" where
  "end_bound_from_columns end_day max_occurrences =
     (case (end_day, max_occurrences) of
        (Some _, Some _) \<Rightarrow> Inl RecurrenceResolutionError
      | (Some day, None) \<Rightarrow> Inr (Ends_On_Date day)
      | (None, None) \<Rightarrow> Inr Never_Ends
      | (None, Some n) \<Rightarrow>
          (case ends_after_occurrences n of Inl _ \<Rightarrow> Inl RecurrenceResolutionError | Inr b \<Rightarrow> Inr b))"

definition end_bound_from_token :: "string \<Rightarrow> date option \<Rightarrow> int option \<Rightarrow> end_bound res" where
  "end_bound_from_token token end_day max_occurrences =
     (if token = ''never'' then Inr Never_Ends
      else if token = ''on_date'' then
        (case end_day of None \<Rightarrow> Inl (EndBoundInputError ''end_date'') | Some day \<Rightarrow> Inr (Ends_On_Date day))
      else if token = ''after_occurrences'' then
        (case max_occurrences of None \<Rightarrow> Inl (EndBoundInputError ''max_occurrences'') | Some n \<Rightarrow> ends_after_occurrences n)
      else Inl (EndBoundInputError ''recurrence_end_mode''))"

datatype derived_stop = Closes_On date | Indefinite | Empty_Stop

fun stop_admits :: "derived_stop \<Rightarrow> date \<Rightarrow> bool" where
  "stop_admits (Closes_On day) occurrence = (occurrence \<le> day)"
| "stop_admits Indefinite occurrence = True"
| "stop_admits Empty_Stop occurrence = False"

fun stop_has_closed :: "derived_stop \<Rightarrow> date \<Rightarrow> bound_reading \<Rightarrow> bool" where
  "stop_has_closed (Closes_On day) on r = date_bound_has_closed day on r"
| "stop_has_closed Indefinite on r = False"
| "stop_has_closed Empty_Stop on r = True"

record rule_closing =
  authored_bound :: end_bound
  derived_stop_of :: "derived_stop option"

definition closing_admits :: "rule_closing \<Rightarrow> int \<Rightarrow> date \<Rightarrow> bool" where
  "closing_admits c emitted occurrence =
     (if \<not> bound_admits (authored_bound c) emitted occurrence then False
      else case derived_stop_of c of None \<Rightarrow> True | Some s \<Rightarrow> stop_admits s occurrence)"

definition closing_has_closed :: "rule_closing \<Rightarrow> date \<Rightarrow> bound_reading \<Rightarrow> bool" where
  "closing_has_closed c on r =
     (if bound_has_closed (authored_bound c) on r then True
      else case derived_stop_of c of None \<Rightarrow> False | Some s \<Rightarrow> stop_has_closed s on r)"

section \<open>What may be authored\<close>

definition emits_period_starts :: "recurrence_unit \<Rightarrow> bool" where
  "emits_period_starts u = (u = Period_Unit)"

definition has_row_date_coordinate :: "recurrence_unit \<Rightarrow> bool" where
  "has_row_date_coordinate u = (emits_period_starts u \<or> has_day_of_month_coordinate u)"

definition require_row_date_coordinate :: "recurrence_unit \<Rightarrow> unit res" where
  "require_row_date_coordinate u = (if has_row_date_coordinate u then Inr () else Inl RecurrenceResolutionError)"

definition fires_on_day_of_month :: "recurrence_unit \<Rightarrow> placement \<Rightarrow> bool" where
  "fires_on_day_of_month u p = (has_day_of_month_coordinate u \<and> p = Containing_Date)"

definition authorable_cadences :: "(recurrence_unit \<times> placement) list" where
  "authorable_cadences =
     concat (map (\<lambda>u. if \<not> has_row_date_coordinate u then []
                      else map (Pair u) (if emits_period_starts u then take 1 placements else placements)) recurrence_units)"

definition is_authorable :: "int \<Rightarrow> recurrence_unit \<Rightarrow> placement \<Rightarrow> bool" where
  "is_authorable interval_n u p = (if interval_n < 1 then False else (u, p) \<in> set authorable_cadences)"

definition require_authorable_cadence :: "int \<Rightarrow> recurrence_unit \<Rightarrow> placement \<Rightarrow> unit res" where
  "require_authorable_cadence interval_n u p =
     bind_res (require_positive_interval interval_n)
       (\<lambda>_. if is_authorable interval_n u p then Inr () else Inl RecurrenceResolutionError)"

section \<open>The day a row carries\<close>

definition cadence_scheduled_day :: "recurrence_unit \<Rightarrow> placement \<Rightarrow> date \<Rightarrow> int option \<Rightarrow> int option" where
  "cadence_scheduled_day u p starts_on nominal_day =
     (if \<not> fires_on_day_of_month u p then None else cadence_day_of_month u starts_on nominal_day)"

definition date_row :: "date \<Rightarrow> derived_period \<Rightarrow> bool \<Rightarrow> date" where
  "date_row occurrence period from_paycheck = (if from_paycheck then start_date period else occurrence)"

definition first_movement_day :: "date \<Rightarrow> date" where
  "first_movement_day opened_on = add_days opened_on 1"

definition books_state_balance :: "date \<Rightarrow> date \<Rightarrow> bool" where
  "books_state_balance opened_on day = (opened_on \<le> day)"

definition books_hold :: "date \<Rightarrow> date \<Rightarrow> bool" where
  "books_hold opened_on day = (first_movement_day opened_on \<le> day)"

definition row_books_day :: "date \<Rightarrow> date \<Rightarrow> bool \<Rightarrow> date" where
  "row_books_day due_on period_end envelope = (if envelope then period_end else due_on)"

section \<open>Resolution\<close>

definition MAX_PER_MONTH_MIN :: int where "MAX_PER_MONTH_MIN = 1"

definition require_month_ceiling_pair :: "recurrence_unit \<Rightarrow> int option \<Rightarrow> unit res" where
  "require_month_ceiling_pair u max_per_month =
     (if max_per_month = None \<or> can_repeat_within_month u then Inr () else Inl RecurrenceResolutionError)"

record resolved_recurrence =
  offset_periods :: int
  rule_interval :: int
  rule_unit :: recurrence_unit
  starts_on :: date
  rule_placement :: placement
  rule_shift :: business_day_shift
  rule_closing_of :: rule_closing
  nominal_day :: "int option"
  max_per_month :: "int option"
  books_opened_on :: "date option"
  is_envelope :: bool

definition checked_recurrence :: "resolved_recurrence \<Rightarrow> resolved_recurrence res" where
  "checked_recurrence r =
     bind_res (require_nominal_day_pair (rule_unit r) (starts_on r) (nominal_day r)) (\<lambda>_.
     bind_res (require_month_ceiling_pair (rule_unit r) (max_per_month r)) (\<lambda>_. Inr r))"

definition rule_day_of_month :: "resolved_recurrence \<Rightarrow> int option" where
  "rule_day_of_month r = cadence_day_of_month (rule_unit r) (starts_on r) (nominal_day r)"

definition row_date :: "resolved_recurrence \<Rightarrow> date \<Rightarrow> derived_period \<Rightarrow> date res" where
  "row_date r occurrence period =
     bind_res (require_row_date_coordinate (rule_unit r)) (\<lambda>_. Inr
       (date_row occurrence period (cadence_scheduled_day (rule_unit r) (rule_placement r) (starts_on r) (nominal_day r) = None)))"

definition books_day :: "resolved_recurrence \<Rightarrow> date \<Rightarrow> derived_period \<Rightarrow> date res" where
  "books_day r occurrence period =
     bind_res (row_date r occurrence period) (\<lambda>due. Inr (row_books_day due (end_date period) (is_envelope r)))"

record recurrence_spec =
  spec_user :: int
  spec_unit :: recurrence_unit
  spec_starts_on :: "date option"
  spec_interval :: int
  spec_placement :: placement
  spec_nominal_day :: "int option"
  spec_end_bound :: end_bound
  spec_max_per_month :: "int option"

definition checked_spec :: "recurrence_spec \<Rightarrow> recurrence_spec res" where
  "checked_spec s =
     (case spec_starts_on s of None \<Rightarrow> Inl RecurrenceResolutionError
      | Some day \<Rightarrow>
          bind_res (require_nominal_day_pair (spec_unit s) day (spec_nominal_day s)) (\<lambda>_.
          bind_res (require_month_ceiling_pair (spec_unit s) (spec_max_per_month s)) (\<lambda>_. Inr s)))"

definition require_owner :: "int \<Rightarrow> recurrence_spec \<Rightarrow> unit res" where
  "require_owner calendar_owner s = (if calendar_owner \<noteq> spec_user s then Inl RecurrenceResolutionError else Inr ())"

definition require_authored_start_window :: "date \<Rightarrow> unit res" where
  "require_authored_start_window day =
     (if CALENDAR_DATE_MIN \<le> day \<and> day \<le> CALENDAR_DATE_MAX then Inr () else Inl RecurrenceResolutionError)"

definition require_authored_domains :: "date \<Rightarrow> int option \<Rightarrow> unit res" where
  "require_authored_domains day most =
     bind_res (require_authored_start_window day) (\<lambda>_.
       case most of None \<Rightarrow> Inr ()
       | Some n \<Rightarrow> if n < MAX_PER_MONTH_MIN then Inl RecurrenceResolutionError else Inr ())"

text \<open>
  A pay-period rule starts on the payday of the period its stated day falls in, never before the record;
  \<open>span_containing\<close> answers there (an absent answer would raise \<open>AttributeError\<close>).\<close>

definition first_occurrence :: "recurrence_unit \<Rightarrow> date \<Rightarrow> pay_calendar \<Rightarrow> date res" where
  "first_occurrence u day cal =
     (if u \<noteq> Period_Unit then Inr day
      else case opening_bound cal of None \<Rightarrow> Inl RecurrenceResolutionError
      | Some opening \<Rightarrow>
          bind_res (span_containing cal (max day opening))
            (\<lambda>span. case span of None \<Rightarrow> Inl AttributeError | Some p \<Rightarrow> Inr (start_date p)))"

definition derive_offset_periods :: "rule_cadence \<Rightarrow> pay_calendar \<Rightarrow> date \<Rightarrow> int res" where
  "derive_offset_periods c cal day =
     (if cadence_unit c \<noteq> Period_Unit \<or> every_n c = 1 then Inr 0
      else bind_res (span_containing cal day)
             (\<lambda>span. case span of None \<Rightarrow> Inl AttributeError | Some p \<Rightarrow> Inr (period_index p mod every_n c)))"

definition resolve_recurrence :: "int \<Rightarrow> recurrence_spec \<Rightarrow> pay_calendar \<Rightarrow> resolved_recurrence res" where
  "resolve_recurrence calendar_owner s cal =
     bind_res (require_owner calendar_owner s) (\<lambda>_.
     bind_res (require_authorable_cadence (spec_interval s) (spec_unit s) (spec_placement s)) (\<lambda>_.
     bind_res (require_authored_domains (the (spec_starts_on s)) (spec_max_per_month s)) (\<lambda>_.
     let c = canonical_cadence (spec_interval s) (spec_unit s) (spec_max_per_month s)
     in bind_res (first_occurrence (spec_unit s) (the (spec_starts_on s)) cal) (\<lambda>day.
        bind_res (derive_offset_periods c cal day) (\<lambda>offset.
        checked_recurrence
          \<lparr>offset_periods = offset, rule_interval = every_n c, rule_unit = cadence_unit c, starts_on = day,
           rule_placement = spec_placement s, rule_shift = No_Shift,
           rule_closing_of = \<lparr>authored_bound = spec_end_bound s, derived_stop_of = None\<rparr>,
           nominal_day = spec_nominal_day s, max_per_month = month_ceiling c, books_opened_on = None, is_envelope = False\<rparr>)))))"
section \<open>The bounds\<close>

text \<open>
  a closing bound survives its columns.  The two columns a bound is stored in read back as the bound,
  for every bound that can be made; two columns filled at once and a count below one are refused; and
  the form's token and fields make exactly the bounds that survive.\<close>

theorem end_bound_roundtrip:
  "(end_bound_from_columns (fst (bound_columns b)) (snd (bound_columns b)) = Inr b \<longleftrightarrow> (\<forall>n. b = Ends_After_Occurrences n \<longrightarrow> 1 \<le> n)) \<and>
   (end_bound_from_columns end_day most = Inr b \<longrightarrow> bound_columns b = (end_day, most)) \<and>
   (end_bound_from_columns end_day most = Inl RecurrenceResolutionError \<longleftrightarrow>
      (\<exists>day n. end_day = Some day \<and> most = Some n) \<or> (\<exists>n. end_day = None \<and> most = Some n \<and> n < 1)) \<and>
   (end_bound_from_token token end_day most = Inr b \<longrightarrow>
      end_bound_from_columns (fst (bound_columns b)) (snd (bound_columns b)) = Inr b)"
  by (cases b; cases end_day; cases most)
    (auto simp: end_bound_from_columns_def end_bound_from_token_def ends_after_occurrences_def split: if_splits option.splits)

lemma end_bound_roundtrip_witness:
  "end_bound_from_columns None (Some 12) = Inr (Ends_After_Occurrences 12) \<and>
   end_bound_from_columns (Some (Date 2027 1 31)) None = Inr (Ends_On_Date (Date 2027 1 31)) \<and>
   end_bound_from_columns None (Some 0) = Inl RecurrenceResolutionError"
  using end_bound_roundtrip[of "Ends_After_Occurrences 12" None "Some 0"] end_bound_roundtrip[of "Ends_On_Date (Date 2027 1 31)" None "Some 0"]
  by simp

section \<open>One schedule, one figure\<close>

lemma whole_dec: "\<bar>x\<bar> < 10 ^ 26 \<Longrightarrow> fix28 (of_int x) = of_int x"
  using fix28_places[of 0 "of_int x"] of_int_less_iff[of "\<bar>x\<bar>" "10 ^ 26", where ?'a = rat] by simp

lemma twelve_figures: "is_cents x \<Longrightarrow> \<bar>x\<bar> < 10 ^ 20 \<Longrightarrow> fix28 (x * 12) = x * 12 \<and> fix28 x = x"
  using fix28_places[of 2 "x * 12"] fix28_places[of 2 x] places_mult[of 2 x 0 12]
  by (simp add: places_2[symmetric] abs_mult)

text \<open>
  twelve months are a year.  A rule of months that come to whole years is carried in years and
  nothing else changes: it steps the same number of months, its yearly count and the monthly equivalent of
  any amount are the same to the last digit on every pay rhythm, and no rule is left in twelves of months.\<close>

theorem canonical_cadence_same_figures:
  assumes "require_positive_interval n = Inr ()" and "n < 10 ^ 20"
    and "require_month_ceiling_pair u most = Inr ()"
    and "is_cents figure" and "\<bar>figure\<bar> < 10 ^ 20"
  shows "let c = canonical_cadence n u most; stated = \<lparr>every_n = n, cadence_unit = u, month_ceiling = most\<rparr>
         in months_per_step (cadence_unit c) (every_n c) = months_per_step u n \<and>
            occurrences_per_year c pay = occurrences_per_year stated pay \<and>
            monthly_equivalent c figure pay = monthly_equivalent stated figure pay \<and>
            month_ceiling c = most \<and> 1 \<le> every_n c \<and>
            (cadence_unit c = Month_Unit \<longrightarrow> every_n c mod 12 \<noteq> 0)"
proof (cases "u = Month_Unit \<and> n mod 12 = 0")
  case False
  then show ?thesis using assms(1) by (auto simp: canonical_cadence_def require_positive_interval_def split: if_splits)
next
  case True
  have n1: "1 \<le> n" using assms(1) by (simp add: require_positive_interval_def split: if_splits)
  obtain k where k: "n = 12 * k" using True by (auto simp: mod_eq_0_iff_dvd elim: dvdE)
  have k1: "1 \<le> k" "k < 10 ^ 20" using n1 k assms(2) by auto
  have none: "most = None" using assms(3) True
    by (auto simp: require_month_ceiling_pair_def can_repeat_within_month_def has_day_of_month_coordinate_def split: if_splits)
  have products: "fix28 (of_int (12 * k) * 12) = of_int (12 * k) * 12" "fix28 (of_int k * 12) = of_int k * 12"
    using whole_dec[of "12 * k * 12"] whole_dec[of "k * 12"] k1 by simp_all
  have c: "canonical_cadence n u most = \<lparr>every_n = k, cadence_unit = Year_Unit, month_ceiling = None\<rparr>"
    using True k none by (simp add: canonical_cadence_def)
  show ?thesis unfolding c using k1 True k none products twelve_figures[OF assms(4,5)]
    by (simp add: Let_def months_per_step_def occurrences_per_year_def monthly_equivalent_def ceiling_binds_def
      units_per_year_def MONTHS_PER_YEAR_def ddiv_def dmul_def mult.commute)
qed

lemma canonical_cadence_same_figures_witness:
  "canonical_cadence 24 Month_Unit None = \<lparr>every_n = 2, cadence_unit = Year_Unit, month_ceiling = None\<rparr> \<and>
   monthly_equivalent \<lparr>every_n = 2, cadence_unit = Year_Unit, month_ceiling = None\<rparr> 1200 (Fixed_Days 14) =
     monthly_equivalent \<lparr>every_n = 24, cadence_unit = Month_Unit, month_ceiling = None\<rparr> 1200 (Fixed_Days 14)"
proof -
  have c: "canonical_cadence 24 Month_Unit None = \<lparr>every_n = 2, cadence_unit = Year_Unit, month_ceiling = None\<rparr>"
    by (simp add: canonical_cadence_def)
  have "is_cents 1200" by (simp add: is_cents_def)
  then show ?thesis
    using canonical_cadence_same_figures[of 24 Month_Unit None 1200 "Fixed_Days 14"] unfolding c
    by (simp add: Let_def require_positive_interval_def require_month_ceiling_pair_def)
qed

end
