(* ===== verification/Occurrences.thy ===== *)
theory Occurrences
  imports Recurrence_Rules
begin

text \<open>
  \<open>app/services/recurrence/\<close>, the walk: the days a rule fires (\<open>_months.walk_months\<close>, \<open>_occurrence\<close>),
  the periods that host them and the side of the books they land on (\<open>_placement\<close>), the reading of a
  stored rule (\<open>_reading\<close>) and its authoring (\<open>_authoring\<close>).  A generator is the list of what it yields,
  an exception being its last element; \<open>collected\<close> is \<open>tuple(...)\<close> of one.
\<close>

section \<open>Generators\<close>

fun collected :: "'a res list \<Rightarrow> 'a list res" where
  "collected [] = Inr []"
| "collected (c # cs) = bind_res c (\<lambda>x. bind_res (collected cs) (\<lambda>xs. Inr (x # xs)))"

text \<open>Python's \<open>range(first, stop, step)\<close>.\<close>

definition py_range :: "int \<Rightarrow> int \<Rightarrow> int \<Rightarrow> int list" where
  "py_range first stop step =
     map (\<lambda>k. first + int k * step)
       [0 ..< nat (if 0 < step then (stop - first - 1) div step + 1 else (first - stop - 1) div (- step) + 1)]"

section \<open>The walks\<close>

definition walk_months :: "int \<Rightarrow> int \<Rightarrow> int \<Rightarrow> date res list" where
  "walk_months start_ordinal nominal month_step =
     (let last_ordinal = grid_month_on_or_before CALENDAR_DATE_MAX nominal
      in if month_step = 0 then [Inl ValueError]
         else map (\<lambda>ordinal. clamped_day_py ordinal nominal) (py_range start_ordinal (last_ordinal + 1) month_step))"

text \<open>
  The week walk ends where Python's dates do.  A stride below one day would never get there;
  \<open>require_generable\<close> refuses it before the walk is asked for.\<close>

function week_steps :: "date \<Rightarrow> int \<Rightarrow> date res list" where
  "week_steps day stride =
     Inr day # (let following = add_days day stride
                in if 1 \<le> stride \<and> valid_date day \<and> following \<le> date_max then week_steps following stride
                   else [Inl OverflowError])"
  by auto
termination
proof (relation "measure (\<lambda>(day, _). nat (day_number date_max + 1 - day_number day))", goal_cases)
  case (2 day stride following)
  have "valid_date date_max" by (simp add: date_max_def valid_date_def days_in_month_def)
  then have "day_number day + stride \<le> day_number date_max"
    using 2 day_number_le_iff[of "add_days day stride" date_max] by simp
  then show ?case using 2 by simp
qed simp

declare week_steps.simps [simp del]

definition week_walk :: "date \<Rightarrow> int \<Rightarrow> date res list" where
  "week_walk anchor interval_n =
     (let stride = 7 * interval_n in if 999999999 < stride then [Inl OverflowError] else week_steps anchor stride)"

definition period_walk :: "resolved_recurrence \<Rightarrow> pay_calendar \<Rightarrow> date res list" where
  "period_walk r cal =
     map (\<lambda>c. bind_res c (\<lambda>p. Inr (start_date p)))
       [c \<leftarrow> paychecks_from cal (starts_on r).
          case c of Inl _ \<Rightarrow> True | Inr p \<Rightarrow> (period_index p - offset_periods r) mod rule_interval r = 0]"

definition unbounded :: "resolved_recurrence \<Rightarrow> pay_calendar \<Rightarrow> date res list" where
  "unbounded r cal =
     (if rule_unit r = Period_Unit then period_walk r cal
      else if rule_unit r = Week_Unit then week_walk (starts_on r) (rule_interval r)
      else case rule_day_of_month r of
             None \<Rightarrow> [Inl RecurrenceGenerationError]
           | Some month_day \<Rightarrow>
               (case months_per_step (rule_unit r) (rule_interval r) of
                  Inl e \<Rightarrow> [Inl e]
                | Inr step \<Rightarrow> walk_months (month_ordinal (starts_on r)) month_day step))"

fun payday_ceiling :: "pay_calendar \<Rightarrow> int \<Rightarrow> date res list \<Rightarrow> date res list" where
  "payday_ceiling cal most [] = []"
| "payday_ceiling cal most (Inl e # raw) = [Inl e]"
| "payday_ceiling cal most (Inr day # raw) =
     (case paydays_in_month_through cal day of
        Inl e \<Rightarrow> [Inl e]
      | Inr paydays \<Rightarrow>
          (if int (length paydays) \<le> most then Inr day # payday_ceiling cal most raw else payday_ceiling cal most raw))"

fun calendar_ceiling :: "int \<Rightarrow> (int \<times> int) option \<Rightarrow> int \<Rightarrow> date res list \<Rightarrow> date res list" where
  "calendar_ceiling most month admitted [] = []"
| "calendar_ceiling most month admitted (Inl e # raw) = [Inl e]"
| "calendar_ceiling most month admitted (Inr day # raw) =
     (let key = (d_year day, d_month day); count = (if Some key \<noteq> month then 0 else admitted)
      in if most \<le> count then calendar_ceiling most (Some key) count raw
         else Inr day # calendar_ceiling most (Some key) (count + 1) raw)"

definition ceilinged :: "date res list \<Rightarrow> resolved_recurrence \<Rightarrow> pay_calendar \<Rightarrow> date res list" where
  "ceilinged raw r cal =
     (case max_per_month r of
        None \<Rightarrow> raw
      | Some most \<Rightarrow> if rule_unit r = Period_Unit then payday_ceiling cal most raw else calendar_ceiling most None 0 raw)"

fun bounded :: "rule_closing \<Rightarrow> date \<Rightarrow> int \<Rightarrow> date res list \<Rightarrow> date res list" where
  "bounded closing through emitted [] = []"
| "bounded closing through emitted (Inl e # raw) = [Inl e]"
| "bounded closing through emitted (Inr day # raw) =
     (if through < day \<or> \<not> closing_admits closing emitted day then []
      else Inr day # bounded closing through (emitted + 1) raw)"

definition require_generable :: "resolved_recurrence \<Rightarrow> unit res" where
  "require_generable r =
     (if rule_shift r \<noteq> No_Shift \<or> rule_interval r < 1 then Inl RecurrenceGenerationError else Inr ())"

definition occurrences :: "resolved_recurrence \<Rightarrow> pay_calendar \<Rightarrow> date \<Rightarrow> date res list res" where
  "occurrences r cal through =
     bind_res (require_generable r)
       (\<lambda>_. Inr (bounded (rule_closing_of r) through 0 (ceilinged (unbounded r cal) r cal)))"

section \<open>Placements\<close>

record occurrence_placement =
  placed_on :: date
  placed_in :: "derived_period option"

record books_walk =
  kept_placements :: "occurrence_placement list"
  below_the_books :: "occurrence_placement list"

fun placement_search :: "pay_calendar \<Rightarrow> placement \<Rightarrow> date \<Rightarrow> derived_period option res" where
  "placement_search cal Containing_Date day = Inr (period_containing cal day)"
| "placement_search cal Starting_On_Or_After day = Inr (period_starting_on_or_after cal day)"

fun span_search :: "pay_calendar \<Rightarrow> placement \<Rightarrow> date \<Rightarrow> derived_period option res" where
  "span_search cal Containing_Date day = span_containing cal day"
| "span_search cal Starting_On_Or_After day = span_starting_on_or_after cal day"

definition place_occurrence :: "date \<Rightarrow> pay_calendar \<Rightarrow> placement \<Rightarrow> derived_period option res" where
  "place_occurrence day cal p = placement_search cal p day"

definition placements_walk :: "resolved_recurrence \<Rightarrow> pay_calendar \<Rightarrow> (date \<Rightarrow> derived_period option res) \<Rightarrow> date option
    \<Rightarrow> occurrence_placement list res" where
  "placements_walk r cal search through =
     bind_res (require_generable r)
       (\<lambda>_. case horizon cal of
              None \<Rightarrow> Inr []
            | Some h \<Rightarrow>
                bind_res (occurrences r cal (case through of None \<Rightarrow> h | Some t \<Rightarrow> t))
                  (\<lambda>days. collected
                     (map (\<lambda>c. bind_res c (\<lambda>day. bind_res (search day) (\<lambda>p. Inr \<lparr>placed_on = day, placed_in = p\<rparr>))) days)))"

definition lands_inside_the_books :: "resolved_recurrence \<Rightarrow> occurrence_placement \<Rightarrow> bool res" where
  "lands_inside_the_books r p =
     (case (books_opened_on r, placed_in p) of
        (Some opened, Some period) \<Rightarrow> bind_res (books_day r (placed_on p) period) (\<lambda>day. Inr (books_hold opened day))
      | _ \<Rightarrow> Inr True)"

fun by_the_books :: "resolved_recurrence \<Rightarrow> occurrence_placement list \<Rightarrow> books_walk res" where
  "by_the_books r [] = Inr \<lparr>kept_placements = [], below_the_books = []\<rparr>"
| "by_the_books r (p # ps) =
     bind_res (lands_inside_the_books r p)
       (\<lambda>inside. bind_res (by_the_books r ps)
          (\<lambda>w. Inr (if inside then w\<lparr>kept_placements := p # kept_placements w\<rparr> else w\<lparr>below_the_books := p # below_the_books w\<rparr>)))"

definition searched_placements :: "resolved_recurrence \<Rightarrow> pay_calendar \<Rightarrow> (date \<Rightarrow> derived_period option res) \<Rightarrow> date option
    \<Rightarrow> occurrence_placement list res" where
  "searched_placements r cal search through =
     bind_res (placements_walk r cal search through)
       (\<lambda>named. bind_res (by_the_books r named) (\<lambda>w. Inr (kept_placements w)))"

definition occurrence_placements :: "resolved_recurrence \<Rightarrow> pay_calendar \<Rightarrow> date option \<Rightarrow> occurrence_placement list res" where
  "occurrence_placements r cal through = searched_placements r cal (placement_search cal (rule_placement r)) through"

definition projected_occurrence_placements :: "resolved_recurrence \<Rightarrow> pay_calendar \<Rightarrow> date \<Rightarrow> occurrence_placement list res" where
  "projected_occurrence_placements r cal through =
     searched_placements r cal (span_search cal (rule_placement r)) (Some through)"

definition occurrence_walk :: "resolved_recurrence \<Rightarrow> pay_calendar \<Rightarrow> books_walk res" where
  "occurrence_walk r cal =
     bind_res (placements_walk r cal (placement_search cal (rule_placement r)) None) (by_the_books r)"

definition placements_below_the_books :: "resolved_recurrence \<Rightarrow> pay_calendar \<Rightarrow> occurrence_placement list res" where
  "placements_below_the_books r cal =
     (if books_opened_on r = None then Inr []
      else bind_res (occurrence_walk r cal) (\<lambda>w. Inr (below_the_books w)))"

section \<open>Reading a stored rule\<close>

text \<open>The columns of a \<open>recurrence_rules\<close> row; its units and placements are ids of the reference tables.\<close>

record recurrence_rule =
  stored_user :: int
  stored_interval :: int
  stored_unit :: int
  stored_placement :: int
  stored_shift :: int
  stored_starts_on :: date
  stored_nominal_day :: "int option"
  stored_end_date :: "date option"
  stored_max_occurrences :: "int option"
  stored_max_per_month :: "int option"

record rule_reading =
  reading_resolved :: "resolved_recurrence option"
  reading_placements :: "occurrence_placement list"
  reading_horizon :: "date option"
  reading_below :: "occurrence_placement list"

definition checked_reading :: "rule_reading \<Rightarrow> rule_reading res" where
  "checked_reading reading =
     (let named = length (reading_placements reading) + length (reading_below reading)
      in if reading_resolved reading = None \<and> named \<noteq> 0 then Inl RecurrenceResolutionError
         else if reading_horizon reading = None \<and> named \<noteq> 0 then Inl RecurrenceResolutionError
         else Inr reading)"

definition bound_reading_of :: "rule_reading \<Rightarrow> bound_reading" where
  "bound_reading_of reading =
     \<lparr>read_occurrences = sort (map placed_on (reading_placements reading @ reading_below reading)),
      read_horizon = reading_horizon reading\<rparr>"

definition stored_cadence :: "(recurrence_unit \<Rightarrow> int) \<Rightarrow> (placement \<Rightarrow> int) \<Rightarrow> recurrence_rule \<Rightarrow> (rule_cadence \<times> placement) option" where
  "stored_cadence uids pids rule =
     (case (modelled_unit uids (stored_unit rule), modelled_placement pids (stored_placement rule)) of
        (Some u, Some p) \<Rightarrow>
          Some (\<lparr>every_n = stored_interval rule, cadence_unit = u, month_ceiling = stored_max_per_month rule\<rparr>, p)
      | _ \<Rightarrow> None)"

definition rule_cadence_of :: "(recurrence_unit \<Rightarrow> int) \<Rightarrow> recurrence_rule \<Rightarrow> rule_cadence res" where
  "rule_cadence_of uids rule =
     bind_res (unit_member uids (stored_unit rule))
       (\<lambda>u. Inr \<lparr>every_n = stored_interval rule, cadence_unit = u, month_ceiling = stored_max_per_month rule\<rparr>)"

definition scheduling_day_of_month :: "(recurrence_unit \<Rightarrow> int) \<Rightarrow> (placement \<Rightarrow> int) \<Rightarrow> recurrence_rule \<Rightarrow> int option res" where
  "scheduling_day_of_month uids pids rule =
     bind_res (unit_member uids (stored_unit rule)) (\<lambda>u.
     bind_res (require_row_date_coordinate u) (\<lambda>_.
     bind_res (placement_member pids (stored_placement rule)) (\<lambda>p.
       Inr (cadence_scheduled_day u p (stored_starts_on rule) (stored_nominal_day rule)))))"

definition compute_due_date :: "(recurrence_unit \<Rightarrow> int) \<Rightarrow> (placement \<Rightarrow> int) \<Rightarrow> recurrence_rule \<Rightarrow> date \<Rightarrow> derived_period \<Rightarrow> date res" where
  "compute_due_date uids pids rule day period =
     bind_res (scheduling_day_of_month uids pids rule) (\<lambda>scheduled. Inr (date_row day period (scheduled = None)))"

definition recurrence_spec_with_cadence :: "recurrence_rule \<Rightarrow> int \<Rightarrow> recurrence_unit \<Rightarrow> placement \<Rightarrow> int option \<Rightarrow> recurrence_spec res" where
  "recurrence_spec_with_cadence rule interval_n u p most =
     bind_res (end_bound_from_columns (stored_end_date rule) (stored_max_occurrences rule)) (\<lambda>b.
     checked_spec
       \<lparr>spec_user = stored_user rule, spec_unit = u, spec_starts_on = Some (stored_starts_on rule),
        spec_interval = interval_n, spec_placement = p,
        spec_nominal_day =
          (if is_offerable_nominal_day u (stored_starts_on rule) (stored_nominal_day rule) then stored_nominal_day rule else None),
        spec_end_bound = b, spec_max_per_month = (if can_repeat_within_month u then most else None)\<rparr>)"

definition recurrence_spec_of :: "(recurrence_unit \<Rightarrow> int) \<Rightarrow> (placement \<Rightarrow> int) \<Rightarrow> recurrence_rule \<Rightarrow> recurrence_spec res" where
  "recurrence_spec_of uids pids rule =
     bind_res (unit_member uids (stored_unit rule)) (\<lambda>u.
     bind_res (placement_member pids (stored_placement rule)) (\<lambda>p.
       recurrence_spec_with_cadence rule (stored_interval rule) u p (stored_max_per_month rule)))"

definition resolved_spec :: "int \<Rightarrow> recurrence_spec \<Rightarrow> pay_calendar \<Rightarrow> resolved_recurrence option res" where
  "resolved_spec calendar_owner s cal =
     (if cal_periods cal = [] then Inr None else bind_res (resolve_recurrence calendar_owner s cal) (\<lambda>r. Inr (Some r)))"

definition resolved_rule :: "(recurrence_unit \<Rightarrow> int) \<Rightarrow> (placement \<Rightarrow> int) \<Rightarrow> int \<Rightarrow> recurrence_rule \<Rightarrow> pay_calendar \<Rightarrow> resolved_recurrence option res" where
  "resolved_rule uids pids calendar_owner rule cal =
     bind_res (recurrence_spec_of uids pids rule) (\<lambda>s. resolved_spec calendar_owner s cal)"

definition read_rule :: "(recurrence_unit \<Rightarrow> int) \<Rightarrow> (placement \<Rightarrow> int) \<Rightarrow> int \<Rightarrow> recurrence_rule \<Rightarrow> pay_calendar \<Rightarrow> rule_reading res" where
  "read_rule uids pids calendar_owner rule cal =
     bind_res (resolved_rule uids pids calendar_owner rule cal) (\<lambda>resolved.
     bind_res (case resolved of None \<Rightarrow> Inr [] | Some r \<Rightarrow> occurrence_placements r cal None) (\<lambda>placed.
       checked_reading
         \<lparr>reading_resolved = resolved, reading_placements = placed, reading_horizon = horizon cal, reading_below = []\<rparr>))"

definition rule_occurrences :: "(recurrence_unit \<Rightarrow> int) \<Rightarrow> (placement \<Rightarrow> int) \<Rightarrow> int \<Rightarrow> recurrence_rule \<Rightarrow> pay_calendar \<Rightarrow> occurrence_placement list res" where
  "rule_occurrences uids pids calendar_owner rule cal =
     bind_res (read_rule uids pids calendar_owner rule cal) (\<lambda>reading. Inr (reading_placements reading))"

definition has_ended :: "recurrence_rule \<Rightarrow> rule_reading \<Rightarrow> date \<Rightarrow> bool res" where
  "has_ended rule reading on =
     (case reading_resolved reading of
        None \<Rightarrow> bind_res (end_bound_from_columns (stored_end_date rule) (stored_max_occurrences rule))
                  (\<lambda>b. Inr (bound_has_closed b on (bound_reading_of reading)))
      | Some r \<Rightarrow> Inr (closing_has_closed (rule_closing_of r) on (bound_reading_of reading)))"

definition placed_occurrences :: "occurrence_placement list \<Rightarrow> date option \<Rightarrow> occurrence_placement list" where
  "placed_occurrences ps ending_on_or_after =
     [p \<leftarrow> ps. case placed_in p of None \<Rightarrow> False
               | Some period \<Rightarrow> (case ending_on_or_after of None \<Rightarrow> True | Some day \<Rightarrow> day \<le> end_date period)]"

definition placed_periods :: "occurrence_placement list \<Rightarrow> date option \<Rightarrow> derived_period list" where
  "placed_periods ps ending_on_or_after = map (\<lambda>p. the (placed_in p)) (placed_occurrences ps ending_on_or_after)"

section \<open>Authoring\<close>

text \<open>\<open>_author\<close> fills a row's columns; \<open>reauthor_rule\<close> is it on a stored row, and the owner's check precedes it.\<close>

definition author_columns :: "(recurrence_unit \<Rightarrow> int) \<Rightarrow> (placement \<Rightarrow> int) \<Rightarrow> (business_day_shift \<Rightarrow> int) \<Rightarrow> int
    \<Rightarrow> recurrence_rule \<Rightarrow> recurrence_spec \<Rightarrow> pay_calendar \<Rightarrow> recurrence_rule res" where
  "author_columns uids pids sids calendar_owner rule s cal =
     bind_res (resolve_recurrence calendar_owner s cal) (\<lambda>r.
       let (stop, count) = bound_columns (spec_end_bound s)
       in if (case stop of None \<Rightarrow> False | Some day \<Rightarrow> day < starts_on r) then Inl EmptyAuthoredWindowError
          else Inr (rule\<lparr>stored_interval := rule_interval r, stored_unit := uids (rule_unit r),
                     stored_placement := pids (rule_placement r), stored_shift := sids (rule_shift r),
                     stored_starts_on := starts_on r, stored_nominal_day := nominal_day r,
                     stored_max_per_month := max_per_month r, stored_end_date := stop, stored_max_occurrences := count\<rparr>))"

definition author_rule :: "(recurrence_unit \<Rightarrow> int) \<Rightarrow> (placement \<Rightarrow> int) \<Rightarrow> (business_day_shift \<Rightarrow> int) \<Rightarrow> int
    \<Rightarrow> recurrence_rule \<Rightarrow> recurrence_spec \<Rightarrow> pay_calendar \<Rightarrow> int \<Rightarrow> recurrence_rule res" where
  "author_rule uids pids sids calendar_owner blank s cal owner_user =
     (if spec_user s \<noteq> owner_user then Inl RecurrenceResolutionError
      else bind_res (author_columns uids pids sids calendar_owner blank s cal)
             (\<lambda>rule. Inr (rule\<lparr>stored_user := owner_user\<rparr>)))"
section \<open>What a closing lets through\<close>

lemma bound_admits_earlier: "bound_admits b k d \<Longrightarrow> j \<le> k \<Longrightarrow> e \<le> d \<Longrightarrow> bound_admits b j e"
  by (cases b) (auto intro: order_trans)

lemma stop_admits_earlier: "stop_admits s d \<Longrightarrow> e \<le> d \<Longrightarrow> stop_admits s e"
  by (cases s) (auto intro: order_trans)

lemma closing_admits_earlier: "closing_admits c k d \<Longrightarrow> j \<le> k \<Longrightarrow> e \<le> d \<Longrightarrow> closing_admits c j e"
  by (auto simp: closing_admits_def bound_admits_earlier stop_admits_earlier split: if_splits option.splits)

lemma bounded_value:
  "sorted_wrt (<) ds \<Longrightarrow>
   \<exists>m \<le> length ds. bounded c through (int i) (map Inr ds) = map Inr (take m ds) \<and>
     (\<forall>k < length ds. k < m \<longleftrightarrow> ds ! k \<le> through \<and> closing_admits c (int (i + k)) (ds ! k))"
proof (induction ds arbitrary: i)
  case (Cons d ds)
  show ?case
  proof (cases "through < d \<or> \<not> closing_admits c (int i) d")
    case True
    have "\<not> ((d # ds) ! k \<le> through \<and> closing_admits c (int (i + k)) ((d # ds) ! k))" if "k < length (d # ds)" for k
    proof -
      have "d \<le> (d # ds) ! k" using Cons.prems that by (cases k) (auto intro: less_imp_le)
      then show ?thesis using True closing_admits_earlier[of c "int (i + k)" "(d # ds) ! k" "int i" d] by auto
    qed
    then show ?thesis using True by (intro exI[of _ 0]) simp
  next
    case False
    obtain m where m: "m \<le> length ds" "bounded c through (int (Suc i)) (map Inr ds) = map Inr (take m ds)"
      "\<forall>k < length ds. k < m \<longleftrightarrow> ds ! k \<le> through \<and> closing_admits c (int (Suc i + k)) (ds ! k)"
      using Cons.IH[of "Suc i"] Cons.prems by auto
    have "(k < Suc m) = ((d # ds) ! k \<le> through \<and> closing_admits c (int (i + k)) ((d # ds) ! k))" if "k < length (d # ds)" for k
      using that m(3) False by (cases k) auto
    then show ?thesis using m(1,2) False by (intro exI[of _ "Suc m"]) (simp add: add.commute)
  qed
qed simp

text \<open>
  What a closing promises, in the words of the contract: a rule that ends on a day owes nothing later, one
  that ends after \<open>n\<close> occurrences has the first \<open>n\<close>, and the derived stop, where there is one, bounds its days
  too or leaves none.\<close>

definition still_open :: "rule_closing \<Rightarrow> nat \<Rightarrow> date \<Rightarrow> bool" where
  "still_open c k day \<longleftrightarrow>
     (\<forall>last_day. authored_bound c = Ends_On_Date last_day \<or> derived_stop_of c = Some (Closes_On last_day) \<longrightarrow> day \<le> last_day) \<and>
     (\<forall>n. authored_bound c = Ends_After_Occurrences n \<longrightarrow> int k + 1 \<le> n) \<and> derived_stop_of c \<noteq> Some Empty_Stop"

lemma closing_admits_open: "closing_admits c (int k) day \<longleftrightarrow> still_open c k day"
proof -
  have "stop_admits s day \<longleftrightarrow> (\<forall>last_day. s = Closes_On last_day \<longrightarrow> day \<le> last_day) \<and> s \<noteq> Empty_Stop" for s by (cases s) auto
  moreover have "bound_admits b (int k) day \<longleftrightarrow>
      (\<forall>last_day. b = Ends_On_Date last_day \<longrightarrow> day \<le> last_day) \<and> (\<forall>n. b = Ends_After_Occurrences n \<longrightarrow> int k + 1 \<le> n)" for b
    by (cases b) auto
  ultimately show ?thesis by (auto simp: closing_admits_def still_open_def split: option.splits)
qed

section \<open>Rules of months and years\<close>

text \<open>
  The days a rule of months or years names, for ever: the k-th of them is \<open>k\<close> steps of months after the
  first, on the rule's day of the month or on the last day of a shorter month.\<close>

definition month_rule_day :: "resolved_recurrence \<Rightarrow> nat \<Rightarrow> date" where
  "month_rule_day r k =
     (let first = starts_on r; step = (if rule_unit r = Year_Unit then 12 * rule_interval r else rule_interval r);
          months = d_month first - 1 + int k * step;
          y = d_year first + months div 12; m = months mod 12 + 1
      in Date y m (min (case nominal_day r of None \<Rightarrow> d_day first | Some n \<Rightarrow> n) (days_in_month y m)))"

lemma month_unit_cases: "has_day_of_month_coordinate u \<longleftrightarrow> u = Month_Unit \<or> u = Year_Unit"
  by (cases u) (simp_all add: has_day_of_month_coordinate_def)

lemma month_rule_day_grid:
  assumes "has_day_of_month_coordinate (rule_unit r)"
  shows "month_rule_day r k = clamped_day (month_ordinal (starts_on r) + int k * (the (months_per_unit (rule_unit r)) * rule_interval r))
       (case nominal_day r of None \<Rightarrow> d_day (starts_on r) | Some n \<Rightarrow> n)"
proof -
  let ?f = "starts_on r" and ?step = "the (months_per_unit (rule_unit r)) * rule_interval r"
  have step: "(if rule_unit r = Year_Unit then 12 * rule_interval r else rule_interval r) = ?step"
    using assms by (auto simp: month_unit_cases)
  have ordinal: "month_ordinal ?f + int k * ?step = d_month ?f - 1 + int k * ?step + d_year ?f * 12" by (simp add: month_ordinal_def)
  show ?thesis unfolding month_rule_day_def clamped_day_def Let_def step ordinal by simp
qed

lemma checked_nominal_day:
  assumes "checked_recurrence r = Inr r" "has_day_of_month_coordinate (rule_unit r)" "valid_date (starts_on r)"
  shows "1 \<le> the (rule_day_of_month r)" "rule_day_of_month r \<noteq> None"
    "clamped_day (month_ordinal (starts_on r)) (the (rule_day_of_month r)) = starts_on r" "max_per_month r = None"
proof -
  show "rule_day_of_month r \<noteq> None" "max_per_month r = None"
    using assms by (auto simp: rule_day_of_month_def cadence_day_of_month_def checked_recurrence_def require_month_ceiling_pair_def
        can_repeat_within_month_def elim!: bind_res_InrE split: option.splits if_splits)
  note own = clamped_day_own_month[OF assms(3)]
  show "1 \<le> the (rule_day_of_month r)"
    and "clamped_day (month_ordinal (starts_on r)) (the (rule_day_of_month r)) = starts_on r"
  proof -
    let ?n = "the (rule_day_of_month r)"
    have "1 \<le> ?n \<and> clamped_day (month_ordinal (starts_on r)) ?n = starts_on r"
    proof (cases "nominal_day r")
      case None
      then show ?thesis using assms(2,3) own by (simp add: rule_day_of_month_def cadence_day_of_month_def valid_dateD)
    next
      case (Some n)
      then have n: "?n = n" "n \<in> set (offerable_nominal_days (rule_unit r) (starts_on r))"
        using assms by (auto simp: rule_day_of_month_def cadence_day_of_month_def checked_recurrence_def
            require_nominal_day_pair_def is_offerable_nominal_day_def elim!: bind_res_InrE split: if_splits)
      then have last: "d_day (starts_on r) = days_in_month (d_year (starts_on r)) (d_month (starts_on r))" "d_day (starts_on r) < n"
        using assms(2) by (auto simp: offerable_nominal_days_def split: if_splits)
      then have "clamped_day (month_ordinal (starts_on r)) n = clamped_day (month_ordinal (starts_on r)) (d_day (starts_on r))"
      proof -
        let ?o = "month_ordinal (starts_on r)"
        have "d_day (clamped_day ?o (d_day (starts_on r))) = d_day (starts_on r)" using own by simp
        moreover have "days_in_month (?o div 12) (?o mod 12 + 1) = d_day (starts_on r)"
          using own last(1) by (metis clamped_day_def date.sel(1,2))
        ultimately show ?thesis using last by (simp add: clamped_day_def Let_def min_def)
      qed
      then show ?thesis using own n last valid_dateD(3)[OF assms(3)] by simp
    qed
    then show "1 \<le> ?n" "clamped_day (month_ordinal (starts_on r)) ?n = starts_on r" by simp_all
  qed
qed
lemma py_range_up:
  assumes "0 < step"
  obtains m where "py_range a b step = map (\<lambda>k. a + int k * step) [0 ..< m]" "\<And>k. k < m \<longleftrightarrow> a + int k * step < b"
proof -
  have "k < nat ((b - a - 1) div step + 1) \<longleftrightarrow> a + int k * step < b" for k
  proof -
    have "k < nat ((b - a - 1) div step + 1) \<longleftrightarrow> int k \<le> (b - a - 1) div step" by (simp add: zless_nat_eq_int_zless)
    also have "\<dots> \<longleftrightarrow> int k * step \<le> b - a - 1"
    proof
      assume "int k \<le> (b - a - 1) div step"
      then have "int k * step \<le> (b - a - 1) div step * step" using assms by (intro mult_right_mono) simp_all
      also have "\<dots> \<le> b - a - 1" using assms div_mult_mod_eq[of "b - a - 1" step] pos_mod_sign[OF assms, of "b - a - 1"] by linarith
      finally show "int k * step \<le> b - a - 1" .
    next
      assume "int k * step \<le> b - a - 1"
      then have "int k * step div step \<le> (b - a - 1) div step" using assms by (rule zdiv_mono1)
      then show "int k \<le> (b - a - 1) div step" using assms by simp
    qed
    finally show ?thesis by auto
  qed
  then show thesis using assms by (intro that[of "nat ((b - a - 1) div step + 1)"]) (simp_all add: py_range_def)
qed

lemma valid_CALENDAR_DATE_MAX: "valid_date CALENDAR_DATE_MAX"
  by (simp add: CALENDAR_DATE_MAX_def valid_Date days_in_month_def)

lemma month_rule_ascends:
  assumes "has_day_of_month_coordinate (rule_unit r)" "1 \<le> rule_interval r" "i < j"
  shows "month_rule_day r i < month_rule_day r j"
proof -
  have "0 < the (months_per_unit (rule_unit r)) * rule_interval r"
    using assms(1,2) by (auto simp: month_unit_cases)
  then show ?thesis using assms(3) unfolding month_rule_day_grid[OF assms(1)]
    by (intro grid.land_strict_mono add_strict_left_mono mult_strict_right_mono) simp_all
qed

lemma month_walk_value:
  assumes "checked_recurrence r = Inr r" "require_generable r = Inr ()" "has_day_of_month_coordinate (rule_unit r)"
    and "in_python_domain (starts_on r)"
  obtains m where "ceilinged (unbounded r cal) r cal = map Inr (map (month_rule_day r) [0 ..< m])"
    "\<And>k. k < m \<longleftrightarrow> month_rule_day r k \<le> CALENDAR_DATE_MAX"
proof -
  have v: "valid_date (starts_on r)" using assms(4) by (simp add: in_python_domain_def)
  note n = checked_nominal_day[OF assms(1,3) v]
  obtain day where day: "rule_day_of_month r = Some day" "1 \<le> day" using n(1,2) by auto
  let ?step = "the (months_per_unit (rule_unit r)) * rule_interval r" and ?o = "month_ordinal (starts_on r)"
  have interval: "1 \<le> rule_interval r" using assms(2) by (simp add: require_generable_def split: if_splits)
  have step: "months_per_step (rule_unit r) (rule_interval r) = Inr ?step" "0 < ?step"
    using assms(3) interval by (auto simp: months_per_step_def month_unit_cases)
  have grid: "month_rule_day r k = clamped_day (?o + int k * ?step) day" for k
    using day(1) assms(3) by (auto simp: month_rule_day_grid rule_day_of_month_def cadence_day_of_month_def split: option.splits)
  obtain m where m: "py_range ?o (grid_month_on_or_before CALENDAR_DATE_MAX day + 1) ?step = map (\<lambda>k. ?o + int k * ?step) [0 ..< m]"
    "\<And>k. k < m \<longleftrightarrow> ?o + int k * ?step < grid_month_on_or_before CALENDAR_DATE_MAX day + 1"
    by (rule py_range_up[OF step(2), of ?o "grid_month_on_or_before CALENDAR_DATE_MAX day + 1"]) blast
  have reach: "k < m \<longleftrightarrow> month_rule_day r k \<le> CALENDAR_DATE_MAX" for k
    unfolding m(2) grid on_or_before_iff[OF valid_CALENDAR_DATE_MAX] by simp
  have "clamped_day_py (?o + int k * ?step) day = Inr (month_rule_day r k)" if "k < m" for k
  proof -
    have "12 \<le> ?o" using assms(4) by (simp add: in_python_domain_def month_ordinal_def valid_date_def)
    moreover have "?o + int k * ?step \<le> month_ordinal CALENDAR_DATE_MAX"
      using that unfolding m(2) by (simp add: grid_month_on_or_before_def Let_def split: if_splits)
    moreover have "0 \<le> int k * ?step" using step(2) by simp
    ultimately show ?thesis unfolding grid
      by (intro clamped_day_python[THEN conjunct1]) (use day(2) in \<open>simp_all add: CALENDAR_DATE_MAX_def month_ordinal_def\<close>)
  qed
  then have "walk_months ?o day ?step = map Inr (map (month_rule_day r) [0 ..< m])"
    using step(2) by (simp only: walk_months_def Let_def m(1) less_irrefl if_False map_map) auto
  moreover have "rule_unit r \<noteq> Period_Unit \<and> rule_unit r \<noteq> Week_Unit" using assms(3) by (auto simp: month_unit_cases)
  ultimately have "ceilinged (unbounded r cal) r cal = map Inr (map (month_rule_day r) [0 ..< m])"
    by (simp add: ceilinged_def n(4) unbounded_def day(1) step(1))
  then show thesis using reach by (rule that)
qed

text \<open>
  C13: what a monthly or yearly rule fires on.  Within the application's calendar its occurrences are its
  grid days, from its first day on and in order, one for every step of months and each on the last day of
  its month where the month is too short; it fires on the k-th of them exactly when that day is within the
  asked range and the rule's closing admits it as its k-th, and no occurrence is skipped before one that
  fires.\<close>

theorem month_rule_occurrences:
  assumes "checked_recurrence r = Inr r" "require_generable r = Inr ()" "rule_unit r = Month_Unit \<or> rule_unit r = Year_Unit"
    and "in_python_domain (starts_on r)" "through \<le> CALENDAR_DATE_MAX"
  shows "\<exists>m. occurrences r cal through = Inr (map Inr (map (month_rule_day r) [0 ..< m])) \<and>
    (\<forall>k. k < m \<longleftrightarrow> month_rule_day r k \<le> through \<and> still_open (rule_closing_of r) k (month_rule_day r k)) \<and>
    month_rule_day r 0 = starts_on r \<and> (\<forall>i j. i < j \<longrightarrow> month_rule_day r i < month_rule_day r j)"
proof -
  have unit: "has_day_of_month_coordinate (rule_unit r)" using assms(3) by (simp add: month_unit_cases)
  have v: "valid_date (starts_on r)" using assms(4) by (simp add: in_python_domain_def)
  obtain m where m: "ceilinged (unbounded r cal) r cal = map Inr (map (month_rule_day r) [0 ..< m])"
    "\<And>k. k < m \<longleftrightarrow> month_rule_day r k \<le> CALENDAR_DATE_MAX"
    by (rule month_walk_value[OF assms(1,2) unit assms(4)]) blast
  have interval: "1 \<le> rule_interval r" using assms(2) by (simp add: require_generable_def split: if_splits)
  note up = month_rule_ascends[OF unit interval]
  have "sorted_wrt (<) (map (month_rule_day r) [0 ..< m])" using up by (simp add: sorted_wrt_iff_nth_less)
  then obtain l where l: "l \<le> m"
    "bounded (rule_closing_of r) through 0 (map Inr (map (month_rule_day r) [0 ..< m])) = map Inr (take l (map (month_rule_day r) [0 ..< m]))"
    "\<forall>k < m. k < l \<longleftrightarrow> month_rule_day r k \<le> through \<and> still_open (rule_closing_of r) k (month_rule_day r k)"
    using bounded_value[of "map (month_rule_day r) [0 ..< m]" "rule_closing_of r" through 0]
    by (auto simp: closing_admits_open[of _ "_ :: nat"])
  have "occurrences r cal through = Inr (map Inr (map (month_rule_day r) [0 ..< l]))"
    using l(1,2) assms(2) by (simp add: occurrences_def m(1) take_map take_upt)
  moreover have "k < l \<longleftrightarrow> month_rule_day r k \<le> through \<and> still_open (rule_closing_of r) k (month_rule_day r k)" for k
    using l(1,3) m(2)[of k] assms(5) order_trans[of "month_rule_day r k" through CALENDAR_DATE_MAX] by (cases "k < m") auto
  moreover have "month_rule_day r 0 = starts_on r"
    using checked_nominal_day(2,3)[OF assms(1) unit v] unit
    by (auto simp: month_rule_day_grid rule_day_of_month_def cadence_day_of_month_def split: option.splits)
  ultimately show ?thesis using up by blast
qed

definition month_end_rule :: resolved_recurrence where
  "month_end_rule =
     \<lparr>offset_periods = 0, rule_interval = 1, rule_unit = Month_Unit, starts_on = Date 2026 2 28, rule_placement = Containing_Date,
      rule_shift = No_Shift, rule_closing_of = \<lparr>authored_bound = Ends_After_Occurrences 3, derived_stop_of = Some Indefinite\<rparr>,
      nominal_day = Some 31, max_per_month = None, books_opened_on = None, is_envelope = False\<rparr>"

lemma month_rule_occurrences_witness:
  "\<forall>cal. occurrences month_end_rule cal (Date 2026 12 31) =
     Inr [Inr (Date 2026 2 28), Inr (Date 2026 3 31), Inr (Date 2026 4 30)]"
proof
  fix cal
  let ?r = month_end_rule
  have days: "month_rule_day ?r 0 = Date 2026 2 28" "month_rule_day ?r (Suc 0) = Date 2026 3 31" "month_rule_day ?r 2 = Date 2026 4 30"
    by (simp_all add: month_rule_day_def month_end_rule_def Let_def days_in_month_def is_leap_def)
  have "checked_recurrence ?r = Inr ?r"
    by (simp add: checked_recurrence_def require_nominal_day_pair_def require_month_ceiling_pair_def is_offerable_nominal_day_def
      offerable_nominal_days_def month_unit_cases month_end_rule_def days_in_month_def is_leap_def upto.simps)
  moreover have "require_generable ?r = Inr ()" "rule_unit ?r = Month_Unit \<or> rule_unit ?r = Year_Unit" "in_python_domain (starts_on ?r)"
    by (simp_all add: require_generable_def month_unit_cases month_end_rule_def in_python_domain_def valid_date_def days_in_month_def is_leap_def)
  moreover have "Date 2026 12 31 \<le> CALENDAR_DATE_MAX" by (simp add: CALENDAR_DATE_MAX_def less_eq_date_def)
  ultimately obtain m where m: "occurrences ?r cal (Date 2026 12 31) = Inr (map Inr (map (month_rule_day ?r) [0 ..< m]))"
    "\<forall>k. k < m \<longleftrightarrow> month_rule_day ?r k \<le> Date 2026 12 31 \<and> still_open (rule_closing_of ?r) k (month_rule_day ?r k)"
    using month_rule_occurrences[of ?r "Date 2026 12 31" cal] by blast
  have "2 < m" using m(2) days by (simp add: still_open_def month_end_rule_def less_eq_date_def)
  moreover have "\<not> 3 < m" using m(2) by (simp add: still_open_def month_end_rule_def)
  ultimately have "m = 3" by simp
  then show "occurrences ?r cal (Date 2026 12 31) = Inr [Inr (Date 2026 2 28), Inr (Date 2026 3 31), Inr (Date 2026 4 30)]"
    using m(1) days by (simp add: upt_rec numeral_2_eq_2)
qed
section \<open>The spans of a calendar\<close>

text \<open>A calendar whose every period is a saved row.\<close>

definition recorded :: "pay_calendar \<Rightarrow> bool" where
  "recorded cal \<longleftrightarrow> cal_periods cal \<noteq> [] \<and> (\<forall>p \<in> set (cal_periods cal). period_id p \<noteq> None)"

lemma tiles_ends: "tiles ps \<Longrightarrow> p \<in> set ps \<Longrightarrow> end_date p \<le> end_date (last ps)"
proof (induction ps)
  case (Cons q ps)
  have "end_date q \<le> end_date (last ps)" if "ps \<noteq> []"
    using tiles_later[OF Cons.prems(1) last_in_set[OF that]] tiles_member[of ps "last ps"] Cons.prems(1) that
    by (auto simp: tiles_Cons)
  then show ?case using Cons by (auto simp: tiles_Cons)
qed simp

lemma tiles_past: "tiles (ps @ qs) \<Longrightarrow> ps \<noteq> [] \<Longrightarrow> q \<in> set qs \<Longrightarrow> end_date (last ps) < start_date q"
  using tiles_append[of "butlast ps" "last ps # qs"] tiles_later[of "last ps" qs q] append_butlast_last_id[of ps]
  by (metis append.assoc append_Cons append_Nil)

lemma continued_members:
  assumes "calendar_ok cal" "cal_periods cal \<noteq> []" "projected_paychecks (cal_periods cal) (cal_eras cal) None = map Inr qs" "q \<in> set qs"
  shows "\<exists>j t. planned (cal_eras cal) j t \<and> q = plan_period (cal_periods cal) (cal_eras cal) j t"
proof -
  let ?ps = "cal_periods cal" and ?eras = "cal_eras cal"
  have c: "sound_eras ?eras" "tiles ?ps" "payday_after ?eras (start_date (last ?ps)) = Inr (add_days (end_date (last ?ps)) 1)"
    using assms(1,2) by (auto simp: calendar_ok_def)
  have v: "valid_date (start_date (last ?ps))" using tiles_member[OF c(2) last_in_set[OF assms(2)]] by simp
  obtain h k where h: "horizon_step ?eras (start_date (last ?ps)) = Inr (h, k)" "planned ?eras h k"
    "payday_after ?eras (start_date (last ?ps)) = Inr (era_payday (?eras ! h) k)" by (rule horizon_position[OF c(1) v])
  obtain qs' where qs': "projected_from ?ps ?eras (era_payday (?eras ! h) k) = map Inr qs'"
    "\<forall>q \<in> set qs'. start_date q \<le> CALENDAR_DATE_MAX \<and> (\<exists>j t. planned ?eras j t \<and> q = plan_period ?ps ?eras j t)"
    by (rule projected_walk[OF c(1) v h(2)]) blast
  have "projected_paychecks ?ps ?eras None = projected_from ?ps ?eras (era_payday (?eras ! h) k)"
    using h(3) c(3) assms(2) by (simp add: projected_paychecks_def final_covered_day_def)
  then have "map Inr qs = (map Inr qs' :: derived_period res list)" using qs'(1) assms(3) by simp
  then have "qs = qs'" by (simp add: inj_map_eq_map inj_on_def)
  then show ?thesis using qs'(2) assms(4) by auto
qed

lemma spans_of_calendar:
  assumes "calendar_ok cal" "recorded cal"
  obtains P where "tiles P" "P \<noteq> []" "opening_bound cal = Some (start_date (hd P))" "map period_index P = map int [0 ..< length P]"
    "CALENDAR_DATE_MAX \<le> end_date (last P)" "\<And>d. paychecks_from cal d = map Inr [p \<leftarrow> P. d \<le> end_date p]"
    "\<And>day p. valid_date day \<Longrightarrow> p \<in> set P \<Longrightarrow> covers p day \<Longrightarrow> span_containing cal day = Inr (Some p)"
proof -
  let ?ps = "cal_periods cal" and ?eras = "cal_eras cal"
  have ne: "?ps \<noteq> []" using assms(2) by (simp add: recorded_def)
  have c: "sound_eras ?eras" "tiles ?ps" using assms(1) by (simp_all add: calendar_ok_def)
  have saved: "materialised_periods ?ps = ?ps" using assms(2) by (simp add: recorded_def materialised_periods_def)
  obtain qs where qs: "projected_paychecks ?ps ?eras None = map Inr qs" "tiles (?ps @ qs)"
    "map period_index (?ps @ qs) = map int [0 ..< length (?ps @ qs)]" "CALENDAR_DATE_MAX \<le> end_date (last (?ps @ qs))"
    by (rule continued[OF assms(1) refl refl ne]) blast
  have starts: "opening_bound cal = Some (start_date (hd (?ps @ qs)))" using ne by (cases ?ps) (simp_all add: opening_bound_def opening_payday_def)
  have walk: "paychecks_from cal d = map Inr [p \<leftarrow> ?ps @ qs. d \<le> end_date p]" for d
    using period_window_tiles[OF tiles_unended[OF c(2)]]
    by (simp add: paychecks_from_def current_and_future_window_def qs(1) filter_map comp_def)
  have span: "span_containing cal day = Inr (Some p)" if day: "valid_date day" and p: "p \<in> set (?ps @ qs)" "covers p day" for day p
  proof -
    have "start_date (hd (?ps @ qs)) \<le> day" using tiles_within(1)[OF qs(2) p(1)] p(2) by (auto simp: covers_def)
    then have begun: "\<not> day < start_date (hd (?ps @ qs))" by simp
    show ?thesis
    proof (cases "p \<in> set ?ps")
      case True
      obtain i where i: "i < length ?ps" "containing_index ?ps day = Some i" "\<forall>j < length ?ps. covers (?ps ! j) day \<longleftrightarrow> j = i"
        using tiles_cover_member[OF c(2) True p(2) day] by blast
      then have "?ps ! i = p" using True p(2) by (metis in_set_conv_nth)
      then show ?thesis using i(2) begun by (simp add: span_containing_def starts period_containing_def saved containing_period_def)
    next
      case False
      then have q: "p \<in> set qs" using p(1) by simp
      obtain j t where jt: "planned ?eras j t" "p = plan_period ?ps ?eras j t" using continued_members[OF assms(1) ne qs(1) q] by blast
      have "end_date (last ?ps) < day"
        using tiles_past[OF qs(2) ne q] p(2) by (auto simp: covers_def)
      then have "containing_period ?ps day = None"
      proof -
        let ?n = "bisect_right_start ?ps day - 1"
        have "0 < length ?ps" using ne by simp
        then have "?n < length ?ps" using bisect_right_bounds(3)[of ?ps day] by linarith
        then have "end_date (?ps ! ?n) < day"
          by (rule le_less_trans[OF tiles_ends[OF c(2) nth_mem] \<open>end_date (last ?ps) < day\<close>])
        then have "\<not> covers (?ps ! ?n) day" by (auto simp: covers_def)
        then show ?thesis by (simp add: containing_period_def containing_index_def Let_def)
      qed
      moreover have "project_period_after ?ps ?eras day = Inr p"
        using project_period_after_value[OF c(1) _ day jt(1)] tiles_member[OF c(2) last_in_set[OF ne]] p(2) jt(2) by (simp add: covers_def)
      ultimately show ?thesis using begun by (simp add: span_containing_def starts period_containing_def saved)
    qed
  qed
  show thesis using qs(2-4) ne starts walk span by (intro that[of "?ps @ qs"]) auto
qed
section \<open>Rules of paychecks\<close>

lemma filter_by_index: "filter Q xs = map ((!) xs) [j \<leftarrow> [0 ..< length xs]. Q (xs ! j)]"
  using filter_map[of Q "(!) xs" "[0 ..< length xs]"] by (simp add: map_nth comp_def)

lemma multiples_upto:
  assumes "0 < n"
  obtains m where "[j \<leftarrow> [0 ..< l]. n dvd j] = map (\<lambda>k. k * n) [0 ..< m]" "\<And>k. k < m \<longleftrightarrow> k * n < l"
proof -
  define m where "m = (l + n - 1) div n"
  have m: "k < m \<longleftrightarrow> k * n < l" for k
  proof -
    have "k < m \<longleftrightarrow> Suc k * n \<le> l + n - 1"
      unfolding m_def using assms by (metis Suc_le_eq less_eq_div_iff_mult_less_eq)
    then show ?thesis using assms by auto
  qed
  have "sorted_wrt (<) [j \<leftarrow> [0 ..< l]. n dvd j]" by (simp add: sorted_wrt_filter)
  moreover have "sorted_wrt (<) (map (\<lambda>k. k * n) [0 ..< m])" using assms by (simp add: sorted_wrt_iff_nth_less)
  moreover have "set [j \<leftarrow> [0 ..< l]. n dvd j] = set (map (\<lambda>k. k * n) [0 ..< m])" 
    by (force simp: m[symmetric] dvd_def mult.commute[of n] image_iff)
  ultimately have "[j \<leftarrow> [0 ..< l]. n dvd j] = map (\<lambda>k. k * n) [0 ..< m]" by (intro strict_sorted_equal)
  then show thesis using m by (rule that)
qed

lemma tiles_from:
  assumes "tiles P" "i < length P"
  shows "[p \<leftarrow> P. start_date (P ! i) \<le> end_date p] = drop i P"
proof -
  have "start_date (P ! i) \<le> end_date (P ! j) \<longleftrightarrow> i \<le> j" if "j < length P" for j
    using tiles_ascend[OF assms(1), of j i] tiles_ascend[OF assms(1), of i j] tiles_member[OF assms(1) nth_mem[OF that]]
      tiles_member[OF assms(1) nth_mem[OF assms(2)]] assms(2) that
    by (cases i j rule: linorder_cases) (auto simp: not_le)
  then have "[j \<leftarrow> [0 ..< length P]. start_date (P ! i) \<le> end_date (P ! j)] = [j \<leftarrow> [0 ..< length P]. i \<le> j]"
    by (intro filter_cong) auto
  moreover have "[j \<leftarrow> [0 ..< length P]. i \<le> j] = [i ..< length P]"
    using assms(2) upt_add_eq_append[of 0 i "length P - i"] by (simp add: filter_empty_conv filter_id_conv)
  ultimately show ?thesis 
    by (subst filter_by_index) (auto intro: nth_equalityI)
qed
lemma tiles_cover_day:
  assumes "tiles P" "P \<noteq> []" "valid_date day" "start_date (hd P) \<le> day" "day \<le> end_date (last P)"
  obtains i where "i < length P" "covers (P ! i) day"
  using tiles_cover[OF assms] by blast

text \<open>What resolving a rule counted in paychecks settles: its first payday and its phase.\<close>

lemma resolved_period_rule:
  assumes "resolve_recurrence user s cal = Inr r" "spec_unit s = Period_Unit" "calendar_ok cal" "recorded cal"
    and "spec_starts_on s = Some day" "valid_date day"
    and P: "tiles P" "P \<noteq> []" "opening_bound cal = Some (start_date (hd P))" "map period_index P = map int [0 ..< length P]"
    "CALENDAR_DATE_MAX \<le> end_date (last P)"
    "\<And>day p. valid_date day \<Longrightarrow> p \<in> set P \<Longrightarrow> covers p day \<Longrightarrow> span_containing cal day = Inr (Some p)"
    and small: "start_date (hd P) \<le> end_date (last P)"
  obtains i where "i < length P" "covers (P ! i) (max day (start_date (hd P)))" "starts_on r = start_date (P ! i)"
    "offset_periods r = (if rule_interval r = 1 then 0 else int i mod rule_interval r)"
    "rule_unit r = Period_Unit" "1 \<le> rule_interval r" "rule_interval r = spec_interval s" "rule_shift r = No_Shift"
    "max_per_month r = spec_max_per_month s" "nominal_day r = spec_nominal_day s"
    "rule_closing_of r = \<lparr>authored_bound = spec_end_bound s, derived_stop_of = None\<rparr>" "rule_placement r = spec_placement s"
    "books_opened_on r = None" "day \<le> CALENDAR_DATE_MAX" "CALENDAR_DATE_MIN \<le> day" "checked_recurrence r = Inr r"
proof -
  let ?day = "max day (start_date (hd P))"
  have canon: "canonical_cadence (spec_interval s) Period_Unit (spec_max_per_month s) =
    \<lparr>every_n = spec_interval s, cadence_unit = Period_Unit, month_ceiling = spec_max_per_month s\<rparr>" by (simp add: canonical_cadence_def)
  have window: "CALENDAR_DATE_MIN \<le> day" "day \<le> CALENDAR_DATE_MAX" "1 \<le> spec_interval s"
    using assms(1,5) by (auto simp: resolve_recurrence_def require_authorable_cadence_def require_positive_interval_def
        require_authored_domains_def require_authored_start_window_def Let_def elim!: bind_res_InrE split: if_splits)
  have v: "valid_date (start_date (hd P))" using tiles_member[OF P(1) hd_in_set[OF P(2)]] by simp
  have reach: "?day \<le> end_date (last P)" using window(2) P(5) small by (auto simp: max_def)
  obtain i where i: "i < length P" "covers (P ! i) ?day"
    by (rule tiles_cover_day[OF P(1,2), of ?day]) (use assms(6) v reach in \<open>auto simp: max_def\<close>)
  have first: "first_occurrence Period_Unit day cal = Inr (start_date (P ! i))"
    using P(6)[of ?day "P ! i"] i assms(6) v by (simp add: first_occurrence_def P(3) max_def)
  have own: "covers (P ! i) (start_date (P ! i))" "valid_date (start_date (P ! i))"
    using tiles_member[OF P(1) nth_mem[OF i(1)]] by (simp_all add: covers_def)
  have "period_index (P ! i) = int i" using arg_cong[OF P(4), of "\<lambda>l. l ! i"] i(1) by simp
  then have offset: "derive_offset_periods \<lparr>every_n = spec_interval s, cadence_unit = Period_Unit, month_ceiling = spec_max_per_month s\<rparr>
      cal (start_date (P ! i)) = Inr (if spec_interval s = 1 then 0 else int i mod spec_interval s)"
    using P(6)[OF own(2) nth_mem[OF i(1)] own(1)] by (simp add: derive_offset_periods_def)
  have r: "checked_recurrence
          \<lparr>offset_periods = if spec_interval s = 1 then 0 else int i mod spec_interval s, rule_interval = spec_interval s,
           rule_unit = Period_Unit, starts_on = start_date (P ! i), rule_placement = spec_placement s, rule_shift = No_Shift,
           rule_closing_of = \<lparr>authored_bound = spec_end_bound s, derived_stop_of = None\<rparr>, nominal_day = spec_nominal_day s,
           max_per_month = spec_max_per_month s, books_opened_on = None, is_envelope = False\<rparr> = Inr r"
    using assms(1) unfolding resolve_recurrence_def Let_def assms(2,5) canon
    by (auto simp: first offset elim!: bind_res_InrE)
  then have "r = \<lparr>offset_periods = if spec_interval s = 1 then 0 else int i mod spec_interval s, rule_interval = spec_interval s,
           rule_unit = Period_Unit, starts_on = start_date (P ! i), rule_placement = spec_placement s, rule_shift = No_Shift,
           rule_closing_of = \<lparr>authored_bound = spec_end_bound s, derived_stop_of = None\<rparr>, nominal_day = spec_nominal_day s,
           max_per_month = spec_max_per_month s, books_opened_on = None, is_envelope = False\<rparr>"
    by (auto simp: checked_recurrence_def elim!: bind_res_InrE)
  then show thesis using i window r by (intro that[of i]) simp_all
qed

lemma period_walk_value:
  assumes "rule_unit r = Period_Unit" "1 \<le> rule_interval r" "i < length P" "starts_on r = start_date (P ! i)"
    and "offset_periods r = (if rule_interval r = 1 then 0 else int i mod rule_interval r)"
    and P: "tiles P" "map period_index P = map int [0 ..< length P]" "\<And>d. paychecks_from cal d = map Inr [p \<leftarrow> P. d \<le> end_date p]"
  obtains m where "unbounded r cal = map Inr (map (\<lambda>k. start_date (P ! (i + k * nat (rule_interval r)))) [0 ..< m])"
    "\<And>k. k < m \<longleftrightarrow> i + k * nat (rule_interval r) < length P"
proof -
  let ?n = "nat (rule_interval r)"
  have index: "period_index (P ! j) = int j" if "j < length P" for j using arg_cong[OF P(2), of "\<lambda>l. l ! j"] that by simp
  have phase: "(period_index (drop i P ! j) - offset_periods r) mod rule_interval r = 0 \<longleftrightarrow> ?n dvd j" if "j < length (drop i P)" for j
  proof -
    have "(int i + int j - offset_periods r) mod rule_interval r = int j mod rule_interval r"
    proof (cases "rule_interval r = 1")
      case False
      then have "(int i + int j - offset_periods r) mod rule_interval r = (int i - int i + int j) mod rule_interval r"
        using assms(5) by (simp add: mod_diff_right_eq algebra_simps)
      then show ?thesis by simp
    qed simp
    moreover have "int j mod rule_interval r = 0 \<longleftrightarrow> ?n dvd j"
      using assms(2) int_dvd_int_iff[of ?n j] by (simp add: mod_eq_0_iff_dvd)
    ultimately show ?thesis using that index[of "i + j"] by simp
  qed
  obtain m where m: "[j \<leftarrow> [0 ..< length (drop i P)]. ?n dvd j] = map (\<lambda>k. k * ?n) [0 ..< m]" "\<And>k. k < m \<longleftrightarrow> k * ?n < length (drop i P)"
    by (rule multiples_upto[of ?n "length (drop i P)"]) (use assms(2) in auto)
  have "[p \<leftarrow> drop i P. (period_index p - offset_periods r) mod rule_interval r = 0] =
    map ((!) (drop i P)) [j \<leftarrow> [0 ..< length (drop i P)]. ?n dvd j]"
    unfolding filter_by_index[of _ "drop i P"] using phase by (intro arg_cong[where f = "map ((!) (drop i P))"] filter_cong) auto
  then have "unbounded r cal = map Inr (map (\<lambda>k. start_date (drop i P ! (k * ?n))) [0 ..< m])"
    using tiles_from[OF P(1) assms(3)] m(1)
    by (simp add: unbounded_def assms(1,4) period_walk_def P(3) filter_map comp_def)
  moreover have "drop i P ! (k * ?n) = P ! (i + k * ?n)" if "k < m" for k using assms(3) by simp
  ultimately show thesis using m(2) assms(3) by (intro that[of m]) (auto simp: less_diff_conv add.commute)
qed
lemma tiles_span: "tiles P \<Longrightarrow> P \<noteq> [] \<Longrightarrow> start_date (hd P) \<le> end_date (last P)"
  using tiles_within(2)[of P "hd P"] by simp

text \<open>
  C14: what a rule counted in paychecks fires on.  A rule without a monthly ceiling,
  resolved against the owner's calendar, starts on the
  payday of the paycheck its stated day falls in, the first one of the record when that day is before it,
  and from there fires on the payday of every \<open>n\<close>-th paycheck, recorded or projected, and on no other day:
  on the k-th of them exactly when it is within the asked range and the rule's closing admits it.\<close>

theorem paycheck_rule_occurrences:
  assumes "calendar_ok cal" "recorded cal" "resolve_recurrence user s cal = Inr r" "spec_unit s = Period_Unit"
    and "spec_starts_on s = Some day" "valid_date day" "spec_max_per_month s = None" "through \<le> CALENDAR_DATE_MAX"
  shows "\<exists>qs m. paychecks_from cal (starts_on r) = map Inr qs \<and> tiles qs \<and> qs \<noteq> [] \<and> CALENDAR_DATE_MAX \<le> end_date (last qs) \<and>
    start_date (hd qs) = starts_on r \<and> covers (hd qs) (max day (the (opening_bound cal))) \<and>
    occurrences r cal through = Inr (map Inr (map (\<lambda>k. start_date (qs ! (k * nat (spec_interval s)))) [0 ..< m])) \<and>
    (\<forall>k. k < m \<longleftrightarrow> k * nat (spec_interval s) < length qs \<and> start_date (qs ! (k * nat (spec_interval s))) \<le> through \<and>
       still_open (rule_closing_of r) k (start_date (qs ! (k * nat (spec_interval s)))))"
proof -
  obtain P where P: "tiles P" "P \<noteq> []" "opening_bound cal = Some (start_date (hd P))" "map period_index P = map int [0 ..< length P]"
    "CALENDAR_DATE_MAX \<le> end_date (last P)" "\<And>d. paychecks_from cal d = map Inr [p \<leftarrow> P. d \<le> end_date p]"
    "\<And>day p. valid_date day \<Longrightarrow> p \<in> set P \<Longrightarrow> covers p day \<Longrightarrow> span_containing cal day = Inr (Some p)"
    by (rule spans_of_calendar[OF assms(1,2)]) blast
  obtain i where i: "i < length P" "covers (P ! i) (max day (start_date (hd P)))" "starts_on r = start_date (P ! i)"
    "offset_periods r = (if rule_interval r = 1 then 0 else int i mod rule_interval r)"
    "rule_unit r = Period_Unit" "1 \<le> rule_interval r" "rule_interval r = spec_interval s" "rule_shift r = No_Shift"
    "max_per_month r = spec_max_per_month s"
    by (rule resolved_period_rule[OF assms(3,4,1,2,5,6) P(1-5,7) tiles_span[OF P(1,2)]]) blast+
  let ?n = "nat (spec_interval s)" and ?qs = "drop i P"
  obtain l where l: "unbounded r cal = map Inr (map (\<lambda>k. start_date (P ! (i + k * nat (rule_interval r)))) [0 ..< l])"
    "\<And>k. k < l \<longleftrightarrow> i + k * nat (rule_interval r) < length P"
    by (rule period_walk_value[OF i(5,6,1,3,4) P(1,4,6)]) blast+
  have n: "0 < ?n" using i(6,7) by simp
  have reach: "k < l \<longleftrightarrow> k * ?n < length ?qs" for k using l(2)[of k] i(1,7) by auto
  let ?days = "map (\<lambda>k. start_date (?qs ! (k * ?n))) [0 ..< l]"
  have walk: "unbounded r cal = map Inr ?days" using l(1) i(1,7) by simp
  have "start_date (?qs ! (j * ?n)) < start_date (?qs ! (k * ?n))" if "j < k" "k < l" for j k
  proof -
    have "j * ?n < k * ?n" using that(1) n by simp
    moreover have "k * ?n < length ?qs" using that(2) reach by simp
    moreover have "sorted_wrt (<) (map start_date ?qs)" using tiles_sorted[OF P(1)] by (simp add: sorted_wrt_drop drop_map[symmetric])
    ultimately show ?thesis by (simp add: sorted_wrt_iff_nth_less)
  qed
  then have "sorted_wrt (<) ?days" by (simp add: sorted_wrt_iff_nth_less)
  then obtain m where m: "m \<le> l" "bounded (rule_closing_of r) through 0 (map Inr ?days) = map Inr (take m ?days)"
    "\<forall>k < l. k < m \<longleftrightarrow> start_date (?qs ! (k * ?n)) \<le> through \<and> still_open (rule_closing_of r) k (start_date (?qs ! (k * ?n)))"
    using bounded_value[of ?days "rule_closing_of r" through 0]
    by (auto simp: closing_admits_open)
  have "occurrences r cal through = Inr (map Inr (map (\<lambda>k. start_date (?qs ! (k * ?n))) [0 ..< m]))"
    using m(1,2) i(6,8) unfolding occurrences_def ceilinged_def i(9) assms(7) walk
    by (simp add: require_generable_def take_map take_upt)
  moreover have "k < m \<longleftrightarrow> k * ?n < length ?qs \<and> start_date (?qs ! (k * ?n)) \<le> through \<and>
      still_open (rule_closing_of r) k (start_date (?qs ! (k * ?n)))" for k
    using m(1,3) reach[of k] by (cases "k < l") auto
  moreover have "paychecks_from cal (starts_on r) = map Inr ?qs" using tiles_from[OF P(1) i(1)] by (simp add: P(6) i(3))
  moreover have "tiles ?qs" using P(1) tiles_append[of "take i P" ?qs] by simp
  moreover have "?qs \<noteq> []" "hd ?qs = P ! i" "last ?qs = last P" using i(1) by (simp_all add: hd_drop_conv_nth)
  ultimately show ?thesis using i(2,3) P(3,5) by (intro exI[of _ ?qs] exI[of _ m]) simp
qed

definition every_second_paycheck :: recurrence_spec where
  "every_second_paycheck =
     \<lparr>spec_user = 7, spec_unit = Period_Unit, spec_starts_on = Some (Date 2026 1 2), spec_interval = 2, spec_placement = Containing_Date,
      spec_nominal_day = None, spec_end_bound = Never_Ends, spec_max_per_month = None\<rparr>"
lemma every_second_paycheck_resolves:
  assumes "calendar_ok cal" "recorded cal" "opening_bound cal = Some (Date 2026 1 2)"
  obtains r where "resolve_recurrence 7 every_second_paycheck cal = Inr r" "starts_on r = Date 2026 1 2"
    "rule_closing_of r = \<lparr>authored_bound = Never_Ends, derived_stop_of = None\<rparr>"
proof -
  have auth: "(Period_Unit, Containing_Date) \<in> set authorable_cadences" by code_simp
  obtain P where P: "tiles P" "P \<noteq> []" "opening_bound cal = Some (start_date (hd P))" "map period_index P = map int [0 ..< length P]"
    "CALENDAR_DATE_MAX \<le> end_date (last P)" "\<And>day p. valid_date day \<Longrightarrow> p \<in> set P \<Longrightarrow> covers p day \<Longrightarrow> span_containing cal day = Inr (Some p)"
    by (rule spans_of_calendar[OF assms(1,2)]) blast
  have v: "valid_date (Date 2026 1 2)" by (simp add: valid_Date days_in_month_def)
  have "start_date (hd P) = Date 2026 1 2" using P(3) assms(3) by simp
  moreover from this have "covers (hd P) (Date 2026 1 2)"
    using tiles_member[OF P(1) hd_in_set[OF P(2)]] by (simp add: covers_def)
  moreover have "period_index (hd P) = 0" using P(2,4) by (cases P) (simp_all add: upt_rec)
  moreover have "span_containing cal (Date 2026 1 2) = Inr (Some (hd P))"
    by (rule P(6)[OF v hd_in_set[OF P(2)] calculation(2)])
  ultimately show thesis
    using that assms(3)
    by (auto simp: resolve_recurrence_def every_second_paycheck_def require_owner_def require_authorable_cadence_def require_positive_interval_def
        require_authored_domains_def require_authored_start_window_def canonical_cadence_def first_occurrence_def derive_offset_periods_def
        checked_recurrence_def less_eq_date_def max_def Let_def is_authorable_def auth is_offerable_nominal_day_def require_nominal_day_pair_def require_month_ceiling_pair_def CALENDAR_DATE_MIN_def CALENDAR_DATE_MAX_def)
qed

lemma paycheck_rule_occurrences_witness:
  "\<exists>cal r days. from_paydays two_paydays two_eras None = Inr cal \<and> resolve_recurrence 7 every_second_paycheck cal = Inr r \<and>
     starts_on r = Date 2026 1 2 \<and> occurrences r cal (Date 2026 12 31) = Inr (map Inr days) \<and> hd days = Date 2026 1 2"
proof -
  obtain cal where cal: "from_paydays two_paydays two_eras None = Inr cal" "opening_bound cal = Some (Date 2026 1 2)"
    "\<forall>row \<in> set two_paydays. valid_date (snd row)" by (rule two_paydays_calendar)
  note ok = from_paydays_ok[OF two_eras_sound cal(3,1)]
  have "mset (map (\<lambda>p. (period_id p, start_date p)) (cal_periods cal)) = mset two_paydays"
    using derive_periods_value[OF two_eras_sound cal(3)] cal(1) 
    by (force simp: from_paydays_def two_paydays_def elim!: bind_res_InrE)
  then have "(\<lambda>p. (period_id p, start_date p)) ` set (cal_periods cal) = set two_paydays" by (metis set_map set_mset_mset)
  then have kept: "recorded cal" unfolding recorded_def by (auto simp: two_paydays_def)
  obtain r where r: "resolve_recurrence 7 every_second_paycheck cal = Inr r" "starts_on r = Date 2026 1 2"
    "rule_closing_of r = \<lparr>authored_bound = Never_Ends, derived_stop_of = None\<rparr>" by (rule every_second_paycheck_resolves[OF ok(1) kept cal(2)])
  have "valid_date (Date 2026 1 2)" by (simp add: valid_Date days_in_month_def)
  then obtain qs m where qs: "qs \<noteq> []" "start_date (hd qs) = starts_on r" "covers (hd qs) (Date 2026 1 2)"
    "occurrences r cal (Date 2026 12 31) = Inr (map Inr (map (\<lambda>k. start_date (qs ! (k * 2))) [0 ..< m]))"
    "\<forall>k. k < m \<longleftrightarrow> k * 2 < length qs \<and> start_date (qs ! (k * 2)) \<le> Date 2026 12 31 \<and>
       still_open (rule_closing_of r) k (start_date (qs ! (k * 2)))"
    using paycheck_rule_occurrences[OF ok(1) kept r(1), of "Date 2026 1 2" "Date 2026 12 31"] cal(2)
    by (auto simp: every_second_paycheck_def less_eq_date_def CALENDAR_DATE_MAX_def)
  have "hd (map (\<lambda>k. start_date (qs ! (k * 2))) [0 ..< m]) = Date 2026 1 2"
  proof -
    have "start_date (qs ! 0) = Date 2026 1 2" using qs(1,2) r(2) by (simp add: hd_conv_nth)
    then have "0 < m" using qs(1,5) r(3) by (simp add: still_open_def less_eq_date_def)
    then show ?thesis using \<open>start_date (qs ! 0) = _\<close> by (simp add: upt_rec)
  qed
  then show ?thesis using cal(1) r(1,2) qs(4) by blast
qed

end
