(* ===== verification/Salary_Raises.thy ===== *)
theory Salary_Raises
  imports Pay_Counts "HOL-Library.Product_Lexorder"
begin

text \<open>
  \<open>app/services/salary_raises.py\<close>: how long a recurring raise is believed, the applications of a
  profile's raises that take effect in a span of days, what one application does to a paycheck, and the
  raises a paycheck announces (their rendering as text is left out).  A day of a raise is the first of
  its month; the database's CHECKs keep the month within 1 to 12 and the years within 2000 to 2100, so
  \<open>date(year, month, 1)\<close> never raises.
\<close>

definition RAISE_YEAR_MIN :: int where "RAISE_YEAR_MIN = 2000"
definition RAISE_YEAR_MAX :: int where "RAISE_YEAR_MAX = 2100"

text \<open>The end of a recurring raise, as the form submits it.\<close>

definition end_year_of :: "string option \<Rightarrow> int option \<Rightarrow> int \<Rightarrow> int option res" where
  "end_year_of mode year effective_year =
     (if mode \<noteq> Some ''year'' \<and> mode \<noteq> Some ''none'' then Inl (EndYearError ''mode'')
      else if mode = Some ''none'' then Inr None
      else case year of None \<Rightarrow> Inl (EndYearError ''year'')
      | Some y \<Rightarrow>
          if y < effective_year then Inl (EndYearError ''year'')
          else if RAISE_YEAR_MAX < y then Inl (EndYearError ''year'')
          else Inr (Some y))"

record raise_terms =
  effective_year :: int
  effective_month :: int
  is_recurring :: bool
  percentage :: "dec option"
  flat_amount :: "dec option"
  terminal_year :: "int option"
  raise_type_name :: string

definition is_believed_in :: "raise_terms \<Rightarrow> int \<Rightarrow> bool" where
  "is_believed_in t year =
     (\<not> year < effective_year t \<and> (case terminal_year t of None \<Rightarrow> True | Some last_year \<Rightarrow> year \<le> last_year))"

text \<open>A flat amount is applied before a percentage landing on the same day; a flat amount of zero counts as none.\<close>

definition truthy :: "dec option \<Rightarrow> bool" where
  "truthy x = (case x of None \<Rightarrow> False | Some a \<Rightarrow> a \<noteq> 0)"

definition method_rank :: "raise_terms \<Rightarrow> nat" where
  "method_rank t = (if truthy (flat_amount t) then 0 else 1)"

definition raise_years :: "raise_terms \<Rightarrow> int \<Rightarrow> int \<Rightarrow> int list" where
  "raise_years t period_year period_month =
     (if is_recurring t
      then [year \<leftarrow> [effective_year t .. (if effective_month t \<le> period_month then period_year else period_year - 1)].
              is_believed_in t year]
      else if (effective_year t < period_year \<or> period_year = effective_year t \<and> effective_month t \<le> period_month) \<and>
              is_believed_in t (effective_year t)
      then [effective_year t] else [])"

definition applications :: "raise_terms list \<Rightarrow> int \<Rightarrow> int \<Rightarrow> (int \<times> int \<times> nat \<times> raise_terms) list" where
  "applications raises period_year period_month =
     concat (map (\<lambda>t. map (\<lambda>year. (year, effective_month t, method_rank t, t)) (raise_years t period_year period_month)) raises)"

definition applications_between :: "raise_terms list \<Rightarrow> date \<Rightarrow> date \<Rightarrow> (date \<times> nat \<times> raise_terms) list" where
  "applications_between raises after through =
     [a \<leftarrow> sort_key (\<lambda>(landed, rank, _). (landed, rank))
        (map (\<lambda>(year, month, rank, t). (Date year month 1, rank, t)) (applications raises (d_year through) (d_month through))).
        after < fst a]"

text \<open>A raise with neither method makes \<open>Decimal(str(None))\<close> signal \<open>InvalidOperation\<close>.\<close>

definition raise_pay :: "dec \<Rightarrow> raise_terms \<Rightarrow> dec \<Rightarrow> dec res" where
  "raise_pay pay t periods =
     (if truthy (percentage t) then Inr (round_money (dmul pay (dadd 1 (the (percentage t)))))
      else case flat_amount t of None \<Rightarrow> Inl InvalidOperation
      | Some flat \<Rightarrow> Inr (round_money (dadd pay (ddiv flat periods))))"

definition announced_raises :: "raise_terms list \<Rightarrow> date \<Rightarrow> date option \<Rightarrow> raise_terms list" where
  "announced_raises raises payday replaced_through =
     [t \<leftarrow> raises.
        (is_recurring t \<and> d_month payday = effective_month t \<and> is_believed_in t (d_year payday) \<or>
         effective_year t = d_year payday \<and> effective_month t = d_month payday) \<and>
        (case replaced_through of None \<Rightarrow> True | Some entry_day \<Rightarrow> entry_day < Date (d_year payday) (effective_month t) 1)]"

section \<open>The end of a raise\<close>

text \<open>
  the end of a recurring raise.  A submitted end is accepted exactly when it says there is none, or
  gives a year from the raise's own to 2100; the year it stores then keeps the database's CHECKs, and
  every refusal names the field at fault.\<close>

theorem raise_end_is_checked:
  "end_year_of mode year eff = Inr r \<longleftrightarrow>
     mode = Some ''none'' \<and> r = None \<or> mode = Some ''year'' \<and> r = year \<and> (\<exists>y. year = Some y \<and> eff \<le> y \<and> y \<le> 2100)"
  "end_year_of mode year eff = Inl e \<longleftrightarrow>
     mode \<notin> {Some ''none'', Some ''year''} \<and> e = EndYearError ''mode'' \<or>
     mode = Some ''year'' \<and> \<not> (\<exists>y. year = Some y \<and> eff \<le> y \<and> y \<le> 2100) \<and> e = EndYearError ''year''"
  by (auto simp: end_year_of_def RAISE_YEAR_MAX_def split: option.splits if_splits)

section \<open>The applications of a span\<close>

lemma filter_upto: "[y \<leftarrow> [a..c]. y \<le> b] = [a..min b c]" for a b c :: int
proof (cases "a \<le> min b c")
  case True
  then have "[a..c] = [a..min b c] @ [min b c + 1..c]" using upto_split1[of a "min b c + 1" c] upto_split2 [of a "min b c" c] by simp
  then have "[y \<leftarrow> [a..c]. y \<le> b] = [y \<leftarrow> [a..min b c]. y \<le> b] @ [y \<leftarrow> [min b c + 1..c]. y \<le> b]" by simp
  moreover have "[y \<leftarrow> [a..min b c]. y \<le> b] = [a..min b c]" by (simp add: filter_id_conv)
  moreover have "[y \<leftarrow> [min b c + 1..c]. y \<le> b] = []" by (auto simp: filter_empty_conv)
  ultimately show ?thesis by simp
next
  case False
  then have "[y \<leftarrow> [a..c]. y \<le> b] = []" by (auto simp: filter_empty_conv)
  then show ?thesis using False by (auto simp: min_def)
qed

text \<open>The last year whose raise month has come by a day.\<close>

definition last_raise_year :: "raise_terms \<Rightarrow> date \<Rightarrow> int" where
  "last_raise_year t day = (if effective_month t \<le> d_month day then d_year day else d_year day - 1)"

lemma raise_day_le: "valid_date day \<Longrightarrow> Date y (effective_month t) 1 \<le> day \<longleftrightarrow> y \<le> last_raise_year t day"
  by (auto simp: last_raise_year_def less_eq_date_def valid_date_def)

lemma last_raise_year_mono: "b \<le> c \<Longrightarrow> last_raise_year t b \<le> last_raise_year t c"
  by (auto simp: last_raise_year_def less_eq_date_def)

lemma raise_years_alt:
  "raise_years t (d_year day) (d_month day) =
     [y \<leftarrow> (if is_recurring t then [effective_year t .. last_raise_year t day]
           else if effective_year t \<le> last_raise_year t day then [effective_year t] else []). is_believed_in t y]"
  by (auto simp: raise_years_def last_raise_year_def)

lemma raise_years_upto:
  assumes "valid_date b" "b \<le> c"
  shows "raise_years t (d_year b) (d_month b) =
    [y \<leftarrow> raise_years t (d_year c) (d_month c). Date y (effective_month t) 1 \<le> b]"
proof -
  have "[y \<leftarrow> [effective_year t .. last_raise_year t c]. y \<le> last_raise_year t b] = [effective_year t .. last_raise_year t b]"
    using last_raise_year_mono[OF assms(2), of t] by (simp add: filter_upto min_def)
  then have "[y \<leftarrow> [y \<leftarrow> [effective_year t .. last_raise_year t c]. y \<le> last_raise_year t b]. is_believed_in t y] =
      [y \<leftarrow> [effective_year t .. last_raise_year t b]. is_believed_in t y]" by simp
  then have rec: "[y \<leftarrow> [effective_year t .. last_raise_year t c]. y \<le> last_raise_year t b \<and> is_believed_in t y] =
      [y \<leftarrow> [effective_year t .. last_raise_year t b]. is_believed_in t y]" unfolding filter_filter .
  show ?thesis
  proof (cases "is_recurring t")
    case True
    then show ?thesis
      by (simp add: raise_years_alt raise_day_le[OF assms(1)] rec[symmetric] conj_commute)
  next
    case False
    then show ?thesis
      using last_raise_year_mono[OF assms(2), of t] by (simp add: raise_years_alt raise_day_le[OF assms(1)])
  qed
qed

lemma applications_upto:
  assumes "valid_date b" "b \<le> c"
  shows "map (\<lambda>(y, m, rank, t). (Date y m 1, rank, t)) (applications raises (d_year b) (d_month b)) =
    [a \<leftarrow> map (\<lambda>(y, m, rank, t). (Date y m 1, rank, t)) (applications raises (d_year c) (d_month c)). fst a \<le> b]"
  by (induction raises) (simp_all add: applications_def raise_years_upto[OF assms] filter_map comp_def)

text \<open>All applications by a day, in the order they are made.\<close>

definition applied_by :: "raise_terms list \<Rightarrow> date \<Rightarrow> (date \<times> nat \<times> raise_terms) list" where
  "applied_by raises day =
     sort_key (\<lambda>(landed, rank, _). (landed, rank))
       (map (\<lambda>(year, month, rank, t). (Date year month 1, rank, t)) (applications raises (d_year day) (d_month day)))"

lemma applied_by_upto: "valid_date b \<Longrightarrow> b \<le> c \<Longrightarrow> applied_by raises b = [a \<leftarrow> applied_by raises c. fst a \<le> b]"
  unfolding applied_by_def filter_sort by (subst applications_upto) auto

lemma applications_between_alt: "applications_between raises after through = [a \<leftarrow> applied_by raises through. after < fst a]"
  by (simp add: applications_between_def applied_by_def)

lemma applied_by_sorted: "sorted_wrt (\<lambda>a b. (fst a, fst (snd a)) \<le> (fst b, fst (snd b))) (applied_by raises day)"
proof -
  have "sorted (map (\<lambda>(landed, rank, _). (landed, rank)) (applied_by raises day))" by (simp add: applied_by_def)
  then show ?thesis by (simp add: sorted_map case_prod_beta)
qed

lemma raise_years_iff:
  assumes "valid_date day"
  shows "y \<in> set (raise_years t (d_year day) (d_month day)) \<longleftrightarrow> Date y (effective_month t) 1 \<le> day \<and>
    (if is_recurring t then effective_year t \<le> y else y = effective_year t) \<and> is_believed_in t y"
  by (auto simp: raise_years_alt raise_day_le[OF assms])

lemma applied_by_set:
  assumes "valid_date day"
  shows "a \<in> set (applied_by raises day) \<longleftrightarrow>
    (\<exists>t \<in> set raises. \<exists>y. a = (Date y (effective_month t) 1, method_rank t, t) \<and>
       y \<in> set (raise_years t (d_year day) (d_month day)))"
  by (force simp: applied_by_def applications_def)
lemma bex_tuple:
  "((\<exists>t \<in> S. \<exists>y. a = (D t y, r t, t) \<and> Q t y) \<and> b < fst a) = (\<exists>t \<in> S. \<exists>y. a = (D t y, r t, t) \<and> b < D t y \<and> Q t y)"
  by force

lemma sorted_filter_split:
  fixes a b :: "'b :: linorder"
  assumes "sorted_wrt (\<lambda>x y. f x \<le> f y) xs" "a \<le> b"
  shows "[x \<leftarrow> xs. a < f x] = [x \<leftarrow> xs. a < f x \<and> f x \<le> b] @ [x \<leftarrow> xs. b < f x]"
  using assms(1)
proof (induction xs)
  case (Cons x xs)
  show ?case
  proof (cases "b < f x")
    case True
    then have "[y \<leftarrow> xs. a < f y \<and> f y \<le> b] = []" using Cons.prems by (auto simp: filter_empty_conv)
    then show ?thesis using True Cons assms(2) by auto
  next
    case False
    then show ?thesis using Cons by auto
  qed
qed simp

lemma distinct_applications:
  assumes "distinct raises"
  shows "distinct (map (\<lambda>(y, m, rank, t). (Date y m 1, rank, t)) (applications raises py pm))"
  using assms
proof (induction raises)
  case (Cons t raises)
  have "distinct (raise_years t py pm)" by (simp add: raise_years_def)
  then have "distinct (map (\<lambda>y. (Date y (effective_month t) 1, method_rank t, t)) (raise_years t py pm))"
    by (simp add: distinct_map inj_on_def)
  then show ?case using Cons by (auto simp: applications_def comp_def)
qed (simp add: applications_def)

lemma due_by_rank:
  assumes "valid_date through"
  shows "a \<in> set (applications_between raises after through) \<longleftrightarrow>
      (\<exists>t \<in> set raises. \<exists>y. a = (Date y (effective_month t) 1, method_rank t, t) \<and>
         after < Date y (effective_month t) 1 \<and> Date y (effective_month t) 1 \<le> through \<and>
         (if is_recurring t then effective_year t \<le> y else y = effective_year t) \<and> is_believed_in t y)"
  unfolding applications_between_alt set_filter mem_Collect_eq applied_by_set[OF assms] raise_years_iff[OF assms]
  by (rule bex_tuple)

lemma rank_flat: "method_rank t \<le> method_rank u \<longleftrightarrow> (\<exists>f. flat_amount u = Some f \<and> f \<noteq> 0) \<longrightarrow> (\<exists>f. flat_amount t = Some f \<and> f \<noteq> 0)"
  by (auto simp: method_rank_def truthy_def split: option.splits)

text \<open>
  C37: the raises due in a span.  Exactly those raise days count that lie after the span's opening day and
  by its last one, from the raise's own year on (once for a one-time raise, every year for a recurring
  one) and no later than its last year, where it has one; they come in the order of their days, a raise of a
  flat amount before one of a percentage on one day, and none twice.\<close>

theorem due_applications:
  assumes "valid_date through"
  shows "(\<forall>d t. (\<exists>k. (d, k, t) \<in> set (applications_between raises after through)) \<longleftrightarrow>
      t \<in> set raises \<and> (\<exists>y. d = Date y (effective_month t) 1 \<and> after < d \<and> d \<le> through \<and>
         (if is_recurring t then effective_year t \<le> y else y = effective_year t) \<and>
         (\<forall>last_year. terminal_year t = Some last_year \<longrightarrow> y \<le> last_year))) \<and>
    sorted_wrt (\<lambda>(d, _, t) (e, _, u). d < e \<or> d = e \<and>
        ((\<exists>f. flat_amount u = Some f \<and> f \<noteq> 0) \<longrightarrow> (\<exists>f. flat_amount t = Some f \<and> f \<noteq> 0)))
      (applications_between raises after through) \<and>
    (distinct raises \<longrightarrow> distinct (applications_between raises after through))"
proof (intro conjI allI impI)
  show "(\<exists>k. (d, k, t) \<in> set (applications_between raises after through)) \<longleftrightarrow>
      t \<in> set raises \<and> (\<exists>y. d = Date y (effective_month t) 1 \<and> after < d \<and> d \<le> through \<and>
         (if is_recurring t then effective_year t \<le> y else y = effective_year t) \<and>
         (\<forall>last_year. terminal_year t = Some last_year \<longrightarrow> y \<le> last_year))" for d t
  proof -
    have "(\<exists>k. (d, k, t) \<in> set (applications_between raises after through)) \<longleftrightarrow>
        t \<in> set raises \<and> (\<exists>y. d = Date y (effective_month t) 1 \<and> after < d \<and> d \<le> through \<and>
          (if is_recurring t then effective_year t \<le> y else y = effective_year t) \<and> is_believed_in t y)"
      unfolding due_by_rank[OF assms] by blast
    moreover have "(if is_recurring t then effective_year t \<le> y else y = effective_year t) \<and> is_believed_in t y \<longleftrightarrow>
        (if is_recurring t then effective_year t \<le> y else y = effective_year t) \<and>
        (\<forall>last_year. terminal_year t = Some last_year \<longrightarrow> y \<le> last_year)" for y
      by (auto simp: is_believed_in_def split: option.splits)
    ultimately show ?thesis by simp
  qed
  have "sorted_wrt (\<lambda>a b. (fst a, fst (snd a)) \<le> (fst b, fst (snd b))) (applications_between raises after through)"
    unfolding applications_between_alt by (rule sorted_wrt_filter[OF applied_by_sorted])
  moreover have "fst (snd a) = method_rank (snd (snd a))" if "a \<in> set (applications_between raises after through)" for a
    using that due_by_rank[OF assms] by auto
  ultimately show "sorted_wrt (\<lambda>(d, _, t) (e, _, u). d < e \<or> d = e \<and>
        ((\<exists>f. flat_amount u = Some f \<and> f \<noteq> 0) \<longrightarrow> (\<exists>f. flat_amount t = Some f \<and> f \<noteq> 0)))
      (applications_between raises after through)"
    by (elim sorted_wrt_mono_rel[rotated]) (auto simp: rank_flat[symmetric] less_eq_prod_def)
  show "distinct raises \<Longrightarrow> distinct (applications_between raises after through)"
    unfolding applications_between_def by (intro distinct_filter, subst distinct_sort) (rule distinct_applications)
qed

text \<open>A promotion and a yearly raise believed until 2027.\<close>

definition sample_raises :: "raise_terms list" where
  "sample_raises =
     [\<lparr>effective_year = 2025, effective_month = 7, is_recurring = True, percentage = Some (3/100), flat_amount = None,
       terminal_year = Some 2027, raise_type_name = ''cola''\<rparr>,
      \<lparr>effective_year = 2026, effective_month = 7, is_recurring = False, percentage = None, flat_amount = Some 5200,
       terminal_year = None, raise_type_name = ''promotion''\<rparr>]"

lemma due_applications_witness:
  "map (\<lambda>(d, rank, t). (d, rank, raise_type_name t)) (applications_between sample_raises (Date 2025 12 31) (Date 2030 1 1)) =
     [(Date 2026 7 1, 0, ''promotion''), (Date 2026 7 1, 1, ''cola''), (Date 2027 7 1, 1, ''cola'')] \<and>
   distinct (applications_between sample_raises (Date 2025 12 31) (Date 2030 1 1))"
proof -
  have v: "valid_date (Date 2030 1 1)" by (simp add: valid_Date days_in_month_def)
  have up: "[2025..2029] = [2025, 2026, 2027, 2028, 2029 :: int]" by (simp add: upto.simps)
  have "map (\<lambda>(d, rank, t). (d, rank, raise_type_name t)) (applications_between sample_raises (Date 2025 12 31) (Date 2030 1 1)) =
     [(Date 2026 7 1, 0, ''promotion''), (Date 2026 7 1, 1, ''cola''), (Date 2027 7 1, 1, ''cola'')]"
    by (simp add: sample_raises_def applications_between_def applications_def raise_years_def method_rank_def truthy_def
        is_believed_in_def up less_eq_date_def less_date_def)
  moreover have "distinct sample_raises" by (simp add: sample_raises_def)
  ultimately show ?thesis
    using conjunct2[OF due_applications[OF v, of sample_raises "Date 2025 12 31"]] by blast
qed

text \<open>
  C36: raises are applied a span at a time.  Cutting a span at any day cuts its applications in two, none
  lost, none repeated and the order kept: raising pay to a day and then on to a later one is raising it
  to the later one at once.\<close>

theorem applications_split:
  assumes "valid_date b" "a \<le> b" "b \<le> c"
  shows "applications_between raises a c = applications_between raises a b @ applications_between raises b c"
proof -
  have "sorted_wrt (\<lambda>x y. fst x \<le> fst y) (applied_by raises c)"
    by (rule sorted_wrt_mono_rel[OF _ applied_by_sorted]) auto
  from sorted_filter_split[OF this assms(2)] show ?thesis
    by (simp add: applications_between_alt applied_by_upto[OF assms(1,3)] conj_commute)
qed

lemma applications_split_witness:
  "applications_between sample_raises (Date 2025 1 31) (Date 2027 12 1) =
     applications_between sample_raises (Date 2025 1 31) (Date 2026 7 1) @
     applications_between sample_raises (Date 2026 7 1) (Date 2027 12 1)"
  by (rule applications_split) (simp_all add: valid_Date days_in_month_def less_eq_date_def)

end
