(* ===== verification/Tax_Law.thy ===== *)
theory Tax_Law
  imports Money "HOL-Library.Char_ord" "HOL-Library.List_Lexorder"
begin

text \<open>
  \<open>app/tax_law\<close>: the one copy of the tax law the application prices against.  The shapes it is
  written in with the checks each makes when it is built (\<open>_types.py\<close>), the shipped years 2025 and
  2026 with North Carolina's tables, and the rule that says which year's law prices a year
  (\<open>app/services/tax_config_service.py\<close>).  A figure that is no Decimal, or no finite one, is excluded
  by its type; every other refusal is a \<open>ValueError\<close>.
\<close>

section \<open>The vocabulary\<close>

datatype filing_status = Single | Married_Jointly | Married_Separately | Head_Of_Household

datatype tax_type = Flat_Tax | No_Tax | Bracket_Tax

definition filing_statuses :: "filing_status list" where
  "filing_statuses = [Single, Married_Jointly, Married_Separately, Head_Of_Household]"

text \<open>A rate literal: \<open>Decimal("0.1200")\<close> is \<open>four_places 1200\<close>.\<close>

definition four_places :: "int \<Rightarrow> dec" where
  "four_places n = of_int n / 10000"

section \<open>The checks on figures\<close>

definition AMOUNT_DIGITS :: "int \<times> nat" where "AMOUNT_DIGITS = (10, 2)"
definition RATE_DIGITS :: "int \<times> nat" where "RATE_DIGITS = (1, 4)"
definition FIRST_TAX_YEAR :: int where "FIRST_TAX_YEAR = 2000"
definition LAST_TAX_YEAR :: int where "LAST_TAX_YEAR = 2100"

definition require_fit :: "dec \<Rightarrow> int \<times> nat \<Rightarrow> unit res" where
  "require_fit v digits =
     (case digits of (before, after) \<Rightarrow>
        all_checked
          [require (\<not> (v \<noteq> 0 \<and> before \<le> adj_exp v)),
           require (v = of_int (round_half_even (v * 10 ^ after)) / 10 ^ after)])"

definition require_amount :: "dec \<Rightarrow> bool \<Rightarrow> unit res" where
  "require_amount v above_zero =
     all_checked [require_fit v AMOUNT_DIGITS, require (\<not> (v < 0 \<or> above_zero \<and> v = 0))]"

definition require_rate :: "dec \<Rightarrow> unit res" where
  "require_rate v = all_checked [require (0 \<le> v \<and> v \<le> 1), require_fit v RATE_DIGITS]"

definition require_upper_bound :: "dec \<Rightarrow> dec option \<Rightarrow> unit res" where
  "require_upper_bound low high =
     (case high of None \<Rightarrow> Inr ()
      | Some h \<Rightarrow> all_checked [require_amount h False, require (\<not> h \<le> low)])"

text \<open>Every rung of a table has checked itself when it was built.\<close>

definition require_rungs :: "('r \<Rightarrow> unit res) \<Rightarrow> 'r list \<Rightarrow> unit res" where
  "require_rungs check rungs = all_checked (map check rungs)"

definition require_climb :: "(dec \<times> dec option) list \<Rightarrow> unit res" where
  "require_climb bounds =
     all_checked
      ([require (\<not> (bounds = [] \<or> fst (hd bounds) \<noteq> 0))] @
       map (\<lambda>((_, below_high), (above_low, _)). require (below_high = Some above_low))
         (zip bounds (tl bounds)) @
       [require (snd (last bounds) = None)])"

definition require_every_status :: "(filing_status \<rightharpoonup> 'r) \<Rightarrow> unit res" where
  "require_every_status by_status = require (list_all (\<lambda>s. by_status s \<noteq> None) filing_statuses)"

section \<open>The federal rules\<close>

record tax_bracket =
  min_income :: dec
  max_income :: "dec option"
  bracket_rate :: dec
  sort_order :: int

definition check_bracket :: "tax_bracket \<Rightarrow> unit res" where
  "check_bracket b =
     all_checked [require_amount (min_income b) False, require_upper_bound (min_income b) (max_income b),
                  require_rate (bracket_rate b)]"

definition ladder :: "(dec \<times> dec option \<times> dec) list \<Rightarrow> tax_bracket list" where
  "ladder rungs =
     map (\<lambda>(position, (low, high, rate)).
            \<lparr>min_income = low, max_income = high, bracket_rate = rate, sort_order = int position\<rparr>)
       (enumerate 0 rungs)"

record federal_rules =
  standard_deduction :: dec
  child_credit_amount :: dec
  other_dependent_credit_amount :: dec
  child_credit_refundable_cap :: dec
  brackets :: "tax_bracket list"

definition check_federal :: "federal_rules \<Rightarrow> unit res" where
  "check_federal f =
     all_checked
       [require_amount (standard_deduction f) False,
        require_amount (child_credit_amount f) False,
        require_amount (other_dependent_credit_amount f) False,
        require_amount (child_credit_refundable_cap f) False,
        require_rungs check_bracket (brackets f),
        require (map sort_order (brackets f) = map int [0..<length (brackets f)]),
        require_climb (map (\<lambda>b. (min_income b, max_income b)) (brackets f))]"

record fica_rules =
  ss_rate :: dec
  ss_wage_base :: dec
  medicare_rate :: dec
  medicare_surtax_rate :: dec
  medicare_surtax_threshold :: dec

definition check_fica :: "fica_rules \<Rightarrow> unit res" where
  "check_fica f =
     all_checked
       [require_rate (ss_rate f), require_amount (ss_wage_base f) True, require_rate (medicare_rate f),
        require_rate (medicare_surtax_rate f), require_amount (medicare_surtax_threshold f) True]"

section \<open>A state's rules\<close>

record child_deduction_tier =
  agi_min :: dec
  agi_max :: "dec option"
  deduction_per_child :: dec

definition check_tier :: "child_deduction_tier \<Rightarrow> unit res" where
  "check_tier t =
     all_checked [require_amount (agi_min t) False, require_upper_bound (agi_min t) (agi_max t),
                  require_amount (deduction_per_child t) False]"

record state_year_law =
  state_tax_type :: tax_type
  flat_rate :: "dec option"
  state_deduction :: "filing_status \<rightharpoonup> dec"
  child_deduction_tiers :: "filing_status \<rightharpoonup> child_deduction_tier list"

text \<open>The items of a mapping keyed on filing statuses.\<close>

definition items :: "(filing_status \<rightharpoonup> 'r) \<Rightarrow> 'r list" where
  "items m = List.map_filter m filing_statuses"

definition require_nothing_to_deduct :: "state_year_law \<Rightarrow> unit res" where
  "require_nothing_to_deduct s =
     all_checked (map (\<lambda>d. require (d = 0)) (items (state_deduction s)) @
                  map (\<lambda>tiers. require (tiers = [])) (items (child_deduction_tiers s)))"

definition check_state :: "state_year_law \<Rightarrow> unit res" where
  "check_state s =
     all_checked
      ([require (state_tax_type s \<noteq> Bracket_Tax),
        require (\<not> (state_tax_type s = Flat_Tax \<and> flat_rate s = None)),
        require (\<not> (state_tax_type s = No_Tax \<and> flat_rate s \<noteq> None)),
        (case flat_rate s of None \<Rightarrow> Inr () | Some r \<Rightarrow> all_checked [require_rate r, require (r \<noteq> 0)]),
        require_every_status (state_deduction s)] @
       map (\<lambda>d. require_amount d False) (items (state_deduction s)) @
       [require_every_status (child_deduction_tiers s)] @
       map (\<lambda>tiers. all_checked
              [require_rungs check_tier tiers,
               if tiers \<noteq> [] then require_climb (map (\<lambda>t. (agi_min t, agi_max t)) tiers) else Inr ()])
         (items (child_deduction_tiers s)) @
       [if state_tax_type s = No_Tax then require_nothing_to_deduct s else Inr ()])"

section \<open>A year and the law\<close>

record tax_year_law =
  tax_year :: int
  law_sources :: "string list"
  federal :: "filing_status \<rightharpoonup> federal_rules"
  fica :: fica_rules
  states :: "(string \<times> state_year_law) list"

text \<open>\<open>str.strip\<close> leaves something exactly when some character is not whitespace.\<close>

definition is_whitespace :: "char \<Rightarrow> bool" where
  "is_whitespace c = (let n = (of_char c :: nat) in 9 \<le> n \<and> n \<le> 13 \<or> 28 \<le> n \<and> n \<le> 32 \<or> n = 133 \<or> n = 160)"

definition is_state_code :: "string \<Rightarrow> bool" where
  "is_state_code s = (length s = 2 \<and> list_all (\<lambda>c. CHR ''A'' \<le> c \<and> c \<le> CHR ''Z'') s)"

definition check_tax_year :: "tax_year_law \<Rightarrow> unit res" where
  "check_tax_year y =
     all_checked
      ([require (FIRST_TAX_YEAR \<le> tax_year y \<and> tax_year y \<le> LAST_TAX_YEAR),
        require_every_status (federal y)] @
       map check_federal (items (federal y)) @
       [check_fica (fica y)] @
       concat (map (\<lambda>(code, s). [require (is_state_code code), check_state s]) (states y)) @
       [require (law_sources y \<noteq> [] \<and> list_all (\<lambda>s. list_ex (\<lambda>c. \<not> is_whitespace c) s) (law_sources y))])"

record tax_law =
  law_years :: "tax_year_law list"

definition check_law :: "tax_law \<Rightarrow> unit res" where
  "check_law l =
     (let numbers = map tax_year (law_years l)
      in all_checked
          (map check_tax_year (law_years l) @
           [require (numbers = sort (remdups numbers)),
            require (\<not> (numbers \<noteq> [] \<and> numbers \<noteq> [hd numbers..last numbers]))] @
           map (\<lambda>y. require (list_all (\<lambda>(code, _). code \<in> set (map fst (states (hd (law_years l))))) (states y)))
             (tl (law_years l))))"

definition supported_states :: "tax_law \<Rightarrow> string list" where
  "supported_states l = sort (remdups (concat (map (\<lambda>y. map fst (states y)) (law_years l))))"

definition supports :: "tax_law \<Rightarrow> string \<Rightarrow> bool" where
  "supports l code = (code \<in> set (supported_states l))"

definition years_listing :: "tax_law \<Rightarrow> string \<Rightarrow> tax_year_law list" where
  "years_listing l code = [y \<leftarrow> law_years l. code \<in> set (map fst (states y))]"

section \<open>North Carolina\<close>

definition NC_STANDARD_DEDUCTION :: "filing_status \<Rightarrow> dec" where
  "NC_STANDARD_DEDUCTION status = (case status of
     Single \<Rightarrow> 12750 | Married_Jointly \<Rightarrow> 25500 | Married_Separately \<Rightarrow> 12750 | Head_Of_Household \<Rightarrow> 19125)"

definition tier :: "dec \<Rightarrow> dec option \<Rightarrow> dec \<Rightarrow> child_deduction_tier" where
  "tier low high per_child = \<lparr>agi_min = low, agi_max = high, deduction_per_child = per_child\<rparr>"

definition SINGLE_OR_SEPARATE_TIERS :: "child_deduction_tier list" where
  "SINGLE_OR_SEPARATE_TIERS =
     [tier 0 (Some 20000) 3000, tier 20000 (Some 30000) 2500, tier 30000 (Some 40000) 2000,
      tier 40000 (Some 50000) 1500, tier 50000 (Some 60000) 1000, tier 60000 (Some 70000) 500,
      tier 70000 None 0]"

definition NC_CHILD_DEDUCTION_TIERS :: "filing_status \<Rightarrow> child_deduction_tier list" where
  "NC_CHILD_DEDUCTION_TIERS status = (case status of
     Single \<Rightarrow> SINGLE_OR_SEPARATE_TIERS
   | Married_Jointly \<Rightarrow>
       [tier 0 (Some 40000) 3000, tier 40000 (Some 60000) 2500, tier 60000 (Some 80000) 2000,
        tier 80000 (Some 100000) 1500, tier 100000 (Some 120000) 1000, tier 120000 (Some 140000) 500,
        tier 140000 None 0]
   | Married_Separately \<Rightarrow> SINGLE_OR_SEPARATE_TIERS
   | Head_Of_Household \<Rightarrow>
       [tier 0 (Some 30000) 3000, tier 30000 (Some 45000) 2500, tier 45000 (Some 60000) 2000,
        tier 60000 (Some 75000) 1500, tier 75000 (Some 90000) 1000, tier 90000 (Some 105000) 500,
        tier 105000 None 0])"

definition state_year :: "dec \<Rightarrow> state_year_law" where
  "state_year rate =
     \<lparr>state_tax_type = Flat_Tax, flat_rate = Some rate,
      state_deduction = (\<lambda>status. Some (NC_STANDARD_DEDUCTION status)),
      child_deduction_tiers = (\<lambda>status. Some (NC_CHILD_DEDUCTION_TIERS status))\<rparr>"

section \<open>The shipped years\<close>

definition SOURCES_2025 :: "string list" where
  "SOURCES_2025 =
     [''IRS Rev. Proc. 2024-40, sec. 3.01 (tax rate tables) and sec. 3.15 (standard deduction)'',
      ''P.L. 119-21 sec. 70104 (child tax credit $2,200 per child)'',
      ''2025 Schedule 8812 instructions (refundable child tax credit $1,700 per child)'',
      ''IRC sec. 24(h)(4) (credit for other dependents $500)'',
      ''SSA 2025 COLA fact sheet (Social Security wage base $176,100)'',
      ''IRC sec. 3101(a) and (b)(1) (Social Security 6.2%, Medicare 1.45%); sec. 3102(f) (Additional Medicare 0.9% withheld on wages over $200,000)'',
      ''N.C.G.S. 105-153.7(a) (North Carolina flat rate 4.25% for 2025)'',
      ''N.C.G.S. 105-153.5(a)(1) and (a1) (North Carolina standard and child deductions)'']"

definition FEDERAL_2025 :: "filing_status \<Rightarrow> federal_rules" where
  "FEDERAL_2025 status = (case status of
     Single \<Rightarrow>
       \<lparr>standard_deduction = 15000, child_credit_amount = 2200, other_dependent_credit_amount = 500,
        child_credit_refundable_cap = 1700,
        brackets = ladder
         [(0, Some 11925, four_places 1000), (11925, Some 48475, four_places 1200),
          (48475, Some 103350, four_places 2200), (103350, Some 197300, four_places 2400),
          (197300, Some 250525, four_places 3200), (250525, Some 626350, four_places 3500),
          (626350, None, four_places 3700)]\<rparr>
   | Married_Jointly \<Rightarrow>
       \<lparr>standard_deduction = 30000, child_credit_amount = 2200, other_dependent_credit_amount = 500,
        child_credit_refundable_cap = 1700,
        brackets = ladder
         [(0, Some 23850, four_places 1000), (23850, Some 96950, four_places 1200),
          (96950, Some 206700, four_places 2200), (206700, Some 394600, four_places 2400),
          (394600, Some 501050, four_places 3200), (501050, Some 751600, four_places 3500),
          (751600, None, four_places 3700)]\<rparr>
   | Married_Separately \<Rightarrow>
       \<lparr>standard_deduction = 15000, child_credit_amount = 2200, other_dependent_credit_amount = 500,
        child_credit_refundable_cap = 1700,
        brackets = ladder
         [(0, Some 11925, four_places 1000), (11925, Some 48475, four_places 1200),
          (48475, Some 103350, four_places 2200), (103350, Some 197300, four_places 2400),
          (197300, Some 250525, four_places 3200), (250525, Some 375800, four_places 3500),
          (375800, None, four_places 3700)]\<rparr>
   | Head_Of_Household \<Rightarrow>
       \<lparr>standard_deduction = 22500, child_credit_amount = 2200, other_dependent_credit_amount = 500,
        child_credit_refundable_cap = 1700,
        brackets = ladder
         [(0, Some 17000, four_places 1000), (17000, Some 64850, four_places 1200),
          (64850, Some 103350, four_places 2200), (103350, Some 197300, four_places 2400),
          (197300, Some 250500, four_places 3200), (250500, Some 626350, four_places 3500),
          (626350, None, four_places 3700)]\<rparr>)"

definition FICA_2025 :: fica_rules where
  "FICA_2025 = \<lparr>ss_rate = four_places 620, ss_wage_base = 176100, medicare_rate = four_places 145,
     medicare_surtax_rate = four_places 90, medicare_surtax_threshold = 200000\<rparr>"

definition YEAR_2025 :: tax_year_law where
  "YEAR_2025 = \<lparr>tax_year = 2025, law_sources = SOURCES_2025, federal = (\<lambda>status. Some (FEDERAL_2025 status)),
     fica = FICA_2025, states = [(''NC'', state_year (four_places 425))]\<rparr>"

definition SOURCES_2026 :: "string list" where
  "SOURCES_2026 =
     [''IRS Rev. Proc. 2025-32, sec. 4.01 (tax rate tables), sec. 4.05 (child tax credit $2,200; refundable $1,700 per child) and sec. 4.14 (standard deduction)'',
      ''IRC sec. 24(h)(4) (credit for other dependents $500)'',
      ''SSA 2026 COLA fact sheet (Social Security wage base $184,500)'',
      ''IRC sec. 3101(a) and (b)(1) (Social Security 6.2%, Medicare 1.45%); sec. 3102(f) (Additional Medicare 0.9% withheld on wages over $200,000)'',
      ''N.C.G.S. 105-153.7(a) (North Carolina flat rate 3.99% after 2025)'',
      ''N.C.G.S. 105-153.5(a)(1) and (a1) (North Carolina standard and child deductions)'']"

definition FEDERAL_2026 :: "filing_status \<Rightarrow> federal_rules" where
  "FEDERAL_2026 status = (case status of
     Single \<Rightarrow>
       \<lparr>standard_deduction = 16100, child_credit_amount = 2200, other_dependent_credit_amount = 500,
        child_credit_refundable_cap = 1700,
        brackets = ladder
         [(0, Some 12400, four_places 1000), (12400, Some 50400, four_places 1200),
          (50400, Some 105700, four_places 2200), (105700, Some 201775, four_places 2400),
          (201775, Some 256225, four_places 3200), (256225, Some 640600, four_places 3500),
          (640600, None, four_places 3700)]\<rparr>
   | Married_Jointly \<Rightarrow>
       \<lparr>standard_deduction = 32200, child_credit_amount = 2200, other_dependent_credit_amount = 500,
        child_credit_refundable_cap = 1700,
        brackets = ladder
         [(0, Some 24800, four_places 1000), (24800, Some 100800, four_places 1200),
          (100800, Some 211400, four_places 2200), (211400, Some 403550, four_places 2400),
          (403550, Some 512450, four_places 3200), (512450, Some 768700, four_places 3500),
          (768700, None, four_places 3700)]\<rparr>
   | Married_Separately \<Rightarrow>
       \<lparr>standard_deduction = 16100, child_credit_amount = 2200, other_dependent_credit_amount = 500,
        child_credit_refundable_cap = 1700,
        brackets = ladder
         [(0, Some 12400, four_places 1000), (12400, Some 50400, four_places 1200),
          (50400, Some 105700, four_places 2200), (105700, Some 201775, four_places 2400),
          (201775, Some 256225, four_places 3200), (256225, Some 384350, four_places 3500),
          (384350, None, four_places 3700)]\<rparr>
   | Head_Of_Household \<Rightarrow>
       \<lparr>standard_deduction = 24150, child_credit_amount = 2200, other_dependent_credit_amount = 500,
        child_credit_refundable_cap = 1700,
        brackets = ladder
         [(0, Some 17700, four_places 1000), (17700, Some 67450, four_places 1200),
          (67450, Some 105700, four_places 2200), (105700, Some 201775, four_places 2400),
          (201775, Some 256200, four_places 3200), (256200, Some 640600, four_places 3500),
          (640600, None, four_places 3700)]\<rparr>)"

definition FICA_2026 :: fica_rules where
  "FICA_2026 = \<lparr>ss_rate = four_places 620, ss_wage_base = 184500, medicare_rate = four_places 145,
     medicare_surtax_rate = four_places 90, medicare_surtax_threshold = 200000\<rparr>"

definition YEAR_2026 :: tax_year_law where
  "YEAR_2026 = \<lparr>tax_year = 2026, law_sources = SOURCES_2026, federal = (\<lambda>status. Some (FEDERAL_2026 status)),
     fica = FICA_2026, states = [(''NC'', state_year (four_places 399))]\<rparr>"

definition LAW :: tax_law where
  "LAW = \<lparr>law_years = [YEAR_2025, YEAR_2026]\<rparr>"

section \<open>Which year's law prices a year\<close>

record state_tax_rules =
  rules_state_code :: string
  rules_tax_type_id :: int
  rules_flat_rate :: "dec option"
  rules_standard_deduction :: dec
  rules_child_tiers :: "child_deduction_tier list"

record profile_tax_series =
  bracket_sets :: "(int \<times> federal_rules) list"
  state_configs :: "(int \<times> state_tax_rules) list"
  fica_configs :: "(int \<times> fica_rules) list"

record salary_profile =
  filing_status_id :: int
  profile_state :: string

record tax_configs =
  bracket_set :: "federal_rules option"
  state_config :: "state_tax_rules option"
  fica_config :: "fica_rules option"

definition state_rules :: "(tax_type \<Rightarrow> int) \<Rightarrow> string \<Rightarrow> state_year_law \<Rightarrow> filing_status \<Rightarrow> state_tax_rules" where
  "state_rules tax_type_id code s status =
     \<lparr>rules_state_code = code, rules_tax_type_id = tax_type_id (state_tax_type s), rules_flat_rate = flat_rate s,
      rules_standard_deduction = the (state_deduction s status),
      rules_child_tiers = the (child_deduction_tiers s status)\<rparr>"

text \<open>
  The reference rows live in the database: the id of a tax type and the member behind a filing status
  id are arguments.\<close>

definition profile_tax_series ::
  "tax_law \<Rightarrow> (tax_type \<Rightarrow> int) \<Rightarrow> (int \<rightharpoonup> filing_status) \<Rightarrow> salary_profile \<Rightarrow> profile_tax_series res" where
  "profile_tax_series law tax_type_id member profile =
     (if \<not> supports law (profile_state profile) then Inl UnsupportedStateError
      else Inr
        \<lparr>bracket_sets = (case member (filing_status_id profile) of None \<Rightarrow> []
            | Some status \<Rightarrow> map (\<lambda>y. (tax_year y, the (federal y status))) (law_years law)),
         state_configs = (case member (filing_status_id profile) of None \<Rightarrow> []
            | Some status \<Rightarrow> map (\<lambda>y. (tax_year y, state_rules tax_type_id (profile_state profile)
                  (the (map_of (states y) (profile_state profile))) status))
                (years_listing law (profile_state profile))),
         fica_configs = map (\<lambda>y. (tax_year y, fica y)) (law_years law)\<rparr>)"

definition resolve_tax_year :: "int \<Rightarrow> int list \<Rightarrow> int option" where
  "resolve_tax_year year configured =
     (let at_or_before = [y \<leftarrow> configured. y \<le> year]
      in if at_or_before \<noteq> [] then Some (Max (set at_or_before))
         else if configured \<noteq> [] then Some (Min (set configured)) else None)"

definition pick :: "(int \<times> 'r) list \<Rightarrow> int \<Rightarrow> (int \<times> 'r) option" where
  "pick series year =
     (case resolve_tax_year year (map fst series) of None \<Rightarrow> None
      | Some resolved \<Rightarrow> Some (resolved, the (map_of series resolved)))"

definition configs_from_series :: "profile_tax_series \<Rightarrow> int \<Rightarrow> tax_configs" where
  "configs_from_series series year =
     \<lparr>bracket_set = map_option snd (pick (bracket_sets series) year),
      state_config = map_option snd (pick (state_configs series) year),
      fica_config = map_option snd (pick (fica_configs series) year)\<rparr>"

definition load_tax_configs_for_year ::
  "tax_law \<Rightarrow> (tax_type \<Rightarrow> int) \<Rightarrow> (int \<rightharpoonup> filing_status) \<Rightarrow> salary_profile \<Rightarrow> int \<Rightarrow> tax_configs res" where
  "load_tax_configs_for_year law tax_type_id member profile year =
     bind_res (profile_tax_series law tax_type_id member profile)
       (\<lambda>series. Inr (configs_from_series series year))"

definition configs_by_year :: "profile_tax_series \<Rightarrow> int list \<Rightarrow> (int \<rightharpoonup> tax_configs)" where
  "configs_by_year series tax_years =
     (\<lambda>year. if year \<in> set tax_years then Some (configs_from_series series year) else None)"

section \<open>What a checked figure is\<close>

definition is_amount :: "dec \<Rightarrow> bool" where
  "is_amount v \<longleftrightarrow> is_cents v \<and> 0 \<le> v \<and> v < 10 ^ 10"

definition is_rate :: "dec \<Rightarrow> bool" where
  "is_rate v \<longleftrightarrow> places 4 v \<and> 0 \<le> v \<and> v \<le> 1"

lemma rounded_places:
  assumes "v = of_int (round_half_even (v * 10 ^ k)) / 10 ^ k"
  shows "places k v"
  using assms by (rule placesI)

lemma require_fit_ok:
  assumes "require_fit v (int b, a) = Inr u"
  shows "places a v" "\<bar>v\<bar> < 10 ^ b"
proof -
  show "places a v" using assms by (intro rounded_places) (simp add: require_fit_def)
  have "v = 0 \<or> adj_exp v < int b" using assms by (auto simp: require_fit_def)
  then show "\<bar>v\<bar> < 10 ^ b"
  proof
    assume "adj_exp v < int b"
    then have "(10::rat) powi (adj_exp v + 1) \<le> 10 powi (int b)" by (intro power_int_increasing) simp_all
    then show ?thesis using adj_exp_bounds(2)[of v] by (cases "v = 0") simp_all
  qed simp
qed

lemma require_amount_ok: "require_amount v z = Inr u \<Longrightarrow> is_amount v \<and> (z \<longrightarrow> 0 < v)"
  using require_fit_ok[of v 10 2 "()"] by (auto simp: require_amount_def AMOUNT_DIGITS_def is_amount_def places_2)

lemma require_rate_ok: "require_rate v = Inr u \<Longrightarrow> is_rate v"
  using require_fit_ok(1)[of v 1 4 "()"] by (auto simp: require_rate_def RATE_DIGITS_def is_rate_def)

lemma require_upper_bound_ok:
  "require_upper_bound l h = Inr u \<Longrightarrow> (case h of None \<Rightarrow> True | Some m \<Rightarrow> is_amount m \<and> l < m)"
  by (auto simp: require_upper_bound_def dest!: require_amount_ok split: option.splits)

section \<open>Tables that climb\<close>

text \<open>
  A table of rungs \<open>(low, high]\<close>: the first starts at a bound, each starts where the one below ends,
  and only the last is open.\<close>

fun climbs :: "dec \<Rightarrow> (dec \<times> dec option) list \<Rightarrow> bool" where
  "climbs from [] \<longleftrightarrow> False"
| "climbs from ((low, None) # rest) \<longleftrightarrow> low = from \<and> rest = []"
| "climbs from ((low, Some high) # rest) \<longleftrightarrow> low = from \<and> low < high \<and> climbs high rest"

definition in_rung :: "dec \<Rightarrow> dec \<times> dec option \<Rightarrow> bool" where
  "in_rung x b \<longleftrightarrow> fst b < x \<and> (case snd b of None \<Rightarrow> True | Some high \<Rightarrow> x \<le> high)"

lemma climbs_hd: "climbs from bs \<Longrightarrow> bs \<noteq> [] \<and> fst (hd bs) = from"
  by (induction "from" bs rule: climbs.induct) auto

lemma climbs_above: "climbs from bs \<Longrightarrow> b \<in> set bs \<Longrightarrow> from \<le> fst b"
  by (induction "from" bs rule: climbs.induct) (auto intro: order_trans)

lemma require_climb_climbs:
  assumes "list_all (\<lambda>c. c = Inr ())
      (map (\<lambda>((_, below_high), (above_low, _)). require (below_high = Some above_low)) (zip bs (tl bs)))"
    and "bs \<noteq> []" "snd (last bs) = None" "\<forall>(l, h) \<in> set bs. case h of None \<Rightarrow> True | Some m \<Rightarrow> l < m"
  shows "climbs (fst (hd bs)) bs"
  using assms
proof (induction bs rule: induct_list012)
  case (3 a b bs)
  obtain l h where a: "a = (l, h)" by (cases a)
  have "h = Some (fst b)" using "3.prems"(1) by (cases b) (simp add: a)
  moreover have "climbs (fst (hd (b # bs))) (b # bs)" using "3.prems" by (intro "3.IH"(2)) auto
  ultimately show ?case using "3.prems"(4) by (simp add: a)
qed auto

lemma require_climb_ok:
  assumes "require_climb bs = Inr u" "\<forall>(l, h) \<in> set bs. case h of None \<Rightarrow> True | Some m \<Rightarrow> l < m"
  shows "climbs 0 bs"
  using require_climb_climbs[of bs] assms by (auto simp: require_climb_def)

lemma climbs_covers:
  assumes "climbs from bs" "from < x"
  shows "\<exists>!i. i < length bs \<and> in_rung x (bs ! i)"
  using assms
proof (induction "from" bs rule: climbs.induct)
  case (3 "from" low high rest)
  note c = "3.prems"(1)[simplified]
  show ?case
  proof (cases "x \<le> high")
    case True
    have "\<not> in_rung x b" if "b \<in> set rest" for b
      using climbs_above[of high rest b] that c True by (auto simp: in_rung_def)
    then have "i = 0" if "i < length ((low, Some high) # rest)" "in_rung x (((low, Some high) # rest) ! i)" for i
      using that by (cases i) auto
    then show ?thesis using c True "3.prems"(2) by (intro ex1I[of _ 0]) (auto simp: in_rung_def)
  next
    case False
    then obtain i where i: "i < length rest" "in_rung x (rest ! i)"
        "\<And>j. j < length rest \<Longrightarrow> in_rung x (rest ! j) \<Longrightarrow> j = i"
      using "3.IH" c by (metis not_le)
    show ?thesis
    proof (intro ex1I[of _ "Suc i"] conjI)
      fix j assume "j < length ((low, Some high) # rest) \<and> in_rung x (((low, Some high) # rest) ! j)"
      then show "j = Suc i" using i(3) False by (cases j) (auto simp: in_rung_def)
    qed (use i(1,2) in simp_all)
  qed
next
  case (2 "from" low rest)
  then show ?case by (intro ex1I[of _ 0]) (simp_all add: in_rung_def)
qed simp

abbreviation rung :: "tax_bracket \<Rightarrow> dec \<times> dec option" where
  "rung b \<equiv> (min_income b, max_income b)"

text \<open>What the checks leave of the federal rules.\<close>

definition sound_rules :: "federal_rules \<Rightarrow> bool" where
  "sound_rules f \<longleftrightarrow>
     is_amount (standard_deduction f) \<and> is_amount (child_credit_amount f) \<and>
     is_amount (other_dependent_credit_amount f) \<and> is_amount (child_credit_refundable_cap f) \<and>
     climbs 0 (map rung (brackets f)) \<and> map sort_order (brackets f) = map int [0..<length (brackets f)] \<and>
     (\<forall>b \<in> set (brackets f). is_amount (min_income b) \<and> is_rate (bracket_rate b) \<and>
        (case max_income b of None \<Rightarrow> True | Some m \<Rightarrow> is_amount m \<and> min_income b < m))"

lemma check_bracket_ok:
  "check_bracket b = Inr u \<Longrightarrow> is_amount (min_income b) \<and> is_rate (bracket_rate b) \<and>
     (case max_income b of None \<Rightarrow> True | Some m \<Rightarrow> is_amount m \<and> min_income b < m)"
  by (auto simp: check_bracket_def dest!: require_amount_ok require_rate_ok require_upper_bound_ok)

lemma check_federal_ok:
  assumes "check_federal f = Inr u"
  shows "sound_rules f"
proof -
  have c: "require_climb (map rung (brackets f)) = Inr ()" "list_all (\<lambda>b. check_bracket b = Inr ()) (brackets f)"
    using assms by (simp_all add: check_federal_def require_rungs_def list.pred_map o_def)
  then have b: "\<forall>b \<in> set (brackets f). is_amount (min_income b) \<and> is_rate (bracket_rate b) \<and>
        (case max_income b of None \<Rightarrow> True | Some m \<Rightarrow> is_amount m \<and> min_income b < m)"
    using check_bracket_ok by (auto simp: list_all_iff)
  have "climbs 0 (map rung (brackets f))"
    by (rule require_climb_ok[OF c(1)]) (use b in \<open>auto split: option.splits\<close>)
  then show ?thesis using assms b by (auto simp: sound_rules_def check_federal_def dest!: require_amount_ok)
qed

lemma check_law_years: "check_law l = Inr u \<Longrightarrow> y \<in> set (law_years l) \<Longrightarrow> check_tax_year y = Inr ()"
  by (auto simp: check_law_def Let_def list_all_iff)

section \<open>The shipped law\<close>

lemma require_fit_intro:
  assumes "places a v" "\<bar>v\<bar> < 10 ^ b"
  shows "require_fit v (int b, a) = Inr ()"
proof -
  obtain n where n: "v = of_int n / 10 ^ a" using assms(1) by (auto simp: places_iff)
  then have "round_half_even (v * 10 ^ a) = n" by (simp add: half_even.of_int_fixed)
  moreover have "adj_exp v < int b" if "v \<noteq> 0"
  proof (rule pow10_less_imp_less)
    show "(10::rat) powi adj_exp v < 10 powi int b" using adj_exp_bounds(1)[OF that] assms(2) by simp
  qed
  ultimately show ?thesis using n by (auto simp: require_fit_def)
qed

lemma require_amount_iff: "require_amount v z = Inr () \<longleftrightarrow> is_amount v \<and> (z \<longrightarrow> 0 < v)"
proof
  show "require_amount v z = Inr () \<Longrightarrow> is_amount v \<and> (z \<longrightarrow> 0 < v)" by (rule require_amount_ok)
next
  assume a: "is_amount v \<and> (z \<longrightarrow> 0 < v)"
  then have "require_fit v AMOUNT_DIGITS = Inr ()"
    using require_fit_intro[of 2 v 10] by (simp add: is_amount_def AMOUNT_DIGITS_def places_2)
  then show "require_amount v z = Inr ()" using a by (auto simp: require_amount_def is_amount_def)
qed

lemma require_rate_iff: "require_rate v = Inr () \<longleftrightarrow> is_rate v"
proof
  assume a: "is_rate v"
  then have "require_fit v RATE_DIGITS = Inr ()"
    using require_fit_intro[of 4 v 1] by (simp add: is_rate_def RATE_DIGITS_def)
  then show "require_rate v = Inr ()" using a by (auto simp: require_rate_def is_rate_def)
qed (rule require_rate_ok)

text \<open>Literal figures are recognised by their value.\<close>

lemma literal_amount [simp]:
  "is_amount 0" "is_amount 1" "is_amount (numeral n) \<longleftrightarrow> (numeral n :: rat) < 10 ^ 10"
  by (auto simp: is_amount_def)

lemma literal_rate [simp]: "is_rate (four_places n) \<longleftrightarrow> 0 \<le> n \<and> n \<le> 10000"
proof -
  have "places 4 (four_places n)" by (rule placesI[of _ n]) (simp add: four_places_def)
  moreover have "(of_int n :: rat) \<le> 10000 \<longleftrightarrow> n \<le> 10000" by (metis of_int_le_iff of_int_numeral)
  ultimately show ?thesis by (simp add: is_rate_def) (simp add: four_places_def)
qed

lemmas check_defs = check_federal_def check_bracket_def require_rungs_def require_upper_bound_def require_climb_def
  require_amount_iff require_rate_iff ladder_def enumerate_eq_zip check_tier_def check_state_def check_fica_def
  state_year_def tier_def require_every_status_def filing_statuses_def items_def List.map_filter_def

lemma federal_rules_load: "check_federal (FEDERAL_2025 s) = Inr ()" "check_federal (FEDERAL_2026 s) = Inr ()"
  by (cases s; simp add: FEDERAL_2025_def FEDERAL_2026_def check_defs upt_conv_Cons)+

lemma state_loads: "0 < n \<Longrightarrow> n \<le> 10000 \<Longrightarrow> check_state (state_year (four_places n)) = Inr ()"
proof -
  assume n: "0 < n" "n \<le> 10000"
  have "four_places n \<noteq> 0" using n by (simp add: four_places_def)
  moreover have "require_amount (NC_STANDARD_DEDUCTION s) False = Inr ()" for s
    by (cases s) (simp_all add: NC_STANDARD_DEDUCTION_def require_amount_iff)
  moreover have "require_rungs check_tier (NC_CHILD_DEDUCTION_TIERS s) = Inr ()" for s
    by (cases s) (simp_all add: NC_CHILD_DEDUCTION_TIERS_def SINGLE_OR_SEPARATE_TIERS_def check_defs)
  moreover have "require_climb (map (\<lambda>t. (agi_min t, agi_max t)) (NC_CHILD_DEDUCTION_TIERS s)) = Inr ()" for s
    by (cases s) (simp_all add: NC_CHILD_DEDUCTION_TIERS_def SINGLE_OR_SEPARATE_TIERS_def check_defs)
  ultimately show ?thesis using n
    by (simp add: check_state_def state_year_def require_rate_iff require_every_status_def items_def
        filing_statuses_def List.map_filter_def)
qed

lemma sources_cited:
  "list_all (\<lambda>s. list_ex (\<lambda>c. \<not> is_whitespace c) s) SOURCES_2025"
  "list_all (\<lambda>s. list_ex (\<lambda>c. \<not> is_whitespace c) s) SOURCES_2026"
  by (simp_all add: SOURCES_2025_def SOURCES_2026_def is_whitespace_def)

lemma law_checks: "check_law LAW = Inr ()"
proof -
  have "check_fica FICA_2025 = Inr ()" "check_fica FICA_2026 = Inr ()"
    by (simp_all add: check_fica_def FICA_2025_def FICA_2026_def require_rate_iff require_amount_iff)
  moreover have "is_state_code ''NC''" by code_simp
  moreover have "SOURCES_2025 \<noteq> []" "SOURCES_2026 \<noteq> []" by (simp_all add: SOURCES_2025_def SOURCES_2026_def)
  ultimately have "check_tax_year YEAR_2025 = Inr ()" "check_tax_year YEAR_2026 = Inr ()"
    using federal_rules_load sources_cited state_loads
    by (simp_all add: check_tax_year_def YEAR_2025_def YEAR_2026_def FIRST_TAX_YEAR_def LAST_TAX_YEAR_def
        require_every_status_def filing_statuses_def items_def List.map_filter_def)
  then show ?thesis
    by (simp add: check_law_def LAW_def) (simp add: YEAR_2025_def YEAR_2026_def upto.simps)
qed

section \<open>No income without a rung\<close>

lemma every_status: "require_every_status m = Inr u \<Longrightarrow> \<exists>r. m s = Some r"
  by (cases s) (auto simp: require_every_status_def filing_statuses_def)

lemma in_items: "m s = Some r \<Longrightarrow> r \<in> set (items m)"
  by (cases s) (auto simp: items_def filing_statuses_def List.map_filter_def)

lemma unique_in_list: "\<exists>!i. i < length xs \<and> P (xs ! i) \<Longrightarrow> \<exists>!x. x \<in> set xs \<and> P x"
  by (metis in_set_conv_nth)

lemma unique_rung:
  assumes "climbs 0 (map f xs)" "0 < x"
  shows "\<exists>!b. b \<in> set xs \<and> in_rung x (f b)"
proof -
  have "\<exists>!i. i < length xs \<and> in_rung x (f (xs ! i))" using climbs_covers[OF assms] by (auto cong: conj_cong)
  then show ?thesis by (rule unique_in_list)
qed

lemma check_tier_table:
  assumes "require_rungs check_tier tiers = Inr u" "require_climb (map (\<lambda>t. (agi_min t, agi_max t)) tiers) = Inr v"
  shows "climbs 0 (map (\<lambda>t. (agi_min t, agi_max t)) tiers)"
proof (rule require_climb_ok[OF assms(2)])
  have "\<forall>t \<in> set tiers. require_upper_bound (agi_min t) (agi_max t) = Inr ()"
    using assms(1) by (auto simp: require_rungs_def check_tier_def list_all_iff)
  then show "\<forall>(l, h) \<in> set (map (\<lambda>t. (agi_min t, agi_max t)) tiers). case h of None \<Rightarrow> True | Some m \<Rightarrow> l < m"
    by (auto dest!: require_upper_bound_ok split: option.splits)
qed

lemma checked_year_federal:
  assumes "check_tax_year y = Inr u"
  obtains f where "federal y s = Some f" "sound_rules f"
proof -
  obtain f where f: "federal y s = Some f"
    using assms every_status[of "federal y" "()" s] by (auto simp: check_tax_year_def)
  then have "check_federal f = Inr ()"
    using assms in_items[of "federal y"] by (fastforce simp: check_tax_year_def list_all_iff)
  then show ?thesis using that[OF f] check_federal_ok by blast
qed

lemma checked_year_state:
  assumes "check_tax_year y = Inr u" "(code, st) \<in> set (states y)"
  shows "check_state st = Inr ()"
  using assms by (fastforce simp: check_tax_year_def list_all_iff)

lemma checked_state_tiers:
  assumes "check_state st = Inr u"
  obtains tiers where "child_deduction_tiers st s = Some tiers"
    "tiers = [] \<or> climbs 0 (map (\<lambda>t. (agi_min t, agi_max t)) tiers)"
proof -
  obtain tiers where t: "child_deduction_tiers st s = Some tiers"
    using assms every_status[of "child_deduction_tiers st" "()" s] by (auto simp: check_state_def)
  let ?check = "\<lambda>tiers. all_checked [require_rungs check_tier tiers,
      if tiers \<noteq> [] then require_climb (map (\<lambda>t. (agi_min t, agi_max t)) tiers) else Inr ()]"
  have "list_all (\<lambda>c. c = Inr ()) (map ?check (items (child_deduction_tiers st)))"
    using assms by (simp only: check_state_def all_checked_ok list_all_append)
  then have "?check tiers = Inr ()"
    using in_items[of "child_deduction_tiers st", OF t] unfolding list_all_iff by (metis (no_types, lifting) imageI set_map)
  then show ?thesis using that[OF t] check_tier_table[of tiers "()" "()"] by (auto split: if_splits)
qed

lemma checked_years:
  assumes "check_law l = Inr u" "y \<in> set (law_years l)"
  shows "map tax_year (law_years l) = [tax_year (hd (law_years l)) .. tax_year (hd (law_years l)) + int (length (law_years l)) - 1]"
    "fst ` set (states y) \<subseteq> fst ` set (states (hd (law_years l)))"
proof -
  let ?n = "map tax_year (law_years l)"
  have ne: "law_years l \<noteq> []" using assms(2) by auto
  have n: "?n = [hd ?n .. last ?n]" using assms(1) ne by (auto simp: check_law_def Let_def)
  then have "length (law_years l) = nat (last ?n - hd ?n + 1)" using length_upto[of "hd ?n" "last ?n"] by (metis length_map)
  moreover have "0 < length (law_years l)" using ne by simp
  ultimately have "last ?n = hd ?n + int (length (law_years l)) - 1" by linarith
  then show "?n = [tax_year (hd (law_years l)) .. tax_year (hd (law_years l)) + int (length (law_years l)) - 1]"
    using n ne by (simp add: hd_map)
  have "\<forall>y \<in> set (tl (law_years l)). list_all (\<lambda>(code, _). code \<in> set (map fst (states (hd (law_years l))))) (states y)"
    using assms(1) unfolding check_law_def Let_def all_checked_ok list_all_append by (simp add: list_all_iff)
  then have "\<forall>(code, st) \<in> set (states y). code \<in> set (map fst (states (hd (law_years l))))" if "y \<noteq> hd (law_years l)"
    using assms(2) that by (cases "law_years l") (auto simp: list_all_iff)
  then show "fst ` set (states y) \<subseteq> fst ` set (states (hd (law_years l)))" by (cases "y = hd (law_years l)") auto
qed

text \<open>
  C19: a law its checks accept leaves no gap.  Its years follow one another without one missing or
  repeated, and a state of any year is a state of the first; and in every year, for every filing status,
  each positive taxable income lies in exactly one bracket of the federal ladder, whose rate is a fraction,
  and in every state listed each positive income lies in exactly one tier of the child deduction, where the
  state has one.\<close>

theorem checked_law_leaves_no_gap:
  assumes "check_law l = Inr ()" "y \<in> set (law_years l)" "0 < x"
  shows "map tax_year (law_years l) = [tax_year (hd (law_years l)) .. tax_year (hd (law_years l)) + int (length (law_years l)) - 1] \<and>
    fst ` set (states y) \<subseteq> fst ` set (states (hd (law_years l))) \<and>
    (\<exists>f. federal y status = Some f \<and>
      (\<exists>!b. b \<in> set (brackets f) \<and> in_rung x (rung b)) \<and>
      (\<forall>b \<in> set (brackets f). 0 \<le> bracket_rate b \<and> bracket_rate b \<le> 1)) \<and>
    (\<forall>(code, st) \<in> set (states y). \<exists>tiers. child_deduction_tiers st status = Some tiers \<and>
      (tiers = [] \<or> (\<exists>!t. t \<in> set tiers \<and> in_rung x (agi_min t, agi_max t))))"
proof (intro conjI checked_years[OF assms(1,2)])
  have y: "check_tax_year y = Inr ()" by (rule check_law_years[OF assms(1,2)])
  obtain f where f: "federal y status = Some f" "sound_rules f" by (rule checked_year_federal[OF y])
  then show "\<exists>f. federal y status = Some f \<and> (\<exists>!b. b \<in> set (brackets f) \<and> in_rung x (rung b)) \<and>
      (\<forall>b \<in> set (brackets f). 0 \<le> bracket_rate b \<and> bracket_rate b \<le> 1)"
    using unique_rung[of rung "brackets f" x] assms(3) by (auto simp: sound_rules_def is_rate_def)
  show "\<forall>(code, st) \<in> set (states y). \<exists>tiers. child_deduction_tiers st status = Some tiers \<and>
      (tiers = [] \<or> (\<exists>!t. t \<in> set tiers \<and> in_rung x (agi_min t, agi_max t)))"
  proof clarify
    fix code st assume "(code, st) \<in> set (states y)"
    then have "check_state st = Inr ()" by (rule checked_year_state[OF y])
    then obtain tiers where "child_deduction_tiers st status = Some tiers"
        "tiers = [] \<or> climbs 0 (map (\<lambda>t. (agi_min t, agi_max t)) tiers)" by (rule checked_state_tiers)
    then show "\<exists>tiers. child_deduction_tiers st status = Some tiers \<and>
        (tiers = [] \<or> (\<exists>!t. t \<in> set tiers \<and> in_rung x (agi_min t, agi_max t)))"
      using unique_rung[of "\<lambda>t. (agi_min t, agi_max t)" tiers x] assms(3) by blast
  qed
qed

lemma checked_law_leaves_no_gap_witness:
  "map tax_year (law_years LAW) = [2025, 2026] \<and> (\<exists>f. federal YEAR_2026 Single = Some f \<and> (\<exists>!b. b \<in> set (brackets f) \<and> in_rung 50400 (rung b)))"
proof -
  have "YEAR_2026 \<in> set (law_years LAW)" by (simp add: LAW_def)
  then show ?thesis using checked_law_leaves_no_gap[OF law_checks, of YEAR_2026 50400 Single]
    by (auto simp: LAW_def YEAR_2025_def YEAR_2026_def)
qed

section \<open>Which year prices a year\<close>

lemma resolve_tax_year_span:
  assumes "set configured = {a..b}" "a \<le> b"
  shows "resolve_tax_year y configured = Some (max a (min y b))"
proof -
  have ne: "configured \<noteq> []" using assms by auto
  have s: "set [c \<leftarrow> configured. c \<le> y] = {a..min y b}" using assms(1) by auto
  show ?thesis
  proof (cases "a \<le> y")
    case True
    then have "Max {a..min y b} = min y b" using assms(2) by (intro Max_eqI) auto
    moreover have "[c \<leftarrow> configured. c \<le> y] \<noteq> []" using s True assms(2) by (metis atLeastatMost_empty_iff2 min.bounded_iff set_empty)
    ultimately show ?thesis using s True assms(2) by (simp add: resolve_tax_year_def Let_def max_def)
  next
    case False
    then have "[c \<leftarrow> configured. c \<le> y] = []" using s by (metis atLeastatMost_empty_iff2 min.bounded_iff set_empty)
    moreover have "Min {a..b} = a" using assms(2) by (intro Min_eqI) auto
    ultimately show ?thesis using ne assms(1) False by (simp add: resolve_tax_year_def max_def min_def)
  qed
qed

lemma resolve_tax_year_in: "resolve_tax_year y cs = Some r \<Longrightarrow> r \<in> set cs"
proof -
  assume r: "resolve_tax_year y cs = Some r"
  have "Max (set [c \<leftarrow> cs. c \<le> y]) \<in> set [c \<leftarrow> cs. c \<le> y]" if "[c \<leftarrow> cs. c \<le> y] \<noteq> []"
    using that by (intro Max_in) (simp_all only: List.finite_set set_empty not_False_eq_True)
  moreover have "Min (set cs) \<in> set cs" if "cs \<noteq> []" using that by (intro Min_in) simp_all
  ultimately show ?thesis using r by (auto simp: resolve_tax_year_def Let_def split: if_splits)
qed

lemma resolve_tax_year_total: "cs \<noteq> [] \<Longrightarrow> \<exists>r. resolve_tax_year y cs = Some r"
  by (simp add: resolve_tax_year_def Let_def)

lemma resolve_latest:
  assumes "resolve_tax_year y cs = Some r" "c \<in> set cs" "c \<le> y"
  shows "r \<le> y \<and> c \<le> r"
proof -
  have ne: "[c \<leftarrow> cs. c \<le> y] \<noteq> []" using assms(2,3) by (auto simp: filter_empty_conv)
  then have r: "r = Max (set [c \<leftarrow> cs. c \<le> y])" using assms(1) by (auto simp: resolve_tax_year_def Let_def split: if_splits)
  have "r \<in> set [c \<leftarrow> cs. c \<le> y]" unfolding r using ne by (intro Max_in) (simp_all only: List.finite_set set_empty not_False_eq_True)
  moreover have "c \<le> r" unfolding r using assms(2,3) by (intro Max_ge) simp_all
  ultimately show ?thesis by simp
qed

lemma law_numbers:
  assumes "check_law l = Inr u" "law_years l \<noteq> []"
  defines "a \<equiv> tax_year (hd (law_years l))" and "b \<equiv> tax_year (last (law_years l))"
  shows "map tax_year (law_years l) = [a..b]" "a \<le> b" "distinct (map tax_year (law_years l))"
proof -
  show n: "map tax_year (law_years l) = [a..b]"
    using assms(1,2) by (simp add: check_law_def Let_def a_def b_def hd_map last_map)
  then have "[a..b] \<noteq> []" using assms(2) by auto
  then show "a \<le> b" by (simp add: upto_empty)
  show "distinct (map tax_year (law_years l))" unfolding n by simp
qed

lemma pick_keyed:
  assumes "distinct (map key ys)" "z \<in> set ys" "resolve_tax_year y (map key ys) = Some (key z)"
  shows "pick (map (\<lambda>z. (key z, val z)) ys) y = Some (key z, val z)"
proof -
  have "map_of (map (\<lambda>z. (key z, val z)) ys) (key z) = Some (val z)"
    using assms(1,2) by (intro map_of_is_SomeI) (auto simp: o_def)
  then show ?thesis using assms(3) by (simp add: pick_def o_def)
qed

lemma listed_from_the_first:
  assumes "check_law l = Inr u" "supports l code"
  shows "law_years l \<noteq> [] \<and> hd (law_years l) \<in> set (years_listing l code)"
proof -
  obtain y where y: "y \<in> set (law_years l)" "code \<in> fst ` set (states y)"
    using assms(2) by (auto simp: supports_def supported_states_def)
  then obtain z zs where zs: "law_years l = z # zs" by (cases "law_years l") auto
  have "list_all (\<lambda>c. c = Inr ()) (map (\<lambda>y. require (list_all (\<lambda>(code, _). code \<in> set (map fst (states z))) (states y))) zs)"
    using assms(1) by (simp only: check_law_def Let_def zs all_checked_ok list_all_append list.sel)
  then have "\<forall>y \<in> set zs. \<forall>c \<in> fst ` set (states y). c \<in> fst ` set (states z)"
    by (fastforce simp: list.pred_map list_all_iff)
  then have "code \<in> fst ` set (states z)" using y zs by auto
  then show ?thesis by (simp add: zs years_listing_def)
qed

text \<open>The state's year: the latest listing it by the year asked for, or the first of all.\<close>

lemma state_year_picked:
  assumes "check_law l = Inr ()" "supports l code"
  defines "first \<equiv> tax_year (hd (law_years l))" and "final \<equiv> tax_year (last (law_years l))"
  shows "\<exists>z \<in> set (years_listing l code). tax_year z \<le> max first (min year final) \<and>
    (\<forall>z' \<in> set (years_listing l code). tax_year z' \<le> year \<longrightarrow> tax_year z' \<le> tax_year z) \<and>
    resolve_tax_year year (map tax_year (years_listing l code)) = Some (tax_year z)"
proof -
  let ?zs = "years_listing l code"
  note ld = listed_from_the_first[OF assms(1,2)]
  note n = law_numbers[OF assms(1) conjunct1[OF ld], folded first_def final_def]
  have "map tax_year ?zs \<noteq> []" using ld by auto
  then obtain m where m: "resolve_tax_year year (map tax_year ?zs) = Some m" using resolve_tax_year_total by blast
  obtain z where z: "z \<in> set ?zs" "tax_year z = m" using resolve_tax_year_in[OF m] by auto
  have span: "first \<le> tax_year z' \<and> tax_year z' \<le> final" if "z' \<in> set ?zs" for z'
    using that arg_cong[OF n(1), of set] by (auto simp: years_listing_def)
  have latest: "tax_year z' \<le> m" if "z' \<in> set ?zs" "tax_year z' \<le> year" for z'
    using resolve_latest[OF m, of "tax_year z'"] that by simp
  have "m \<le> max first (min year final)"
  proof (cases "first \<le> year")
    case True
    then show ?thesis using resolve_latest[OF m, of first] ld span[OF z(1)] z(2) by (auto simp: first_def max_def)
  next
    case False
    then have "[c \<leftarrow> map tax_year ?zs. c \<le> year] = []" using span by (force simp: filter_empty_conv)
    then have "m = Min (set (map tax_year ?zs))" using m by (simp add: resolve_tax_year_def split: if_splits)
    then have "m \<le> first" using ld by (auto simp: first_def intro: Min_le)
    then show ?thesis by simp
  qed
  then show ?thesis using z m latest by blast
qed

lemma checked_federal_Some:
  assumes "check_law l = Inr ()" "y \<in> set (law_years l)"
  shows "Some (the (federal y status)) = federal y status"
  using checked_year_federal[OF check_law_years[OF assms], of status] by fastforce

text \<open>
  C20: which law prices a year.  Under an accepted law a profile of a state the law does not list is
  refused; any other profile is priced in every year: its federal and FICA rules are those of the year
  asked for, of the first year the law carries where it asks for an earlier one and of the last where it
  asks for a later one, and its state's rules are those of the latest year not after it that lists the
  state (or of the first), never of a later year than the federal rules.\<close>

theorem law_of_a_year:
  assumes "check_law l = Inr ()" "member (filing_status_id p) = Some status"
  defines "first \<equiv> tax_year (hd (law_years l))" and "final \<equiv> tax_year (last (law_years l))"
  shows "if supports l (profile_state p)
    then \<exists>y \<in> set (law_years l). \<exists>z \<in> set (years_listing l (profile_state p)). \<exists>cfg.
      load_tax_configs_for_year l type_id member p year = Inr cfg \<and>
      tax_year y = max first (min year final) \<and>
      bracket_set cfg = federal y status \<and> fica_config cfg = Some (fica y) \<and>
      tax_year z \<le> tax_year y \<and>
      (\<forall>z' \<in> set (years_listing l (profile_state p)). tax_year z' \<le> year \<longrightarrow> tax_year z' \<le> tax_year z) \<and>
      state_config cfg = Some (state_rules type_id (profile_state p)
        (the (map_of (states z) (profile_state p))) status)
    else load_tax_configs_for_year l type_id member p year = Inl UnsupportedStateError"
proof (cases "supports l (profile_state p)")
  case True
  let ?zs = "years_listing l (profile_state p)"
  note ne = conjunct1[OF listed_from_the_first[OF assms(1) True]]
  note n = law_numbers[OF assms(1) ne, folded first_def final_def]
  have "set (map tax_year (law_years l)) = {first..final}" using n(1) by simp
  note rs = resolve_tax_year_span[OF this n(2), of year]
  obtain y where y: "y \<in> set (law_years l)" "tax_year y = max first (min year final)"
    using resolve_tax_year_in[OF rs] by auto
  obtain z where z: "z \<in> set ?zs" "tax_year z \<le> max first (min year final)"
      "\<forall>z' \<in> set ?zs. tax_year z' \<le> year \<longrightarrow> tax_year z' \<le> tax_year z"
      "resolve_tax_year year (map tax_year ?zs) = Some (tax_year z)"
    using state_year_picked[OF assms(1) True, of year, folded first_def final_def] by blast
  have dz: "distinct (map tax_year ?zs)" using n(3) by (simp add: years_listing_def distinct_map_filter)
  have "load_tax_configs_for_year l type_id member p year = Inr
      \<lparr>bracket_set = federal y status,
       state_config = Some (state_rules type_id (profile_state p) (the (map_of (states z) (profile_state p))) status),
       fica_config = Some (fica y)\<rparr>"
    using True assms(2) rs y
    by (simp add: load_tax_configs_for_year_def profile_tax_series_def configs_from_series_def
        pick_keyed[OF n(3) y(1)] pick_keyed[OF dz z(1,4)] checked_federal_Some[OF assms(1) y(1)])
  then show ?thesis using True y z(2,3)
    by (simp) (intro bexI[OF _ y(1)] conjI bexI[OF _ z(1)] refl, simp_all)
qed (simp add: load_tax_configs_for_year_def profile_tax_series_def)

lemma law_of_a_year_witness:
  "\<exists>cfg. load_tax_configs_for_year LAW (\<lambda>_. 1) (\<lambda>_. Some Single) \<lparr>filing_status_id = 1, profile_state = ''NC''\<rparr> 2031 = Inr cfg \<and>
     bracket_set cfg = Some (FEDERAL_2026 Single)"
proof -
  have s: "supports LAW ''NC''" by (simp add: supports_def supported_states_def LAW_def YEAR_2025_def YEAR_2026_def)
  let ?p = "\<lparr>filing_status_id = 1, profile_state = ''NC''\<rparr>"
  have ends: "tax_year (hd (law_years LAW)) = 2025" "tax_year (last (law_years LAW)) = 2026"
    by (simp_all add: LAW_def YEAR_2025_def YEAR_2026_def)
  obtain y cfg where y: "y \<in> set (law_years LAW)" "tax_year y = max 2025 (min 2031 2026)"
      "load_tax_configs_for_year LAW (\<lambda>_. 1) (\<lambda>_. Some Single) ?p 2031 = Inr cfg" "bracket_set cfg = federal y Single"
    using law_of_a_year[OF law_checks, of "\<lambda>_. Some Single" ?p Single "\<lambda>_. 1" 2031, unfolded ends] s by auto
  then have "y = YEAR_2026" by (auto simp: LAW_def YEAR_2025_def)
  then show ?thesis using y(3,4) by (auto simp: YEAR_2026_def)
qed

end
