(* ===== verification/Payroll_Basis.thy ===== *)
theory Payroll_Basis
  imports Salary_Raises Tax_Law
begin

text \<open>
  \<open>app/services/payroll_basis.py\<close>: the base pay of a payday, walked from the pay entry in force through
  the raises and the changes of pay rhythm that come after it, and the rhythm changes no entry answers
  for.  The rows the walk reads (\<open>app/models/salary_profile.py\<close>, \<open>salary_pay_entry.py\<close>,
  \<open>paycheck_line.py\<close>, \<open>pay_stub.py\<close>) are records here; ids of reference rows (kinds, methods) appear as
  the enum members they stand for.  A line's recurrence rule is the set of paydays it admits: the
  recurrence engine that resolves it is not part of the model, and with it the memo of admitted paydays.
  The memo of walks is left out as well: a walk has no effect.
\<close>

section \<open>The rows\<close>

datatype line_kind = Taxable_Earning | Pre_Tax_Deduction | Post_Tax_Deduction | After_Tax_Earning

datatype calc_method = Flat | Percentage

datatype withholding_kind = Federal_Income | State_Income | Social_Security | Medicare

record paycheck_line =
  line_id :: int
  line_name :: string
  line_is_active :: bool
  line_kind_of :: line_kind
  line_method :: calc_method
  line_amount :: dec
  line_annual_cap :: "dec option"
  line_inflation_enabled :: bool
  line_inflation_rate :: "dec option"
  line_inflation_month :: "int option"
  line_target_account :: "int option"
  line_admits :: "(date \<Rightarrow> bool) option"

record stub_line =
  stub_line_id :: "int option"
  stub_line_kind :: line_kind
  stub_line_amount :: dec

record pay_stub =
  stub_payday :: date
  stub_base_pay :: dec
  use_for_pricing :: bool
  line_amounts :: "stub_line list"
  one_offs :: "stub_line list"
  withholdings :: "(withholding_kind \<times> dec) list"

record pay_profile = salary_profile +
  profile_raises :: "raise_terms list"
  pay_entries :: "(date \<times> dec) list"
  profile_lines :: "paycheck_line list"
  pay_stubs :: "pay_stub list"
  profile_created :: "date option"
  w4_additional_income :: dec
  w4_additional_deductions :: dec
  w4_qualifying_children :: int
  w4_other_dependents :: int
  w4_extra_withholding :: dec

record payroll_basis =
  profile :: pay_profile
  basis_calendar :: pay_calendar
  stated_raises :: "raise_terms list option"

definition basis_raises :: "payroll_basis \<Rightarrow> raise_terms list" where
  "basis_raises basis = (case stated_raises basis of None \<Rightarrow> profile_raises (profile basis) | Some raises \<Rightarrow> raises)"

definition line_applies_on :: "paycheck_line \<Rightarrow> date \<Rightarrow> bool" where
  "line_applies_on line payday = (case line_admits line of None \<Rightarrow> True | Some admits \<Rightarrow> admits payday)"

section \<open>The walk\<close>

record base_pay =
  per_paycheck :: dec
  base_cadence :: cadence

definition base_annual :: "dec \<Rightarrow> cadence \<Rightarrow> dec" where
  "base_annual pay c = dmul pay (periods_per_year c)"

text \<open>\<open>_carry\<close>: the same annual pay at another rhythm.\<close>

definition carry :: "dec \<Rightarrow> cadence \<Rightarrow> cadence \<Rightarrow> dec" where
  "carry pay paid_at to_cadence = round_money (ddiv (base_annual pay paid_at) (periods_per_year to_cadence))"

text \<open>\<open>_pay_list\<close> and \<open>_entry_for\<close>: the entry in force, the first one for a payday before it.\<close>

definition pay_list :: "payroll_basis \<Rightarrow> (date \<times> dec) list res" where
  "pay_list basis =
     (let entries = sort (pay_entries (profile basis)) in if entries = [] then Inl ValueError else Inr entries)"

fun entry_loop :: "date \<times> dec \<Rightarrow> (date \<times> dec) list \<Rightarrow> date \<Rightarrow> date \<times> dec" where
  "entry_loop chosen [] payday = chosen"
| "entry_loop chosen (entry # entries) payday = (if payday < fst entry then chosen else entry_loop entry entries payday)"

definition entry_for :: "payroll_basis \<Rightarrow> date \<Rightarrow> (date \<times> dec) res" where
  "entry_for basis payday = bind_res (pay_list basis) (\<lambda>entries. Inr (entry_loop (hd entries) entries payday))"

datatype pay_event = Rhythm_Begins era | Raise_Lands raise_terms

definition pay_events :: "era list \<Rightarrow> raise_terms list \<Rightarrow> date \<Rightarrow> date \<Rightarrow> (date \<times> nat \<times> nat \<times> pay_event) list" where
  "pay_events eras raises after through =
     sort_key (\<lambda>(landed, kind, rank, _). (landed, kind, rank))
       (map (\<lambda>e. (first_payday_of e, 0, 0, Rhythm_Begins e))
          [e \<leftarrow> drop 1 eras. after < first_payday_of e \<and> first_payday_of e \<le> through] @
        map (\<lambda>(landed, rank, t). (landed, 1, rank, Raise_Lands t)) (applications_between raises after through))"

text \<open>What the walk holds: the pay, the rhythm it is paid at, and the last rhythm change it carried pay over.\<close>

type_synonym walked = "dec \<times> cadence \<times> (date \<times> dec) option"

definition change_rhythm :: "date \<Rightarrow> cadence \<Rightarrow> walked \<Rightarrow> walked" where
  "change_rhythm landed rhythm w =
     (let (pay, paid_at, carried) = w
      in if periods_per_year rhythm \<noteq> periods_per_year paid_at
         then (carry pay paid_at rhythm, rhythm, Some (landed, base_annual pay paid_at))
         else (pay, rhythm, carried))"

fun pay_step :: "date \<times> nat \<times> nat \<times> pay_event \<Rightarrow> walked \<Rightarrow> walked res" where
  "pay_step (landed, _, _, Rhythm_Begins e) w =
     bind_res (pay_cadence (cadence_of (era_rhythm e))) (\<lambda>rhythm. Inr (change_rhythm landed rhythm w))"
| "pay_step (landed, _, _, Raise_Lands t) (pay, paid_at, carried) =
     bind_res (raise_pay pay t (periods_per_year paid_at)) (\<lambda>raised. Inr (raised, paid_at, carried))"

fun pay_steps :: "(date \<times> nat \<times> nat \<times> pay_event) list \<Rightarrow> walked \<Rightarrow> walked res" where
  "pay_steps [] w = Inr w"
| "pay_steps (e # es) w = bind_res (pay_step e w) (pay_steps es)"

record walked_pay =
  walked_base :: base_pay
  walked_entry :: date
  walked_carried :: "(date \<times> dec) option"

definition walk_pay :: "payroll_basis \<Rightarrow> date \<Rightarrow> walked_pay res" where
  "walk_pay basis payday =
     bind_res (entry_for basis payday) (\<lambda>(entry_payday, pay).
     bind_res (cadence_on (basis_calendar basis) entry_payday) (\<lambda>paid_at.
     bind_res (cadence_on (basis_calendar basis) payday) (\<lambda>final.
     bind_res (pay_steps (pay_events (cal_eras (basis_calendar basis)) (basis_raises basis) entry_payday payday)
                 (pay, paid_at, None)) (\<lambda>(pay, paid_at, carried).
       if periods_per_year final \<noteq> periods_per_year paid_at
       then Inr \<lparr>walked_base = \<lparr>per_paycheck = carry pay paid_at final, base_cadence = final\<rparr>,
                 walked_entry = entry_payday, walked_carried = Some (payday, base_annual pay paid_at)\<rparr>
       else Inr \<lparr>walked_base = \<lparr>per_paycheck = pay, base_cadence = final\<rparr>,
                 walked_entry = entry_payday, walked_carried = carried\<rparr>))))"

definition base_pay_on :: "payroll_basis \<Rightarrow> date \<Rightarrow> base_pay res" where
  "base_pay_on basis payday = bind_res (walk_pay basis payday) (\<lambda>w. Inr (walked_base w))"

text \<open>
  \<open>pay_event_on\<close>: what a paycheck announces.  A change of pay is the signed amount and whether it is
  stated a year; raises are listed.\<close>

datatype pay_notice = No_Notice | Pay_Change dec bool | Raises_Announced "raise_terms list"

definition pay_event_on :: "payroll_basis \<Rightarrow> derived_period \<Rightarrow> pay_notice res" where
  "pay_event_on basis period =
     (let payday = start_date period
      in bind_res (walk_pay basis payday) (\<lambda>w.
         bind_res (pay_list basis) (\<lambda>entries.
           if walked_entry w = payday \<and> payday \<noteq> fst (hd entries)
           then bind_res (span_containing (basis_calendar basis) (add_days payday (- 1))) (\<lambda>previous.
             case previous of None \<Rightarrow> Inr No_Notice
             | Some p \<Rightarrow> bind_res (base_pay_on basis (start_date p)) (\<lambda>before.
                 let base = walked_base w;
                     per_year = (periods_per_year (base_cadence before) \<noteq> periods_per_year (base_cadence base));
                     change = (if per_year
                               then dsub (base_annual (per_paycheck base) (base_cadence base))
                                      (base_annual (per_paycheck before) (base_cadence before))
                               else dsub (per_paycheck base) (per_paycheck before))
                 in if change = 0 then Inr No_Notice else Inr (Pay_Change change per_year)))
           else let announced = announced_raises (basis_raises basis) payday (Some (walked_entry w))
                in if announced = [] then Inr No_Notice else Inr (Raises_Announced announced))))"

record rhythm_change =
  change_first_payday :: date
  change_per_paycheck :: dec
  carried_annual :: dec

fun rhythm_changes_loop :: "payroll_basis \<Rightarrow> era list \<Rightarrow> rhythm_change list res" where
  "rhythm_changes_loop basis [] = Inr []"
| "rhythm_changes_loop basis (e # eras) =
     bind_res (walk_pay basis (first_payday_of e)) (\<lambda>w.
     bind_res (rhythm_changes_loop basis eras) (\<lambda>changes.
       case walked_carried w of
         None \<Rightarrow> Inr changes
       | Some (day, annual) \<Rightarrow>
           if day = first_payday_of e
           then Inr (\<lparr>change_first_payday = day, change_per_paycheck = per_paycheck (walked_base w), carried_annual = annual\<rparr> # changes)
           else Inr changes))"

definition rhythm_changes_without_pay :: "payroll_basis \<Rightarrow> rhythm_change list res" where
  "rhythm_changes_without_pay basis = rhythm_changes_loop basis (drop 1 (cal_eras (basis_calendar basis)))"
section \<open>The entry in force\<close>

lemma entry_loop_append:
  "\<forall>e \<in> set es. fst e \<le> d \<Longrightarrow> entry_loop chosen (es @ later) d = entry_loop (last (chosen # es)) later d"
  by (induction es arbitrary: chosen) (auto simp: not_less)

lemma entry_in_force:
  assumes "distinct (map fst (pay_entries (profile basis)))" "(entered, pay) \<in> set (pay_entries (profile basis))"
    and "entered \<le> payday" "\<forall>e \<in> set (pay_entries (profile basis)). fst e \<le> entered \<or> payday < fst e"
  shows "entry_for basis payday = Inr (entered, pay)"
proof -
  let ?es = "sort (pay_entries (profile basis))"
  obtain before later where split: "?es = before @ (entered, pay) # later"
    using assms(2) by (metis set_sort split_list)
  have mem: "set ?es = set (pay_entries (profile basis))" by simp
  have d: "distinct (map fst ?es)" by (metis assms(1) mset_eq_imp_distinct_iff mset_map mset_sort)
  have s: "sorted (before @ (entered, pay) # later)" using sorted_sort[of "pay_entries (profile basis)"] split by simp
  have "\<forall>e \<in> set before. fst e \<le> payday" using s assms(3) by (force simp: sorted_append less_eq_prod_def)
  moreover have "\<forall>e \<in> set later. payday < fst e"
  proof
    fix e assume e: "e \<in> set later"
    then have "(entered, pay) \<le> e" "entered \<noteq> fst e" using s d split by (auto simp: sorted_append rev_image_eqI)
    then have "entered < fst e" by (auto simp: less_eq_prod_def)
    moreover have "e \<in> set (pay_entries (profile basis))" using e split mem by (metis Un_iff list.set_intros(2) set_append)
    ultimately show "payday < fst e" using assms(4) by fastforce
  qed
  then have "entry_loop (entered, pay) later payday = (entered, pay)" by (cases later) auto
  ultimately have "entry_loop (hd ?es) ?es payday = (entered, pay)"
    using assms(3) unfolding split by (subst entry_loop_append) auto
  then show ?thesis using split by (simp add: entry_for_def pay_list_def Let_def)
qed

section \<open>The events of a span\<close>

lemma pay_events_split:
  assumes "valid_date b" "a \<le> b" "b \<le> c"
  shows "pay_events eras raises a c = pay_events eras raises a b @ pay_events eras raises b c"
proof -
  let ?key = "\<lambda>(landed, kind, rank, _). (landed, kind, rank)" and ?E = "pay_events eras raises a c"
  define raw where "raw = (\<lambda>after through. map (\<lambda>e. (first_payday_of e, 0 :: nat, 0 :: nat, Rhythm_Begins e))
      [e \<leftarrow> drop 1 eras. after < first_payday_of e \<and> first_payday_of e \<le> through] @
    map (\<lambda>(landed, rank, t). (landed, 1, rank, Raise_Lands t)) (applications_between raises after through))"
  have E: "pay_events eras raises after through = sort_key ?key (raw after through)" for after through
    by (simp add: pay_events_def raw_def)
  have apps: "[x \<leftarrow> applications_between raises a c. fst x \<le> b] = applications_between raises a b"
    "[x \<leftarrow> applications_between raises a c. b < fst x] = applications_between raises b c"
    using assms(2) by (auto simp: applications_between_alt applied_by_upto[OF assms(1,3)] conj_commute intro!: filter_cong)
  have seams: "[e \<leftarrow> es. a < first_payday_of e \<and> first_payday_of e \<le> c \<and> first_payday_of e \<le> b] =
      [e \<leftarrow> es. a < first_payday_of e \<and> first_payday_of e \<le> b]"
    "[e \<leftarrow> es. a < first_payday_of e \<and> first_payday_of e \<le> c \<and> b < first_payday_of e] =
      [e \<leftarrow> es. b < first_payday_of e \<and> first_payday_of e \<le> c]" for es
    using assms(2,3) by (auto intro!: filter_cong)
  have "[x \<leftarrow> raw a c. fst x \<le> b] = raw a b"
    by (simp add: raw_def filter_map comp_def case_prod_beta apps(1)[symmetric] seams)
  moreover have "[x \<leftarrow> raw a c. b < fst x] = raw b c"
    by (simp add: raw_def filter_map comp_def case_prod_beta apps(2)[symmetric] seams)
  ultimately have parts: "[x \<leftarrow> ?E. fst x \<le> b] = pay_events eras raises a b" "[x \<leftarrow> ?E. b < fst x] = pay_events eras raises b c"
    by (simp_all add: E filter_sort)
  have "sorted (map ?key ?E)" by (simp add: E)
  then have "sorted_wrt (\<lambda>x y. fst x \<le> fst y) ?E"
    unfolding sorted_map by (rule sorted_wrt_mono_rel[rotated]) (auto simp: case_prod_beta)
  moreover have later: "\<forall>x \<in> set ?E. a < fst x"
    by (auto simp: pay_events_def applications_between_alt)
  moreover have "[x \<leftarrow> ?E. a < fst x] = ?E" using later by (simp add: filter_id_conv)
  moreover have "[x \<leftarrow> ?E. a < fst x \<and> fst x \<le> b] = [x \<leftarrow> ?E. fst x \<le> b]" using later by (auto intro!: filter_cong)
  ultimately show ?thesis using sorted_filter_split[of fst ?E a b] assms(2) parts by metis
qed

lemma pay_events_none:
  assumes "valid_date day"
  shows "pay_events eras raises day day = []"
proof -
  have "fst a \<le> day" if "a \<in> set (applied_by raises day)" for a
    using that by (auto simp: applied_by_set[OF assms] raise_years_iff[OF assms])
  then have "applications_between raises day day = []"
    unfolding applications_between_alt filter_empty_conv by (meson leD)
  moreover have "[e \<leftarrow> drop 1 eras. day < first_payday_of e \<and> first_payday_of e \<le> day] = []" by (auto simp: filter_empty_conv)
  ultimately show ?thesis by (simp only: pay_events_def list.map append_Nil) simp
qed

lemma pay_steps_append: "pay_steps (es @ fs) w = bind_res (pay_steps es w) (pay_steps fs)"
  by (induction es arbitrary: w) (simp_all add: bind_res_def split: sum.splits)

lemma cadence_on_value:
  assumes "sound_eras (cal_eras cal)" "valid_date day"
  obtains c n where "cadence_on cal day = Inr c" "periods_per_year c = of_int n" "1 \<le> n" "n \<le> 366"
proof -
  obtain i s where m: "matched_planned (cal_eras cal) day = Inr (i, s)" by (rule matched_planned_returns[OF assms])
  have "i < length (cal_eras cal)" using matched_planned_own(1)[OF assms m] by (simp add: planned_def)
  then have ok: "validate_cadence (cadence_of (era_rhythm (cal_eras cal ! i))) = Inr ()"
    using sound_eras_facts(2)[OF assms(1)] by (simp add: grid_ok_def rhythm_ok_def cadence_ok_def)
  obtain n where "periods_per_year (cadence_of (era_rhythm (cal_eras cal ! i))) = of_int n" "1 \<le> n" "n \<le> 366"
    by (rule periods_per_year_count[OF ok])
  then show thesis using m ok by (intro that) (simp_all add: cadence_on_def pay_cadence_def)
qed

section \<open>The pay of a day\<close>

text \<open>
  C39: an entry decides its own payday.  On the payday a pay entry names, the base pay is the amount
  entered, to the cent: no raise, no change of rhythm and no other entry moves it.\<close>

theorem entry_decides_its_payday:
  assumes "sound_eras (cal_eras (basis_calendar basis))" "valid_date payday"
    and "distinct (map fst (pay_entries (profile basis)))" "(payday, pay) \<in> set (pay_entries (profile basis))"
  shows "\<exists>c. cadence_on (basis_calendar basis) payday = Inr c \<and>
    base_pay_on basis payday = Inr \<lparr>per_paycheck = pay, base_cadence = c\<rparr>"
proof -
  have entry: "entry_for basis payday = Inr (payday, pay)" by (rule entry_in_force[OF assms(3,4)]) auto
  obtain c n where c: "cadence_on (basis_calendar basis) payday = Inr c" by (rule cadence_on_value[OF assms(1,2)])
  then show ?thesis using entry by (simp add: base_pay_on_def walk_pay_def pay_events_none[OF assms(2)])
qed

text \<open>A walk reads of the rhythm it is paid at only how often that pays.\<close>

definition alike :: "walked res \<Rightarrow> walked res \<Rightarrow> bool" where
  "alike r q = (case (r, q) of
     (Inl e, Inl f) \<Rightarrow> e = f
   | (Inr (p, c, _), Inr (p', c', _)) \<Rightarrow> p = p' \<and> periods_per_year c = periods_per_year c'
   | _ \<Rightarrow> False)"

lemma pay_step_alike:
  assumes "alike (Inr w) (Inr v)"
  shows "alike (pay_step e w) (pay_step e v)"
proof -
  obtain p c x where w: "w = (p, c, x)" by (metis prod_cases3)
  obtain c' y where v: "v = (p, c', y)" "periods_per_year c = periods_per_year c'"
    using assms by (auto simp: w alike_def split: prod.splits)
  show ?thesis
    by (cases "(e, w)" rule: pay_step.cases)
      (auto simp: w v alike_def bind_res_def change_rhythm_def Let_def carry_def base_annual_def split: sum.split prod.splits)
qed

lemma pay_steps_alike: "alike (Inr w) (Inr v) \<Longrightarrow> alike (pay_steps es w) (pay_steps es v)"
proof (induction es arbitrary: w v)
  case (Cons e es)
  have "alike (pay_step e w) (pay_step e v)" by (rule pay_step_alike[OF Cons.prems])
  then show ?case
  proof (cases "pay_step e w")
    case (Inl x)
    then show ?thesis using \<open>alike (pay_step e w) (pay_step e v)\<close> by (auto simp: alike_def split: sum.splits)
  next
    case (Inr w')
    then obtain v' where "pay_step e v = Inr v'" "alike (Inr w') (Inr v')"
      using \<open>alike (pay_step e w) (pay_step e v)\<close> by (auto simp: alike_def split: sum.splits prod.splits)
    then show ?thesis using Inr Cons.IH by simp
  qed
qed simp

text \<open>
  C38: pay is walked on from paycheck to paycheck.  Take a day an entry governs, and its base pay, with no
  pay carried to another rhythm that very day.  The base pay of any later day the entry still governs is that
  one taken through the raises and rhythms that land in between, and carried to the rhythm of the later day
  if that pays more or less often.  Where nothing lands it is the same; where one raise does it is the
  pay raised by the percentage, or by the flat amount's share of the year; where a rhythm begins it is the
  same pay a year spread over the new count of paychecks; and where both do, they are applied in the order
  of their days, the rhythm first on the same day.\<close>

theorem base_pay_continues:
  assumes "distinct (map fst (pay_entries (profile basis)))" "(entered, pay) \<in> set (pay_entries (profile basis))"
    and "\<forall>e \<in> set (pay_entries (profile basis)). fst e \<le> entered \<or> later < fst e"
    and "valid_date day" "entered \<le> day" "day \<le> later"
    and "walk_pay basis day = Inr w" "\<forall>annual. walked_carried w \<noteq> Some (day, annual)"
    and "cadence_on (basis_calendar basis) later = Inr final"
  defines "p \<equiv> per_paycheck (walked_base w)" and "c \<equiv> base_cadence (walked_base w)"
    and "eras \<equiv> cal_eras (basis_calendar basis)"
    and "due \<equiv> applications_between (basis_raises basis) day later"
    and "begun \<equiv> [e \<leftarrow> drop 1 (cal_eras (basis_calendar basis)). day < first_payday_of e \<and> first_payday_of e \<le> later]"
  shows "base_pay_on basis later =
      bind_res (pay_steps (pay_events eras (basis_raises basis) day later) (p, c, None)) (\<lambda>(q, paid_at, _). Inr
        \<lparr>per_paycheck = (if periods_per_year final \<noteq> periods_per_year paid_at then carry q paid_at final else q), base_cadence = final\<rparr>) \<and>
    (due = [] \<and> begun = [] \<and> periods_per_year final = periods_per_year c \<longrightarrow>
       base_pay_on basis later = Inr \<lparr>per_paycheck = p, base_cadence = final\<rparr>) \<and>
    (\<forall>d k t r. due = [(d, k, t)] \<and> begun = [] \<and> periods_per_year final = periods_per_year c \<longrightarrow>
       (percentage t = Some r \<and> r \<noteq> 0 \<longrightarrow>
          base_pay_on basis later = Inr \<lparr>per_paycheck = round_money (dmul p (dadd 1 r)), base_cadence = final\<rparr>) \<and>
       (percentage t = None \<and> flat_amount t = Some r \<longrightarrow>
          base_pay_on basis later = Inr \<lparr>per_paycheck = round_money (dadd p (ddiv r (periods_per_year c))), base_cadence = final\<rparr>)) \<and>
    (\<forall>e. due = [] \<and> begun = [e] \<and> pay_cadence (cadence_of (era_rhythm e)) = Inr final \<longrightarrow>
       base_pay_on basis later = Inr \<lparr>per_paycheck =
          (if periods_per_year final = periods_per_year c then p
           else round_money (ddiv (dmul p (periods_per_year c)) (periods_per_year final))), base_cadence = final\<rparr>) \<and>
    (\<forall>d k t r e. due = [(d, k, t)] \<and> begun = [e] \<and> percentage t = Some r \<and> r \<noteq> 0 \<and>
         pay_cadence (cadence_of (era_rhythm e)) = Inr final \<longrightarrow>
       base_pay_on basis later = Inr \<lparr>per_paycheck =
          (let raised = \<lambda>q. round_money (dmul q (dadd 1 r));
               spread = \<lambda>q. if periods_per_year final = periods_per_year c then q
                          else round_money (ddiv (dmul q (periods_per_year c)) (periods_per_year final))
           in if first_payday_of e \<le> d then raised (spread p) else spread (raised p)), base_cadence = final\<rparr>)"
proof -
  have entry: "entry_for basis later = Inr (entered, pay)" "entry_for basis day = Inr (entered, pay)"
    using assms(1-6) by (auto intro!: entry_in_force)
  let ?events = "\<lambda>a b. pay_events eras (basis_raises basis) a b"
  obtain paid0 final0 q0 paid carried where walk: "cadence_on (basis_calendar basis) entered = Inr paid0"
    "cadence_on (basis_calendar basis) day = Inr final0" "pay_steps (?events entered day) (pay, paid0, None) = Inr (q0, paid, carried)"
    "w = (if periods_per_year final0 \<noteq> periods_per_year paid
       then \<lparr>walked_base = \<lparr>per_paycheck = carry q0 paid final0, base_cadence = final0\<rparr>,
             walked_entry = entered, walked_carried = Some (day, base_annual q0 paid)\<rparr>
       else \<lparr>walked_base = \<lparr>per_paycheck = q0, base_cadence = final0\<rparr>, walked_entry = entered, walked_carried = carried\<rparr>)"
    using assms(7) unfolding walk_pay_def entry(2) eras_def by (auto elim!: bind_res_InrE split: if_splits)
  then have same: "periods_per_year final0 = periods_per_year paid" "p = q0" "c = final0"
    using assms(8) by (auto simp: p_def c_def split: if_splits)
  have like: "alike (pay_steps (?events day later) (q0, paid, carried)) (pay_steps (?events day later) (p, c, None))"
    by (rule pay_steps_alike) (simp add: alike_def same)
  have cont: "base_pay_on basis later =
      bind_res (pay_steps (?events day later) (p, c, None)) (\<lambda>(q, paid_at, _). Inr
        \<lparr>per_paycheck = (if periods_per_year final \<noteq> periods_per_year paid_at then carry q paid_at final else q), base_cadence = final\<rparr>)"
    unfolding base_pay_on_def walk_pay_def entry(1) bind_res_simps prod.case walk(1) assms(9)
      pay_events_split[OF assms(4-6)] pay_steps_append eras_def[symmetric] walk(3)
    using like by (auto simp: alike_def bind_res_def carry_def base_annual_def split: sum.splits prod.splits if_splits)
  have events: "?events day later = sort_key (\<lambda>(landed, kind, rank, _). (landed, kind, rank))
      (map (\<lambda>e. (first_payday_of e, 0, 0, Rhythm_Begins e)) begun @ map (\<lambda>(landed, rank, t). (landed, 1, rank, Raise_Lands t)) due)"
    by (simp add: pay_events_def begun_def due_def eras_def)
  show ?thesis
    by (intro conjI allI impI cont)
      (auto simp: cont events raise_pay_def truthy_def change_rhythm_def Let_def carry_def base_annual_def)
qed

section \<open>Carrying pay to another rhythm\<close>

text \<open>
  a change of rhythm keeps the year's pay.  Pay carried to another rhythm adds up over a year to the
  annual pay it was carried from, to within half a cent a paycheck: the two Decimal operations of
  \<open>_carry\<close> round once, at the end.\<close>

theorem carry_keeps_the_year:
  assumes "validate_cadence paid_at = Inr ()" "validate_cadence c = Inr ()"
    and "is_cents pay" "0 \<le> pay" "pay \<le> 10 ^ 10"
  shows "\<bar>carry pay paid_at c * periods_per_year c - pay * periods_per_year paid_at\<bar> \<le> periods_per_year c / 200 + 1 / 10 ^ 10 \<and>
    is_cents (carry pay paid_at c)"
proof -
  obtain m where m: "periods_per_year paid_at = of_int m" "1 \<le> m" "m \<le> 366" by (rule periods_per_year_count[OF assms(1)])
  obtain n where n: "periods_per_year c = of_int n" "1 \<le> n" "n \<le> 366" by (rule periods_per_year_count[OF assms(2)])
  define M N :: rat where "M = of_int m" and "N = of_int n"
  have MN: "1 \<le> M" "M \<le> 366" "1 \<le> N" "N \<le> 366" using m n by (simp_all add: M_def N_def)
  have year: "0 \<le> pay * M" "pay * M \<le> 366 * 10 ^ 10" using assms(4,5) MN mult_mono[of pay "10 ^ 10" M 366] by simp_all
  have "places 2 pay" using assms(3) by (simp add: places_def is_cents_def)
  then have "places 2 (pay * M)" using places_mult[of 2 pay 0 M] by (simp add: M_def)
  then have annual: "base_annual pay paid_at = pay * M"
    using year by (simp add: base_annual_def dmul_def m(1) M_def[symmetric] fix28_places[of 2])
  have q: "0 \<le> pay * M / N" "pay * M / N \<le> 366 * 10 ^ 10" using year MN by (simp_all add: divide_le_eq)
  have "\<bar>fix28 x - x\<bar> \<le> 366 * 10 ^ 10 / (2 * 10 ^ 27)" if "0 \<le> x" "x \<le> 366 * 10 ^ 10" for x
    by (rule order_trans[OF fix28_error]) (use that in simp)
  from this[OF q] have "\<bar>fix28 (pay * M / N) - pay * M / N\<bar> \<le> 366 * 10 ^ 10 / (2 * 10 ^ 27)" .
  then have "\<bar>carry pay paid_at c - pay * M / N\<bar> \<le> 1 / 200 + 183 / 10 ^ 17"
    using round_money_near[of "fix28 (pay * M / N)"] add_mono[of _ "366 * 10 ^ 10 / (2 * 10 ^ 27) :: rat" _ "1 / 200"]
      abs_triangle_ineq[of "fix28 (pay * M / N) - pay * M / N" "round_money (fix28 (pay * M / N)) - fix28 (pay * M / N)"]
    unfolding carry_def annual ddiv_def n(1) N_def[symmetric] by (force intro: order_trans)
  then have "\<bar>carry pay paid_at c - pay * M / N\<bar> * N \<le> (1 / 200 + 183 / 10 ^ 17) * N" using MN by (intro mult_right_mono) auto
  moreover have "\<bar>carry pay paid_at c - pay * M / N\<bar> * N = \<bar>carry pay paid_at c * N - pay * M\<bar>"
    using MN abs_mult[of "carry pay paid_at c - pay * M / N" N] by (simp add: left_diff_distrib)
  moreover have "(1 / 200 + 183 / 10 ^ 17) * N \<le> N / 200 + 1 / 10 ^ 10" using MN by (simp add: field_simps)
  ultimately show ?thesis by (simp add: m(1) n(1) M_def N_def carry_def)
qed

lemma carry_keeps_the_year_witness:
  "\<bar>carry (12345/10) (Fixed_Days 14) (Monthly 15) * periods_per_year (Monthly 15) - 12345/10 * periods_per_year (Fixed_Days 14)\<bar>
     \<le> periods_per_year (Monthly 15) / 200 + 1 / 10 ^ 10 \<and> is_cents (carry (12345/10) (Fixed_Days 14) (Monthly 15))"
  using carry_keeps_the_year[of "Fixed_Days 14" "Monthly 15" "12345/10"]
  by (simp add: require_day_of_month_def validate_cadence_def refuse_unless_def MIN_CADENCE_DAYS_def MAX_CADENCE_DAYS_def MIN_DAY_OF_MONTH_def MAX_DAY_OF_MONTH_def is_cents_def)

section \<open>A profile\<close>

text \<open>Biweekly pay from January 2026, entered anew for 2027, with the raises of \<open>sample_raises\<close>.\<close>

definition one_era :: "era list" where
  "one_era = [\<lparr>effective_from = Date 2026 1 2, era_rhythm = \<lparr>cadence_of = Fixed_Days 14, shift_of = No_Shift\<rparr>\<rparr>]"

lemma one_era_sound: "sound_eras one_era"
  by (simp add: sound_eras_def validate_eras_def one_era_def check_era_def validate_cadence_def
      fixed_days_payday_def stored_era_def reject_shift_on_short_cadence_def valid_Date days_in_month_def is_leap_def
      less_date_def refuse_unless_def MIN_CADENCE_DAYS_def MAX_CADENCE_DAYS_def)

lemma one_era_cadence:
  assumes "cal_eras cal = one_era" "valid_date day"
  shows "cadence_on cal day = Inr (Fixed_Days 14)"
proof -
  obtain i s where m: "matched_planned one_era day = Inr (i, s)" by (rule matched_planned_returns[OF one_era_sound assms(2)])
  have "i = 0" using matched_planned_own(1)[OF one_era_sound assms(2) m] by (simp add: planned_def one_era_def)
  then show ?thesis
    using m by (simp add: cadence_on_def assms(1) pay_cadence_def one_era_def validate_cadence_def refuse_unless_def
        MIN_CADENCE_DAYS_def MAX_CADENCE_DAYS_def)
qed

definition sample_profile :: pay_profile where
  "sample_profile =
     \<lparr>filing_status_id = 1, profile_state = ''NC'', profile_raises = sample_raises, pay_entries = [(Date 2027 1 1, 2100), (Date 2026 1 2, 2000)], profile_lines = [],
      pay_stubs = [], profile_created = Some (Date 2026 1 1), w4_additional_income = 0, w4_additional_deductions = 0,
      w4_qualifying_children = 0, w4_other_dependents = 0, w4_extra_withholding = 0\<rparr>"

definition sample_basis :: payroll_basis where
  "sample_basis =
     \<lparr>profile = sample_profile, basis_calendar = \<lparr>cal_periods = [], cal_eras = one_era, history_opens_on = None\<rparr>,
      stated_raises = None\<rparr>"

lemma entry_decides_its_payday_witness:
  "base_pay_on sample_basis (Date 2027 1 1) = Inr \<lparr>per_paycheck = 2100, base_cadence = Fixed_Days 14\<rparr>"
  using entry_decides_its_payday[of sample_basis "Date 2027 1 1" 2100] one_era_sound one_era_cadence[of _ "Date 2027 1 1"]
  by (simp add: sample_basis_def sample_profile_def valid_Date days_in_month_def)
lemma base_pay_continues_witness:
  "base_pay_on sample_basis (Date 2027 8 13) = Inr \<lparr>per_paycheck = round_money (dmul 2100 (dadd 1 (3/100))), base_cadence = Fixed_Days 14\<rparr>"
proof -
  have v: "valid_date (Date 2027 1 1)" "valid_date (Date 2027 8 13)" by (simp_all add: valid_Date days_in_month_def)
  have facts: "cal_eras (basis_calendar sample_basis) = one_era" "basis_raises sample_basis = sample_raises"
    "pay_entries (profile sample_basis) = [(Date 2027 1 1, 2100), (Date 2026 1 2, 2000)]"
    by (simp_all add: sample_basis_def sample_profile_def basis_raises_def)
  have entries: "distinct (map fst (pay_entries (profile sample_basis)))" "(Date 2027 1 1, 2100) \<in> set (pay_entries (profile sample_basis))"
    "\<forall>e \<in> set (pay_entries (profile sample_basis)). fst e \<le> Date 2027 1 1 \<or> Date 2027 8 13 < fst e"
    unfolding facts by (auto simp: less_date_def less_eq_date_def)
  have "entry_for sample_basis (Date 2027 1 1) = Inr (Date 2027 1 1, 2100)"
    by (rule entry_in_force[OF entries(1,2)]) (auto simp: facts less_date_def less_eq_date_def)
  then have walk: "walk_pay sample_basis (Date 2027 1 1) = Inr \<lparr>walked_base = \<lparr>per_paycheck = 2100, base_cadence = Fixed_Days 14\<rparr>,
      walked_entry = Date 2027 1 1, walked_carried = None\<rparr>"
    using one_era_cadence[OF facts(1) v(1)] by (simp add: walk_pay_def pay_events_none[OF v(1)])
  have years: "[2025..2027] = [2025, 2026, 2027 :: int]" by (simp add: upto.simps)
  have due: "applications_between sample_raises (Date 2027 1 1) (Date 2027 8 13) = [(Date 2027 7 1, 1, hd sample_raises)]"
    by (simp add: sample_raises_def applications_between_def applications_def raise_years_def is_believed_in_def less_date_def
        method_rank_def truthy_def years)
  have later: "Date 2027 1 1 \<le> Date 2027 8 13" by (simp add: less_eq_date_def)
  have carried: "\<forall>annual. walked_carried \<lparr>walked_base = \<lparr>per_paycheck = 2100, base_cadence = Fixed_Days 14\<rparr>,
      walked_entry = Date 2027 1 1, walked_carried = None\<rparr> \<noteq> Some (Date 2027 1 1, annual)" by simp
  note claim = base_pay_continues[OF entries v(1) order_refl later walk carried one_era_cadence[OF facts(1) v(2)], unfolded facts due]
  have raise: "percentage (hd sample_raises) = Some (3/100)" "drop 1 one_era = []" by (simp_all add: sample_raises_def one_era_def)
  show ?thesis
    using claim[THEN conjunct2, THEN conjunct2, THEN conjunct1, rule_format, of "Date 2027 7 1" 1 "hd sample_raises", THEN conjunct1] raise
    by (simp)
qed

end
