(* ===== verification/Tax_Calculator.thy ===== *)
theory Tax_Calculator
  imports Tax_Law "HOL-Library.Product_Lexorder" "HOL-Library.Multiset"
begin

text \<open>
  \<open>app/services/tax_calculator.py\<close>: withholding by the percentage method, the filing-time federal
  liability with the refundable credit, state income tax with the child deduction, and Social Security
  and Medicare of a pay period.  The rules come from \<open>Tax_Law\<close>; the arithmetic is the Decimal
  arithmetic of \<open>Decimals\<close>, rounded to cents where the source rounds.
\<close>

definition ACTC_EARNED_INCOME_RATE :: dec where "ACTC_EARNED_INCOME_RATE = 15/100"
definition ACTC_EARNED_INCOME_FLOOR :: dec where "ACTC_EARNED_INCOME_FLOOR = 2500"

record w4_inputs =
  additional_income :: dec
  pre_tax_deductions :: dec
  additional_deductions :: dec
  qualifying_children :: int
  other_dependents :: int
  extra_withholding :: dec

section \<open>The bracket ladder\<close>

text \<open>An upper bound that is missing or zero counts as none.\<close>

definition bracket_top :: "tax_bracket \<Rightarrow> dec option" where
  "bracket_top b = (case max_income b of None \<Rightarrow> None | Some m \<Rightarrow> if m = 0 then None else Some m)"

fun bracket_loop :: "dec \<Rightarrow> tax_bracket list \<Rightarrow> dec \<Rightarrow> dec" where
  "bracket_loop taxable [] total_tax = total_tax"
| "bracket_loop taxable (b # bs) total_tax =
     (if taxable \<le> min_income b then total_tax
      else let amount_in_bracket =
             (case bracket_top b of None \<Rightarrow> dsub taxable (min_income b)
              | Some m \<Rightarrow> dsub (min taxable m) (min_income b))
           in bracket_loop taxable bs
                (if 0 < amount_in_bracket then dadd total_tax (dmul amount_in_bracket (bracket_rate b))
                 else total_tax))"

definition apply_marginal_brackets :: "dec \<Rightarrow> tax_bracket list \<Rightarrow> dec" where
  "apply_marginal_brackets taxable bs =
     (if taxable \<le> 0 then 0 else round_money (bracket_loop taxable (sort_key sort_order bs) 0))"

fun marginal_loop :: "dec \<Rightarrow> tax_bracket list \<Rightarrow> dec \<Rightarrow> dec" where
  "marginal_loop taxable [] marginal = marginal"
| "marginal_loop taxable (b # bs) marginal =
     (if min_income b < taxable then marginal_loop taxable bs (bracket_rate b) else marginal)"

definition marginal_rate_for :: "dec \<Rightarrow> tax_bracket list \<Rightarrow> dec" where
  "marginal_rate_for taxable bs =
     (let ordered = sort_key sort_order bs
      in if ordered = [] then 0 else marginal_loop taxable ordered (bracket_rate (hd ordered)))"

section \<open>Withholding and liability\<close>

definition dependent_credits :: "federal_rules \<Rightarrow> int \<Rightarrow> int \<Rightarrow> dec" where
  "dependent_credits rules children others =
     dadd (dmul (of_int children) (child_credit_amount rules))
          (dmul (of_int others) (other_dependent_credit_amount rules))"

definition check_dependents :: "w4_inputs \<Rightarrow> unit res" where
  "check_dependents w4 =
     (if qualifying_children w4 < 0 then Inl InvalidDependentCountError
      else if other_dependents w4 < 0 then Inl InvalidDependentCountError else Inr ())"

definition calculate_federal_withholding ::
  "dec \<Rightarrow> int \<Rightarrow> federal_rules option \<Rightarrow> w4_inputs \<Rightarrow> dec res" where
  "calculate_federal_withholding gross_pay pay_periods rules w4 =
     (if gross_pay < 0 then Inl InvalidGrossPayError
      else if pay_periods \<le> 0 then Inl InvalidPayPeriodsError
      else case rules of None \<Rightarrow> Inl InvalidFilingStatusError
      | Some f \<Rightarrow> bind_res (check_dependents w4) (\<lambda>_.
          let annual_income = dadd (dmul gross_pay (of_int pay_periods)) (additional_income w4);
              adjusted_income = max (dsub (dsub annual_income (pre_tax_deductions w4)) (additional_deductions w4)) 0;
              taxable_income = max (dsub adjusted_income (standard_deduction f)) 0;
              tax_before_credits = apply_marginal_brackets taxable_income (brackets f);
              total_credits = dependent_credits f (qualifying_children w4) (other_dependents w4);
              tax_after_credits = max (dsub tax_before_credits total_credits) 0
          in Inr (round_money (dadd (ddiv tax_after_credits (of_int pay_periods)) (extra_withholding w4)))))"

record annual_federal_tax =
  taxable :: dec
  liability :: dec
  refundable_actc :: dec

definition refundable_actc_of :: "federal_rules \<Rightarrow> int \<Rightarrow> dec \<Rightarrow> dec \<Rightarrow> dec \<Rightarrow> dec" where
  "refundable_actc_of rules children tax_before_credits total_credits earned_income =
     (let unused_credit = max 0 (dsub total_credits tax_before_credits);
          cap_leg = dmul (child_credit_refundable_cap rules) (of_int children);
          earned_income_leg = dmul ACTC_EARNED_INCOME_RATE (max 0 (dsub earned_income ACTC_EARNED_INCOME_FLOOR))
      in round_money (max (min (min unused_credit cap_leg) earned_income_leg) 0))"

definition calculate_annual_federal_liability ::
  "dec \<Rightarrow> federal_rules option \<Rightarrow> w4_inputs \<Rightarrow> annual_federal_tax res" where
  "calculate_annual_federal_liability annual_wage_income rules w4 =
     (case rules of None \<Rightarrow> Inl InvalidFilingStatusError
      | Some f \<Rightarrow> bind_res (check_dependents w4) (\<lambda>_.
          let base = max (dsub (dsub (dadd annual_wage_income (additional_income w4)) (pre_tax_deductions w4))
                       (standard_deduction f)) 0;
              tax_before_credits = apply_marginal_brackets base (brackets f);
              total_credits = dependent_credits f (qualifying_children w4) (other_dependents w4)
          in Inr \<lparr>taxable = base, liability = max (dsub tax_before_credits total_credits) 0,
                  refundable_actc = refundable_actc_of f (qualifying_children w4) tax_before_credits
                    total_credits annual_wage_income\<rparr>))"

section \<open>State tax\<close>

definition calculate_state_tax ::
  "(tax_type \<Rightarrow> int) \<Rightarrow> dec \<Rightarrow> state_tax_rules option \<Rightarrow> dec \<Rightarrow> dec res" where
  "calculate_state_tax tax_type_id annual_gross config additional_deduction =
     (case config of None \<Rightarrow> Inr 0
      | Some c \<Rightarrow>
          if rules_tax_type_id c = tax_type_id No_Tax then Inr 0
          else if rules_tax_type_id c \<noteq> tax_type_id Flat_Tax then Inl ValueError
          else case rules_flat_rate c of None \<Rightarrow> Inl ValueError
          | Some rate \<Rightarrow>
              let base = max (dsub (dsub annual_gross (rules_standard_deduction c)) additional_deduction) 0
              in Inr (round_money (dmul base rate)))"

definition tier_key :: "child_deduction_tier \<Rightarrow> bool \<times> dec" where
  "tier_key t = (case agi_max t of None \<Rightarrow> (True, 0) | Some m \<Rightarrow> (False, m))"

definition resolve_child_deduction_per_child :: "dec \<Rightarrow> child_deduction_tier list \<Rightarrow> dec" where
  "resolve_child_deduction_per_child agi tiers =
     (case find (\<lambda>t. case agi_max t of None \<Rightarrow> True | Some m \<Rightarrow> agi \<le> m) (sort_key tier_key tiers) of
        None \<Rightarrow> 0 | Some t \<Rightarrow> deduction_per_child t)"

section \<open>Social Security and Medicare\<close>

definition capped_social_security :: "dec \<Rightarrow> dec \<Rightarrow> fica_rules option \<Rightarrow> dec" where
  "capped_social_security gross cumulative config =
     (case config of None \<Rightarrow> round_money 0
      | Some c \<Rightarrow>
          let statutory_max = dmul (ss_rate c) (ss_wage_base c);
              period_ss = dmul (ss_rate c) gross;
              remaining = dsub statutory_max (dmul (ss_rate c) cumulative)
          in round_money (max (min period_ss remaining) 0))"

record fica_tax =
  fica_ss :: dec
  fica_medicare :: dec
  fica_total :: dec

definition calculate_fica :: "dec \<Rightarrow> fica_rules option \<Rightarrow> dec \<Rightarrow> fica_tax" where
  "calculate_fica gross config cumulative =
     (case config of None \<Rightarrow> \<lparr>fica_ss = 0, fica_medicare = 0, fica_total = 0\<rparr>
      | Some c \<Rightarrow>
          let ss_tax = capped_social_security gross cumulative config;
              medicare_tax = round_money (dmul gross (medicare_rate c));
              surtax_income = (if medicare_surtax_threshold c \<le> cumulative then gross
                               else dsub (dadd cumulative gross) (medicare_surtax_threshold c));
              medicare_tax = (if medicare_surtax_threshold c < dadd cumulative gross
                then dadd medicare_tax (round_money (dmul surtax_income (medicare_surtax_rate c)))
                else medicare_tax)
          in \<lparr>fica_ss = ss_tax, fica_medicare = medicare_tax, fica_total = dadd ss_tax medicare_tax\<rparr>)"

section \<open>Arithmetic that does not round\<close>

lemma dmul_places:
  "places j x \<Longrightarrow> places k y \<Longrightarrow> \<bar>x * y\<bar> < 10 powi (28 - int (j + k)) \<Longrightarrow> dmul x y = x * y"
  unfolding dmul_def by (rule fix28_places[OF places_mult])

lemma dadd_places: "places k x \<Longrightarrow> places k y \<Longrightarrow> \<bar>x + y\<bar> < 10 powi (28 - int k) \<Longrightarrow> dadd x y = x + y"
  unfolding dadd_def by (rule fix28_places[OF places_add])

lemma dsub_places: "places k x \<Longrightarrow> places k y \<Longrightarrow> \<bar>x - y\<bar> < 10 powi (28 - int k) \<Longrightarrow> dsub x y = x - y"
  unfolding dsub_def by (rule fix28_places[OF places_diff])

text \<open>An amount times a rate has six places.\<close>

lemma dmul_amount_rate:
  assumes "is_cents x" "\<bar>x\<bar> < 10 ^ 20" "is_rate r"
  shows "dmul x r = x * r" "dmul r x = x * r" "places 6 (x * r)" "\<bar>x * r\<bar> \<le> \<bar>x\<bar>"
proof -
  have p: "places 2 x" "places 4 r" "0 \<le> r" "r \<le> 1" using assms by (simp_all add: is_rate_def places_2)
  show le: "\<bar>x * r\<bar> \<le> \<bar>x\<bar>" using p(3,4) by (simp add: abs_mult mult_left_le)
  show "places 6 (x * r)" using places_mult[OF p(1,2)] by simp
  have "\<bar>x * r\<bar> < 10 powi 22" using le assms(2) by simp
  then show "dmul x r = x * r" "dmul r x = x * r"
    using dmul_places[OF p(1,2)] dmul_places[OF p(2,1)] by (simp_all add: mult.commute)
qed

section \<open>The ladder as a sum\<close>

text \<open>The part of an income a rung taxes, and the exact tax of a ladder: each rung's rate on its part.\<close>

definition taxed_in :: "dec \<Rightarrow> dec \<times> dec option \<Rightarrow> dec" where
  "taxed_in x b = max 0 ((case snd b of None \<Rightarrow> x | Some high \<Rightarrow> min x high) - fst b)"

definition tax_on :: "tax_bracket list \<Rightarrow> dec \<Rightarrow> dec" where
  "tax_on bs x = sum_list (map (\<lambda>b. bracket_rate b * taxed_in x (rung b)) bs)"

definition sound_rung :: "tax_bracket \<Rightarrow> bool" where
  "sound_rung b \<longleftrightarrow> is_amount (min_income b) \<and> is_rate (bracket_rate b) \<and>
     (case max_income b of None \<Rightarrow> True | Some m \<Rightarrow> is_amount m \<and> min_income b < m)"

lemma taxed_below: "x \<le> fst b \<Longrightarrow> taxed_in x b = 0"
  by (auto simp: taxed_in_def split: option.splits)

lemma tax_below: "climbs from (map rung bs) \<Longrightarrow> x \<le> from \<Longrightarrow> tax_on bs x = 0"
proof -
  assume c: "climbs from (map rung bs)" "x \<le> from"
  have "taxed_in x (rung b) = 0" if "b \<in> set bs" for b
    using climbs_above[OF c(1), of "rung b"] c(2) that by (intro taxed_below) auto
  then show ?thesis unfolding tax_on_def by (induction bs) auto
qed

lemma bracket_loop_exact:
  assumes "climbs from (map rung bs)" "\<forall>b \<in> set bs. sound_rung b" "is_cents x" "x < 10 ^ 12"
    and "places 6 t" "0 \<le> t" "t \<le> from" "0 \<le> from"
  shows "bracket_loop x bs t = t + tax_on bs x"
  using assms
proof (induction bs arbitrary: "from" t)
  case (Cons b bs)
  define hi where "hi = (case max_income b of None \<Rightarrow> x | Some m \<Rightarrow> min x m)"
  have b: "min_income b = from" "is_cents from" "is_rate (bracket_rate b)"
    using Cons.prems by (cases "max_income b"; auto simp: sound_rung_def is_amount_def)+
  show ?case
  proof (cases "x \<le> from")
    case True
    then show ?thesis using tax_below[OF Cons.prems(1)] b(1) by simp
  next
    case False
    have hi: "is_cents hi" "from < hi" "hi \<le> x" "taxed_in x (rung b) = hi - from"
      using Cons.prems False b(1)
      by (auto simp: hi_def sound_rung_def is_amount_def taxed_in_def is_cents_min split: option.splits)
    have top: "bracket_top b = max_income b"
      using Cons.prems(2) by (auto simp: bracket_top_def sound_rung_def is_amount_def split: option.splits)
    have am: "dsub hi from = hi - from" "\<bar>hi - from\<bar> < 10 ^ 20" "is_cents (hi - from)"
      using hi b(2) Cons.prems(4,8) by (simp_all add: exact is_cents_diff)
    note m = dmul_amount_rate[OF am(3,2) b(3)]
    have part: "(hi - from) * bracket_rate b \<le> hi - from" "0 \<le> (hi - from) * bracket_rate b"
      using b(3) hi(2) by (simp_all add: is_rate_def mult_left_le)
    let ?t = "t + (hi - from) * bracket_rate b"
    have t: "places 6 ?t" "0 \<le> ?t" "?t \<le> hi" "dadd t ((hi - from) * bracket_rate b) = ?t"
    proof -
      show "places 6 ?t" using m(3) Cons.prems(5) by (rule places_add[rotated])
      show "0 \<le> ?t" "?t \<le> hi" using part Cons.prems(6,7) by linarith+
      then have "\<bar>?t\<bar> < 10 powi 22" using hi(3) Cons.prems(4) by simp
      then show "dadd t ((hi - from) * bracket_rate b) = ?t" using dadd_places[of 6 t] m(3) Cons.prems(5) by simp
    qed
    have "(case bracket_top b of None \<Rightarrow> dsub x (min_income b) | Some m \<Rightarrow> dsub (min x m) (min_income b)) = hi - from"
      using am(1) by (cases "max_income b") (simp_all add: top b(1) hi_def)
    then have step: "bracket_loop x (b # bs) t = bracket_loop x bs ?t"
      using False hi(2) by (simp add: b(1) m(1) t(4))
    show ?thesis
    proof (cases "max_income b")
      case None
      then have "bs = []" using Cons.prems(1) by simp
      then show ?thesis using step hi(4) by (simp add: tax_on_def mult.commute)
    next
      case (Some h)
      then have c: "climbs h (map rung bs)" "from < h" using Cons.prems(1) b(1) by simp_all
      have "?t \<le> h" using t(3) Some by (simp add: hi_def)
      then have "bracket_loop x bs ?t = ?t + tax_on bs x"
        using c Cons.prems(2,3,4,8) t(1,2) by (intro Cons.IH[of h]) auto
      then show ?thesis using step hi(4) by (simp add: tax_on_def mult.commute)
    qed
  qed
qed simp

lemma sound_ladder:
  assumes "check_federal f = Inr ()"
  shows "climbs 0 (map rung (brackets f))" "\<forall>b \<in> set (brackets f). sound_rung b"
    "sort_key sort_order (brackets f) = brackets f"
proof -
  note s = check_federal_ok[OF assms, unfolded sound_rules_def]
  show "climbs 0 (map rung (brackets f))" using s by simp
  show "\<forall>b \<in> set (brackets f). sound_rung b" using s by (simp add: sound_rung_def)
  have "sorted (map sort_order (brackets f))" using s by (simp add: sorted_map)
  then show "sort_key sort_order (brackets f) = brackets f" by (rule sort_key_id_if_sorted)
qed

lemma apply_marginal_brackets_exact:
  assumes "check_federal f = Inr ()" "is_cents x" "x < 10 ^ 12"
  shows "apply_marginal_brackets x (brackets f) = round_money (tax_on (brackets f) x)"
proof -
  note l = sound_ladder[OF assms(1)]
  show ?thesis
    using bracket_loop_exact[OF l(1,2) assms(2,3), of 0] tax_below[OF l(1)] l(3)
    by (cases "x \<le> 0") (simp_all add: apply_marginal_brackets_def)
qed

lemma marginal_loop_rung:
  assumes "climbs from (map rung bs)" "b \<in> set bs" "in_rung x (rung b)"
  shows "marginal_loop x bs r = bracket_rate b"
  using assms
proof (induction bs arbitrary: "from" r)
  case (Cons c bs)
  show ?case
  proof (cases "max_income c")
    case None
    then show ?thesis using Cons.prems by (auto simp: in_rung_def)
  next
    case (Some h)
    then have c: "climbs h (map rung bs)" "min_income c = from" "from < h" using Cons.prems(1) by simp_all
    show ?thesis
    proof (cases "b \<in> set bs")
      case True
      then have "h < x" using climbs_above[OF c(1), of "rung b"] Cons.prems(3) by (auto simp: in_rung_def)
      then show ?thesis using Cons.IH[OF c(1) True Cons.prems(3)] c(2,3) by simp
    next
      case False
      then have bc: "b = c" using Cons.prems(2) by simp
      then have "from < x" "x \<le> h" using Cons.prems(3) Some c(2) by (simp_all add: in_rung_def)
      moreover have "marginal_loop x bs s = s" for s
        using c(1) \<open>x \<le> h\<close> by (cases bs) (auto dest: climbs_hd)
      ultimately show ?thesis by (simp add: bc c(2))
    qed
  qed
qed simp

text \<open>Two incomes: the parts above the lower one add up to their difference.\<close>

lemma taxed_in_mono: "x \<le> y \<Longrightarrow> taxed_in x b \<le> taxed_in y b"
  by (auto simp: taxed_in_def max_def split: option.splits)

lemma climbs_parts: "climbs from bs \<Longrightarrow> from \<le> x \<Longrightarrow> sum_list (map (taxed_in x) bs) = x - from"
proof (induction "from" bs rule: climbs.induct)
  case (3 "from" low high rest)
  show ?case
  proof (cases "high \<le> x")
    case False
    have "taxed_in x b = 0" if "b \<in> set rest" for b
      using climbs_above[of high rest b] 3 that False by (intro taxed_below) auto
    then have "sum_list (map (taxed_in x) rest) = 0" by (induction rest) auto
    moreover have "taxed_in x (low, Some high) = x - from" using 3(2,3) False by (simp add: taxed_in_def)
    ultimately show ?thesis by simp
  qed (use 3 in \<open>simp add: taxed_in_def\<close>)
qed (auto simp: taxed_in_def)

lemma tax_on_between:
  assumes "climbs 0 (map rung bs)" "\<forall>b \<in> set bs. sound_rung b" "0 \<le> x" "x \<le> y"
  shows "0 \<le> tax_on bs y - tax_on bs x" "tax_on bs y - tax_on bs x \<le> y - x"
proof -
  let ?d = "\<lambda>b. taxed_in y (rung b) - taxed_in x (rung b)"
  have d: "tax_on bs y - tax_on bs x = sum_list (map (\<lambda>b. bracket_rate b * ?d b) bs)"
    unfolding tax_on_def sum_list_map_diff by (simp add: algebra_simps)
  have r: "0 \<le> bracket_rate b * ?d b \<and> bracket_rate b * ?d b \<le> ?d b" if "b \<in> set bs" for b
    using assms(2,4) that taxed_in_mono[of x y "rung b"]
    by (auto simp: sound_rung_def is_rate_def mult_left_le_one_le)
  show "0 \<le> tax_on bs y - tax_on bs x" unfolding d using r by (intro sum_list_nonneg) auto
  have "sum_list (map (\<lambda>b. bracket_rate b * ?d b) bs) \<le> sum_list (map ?d bs)"
    using r by (intro sum_list_mono) auto
  also have "\<dots> = y - x"
    using climbs_parts[OF assms(1), of y] climbs_parts[OF assms(1), of x] assms(3,4)
    unfolding sum_list_map_diff[symmetric] by (simp add: o_def)
  finally show "tax_on bs y - tax_on bs x \<le> y - x" unfolding d .
qed

lemma tax_on_rung:
  assumes "climbs from (map rung bs)" "b \<in> set bs" "in_rung y (rung b)" "min_income b \<le> x" "x \<le> y"
  shows "tax_on bs y - tax_on bs x = bracket_rate b * (y - x)"
  using assms(1,2)
proof (induction bs arbitrary: "from")
  case (Cons c bs)
  show ?case
  proof (cases "max_income c")
    case None
    then have "b = c" "bs = []" using Cons.prems by simp_all
    then show ?thesis using None assms(3-5) by (simp add: tax_on_def taxed_in_def in_rung_def algebra_simps)
  next
    case (Some h)
    then have c: "climbs h (map rung bs)" "min_income c = from" "from < h" using Cons.prems(1) by simp_all
    show ?thesis
    proof (cases "b \<in> set bs")
      case True
      then have "h \<le> min_income b" using climbs_above[OF c(1), of "rung b"] by simp
      then have "taxed_in x (rung c) = taxed_in y (rung c)" using assms(4,5) Some by (simp add: taxed_in_def)
      then show ?thesis using Cons.IH[OF c(1) True] by (simp add: tax_on_def)
    next
      case False
      then have bc: "b = c" using Cons.prems(2) by simp
      then have "x \<le> h" "y \<le> h" "taxed_in x (rung c) = x - from" "taxed_in y (rung c) = y - from"
        using assms(3-5) Some c by (simp_all add: in_rung_def taxed_in_def)
      moreover have "tax_on (c # bs) z = bracket_rate c * taxed_in z (rung c) + tax_on bs z" for z
        by (simp add: tax_on_def)
      ultimately show ?thesis using tax_below[OF c(1)] by (simp add: bc right_diff_distrib)
    qed
  qed
qed simp

text \<open>
  C18: the bracket computation is the ladder.  For rules the law accepts and an income in cents, the
  annual tax is the sum over the rungs of the rate on the part of the income inside the rung, rounded
  once; it never falls as the income rises and never rises by more than the income; and the marginal
  rate is the slope of it below the income down to the foot of the income's rung, a boundary income
  counting in the lower one.\<close>

theorem brackets_are_the_ladder:
  assumes "check_federal f = Inr ()" "is_cents x" "0 < x" "x < 10 ^ 12"
  shows "apply_marginal_brackets x (brackets f) = round_money (tax_on (brackets f) x) \<and>
    (\<forall>y \<ge> x. 0 \<le> tax_on (brackets f) y - tax_on (brackets f) x \<and>
       tax_on (brackets f) y - tax_on (brackets f) x \<le> y - x) \<and>
    (\<exists>b \<in> set (brackets f). in_rung x (rung b) \<and> marginal_rate_for x (brackets f) = bracket_rate b \<and>
       (\<forall>z. min_income b \<le> z \<and> z \<le> x \<longrightarrow>
          tax_on (brackets f) x - tax_on (brackets f) z = marginal_rate_for x (brackets f) * (x - z)))"
proof -
  note l = sound_ladder[OF assms(1)]
  obtain b where b: "b \<in> set (brackets f)" "in_rung x (rung b)"
    using unique_rung[OF l(1) assms(3)] by blast
  have "brackets f \<noteq> []" using b(1) by auto
  then have m: "marginal_rate_for x (brackets f) = bracket_rate b"
    using marginal_loop_rung[OF l(1) b] l(3) by (simp add: marginal_rate_for_def Let_def)
  have "\<forall>z. min_income b \<le> z \<and> z \<le> x \<longrightarrow>
      tax_on (brackets f) x - tax_on (brackets f) z = bracket_rate b * (x - z)"
    using tax_on_rung[OF l(1) b] by blast
  then have slope: "\<exists>b \<in> set (brackets f). in_rung x (rung b) \<and> marginal_rate_for x (brackets f) = bracket_rate b \<and>
      (\<forall>z. min_income b \<le> z \<and> z \<le> x \<longrightarrow>
        tax_on (brackets f) x - tax_on (brackets f) z = marginal_rate_for x (brackets f) * (x - z))"
    using b m by (intro bexI[of _ b]) simp_all
  have "\<forall>y \<ge> x. 0 \<le> tax_on (brackets f) y - tax_on (brackets f) x \<and>
      tax_on (brackets f) y - tax_on (brackets f) x \<le> y - x"
    using tax_on_between[OF l(1,2), of x] assms(3) by simp
  then show ?thesis using apply_marginal_brackets_exact[OF assms(1,2,4)] slope by blast
qed

lemma brackets_are_the_ladder_witness:
  "marginal_rate_for 50400 (brackets (FEDERAL_2026 Single)) = four_places 1200 \<and>
   apply_marginal_brackets 50400 (brackets (FEDERAL_2026 Single)) = round_money (tax_on (brackets (FEDERAL_2026 Single)) 50400)"
proof -
  obtain b where b: "b \<in> set (brackets (FEDERAL_2026 Single))" "in_rung 50400 (rung b)"
      "marginal_rate_for 50400 (brackets (FEDERAL_2026 Single)) = bracket_rate b"
    and "apply_marginal_brackets 50400 (brackets (FEDERAL_2026 Single)) = round_money (tax_on (brackets (FEDERAL_2026 Single)) 50400)"
    using brackets_are_the_ladder[OF federal_rules_load(2), of 50400 Single] by auto
  moreover have "bracket_rate b = four_places 1200"
    using b(1,2) by (auto simp: FEDERAL_2026_def ladder_def in_rung_def enumerate_eq_zip upt_conv_Cons)
  ultimately show ?thesis by simp
qed

section \<open>Withholding refuses\<close>

text \<open>
  when withholding is refused.  The checks run in this order and each has its error: a negative
  gross, a pay period count that is not positive, no rules for the filing status, a negative dependent
  count; anything else is priced.  The yearly liability makes the last two checks.\<close>

theorem federal_tax_refusals:
  "(calculate_federal_withholding gross n rules w4 = Inl e \<longleftrightarrow>
      gross < 0 \<and> e = InvalidGrossPayError \<or>
      0 \<le> gross \<and> n \<le> 0 \<and> e = InvalidPayPeriodsError \<or>
      0 \<le> gross \<and> 0 < n \<and> rules = None \<and> e = InvalidFilingStatusError \<or>
      0 \<le> gross \<and> 0 < n \<and> rules \<noteq> None \<and> min (qualifying_children w4) (other_dependents w4) < 0 \<and>
        e = InvalidDependentCountError) \<and>
   (calculate_annual_federal_liability wages rules w4 = Inl e \<longleftrightarrow>
      rules = None \<and> e = InvalidFilingStatusError \<or>
      rules \<noteq> None \<and> min (qualifying_children w4) (other_dependents w4) < 0 \<and> e = InvalidDependentCountError)"
  by (cases rules)
     (auto simp: calculate_federal_withholding_def calculate_annual_federal_liability_def check_dependents_def Let_def min_def)

section \<open>The yearly liability\<close>

definition plain_w4 :: "w4_inputs \<Rightarrow> bool" where
  "plain_w4 w4 \<longleftrightarrow> is_amount (additional_income w4) \<and> is_amount (pre_tax_deductions w4) \<and>
     is_amount (additional_deductions w4) \<and> is_amount (extra_withholding w4) \<and>
     0 \<le> qualifying_children w4 \<and> qualifying_children w4 \<le> 100 \<and>
     0 \<le> other_dependents w4 \<and> other_dependents w4 \<le> 100"

text \<open>The exact figures of the calculation.\<close>

definition exact_credits :: "federal_rules \<Rightarrow> w4_inputs \<Rightarrow> dec" where
  "exact_credits f w4 = of_int (qualifying_children w4) * child_credit_amount f +
     of_int (other_dependents w4) * other_dependent_credit_amount f"

definition exact_base :: "federal_rules \<Rightarrow> w4_inputs \<Rightarrow> dec \<Rightarrow> dec" where
  "exact_base f w4 wages = max (wages + additional_income w4 - pre_tax_deductions w4 - standard_deduction f) 0"

definition exact_tax :: "federal_rules \<Rightarrow> w4_inputs \<Rightarrow> dec \<Rightarrow> dec" where
  "exact_tax f w4 wages = round_money (tax_on (brackets f) (exact_base f w4 wages))"

lemma count_times_amount:
  assumes "0 \<le> n" "n \<le> 100" "is_amount a"
  shows "dmul (of_int n) a = of_int n * a" "is_cents (of_int n * a)" "0 \<le> of_int n * a" "of_int n * a < 10 ^ 13"
    "dmul a (of_int n) = of_int n * a"
proof -
  have n: "0 \<le> (of_int n :: rat)" "(of_int n :: rat) \<le> 100" using assms(1,2) by simp_all
  show c: "is_cents (of_int n * a)"
    using places_mult[of 0 "of_int n" 2 a] assms(3) unfolding add_0 by (simp add: places_2 is_amount_def)
  show nn: "0 \<le> of_int n * a" using n assms(3) by (simp add: is_amount_def)
  have "of_int n * a \<le> 100 * 10 ^ 10" using n assms(3) by (intro mult_mono) (simp_all add: is_amount_def)
  then show lt: "of_int n * a < 10 ^ 13" by simp
  show "dmul (of_int n) a = of_int n * a" "dmul a (of_int n) = of_int n * a"
    using fix28_cents[OF c] nn lt by (simp_all add: dmul_def mult.commute)
qed

lemma dependent_credits_exact:
  assumes "plain_w4 w4" "check_federal f = Inr ()"
  shows "dependent_credits f (qualifying_children w4) (other_dependents w4) = exact_credits f w4"
    "is_cents (exact_credits f w4)" "0 \<le> exact_credits f w4" "exact_credits f w4 < 10 ^ 14"
proof -
  have a: "is_amount (child_credit_amount f)" "is_amount (other_dependent_credit_amount f)"
    using check_federal_ok[OF assms(2)] by (simp_all add: sound_rules_def)
  note c = count_times_amount[of "qualifying_children w4" "child_credit_amount f"]
    count_times_amount[of "other_dependents w4" "other_dependent_credit_amount f"]
  show "is_cents (exact_credits f w4)" "0 \<le> exact_credits f w4" "exact_credits f w4 < 10 ^ 14"
    "dependent_credits f (qualifying_children w4) (other_dependents w4) = exact_credits f w4"
    using a assms(1) c by (simp_all add: exact_credits_def dependent_credits_def plain_w4_def is_cents_add exact)
qed

lemma exact_tax_bounds:
  assumes "check_federal f = Inr ()" "plain_w4 w4" "is_amount wages"
  shows "is_cents (exact_base f w4 wages)" "0 \<le> exact_base f w4 wages" "exact_base f w4 wages < 10 ^ 12"
    "is_cents (exact_tax f w4 wages)" "0 \<le> exact_tax f w4 wages" "exact_tax f w4 wages < 10 ^ 13"
    "apply_marginal_brackets (exact_base f w4 wages) (brackets f) = exact_tax f w4 wages"
proof -
  have s: "is_amount (standard_deduction f)" using check_federal_ok[OF assms(1)] by (simp add: sound_rules_def)
  show b: "is_cents (exact_base f w4 wages)" "0 \<le> exact_base f w4 wages" "exact_base f w4 wages < 10 ^ 12"
    using s assms(2,3) by (auto simp: exact_base_def plain_w4_def is_amount_def intro!: is_cents_intros)
  show "apply_marginal_brackets (exact_base f w4 wages) (brackets f) = exact_tax f w4 wages"
    using apply_marginal_brackets_exact[OF assms(1) b(1,3)] by (simp add: exact_tax_def)
  note l = sound_ladder[OF assms(1)]
  have "0 \<le> tax_on (brackets f) (exact_base f w4 wages)" "tax_on (brackets f) (exact_base f w4 wages) \<le> exact_base f w4 wages"
    using tax_on_between[OF l(1,2), of 0 "exact_base f w4 wages"] tax_below[OF l(1), of 0] b(2) by simp_all
  then show "0 \<le> exact_tax f w4 wages" "exact_tax f w4 wages < 10 ^ 13"
    using round_money_nonneg round_money_le_cents[OF _ b(1)] b(3) unfolding exact_tax_def by force+
qed (simp add: exact_tax_def)

lemma small_cents [exact]:
  assumes "is_cents x" "is_cents y" "0 \<le> y" "y < 10 ^ 13" "\<bar>x\<bar> < 10 ^ 14"
  shows "dsub x y = x - y" "dadd x y = x + y"
  using assms by (auto intro!: dsub_exact dadd_exact simp: abs_if split: if_splits)

lemma liability_value:
  assumes "check_federal f = Inr ()" "plain_w4 w4" "is_amount wages"
  shows "calculate_annual_federal_liability wages (Some f) w4 = Inr
    \<lparr>taxable = exact_base f w4 wages, liability = max (exact_tax f w4 wages - exact_credits f w4) 0,
     refundable_actc = refundable_actc_of f (qualifying_children w4) (exact_tax f w4 wages) (exact_credits f w4) wages\<rparr>"
proof -
  have s: "is_amount (standard_deduction f)" using check_federal_ok[OF assms(1)] by (simp add: sound_rules_def)
  note d = dependent_credits_exact[OF assms(2,1)] and t = exact_tax_bounds[OF assms]
  have "max (dsub (dsub (dadd wages (additional_income w4)) (pre_tax_deductions w4)) (standard_deduction f)) 0 = exact_base f w4 wages"
  proof -
    have w: "dadd wages (additional_income w4) = wages + additional_income w4" "is_cents (wages + additional_income w4)"
        "0 \<le> wages + additional_income w4" "wages + additional_income w4 < 10 ^ 11"
      using assms(2,3) by (simp_all add: plain_w4_def is_amount_def small_cents is_cents_add)
    let ?x = "wages + additional_income w4 - pre_tax_deductions w4"
    have x: "dsub (wages + additional_income w4) (pre_tax_deductions w4) = ?x" "is_cents ?x" "\<bar>?x\<bar> < 10 ^ 12"
      using w assms(2) by (auto simp: plain_w4_def is_amount_def small_cents is_cents_diff abs_if)
    then show ?thesis using s by (simp add: w(1) exact_base_def is_amount_def small_cents)
  qed
  moreover have "dsub (exact_tax f w4 wages) (exact_credits f w4) = exact_tax f w4 wages - exact_credits f w4"
    using d(2-4) t(4-6) by (intro dsub_exact) (auto simp: abs_if)
  ultimately show ?thesis
    using assms(2) d(1) t(7)
    by (simp add: calculate_annual_federal_liability_def check_dependents_def plain_w4_def Let_def)
qed

text \<open>
  a dependent credit is spent once.  What is left of the credits after the tax is refundable, never
  more: the liability and the refundable credit are not both positive, the credit used against the tax
  and the credit refunded together are at most the credits, and the refund is capped per child and by
  the earned income; no figure is negative.\<close>

theorem credits_are_spent_once:
  assumes "check_federal f = Inr ()" "plain_w4 w4" "is_amount wages"
    and "calculate_annual_federal_liability wages (Some f) w4 = Inr r"
  defines "tax \<equiv> exact_tax f w4 wages" and "credits \<equiv> exact_credits f w4"
  shows "taxable r = exact_base f w4 wages \<and> liability r = max (tax - credits) 0 \<and>
    0 \<le> refundable_actc r \<and> is_cents (refundable_actc r) \<and>
    min (liability r) (refundable_actc r) = 0 \<and>
    (tax - liability r) + refundable_actc r \<le> credits \<and>
    refundable_actc r \<le> of_int (qualifying_children w4) * child_credit_refundable_cap f \<and>
    refundable_actc r \<le> round_money (15/100 * max 0 (wages - 2500))"
proof -
  let ?n = "qualifying_children w4"
  note d = dependent_credits_exact[OF assms(2,1), folded credits_def] and t = exact_tax_bounds(4-6)[OF assms(1-3), folded tax_def]
  have r: "taxable r = exact_base f w4 wages" "liability r = max (tax - credits) 0"
      "refundable_actc r = refundable_actc_of f ?n tax credits wages"
    using liability_value[OF assms(1-3)] assms(4) by (auto simp: tax_def credits_def)
  have cap: "dmul (child_credit_refundable_cap f) (of_int ?n) = of_int ?n * child_credit_refundable_cap f"
      "is_cents (of_int ?n * child_credit_refundable_cap f)" "0 \<le> of_int ?n * child_credit_refundable_cap f"
    using count_times_amount[of ?n "child_credit_refundable_cap f"] assms(2) check_federal_ok[OF assms(1)]
    by (simp_all add: plain_w4_def sound_rules_def)
  have unused: "dsub credits tax = credits - tax" "is_cents (credits - tax)"
    using d t by (auto intro!: dsub_exact is_cents_diff simp: abs_if)
  have earned: "dmul ACTC_EARNED_INCOME_RATE (max 0 (dsub wages ACTC_EARNED_INCOME_FLOOR)) = 15/100 * max 0 (wages - 2500)"
  proof -
    have w: "dsub wages 2500 = wages - 2500" "is_cents (max 0 (wages - 2500))" "\<bar>max 0 (wages - 2500)\<bar> < 10 ^ 20"
      using assms(3) by (auto simp: is_amount_def small_cents intro!: is_cents_intros)
    have "is_rate (15/100)" using placesI[of "15/100" 1500 4] by (simp add: is_rate_def)
    then show ?thesis unfolding ACTC_EARNED_INCOME_RATE_def ACTC_EARNED_INCOME_FLOOR_def w(1)
      using dmul_amount_rate(2)[OF w(2,3)] by (simp only: mult.commute)
  qed
  define a where "a = max (min (min (max 0 (credits - tax)) (of_int ?n * child_credit_refundable_cap f))
      (15/100 * max 0 (wages - 2500))) 0"
  have a: "refundable_actc r = round_money a"
    unfolding r(3) refundable_actc_of_def Let_def unused(1) cap(1) earned a_def ..
  have "a \<le> max 0 (credits - tax)" "a \<le> of_int ?n * child_credit_refundable_cap f"
      "a \<le> 15/100 * max 0 (wages - 2500)" "0 \<le> a"
    unfolding a_def using cap(3) by (auto intro: min.coboundedI1 min.coboundedI2 simp del: times_divide_eq_left)
  then have b: "refundable_actc r \<le> max 0 (credits - tax)" "0 \<le> refundable_actc r"
      "refundable_actc r \<le> of_int ?n * child_credit_refundable_cap f"
      "refundable_actc r \<le> round_money (15/100 * max 0 (wages - 2500))"
    unfolding a using unused(2) cap(2)
    by (simp_all only: round_money_le_cents round_money_nonneg round_money_mono is_cents_max is_cents_0)
  have "min (liability r) (refundable_actc r) = 0 \<and> (tax - liability r) + refundable_actc r \<le> credits"
    using b(1,2) by (cases "credits \<le> tax") (auto simp: r(2))
  then show ?thesis using r(1,2) b(2-4) a by simp
qed

definition sample_w4 :: w4_inputs where
  "sample_w4 = \<lparr>additional_income = 0, pre_tax_deductions = 0, additional_deductions = 0,
     qualifying_children = 2, other_dependents = 0, extra_withholding = 0\<rparr>"

lemma sample_w4_plain: "plain_w4 sample_w4"
  by (simp add: plain_w4_def sample_w4_def)

lemma credits_are_spent_once_witness:
  "\<exists>r. calculate_annual_federal_liability 30000 (Some (FEDERAL_2026 Single)) sample_w4 = Inr r \<and>
     min (liability r) (refundable_actc r) = 0 \<and> refundable_actc r \<le> 3400"
proof -
  obtain r where r: "calculate_annual_federal_liability 30000 (Some (FEDERAL_2026 Single)) sample_w4 = Inr r"
    using liability_value[OF federal_rules_load(2) sample_w4_plain, of 30000] by auto
  moreover have "of_int (qualifying_children sample_w4) * child_credit_refundable_cap (FEDERAL_2026 Single) = 3400"
    by (simp add: sample_w4_def FEDERAL_2026_def)
  moreover have "is_amount 30000" by simp
  ultimately show ?thesis using credits_are_spent_once[OF federal_rules_load(2) sample_w4_plain _ r] by metis
qed

section \<open>Social Security and Medicare over a year\<close>

text \<open>The taxes of successive pay periods, each given the pay before it.\<close>

fun fica_year :: "fica_rules \<Rightarrow> dec \<Rightarrow> dec list \<Rightarrow> fica_tax list" where
  "fica_year c cumulative [] = []"
| "fica_year c cumulative (g # gs) =
     calculate_fica g (Some c) cumulative # fica_year c (cumulative + g) gs"

definition pay_sum :: "dec \<Rightarrow> bool" where
  "pay_sum x \<longleftrightarrow> is_cents x \<and> 0 \<le> x \<and> x < 10 ^ 15"

lemma pay_sum_amount: "is_amount x \<Longrightarrow> pay_sum x"
  by (simp add: pay_sum_def is_amount_def)

lemma pay_sum_rate:
  assumes "pay_sum x" "is_rate r"
  shows "dmul x r = x * r" "dmul r x = r * x" "places 6 (r * x)" "0 \<le> r * x" "r * x < 10 ^ 15"
proof -
  have x: "is_cents x" "\<bar>x\<bar> < 10 ^ 20" "0 \<le> x" "x < 10 ^ 15" using assms(1) by (simp_all add: pay_sum_def)
  note m = dmul_amount_rate[OF x(1,2) assms(2)]
  show "dmul x r = x * r" "dmul r x = r * x" "places 6 (r * x)" using m(1-3) by (simp_all add: mult.commute)
  show "0 \<le> r * x" using x(3) assms(2) by (simp add: is_rate_def)
  show "r * x < 10 ^ 15" using m(4) x(3,4) by (simp add: mult.commute)
qed

lemma pay_sum_arith: "pay_sum x \<Longrightarrow> pay_sum y \<Longrightarrow> dadd x y = x + y \<and> dsub x y = x - y \<and> \<bar>x - y\<bar> < 10 ^ 15"
  by (auto simp: pay_sum_def exact abs_if)

lemma checked_fica:
  assumes "check_fica c = Inr ()"
  shows "is_rate (ss_rate c)" "pay_sum (ss_wage_base c)" "is_rate (medicare_rate c)" "is_rate (medicare_surtax_rate c)"
    "pay_sum (medicare_surtax_threshold c)"
  using assms by (auto simp: check_fica_def dest!: require_amount_ok require_rate_ok intro: pay_sum_amount)

text \<open>The Social Security due on the wages so far, whose increase a period pays.\<close>

definition ss_due :: "fica_rules \<Rightarrow> dec \<Rightarrow> dec" where
  "ss_due c x = ss_rate c * min x (ss_wage_base c)"

definition medicare_due :: "fica_rules \<Rightarrow> dec \<Rightarrow> dec" where
  "medicare_due c x = medicare_rate c * x + medicare_surtax_rate c * max 0 (x - medicare_surtax_threshold c)"

lemma capped_social_security_exact:
  assumes "check_fica c = Inr ()" "pay_sum g" "pay_sum cum"
  shows "capped_social_security g cum (Some c) = round_money (ss_due c (cum + g) - ss_due c cum)"
proof -
  let ?r = "ss_rate c" and ?B = "ss_wage_base c"
  note f = checked_fica[OF assms(1)]
  note b = pay_sum_rate[OF f(2,1)] and g = pay_sum_rate[OF assms(2) f(1)] and m = pay_sum_rate[OF assms(3) f(1)]
  have "\<bar>?r * ?B - ?r * cum\<bar> < 10 powi 22" using b(4,5) m(4,5) by (simp add: abs_if)
  then have "dsub (?r * ?B) (?r * cum) = ?r * ?B - ?r * cum" using dsub_places[OF b(3) m(3)] by simp
  then have "capped_social_security g cum (Some c) = round_money (max (min (?r * g) (?r * ?B - ?r * cum)) 0)"
    by (simp add: capped_social_security_def Let_def b(2) g(2) m(2))
  also have "max (min (?r * g) (?r * ?B - ?r * cum)) 0 = ss_due c (cum + g) - ss_due c cum"
  proof (cases "?B \<le> cum")
    case True
    then have "?r * ?B \<le> ?r * cum" using f(1) by (simp add: is_rate_def mult_left_mono)
    moreover have "0 \<le> g" using assms(2) by (simp add: pay_sum_def)
    ultimately show ?thesis using True by (simp add: ss_due_def)
  next
    case False
    have "0 \<le> ?r" using f(1) by (simp add: is_rate_def)
    then have "min (?r * g) (?r * ?B - ?r * cum) = ?r * min g (?B - cum)"
      by (simp add: min_mult_distrib_left right_diff_distrib)
    moreover have "min (cum + g) ?B = cum + min g (?B - cum)" by (simp add: min_def)
    moreover have "0 \<le> ?r * min g (?B - cum)" using False \<open>0 \<le> ?r\<close> assms(2) by (simp add: pay_sum_def)
    ultimately show ?thesis using False by (simp add: ss_due_def distrib_left)
  qed
  finally show ?thesis .
qed

lemma surtax_parts:
  assumes "check_fica c = Inr ()" "pay_sum g" "pay_sum cum"
  defines "extra_part \<equiv> max 0 (cum + g - medicare_surtax_threshold c) - max 0 (cum - medicare_surtax_threshold c)"
  shows "fica_medicare (calculate_fica g (Some c) cum) =
      round_money (medicare_rate c * g) + round_money (medicare_surtax_rate c * extra_part) \<and> 0 \<le> extra_part"
proof -
  let ?T = "medicare_surtax_threshold c"
  note f = checked_fica[OF assms(1)]
  have nn: "0 \<le> g" "0 \<le> cum" "0 \<le> ?T" using assms(2,3) f(5) by (simp_all add: pay_sum_def)
  then have part0: "0 \<le> extra_part" unfolding extra_part_def by auto
  have sum: "dadd cum g = cum + g" using pay_sum_arith[OF assms(3,2)] by simp
  have sur: "(if ?T \<le> cum then g else dsub (cum + g) ?T) = extra_part" if h: "?T < cum + g"
  proof (cases "?T \<le> cum")
    case False
    have "dsub (cum + g) ?T = cum + g - ?T"
      using assms(2,3) f(5) h by (intro dsub_exact) (auto simp: pay_sum_def is_cents_add)
    then show ?thesis using False h by (simp add: extra_part_def)
  qed (use nn h in \<open>simp add: extra_part_def\<close>)
  have ab: "pay_sum extra_part" if "?T < cum + g"
    using assms(2,3) f(5) by (auto simp: extra_part_def pay_sum_def is_cents_add is_cents_diff max_def)
  have zero: "extra_part = 0" if "\<not> ?T < cum + g" using that nn by (simp add: extra_part_def)
  have rr: "dadd (round_money x) (round_money y) = round_money x + round_money y" if "0 \<le> x" "0 \<le> y" "x < 10 ^ 16" "y < 10 ^ 16" for x y
  proof -
    have "round_money x \<le> 10 ^ 16" "round_money y \<le> 10 ^ 16" using that by (auto intro: round_money_le_cents)
    moreover have "0 \<le> round_money x" "0 \<le> round_money y" using that by (simp_all add: round_money_nonneg)
    ultimately show ?thesis by (intro dadd_exact) simp_all
  qed
  show ?thesis
  proof (cases "?T < cum + g")
    case True
    note w = pay_sum_rate[OF assms(2) f(3)] pay_sum_rate[OF ab[OF True] f(4)]
    have "fica_medicare (calculate_fica g (Some c) cum) =
        dadd (round_money (medicare_rate c * g)) (round_money (medicare_surtax_rate c * extra_part))"
      using True sur[OF True, folded sum] w(1,6)
      by (simp add: calculate_fica_def Let_def mult.commute split del: if_split) (simp add: sum)
    then show ?thesis using rr[OF w(4,9)] w(5,10) part0 by simp
  next
    case False
    then show ?thesis using zero pay_sum_rate(1)[OF assms(2) f(3)] by (simp add: calculate_fica_def Let_def sum mult.commute)
  qed
qed

lemma ss_due_mono: "check_fica c = Inr () \<Longrightarrow> x \<le> y \<Longrightarrow> ss_due c x \<le> ss_due c y"
  using checked_fica(1)[of c] by (auto simp: ss_due_def is_rate_def intro!: mult_left_mono)

lemma fica_ss_calculate: "fica_ss (calculate_fica g (Some c) cum) = capped_social_security g cum (Some c)"
  by (simp add: calculate_fica_def Let_def)

text \<open>One period: both taxes within their roundings of the increase of what is due, and not negative.\<close>

lemma fica_period:
  assumes "check_fica c = Inr ()" "pay_sum g" "pay_sum cum"
  shows "\<bar>fica_ss (calculate_fica g (Some c) cum) - (ss_due c (cum + g) - ss_due c cum)\<bar> \<le> 1/200"
    "\<bar>fica_medicare (calculate_fica g (Some c) cum) - (medicare_due c (cum + g) - medicare_due c cum)\<bar> \<le> 1/100"
    "0 \<le> fica_ss (calculate_fica g (Some c) cum)" "0 \<le> fica_medicare (calculate_fica g (Some c) cum)"
proof -
  define part where "part = max 0 (cum + g - medicare_surtax_threshold c) - max 0 (cum - medicare_surtax_threshold c)"
  have g: "0 \<le> g" using assms(2) by (simp add: pay_sum_def)
  note ss = capped_social_security_exact[OF assms]
  show "\<bar>fica_ss (calculate_fica g (Some c) cum) - (ss_due c (cum + g) - ss_due c cum)\<bar> \<le> 1/200"
    unfolding fica_ss_calculate ss by (rule round_money_near)
  show "0 \<le> fica_ss (calculate_fica g (Some c) cum)"
    unfolding fica_ss_calculate ss using ss_due_mono[OF assms(1), of cum "cum + g"] g by (intro round_money_nonneg) simp
  note m = surtax_parts[OF assms, folded part_def] and f = checked_fica[OF assms(1)]
  have due: "medicare_due c (cum + g) - medicare_due c cum = medicare_rate c * g + medicare_surtax_rate c * part"
    by (simp add: medicare_due_def part_def algebra_simps)
  show "\<bar>fica_medicare (calculate_fica g (Some c) cum) - (medicare_due c (cum + g) - medicare_due c cum)\<bar> \<le> 1/100"
    unfolding due conjunct1[OF m]
    using round_money_near[of "medicare_rate c * g"] round_money_near[of "medicare_surtax_rate c * part"] by linarith
  show "0 \<le> fica_medicare (calculate_fica g (Some c) cum)"
    using m g f(3,4) by (simp add: is_rate_def round_money_nonneg)
qed

lemma add_errors:
  fixes a b x y :: rat
  assumes "\<bar>a - (y - x)\<bar> \<le> p" "\<bar>b - (z - y)\<bar> \<le> q"
  shows "\<bar>(a + b) - (z - x)\<bar> \<le> p + q"
  using assms by linarith

lemma fica_year_due:
  assumes "check_fica c = Inr ()" "\<forall>g \<in> set gs. is_amount g" "pay_sum cum" "pay_sum (cum + sum_list gs)"
  shows "\<bar>sum_list (map fica_ss (fica_year c cum gs)) - (ss_due c (cum + sum_list gs) - ss_due c cum)\<bar> \<le> of_nat (length gs) / 200 \<and>
    \<bar>sum_list (map fica_medicare (fica_year c cum gs)) - (medicare_due c (cum + sum_list gs) - medicare_due c cum)\<bar>
      \<le> of_nat (length gs) / 100 \<and>
    (\<forall>t \<in> set (fica_year c cum gs). 0 \<le> fica_ss t \<and> 0 \<le> fica_medicare t)"
  using assms(2-4)
proof (induction gs arbitrary: cum)
  case (Cons g gs)
  have g: "pay_sum g" using Cons.prems(1) by (simp add: pay_sum_amount)
  have "0 \<le> sum_list gs" using Cons.prems(1) by (intro sum_list_nonneg) (auto simp: is_amount_def)
  then have cg: "pay_sum (cum + g)" using Cons.prems(2,3) g by (auto simp: pay_sum_def is_cents_add)
  note p = fica_period[OF assms(1) g Cons.prems(2)]
  have "\<forall>g \<in> set gs. is_amount g" "pay_sum (cum + g + sum_list gs)" using Cons.prems(1,3) by (simp_all add: add.assoc)
  note IH = Cons.IH[OF this(1) cg this(2)]
  have len: "of_nat (length (g # gs)) / 200 = 1/200 + (of_nat (length gs) / 200 :: rat)"
    "of_nat (length (g # gs)) / 100 = 1/100 + (of_nat (length gs) / 100 :: rat)" by (simp_all add: add_divide_distrib)
  have "\<bar>sum_list (map fica_ss (fica_year c cum (g # gs))) - (ss_due c (cum + sum_list (g # gs)) - ss_due c cum)\<bar>
      \<le> of_nat (length (g # gs)) / 200"
    unfolding len using add_errors[OF p(1) conjunct1[OF IH]] by (simp only: fica_year.simps list.map sum_list.Cons add.assoc)
  moreover have "\<bar>sum_list (map fica_medicare (fica_year c cum (g # gs))) -
      (medicare_due c (cum + sum_list (g # gs)) - medicare_due c cum)\<bar> \<le> of_nat (length (g # gs)) / 100"
    unfolding len using add_errors[OF p(2) conjunct1[OF conjunct2[OF IH]]]
    by (simp only: fica_year.simps list.map sum_list.Cons add.assoc)
  ultimately show ?case using p(3,4) conjunct2[OF conjunct2[OF IH]] by simp
qed simp

text \<open>
  Social Security and Medicare over a year.  Paid period by period on the wages before each, the
  Social Security of a year is the rate on its wages up to the wage base, and its Medicare the base
  rate on all of them and the surtax on those above the threshold, each within the roundings of its
  periods (half a cent, and a cent); a period that starts at the wage base or above pays none; and no
  period's tax is negative.\<close>

theorem fica_over_a_year:
  assumes "check_fica c = Inr ()" "\<forall>g \<in> set gs. is_amount g" "sum_list gs < 10 ^ 15"
  shows "\<bar>sum_list (map fica_ss (fica_year c 0 gs)) - ss_rate c * min (sum_list gs) (ss_wage_base c)\<bar>
      \<le> of_nat (length gs) / 200 \<and>
    \<bar>sum_list (map fica_medicare (fica_year c 0 gs)) -
       (medicare_rate c * sum_list gs + medicare_surtax_rate c * max 0 (sum_list gs - medicare_surtax_threshold c))\<bar>
      \<le> of_nat (length gs) / 100 \<and>
    (\<forall>t \<in> set (fica_year c 0 gs). 0 \<le> fica_ss t \<and> 0 \<le> fica_medicare t) \<and>
    (ss_wage_base c \<le> sum_list gs \<longrightarrow> (\<forall>g. is_amount g \<longrightarrow> fica_ss (calculate_fica g (Some c) (sum_list gs)) = 0))"
proof -
  have nn: "0 \<le> sum_list gs" "is_cents (sum_list gs)"
    using assms(2) by (auto simp: is_amount_def intro!: sum_list_nonneg is_cents_sum_list)
  then have s: "pay_sum (sum_list gs)" using assms(3) by (simp add: pay_sum_def)
  note f = checked_fica[OF assms(1)]
  have zero: "ss_due c 0 = 0" "medicare_due c 0 = 0"
    using f(2,5) by (simp_all add: ss_due_def medicare_due_def pay_sum_def)
  have "fica_ss (calculate_fica g (Some c) (sum_list gs)) = 0" if h: "ss_wage_base c \<le> sum_list gs" "is_amount g" for g
  proof -
    have "0 \<le> g" using h(2) by (simp add: is_amount_def)
    then have "ss_due c (sum_list gs + g) = ss_due c (sum_list gs)" using h(1) by (simp add: ss_due_def)
    then show ?thesis using capped_social_security_exact[OF assms(1) pay_sum_amount[OF h(2)] s] by (simp add: fica_ss_calculate)
  qed
  moreover have "pay_sum 0" "pay_sum (0 + sum_list gs)" using s by (simp_all add: pay_sum_def)
  note fica_year_due[OF assms(1,2) this, unfolded zero add_0 diff_zero, unfolded ss_due_def medicare_due_def]
  ultimately show ?thesis by blast
qed

lemma fica_rules_load: "check_fica FICA_2025 = Inr ()" "check_fica FICA_2026 = Inr ()"
  by (simp_all add: check_fica_def FICA_2025_def FICA_2026_def require_rate_iff require_amount_iff)

lemma fica_over_a_year_witness:
  "\<bar>sum_list (map fica_ss (fica_year FICA_2026 0 [5000, 6000])) - four_places 620 * 11000\<bar> \<le> 1/100"
  using fica_over_a_year[OF fica_rules_load(2), of "[5000, 6000]"] by (simp add: FICA_2026_def)

text \<open>
  The cap is on the exact figures.  The periods' own roundings are not part of it, so the cents withheld
  over a year can pass the statutory maximum: 26 periods of 7,100.25 withhold 11,439.11 of 11,439.00.\<close>

lemma fica_year_append:
  "fica_year c cum (xs @ ys) = fica_year c cum xs @ fica_year c (cum + sum_list xs) ys"
  by (induction xs arbitrary: cum) (simp_all add: add.assoc)

lemma ss_below_base:
  assumes "check_fica c = Inr ()" "is_amount g" "pay_sum cum" "cum + of_nat n * g \<le> ss_wage_base c"
  shows "sum_list (map fica_ss (fica_year c cum (replicate n g))) = of_nat n * round_money (ss_rate c * g)"
  using assms(3,4)
proof (induction n arbitrary: cum)
  case (Suc n)
  have g: "0 \<le> g" "0 \<le> of_nat n * g" using assms(2) by (simp_all add: is_amount_def)
  have le: "cum + g + of_nat n * g \<le> ss_wage_base c" using Suc.prems(2) by (simp add: algebra_simps)
  have "ss_wage_base c < 10 ^ 15" using checked_fica(2)[OF assms(1)] by (simp add: pay_sum_def)
  then have "cum + g < 10 ^ 15" using le g by linarith
  then have pg: "pay_sum (cum + g)"
    using Suc.prems(1) assms(2) g by (auto simp: pay_sum_def is_amount_def is_cents_add)
  have "ss_due c (cum + g) - ss_due c cum = ss_rate c * g" 
  proof -
    have "min (cum + g) (ss_wage_base c) = cum + g" "min cum (ss_wage_base c) = cum" using le g by linarith+
    then show ?thesis by (simp add: ss_due_def distrib_left)
  qed
  then have "fica_ss (calculate_fica g (Some c) cum) = round_money (ss_rate c * g)"
    using capped_social_security_exact[OF assms(1) pay_sum_amount[OF assms(2)] Suc.prems(1)] by (simp add: fica_ss_calculate)
  then show ?case using Suc.IH[OF pg le] by (simp add: algebra_simps)
qed simp

theorem social_security_passes_the_maximum:
  "sum_list (map fica_ss (fica_year FICA_2026 0 (replicate 26 (710025/100)))) = 1143911/100 \<and>
   ss_rate FICA_2026 * ss_wage_base FICA_2026 = 11439"
proof -
  let ?g = "710025/100 :: dec" and ?c = FICA_2026
  have r: "ss_rate ?c = 62/1000" "ss_wage_base ?c = 184500" by (simp_all add: FICA_2026_def four_places_def)
  have g: "is_amount ?g" using is_centsI[of ?g 710025] by (simp add: is_amount_def)
  have rep: "replicate 26 ?g = replicate 25 ?g @ [?g]" by (simp add: numeral_eq_Suc)
  have "pay_sum 0" by (simp add: pay_sum_def)
  then have first: "sum_list (map fica_ss (fica_year ?c 0 (replicate 25 ?g))) = 25 * round_money (ss_rate ?c * ?g)"
    using ss_below_base[OF fica_rules_load(2) g, of 0 25] by (simp add: r)
  have s: "sum_list (replicate 25 ?g) = 17750625/100" by (simp add: sum_list_replicate)
  have "is_cents (17750625/100)" using is_centsI[of "17750625/100" 17750625] by simp
  then have "pay_sum (17750625/100)" by (simp add: pay_sum_def)
  then have last: "fica_ss (calculate_fica ?g (Some ?c) (17750625/100)) = round_money (62/1000 * 184500 - 62/1000 * (17750625/100))"
    using capped_social_security_exact[OF fica_rules_load(2) pay_sum_amount[OF g]] by (simp add: fica_ss_calculate ss_due_def r)
  have "round_money (62/1000 * ?g) = 44022/100" "round_money (62/1000 * 184500 - 62/1000 * (17750625/100)) = 43361/100"
    by (simp_all add: round_money_def quantize_cents_def round_half_up_def floor_eq_iff)
  then show ?thesis
    unfolding rep fica_year_append map_append sum_list_append first add_0 s fica_year.simps list.map sum_list.Cons last
    by (simp add: r)
qed

section \<open>Withholding is the liability, period by period\<close>

lemma spread_error:
  assumes "0 \<le> L" "L < 10 ^ 13" "0 < n" "is_amount e"
  shows "\<bar>dadd (ddiv L (of_int n)) e - (L / of_int n + e)\<bar> \<le> 1/10 ^ 9"
proof -
  have n1: "(1::rat) \<le> of_int n" using assms(3) by (metis int_one_le_iff_zero_less of_int_1_le_iff)
  define q where "q = L / of_int n"
  have "q \<le> L / 1" unfolding q_def using n1 assms(1) by (intro divide_left_mono) simp_all
  then have q: "0 \<le> q" "q < 10 ^ 13" using assms(1,2) n1 by (simp_all add: q_def)
  have a: "\<bar>fix28 q - q\<bar> \<le> 1 / 10 ^ 14" using fix28_error[of q] q by simp
  have e: "0 \<le> e" "e < 10 ^ 10" using assms(4) by (simp_all add: is_amount_def)
  have "\<bar>fix28 q + e\<bar> < 10 ^ 14" using a q e by (simp add: abs_if split: if_splits)
  then have "\<bar>fix28 (fix28 q + e) - (fix28 q + e)\<bar> \<le> 1 / 10 ^ 13" using fix28_error[of "fix28 q + e"] by simp
  then show ?thesis using a by (simp add: dadd_def ddiv_def q_def[symmetric] abs_if split: if_splits)
qed

text \<open>The taxable income of a year's withholding is that of its liability.\<close>

lemma period_base:
  assumes "check_federal f = Inr ()" "plain_w4 w4" "is_amount W"
  shows "max (dsub (max (dsub (dsub (dadd W (additional_income w4)) (pre_tax_deductions w4)) 0) 0) (standard_deduction f)) 0
    = exact_base f w4 W"
proof -
  have std: "is_amount (standard_deduction f)" using check_federal_ok[OF assms(1)] by (simp add: sound_rules_def)
  have w1: "dadd W (additional_income w4) = W + additional_income w4" "is_cents (W + additional_income w4)"
      "0 \<le> W + additional_income w4" "W + additional_income w4 < 10 ^ 11"
    using assms(2,3) by (simp_all add: plain_w4_def is_amount_def small_cents is_cents_add)
  let ?x = "W + additional_income w4 - pre_tax_deductions w4"
  have x: "dsub (W + additional_income w4) (pre_tax_deductions w4) = ?x" "is_cents ?x" "\<bar>?x\<bar> < 10 ^ 12" "dsub ?x 0 = ?x"
    using w1 assms(2) by (auto simp: plain_w4_def is_amount_def small_cents is_cents_diff abs_if)
  have "dsub (max ?x 0) (standard_deduction f) = max ?x 0 - standard_deduction f"
    using x(2,3) std by (intro small_cents) (auto simp: is_amount_def is_cents_max)
  then show ?thesis using std unfolding w1(1) x(1,4) by (auto simp: exact_base_def is_amount_def max_def)
qed

text \<open>
  C17: withholding agrees with the liability.  For the same W-4 without additional deductions, what a
  period withholds beyond the extra amount asked for is the year's federal liability on that pay,
  spread over the periods: within half a cent (and a billionth for the context's rounding).\<close>

theorem withholding_spreads_the_liability:
  assumes "check_federal f = Inr ()" "plain_w4 w4" "additional_deductions w4 = 0"
    and "is_amount gross" "0 < n" "is_amount (gross * of_int n)"
    and "calculate_federal_withholding gross n (Some f) w4 = Inr w"
    and "calculate_annual_federal_liability (gross * of_int n) (Some f) w4 = Inr r"
  shows "\<bar>w - (liability r / of_int n + extra_withholding w4)\<bar> \<le> 1/200 + 1/10 ^ 9"
proof -
  let ?W = "gross * of_int n"
  note d = dependent_credits_exact[OF assms(2,1)] and t = exact_tax_bounds[OF assms(1,2,6)]
  have annual: "dmul gross (of_int n) = ?W" using assms(6) by (simp add: dmul_def is_amount_def exact)
  note base = period_base[OF assms(1,2,6)]
  define L where "L = max (exact_tax f w4 ?W - exact_credits f w4) 0"
  have "dsub (exact_tax f w4 ?W) (exact_credits f w4) = exact_tax f w4 ?W - exact_credits f w4"
    using d(2-4) t(4-6) by (intro dsub_exact) (auto simp: abs_if)
  then have w: "w = round_money (dadd (ddiv L (of_int n)) (extra_withholding w4))"
    using assms(7) assms(2,3,4,5) d(1) t(7) base
    by (simp add: calculate_federal_withholding_def check_dependents_def plain_w4_def is_amount_def Let_def annual L_def)
  have l: "liability r = L" using assms(8) liability_value[OF assms(1,2,6)] by (auto simp: L_def)
  have "\<bar>dadd (ddiv L (of_int n)) (extra_withholding w4) - (L / of_int n + extra_withholding w4)\<bar> \<le> 1/10 ^ 9"
    using assms(2,5) t(5,6) d(3) by (intro spread_error) (auto simp: L_def plain_w4_def)
  then show ?thesis unfolding w l using round_money_near[of "dadd (ddiv L (of_int n)) (extra_withholding w4)"] by linarith
qed

lemma withholding_spreads_the_liability_witness:
  "\<exists>w r. calculate_federal_withholding 3000 26 (Some (FEDERAL_2026 Single)) sample_w4 = Inr w \<and>
     calculate_annual_federal_liability 78000 (Some (FEDERAL_2026 Single)) sample_w4 = Inr r \<and>
     \<bar>w - liability r / 26\<bar> \<le> 1/100"
proof -
  obtain w where w: "calculate_federal_withholding 3000 26 (Some (FEDERAL_2026 Single)) sample_w4 = Inr w"
    by (simp add: calculate_federal_withholding_def check_dependents_def sample_w4_def Let_def)
  obtain r where r: "calculate_annual_federal_liability 78000 (Some (FEDERAL_2026 Single)) sample_w4 = Inr r"
    using liability_value[OF federal_rules_load(2) sample_w4_plain, of 78000] by auto
  have "\<bar>w - (liability r / 26 + extra_withholding sample_w4)\<bar> \<le> 1/200 + 1/10 ^ 9"
    using withholding_spreads_the_liability[OF federal_rules_load(2) sample_w4_plain, where gross = 3000 and n = 26 and w = w and r = r] w r
    by (simp add: sample_w4_def)
  then show ?thesis using w r by (auto simp: sample_w4_def)
qed

section \<open>State tax\<close>

lemma checked_state:
  assumes "check_state s = Inr ()"
  shows "state_tax_type s = No_Tax \<and> flat_rate s = None \<or> (\<exists>r. state_tax_type s = Flat_Tax \<and> flat_rate s = Some r \<and> is_rate r)"
    "is_amount (the (state_deduction s status))"
proof -
  show "state_tax_type s = No_Tax \<and> flat_rate s = None \<or> (\<exists>r. state_tax_type s = Flat_Tax \<and> flat_rate s = Some r \<and> is_rate r)"
    using assms by (cases "state_tax_type s"; cases "flat_rate s") (auto simp: check_state_def dest!: require_rate_ok)
  have "require_every_status (state_deduction s) = Inr ()" using assms by (simp add: check_state_def)
  then obtain v where v: "state_deduction s status = Some v" using every_status by blast
  have "list_all (\<lambda>c. c = Inr ()) (map (\<lambda>d. require_amount d False) (items (state_deduction s)))"
    using assms by (simp only: check_state_def all_checked_ok list_all_append)
  then have "require_amount v False = Inr ()"
    using in_items[of "state_deduction s", OF v] by (simp add: list.pred_map list_all_iff)
  then show "is_amount (the (state_deduction s status))" using v by (simp add: require_amount_iff)
qed

text \<open>
  a state's tax.  The calculation refuses exactly the rules it has no formula for, a type that is
  neither flat nor none or a flat type without a rate, with a ValueError; the rules of a state the law's
  checks accept are never among them: a state without an income tax charges nothing, a flat one its rate
  on what is left after the deductions, rounded once and never negative.\<close>

theorem accepted_state_is_priced:
  assumes "inj type_id" "check_state s = Inr ()" "is_amount gross" "is_amount d"
  shows "calculate_state_tax type_id gross (Some (state_rules type_id code s status)) d =
      Inr (case flat_rate s of None \<Rightarrow> 0
        | Some r \<Rightarrow> round_money (max (gross - the (state_deduction s status) - d) 0 * r)) \<and>
    (calculate_state_tax type_id gross (Some c) d = Inl e \<longleftrightarrow> e = ValueError \<and>
      (rules_tax_type_id c \<notin> {type_id No_Tax, type_id Flat_Tax} \<or>
       rules_tax_type_id c = type_id Flat_Tax \<and> rules_flat_rate c = None))"
proof
  have ids: "type_id No_Tax \<noteq> type_id Flat_Tax" using assms(1) by (auto dest: injD)
  then show "calculate_state_tax type_id gross (Some c) d = Inl e \<longleftrightarrow> e = ValueError \<and>
      (rules_tax_type_id c \<notin> {type_id No_Tax, type_id Flat_Tax} \<or>
       rules_tax_type_id c = type_id Flat_Tax \<and> rules_flat_rate c = None)"
    by (cases "rules_flat_rate c") (auto simp: calculate_state_tax_def)
  define base where "base = max (gross - the (state_deduction s status) - d) 0"
  note s = checked_state(1)[OF assms(2)] checked_state(2)[OF assms(2), of status]
  have "dsub gross (the (state_deduction s status)) = gross - the (state_deduction s status)"
      "dsub (gross - the (state_deduction s status)) d = gross - the (state_deduction s status) - d"
    using s(2) assms(3,4) by (auto intro!: small_cents simp: is_amount_def is_cents_diff abs_if)
  then have b: "max (dsub (dsub gross (the (state_deduction s status))) d) 0 = base" "is_cents base" "\<bar>base\<bar> < 10 ^ 20"
    using s(2) assms(3,4) by (auto simp: base_def is_amount_def intro!: is_cents_intros)
  show "calculate_state_tax type_id gross (Some (state_rules type_id code s status)) d =
      Inr (case flat_rate s of None \<Rightarrow> 0
        | Some r \<Rightarrow> round_money (max (gross - the (state_deduction s status) - d) 0 * r))"
    unfolding base_def[symmetric]
    using s(1) ids dmul_amount_rate(1)[OF b(2,3)]
    by (auto simp: calculate_state_tax_def state_rules_def b(1))
qed

lemma accepted_state_is_priced_witness:
  "calculate_state_tax (\<lambda>t. case t of Flat_Tax \<Rightarrow> 1 | No_Tax \<Rightarrow> 2 | Bracket_Tax \<Rightarrow> 3) 62750
     (Some (state_rules (\<lambda>t. case t of Flat_Tax \<Rightarrow> 1 | No_Tax \<Rightarrow> 2 | Bracket_Tax \<Rightarrow> 3) ''NC'' (state_year (four_places 399)) Single)) 0
   = Inr 1995"
proof -
  let ?id = "\<lambda>t. case t of Flat_Tax \<Rightarrow> 1 | No_Tax \<Rightarrow> 2 | Bracket_Tax \<Rightarrow> (3::int)"
  have "inj ?id" by (rule injI) (auto split: tax_type.splits)
  moreover have "check_state (state_year (four_places 399)) = Inr ()" by (rule state_loads) simp_all
  ultimately show ?thesis
    using accepted_state_is_priced[where type_id = ?id and s = "state_year (four_places 399)" and gross = 62750 and d = 0
        and status = Single and code = "''NC''"]
    by (simp add: state_year_def NC_STANDARD_DEDUCTION_def four_places_def)
qed

section \<open>The child deduction\<close>

abbreviation tier_rung :: "child_deduction_tier \<Rightarrow> dec \<times> dec option" where
  "tier_rung t \<equiv> (agi_min t, agi_max t)"

lemma tier_key_above: "climbs from (map tier_rung ts) \<Longrightarrow> t \<in> set ts \<Longrightarrow> (False, from) < tier_key t"
proof (induction ts arbitrary: "from")
  case (Cons u ts)
  show ?case
  proof (cases "agi_max u")
    case None
    then show ?thesis using Cons.prems by (auto simp: tier_key_def)
  next
    case (Some h)
    then have "climbs h (map tier_rung ts)" "from < h" using Cons.prems(1) by simp_all
    then show ?thesis using Cons.IH[of h] Cons.prems(2) Some by (auto simp: tier_key_def intro: less_trans[of _ "(False, h)"])
  qed
qed simp

lemma tier_keys_sorted: "climbs from (map tier_rung ts) \<Longrightarrow> sorted_wrt (<) (map tier_key ts)"
proof (induction ts arbitrary: "from")
  case (Cons u ts)
  show ?case
  proof (cases "agi_max u")
    case (Some h)
    then have c: "climbs h (map tier_rung ts)" using Cons.prems by simp
    then show ?thesis using Cons.IH[OF c] tier_key_above[OF c] Some by (auto simp: tier_key_def)
  qed (use Cons.prems in simp)
qed simp

lemma find_tier:
  assumes "climbs from (map tier_rung ts)" "t \<in> set ts" "in_rung x (tier_rung t)"
  shows "find (\<lambda>t. case agi_max t of None \<Rightarrow> True | Some m \<Rightarrow> x \<le> m) ts = Some t"
  using assms
proof (induction ts arbitrary: "from")
  case (Cons u ts)
  show ?case
  proof (cases "t = u")
    case True
    then show ?thesis using Cons.prems(3) by (auto simp: in_rung_def split: option.splits)
  next
    case False
    then obtain h where h: "agi_max u = Some h" "climbs h (map tier_rung ts)" "t \<in> set ts"
      using Cons.prems by (cases "agi_max u") auto
    then have "h < x" using climbs_above[OF h(2), of "tier_rung t"] Cons.prems(3) by (auto simp: in_rung_def)
    then show ?thesis using Cons.IH[OF h(2,3) Cons.prems(3)] h(1) by simp
  qed
qed simp

lemma sort_unique:
  assumes "mset xs = mset ys" "sorted_wrt (<) (map f ys)"
  shows "sort_key f xs = ys"
proof (rule properties_for_sort_key)
  have sd: "sorted (map f ys)" "distinct (map f ys)" using assms(2) by (simp_all add: strict_sorted_iff)
  then show "sorted (map f ys)" by simp
  show "mset ys = mset xs" using assms(1) by simp
  fix k assume k: "k \<in> set ys"
  have one: "filter (\<lambda>x. f k = f x) ys = [k]"
    using sd(2) k by (induction ys) (auto simp: filter_empty_conv image_iff)
  then have "mset (filter (\<lambda>x. f k = f x) xs) = {#k#}" using assms(1) by (metis mset_filter mset_single_iff)
  then show "filter (\<lambda>x. f k = f x) ys = filter (\<lambda>x. f k = f x) xs" using one by (metis mset_single_iff)
qed

text \<open>
  the child deduction of an income.  With the tiers of a state the law's checks accept, handed over
  in any order, an income gets the deduction of the one tier it lies in, a threshold counting in the
  lower tier, an income of zero or less the lowest tier's, and a state without tiers deducts nothing.\<close>

theorem child_deduction_is_the_tiers:
  assumes "check_state s = Inr ()" "child_deduction_tiers s status = Some tiers" "mset given = mset tiers"
  shows "(tiers = [] \<longrightarrow> resolve_child_deduction_per_child agi given = 0) \<and>
    (\<forall>t \<in> set tiers. in_rung agi (tier_rung t) \<longrightarrow> resolve_child_deduction_per_child agi given = deduction_per_child t) \<and>
    (agi \<le> 0 \<and> tiers \<noteq> [] \<longrightarrow> resolve_child_deduction_per_child agi given = deduction_per_child (hd tiers))"
proof (cases "tiers = []")
  case True
  then show ?thesis using assms(3) by (simp add: resolve_child_deduction_per_child_def)
next
  case False
  then have c: "climbs 0 (map tier_rung tiers)" using checked_state_tiers[OF assms(1), of status] assms(2) by auto
  have sorted: "sort_key tier_key given = tiers" by (rule sort_unique[OF assms(3) tier_keys_sorted[OF c]])
  have "resolve_child_deduction_per_child agi given = deduction_per_child (hd tiers)" if "agi \<le> 0"
    using c that sorted False by (cases tiers) (auto simp: resolve_child_deduction_per_child_def split: option.splits)
  then show ?thesis using find_tier[OF c] sorted False by (simp add: resolve_child_deduction_per_child_def)
qed

lemma child_deduction_is_the_tiers_witness:
  "resolve_child_deduction_per_child 20000 (rev SINGLE_OR_SEPARATE_TIERS) = 3000"
proof -
  have "check_state (state_year (four_places 399)) = Inr ()" by (rule state_loads) simp_all
  moreover have "tier 0 (Some 20000) 3000 \<in> set SINGLE_OR_SEPARATE_TIERS" "in_rung 20000 (tier_rung (tier 0 (Some 20000) 3000))"
    by (simp_all add: SINGLE_OR_SEPARATE_TIERS_def in_rung_def tier_def)
  ultimately show ?thesis
    using child_deduction_is_the_tiers[of "state_year (four_places 399)" Single SINGLE_OR_SEPARATE_TIERS
        "rev SINGLE_OR_SEPARATE_TIERS" 20000]
    by (fastforce simp: state_year_def NC_CHILD_DEDUCTION_TIERS_def tier_def)
qed

end
