(* ===== verification/Paycheck.thy ===== *)
theory Paycheck
  imports Payroll_Basis Tax_Calculator
begin

text \<open>
  \<open>app/services/paycheck_calculator/\<close> and \<open>app/utils/deduction_cap.py\<close>: the lines of a paycheck with
  their inflation and annual caps, the withholding formulas, the pay stub a paycheck's taxes are read
  off, and the pricing of one paycheck and of a run of them.  The breakdown is the one of the source; ids
  of reference rows appear as the enum members they stand for.
\<close>

section \<open>The breakdown\<close>

record priced_line =
  priced_name :: string
  priced_amount :: dec
  priced_account :: "int option"
  priced_id :: "int option"
  priced_kind :: line_kind

definition waterfall_gross :: "dec \<Rightarrow> dec \<Rightarrow> dec" where
  "waterfall_gross base_pay taxable_earnings = dadd base_pay taxable_earnings"

definition waterfall_taxable :: "dec \<Rightarrow> dec \<Rightarrow> dec" where
  "waterfall_taxable gross pre_tax = max (dsub gross pre_tax) 0"

definition waterfall_net :: "dec \<Rightarrow> dec \<Rightarrow> dec \<Rightarrow> dec \<Rightarrow> dec \<Rightarrow> dec" where
  "waterfall_net gross pre_tax taxes post_tax after_tax =
     round_money (dadd (dsub (dsub (dsub gross pre_tax) taxes) post_tax) after_tax)"

record tax_lines =
  tax_federal :: dec
  tax_state :: dec
  tax_social_security :: dec
  tax_medicare :: dec
  tax_stub_payday :: "date option"

definition tax_total :: "tax_lines \<Rightarrow> dec" where
  "tax_total t = dadd (dadd (dadd (tax_federal t) (tax_state t)) (tax_social_security t)) (tax_medicare t)"

definition line_total :: "priced_line list \<Rightarrow> dec" where
  "line_total ls = dsum (map priced_amount ls)"

record deduction_breakdown =
  pre_tax_lines :: "priced_line list"
  post_tax_lines :: "priced_line list"

definition total_pre_tax :: "deduction_breakdown \<Rightarrow> dec" where "total_pre_tax d = line_total (pre_tax_lines d)"
definition total_post_tax :: "deduction_breakdown \<Rightarrow> dec" where "total_post_tax d = line_total (post_tax_lines d)"

record earnings =
  annual_salary :: dec
  base_biweekly :: dec
  gross_biweekly :: dec
  taxable_income :: dec
  net_pay :: dec
  taxable_lines :: "priced_line list"
  after_tax_lines :: "priced_line list"

definition take_home_rate_pct :: "earnings \<Rightarrow> dec option" where
  "take_home_rate_pct e = (if gross_biweekly e \<le> 0 then None else Some (dmul (ddiv (net_pay e) (gross_biweekly e)) 100))"

record period_info =
  info_payday :: date
  info_period_id :: "int option"
  info_third_paycheck :: bool
  info_event :: pay_notice
  info_cadence :: cadence

record paycheck_breakdown =
  paycheck_period :: period_info
  paycheck_earnings :: earnings
  paycheck_taxes :: tax_lines
  paycheck_deductions :: deduction_breakdown

definition every_priced_line :: "priced_line list \<Rightarrow> deduction_breakdown \<Rightarrow> priced_line list \<Rightarrow> priced_line list" where
  "every_priced_line earned d after_tax = earned @ pre_tax_lines d @ post_tax_lines d @ after_tax"

section \<open>The lines\<close>

definition cap_period_amount :: "dec \<Rightarrow> dec \<Rightarrow> dec option \<Rightarrow> dec" where
  "cap_period_amount raw_amount cumulative_before annual_cap =
     (case annual_cap of None \<Rightarrow> raw_amount
      | Some cap \<Rightarrow> let remaining = dsub cap cumulative_before in if remaining \<le> 0 then 0 else min raw_amount remaining)"

definition inflation_years :: "date \<Rightarrow> pay_profile \<Rightarrow> int \<Rightarrow> int" where
  "inflation_years payday p from_month =
     (case profile_created p of None \<Rightarrow> 0
      | Some created \<Rightarrow>
          max 0 (if d_month payday < from_month then d_year payday - d_year created - 1
                 else d_year payday - d_year created))"

definition inflation_month :: "paycheck_line \<Rightarrow> int" where
  "inflation_month line = (case line_inflation_month line of None \<Rightarrow> 1 | Some m \<Rightarrow> if m = 0 then 1 else m)"

definition raw_line_amount :: "paycheck_line \<Rightarrow> dec \<Rightarrow> date \<Rightarrow> pay_profile \<Rightarrow> dec" where
  "raw_line_amount line base payday p =
     (let plain = (if line_method line = Percentage then dmul base (line_amount line) else line_amount line);
          years = inflation_years payday p (inflation_month line)
      in if line_inflation_enabled line \<and> truthy (line_inflation_rate line) \<and> 0 < years
         then round_money (dmul plain (dpow (dadd 1 (the (line_inflation_rate line))) (nat years)))
         else round_money plain)"

fun cumulative_loop :: "paycheck_line \<Rightarrow> payroll_basis \<Rightarrow> date list \<Rightarrow> dec \<Rightarrow> dec res" where
  "cumulative_loop line basis [] cumulative = Inr cumulative"
| "cumulative_loop line basis (payday # paydays) cumulative =
     (if \<not> line_applies_on line payday then cumulative_loop line basis paydays cumulative
      else bind_res (base_pay_on basis payday) (\<lambda>base.
        cumulative_loop line basis paydays (dadd cumulative (raw_line_amount line (per_paycheck base) payday (profile basis)))))"

definition cumulative_line_before :: "paycheck_line \<Rightarrow> payroll_basis \<Rightarrow> date \<Rightarrow> dec res" where
  "cumulative_line_before line basis payday =
     bind_res (paydays_in_year_before (basis_calendar basis) payday) (\<lambda>paydays. cumulative_loop line basis paydays 0)"

record line_context =
  ctx_basis :: payroll_basis
  ctx_payday :: date
  ctx_base :: dec

definition priced_line_of :: "line_context \<Rightarrow> paycheck_line \<Rightarrow> priced_line res" where
  "priced_line_of ctx line =
     (let raw = raw_line_amount line (ctx_base ctx) (ctx_payday ctx) (profile (ctx_basis ctx))
      in bind_res
           (case line_annual_cap line of None \<Rightarrow> Inr raw
            | Some cap \<Rightarrow> bind_res (cumulative_line_before line (ctx_basis ctx) (ctx_payday ctx))
                            (\<lambda>before. Inr (cap_period_amount raw before (Some cap))))
           (\<lambda>amount. Inr \<lparr>priced_name = line_name line, priced_amount = amount, priced_account = line_target_account line,
                          priced_id = Some (line_id line), priced_kind = line_kind_of line\<rparr>))"

definition priced_lines :: "line_context \<Rightarrow> line_kind \<Rightarrow> priced_line list res" where
  "priced_lines ctx kind =
     collect (map (priced_line_of ctx)
       [line \<leftarrow> profile_lines (profile (ctx_basis ctx)).
          line_is_active line \<and> line_kind_of line = kind \<and> line_applies_on line (ctx_payday ctx)])"

definition priced_gross :: "line_context \<Rightarrow> (priced_line list \<times> dec) res" where
  "priced_gross ctx =
     bind_res (priced_lines ctx Taxable_Earning)
       (\<lambda>earned. Inr (earned, waterfall_gross (ctx_base ctx) (line_total earned)))"

definition priced_after_tax :: "line_context \<Rightarrow> priced_line list res" where
  "priced_after_tax ctx = priced_lines ctx After_Tax_Earning"

definition compute_deductions :: "line_context \<Rightarrow> deduction_breakdown res" where
  "compute_deductions ctx =
     bind_res (priced_lines ctx Pre_Tax_Deduction) (\<lambda>pre.
     bind_res (priced_lines ctx Post_Tax_Deduction) (\<lambda>post.
       Inr \<lparr>pre_tax_lines = pre, post_tax_lines = post\<rparr>))"

section \<open>What the calendar answers\<close>

definition month_ordinal_of :: "pay_calendar \<Rightarrow> date \<Rightarrow> nat res" where
  "month_ordinal_of cal payday =
     bind_res (paydays_in_month_through cal payday)
       (\<lambda>paydays. if paydays = [] \<or> last paydays \<noteq> payday then Inl PayCalendarError else Inr (length paydays))"

definition is_third_paycheck :: "nat \<Rightarrow> bool" where
  "is_third_paycheck ordinal = (3 \<le> ordinal)"

fun wages_loop :: "payroll_basis \<Rightarrow> date list \<Rightarrow> dec \<Rightarrow> dec res" where
  "wages_loop basis [] cumulative = Inr cumulative"
| "wages_loop basis (earlier # paydays) cumulative =
     bind_res (base_pay_on basis earlier) (\<lambda>base.
     bind_res (priced_gross \<lparr>ctx_basis = basis, ctx_payday = earlier, ctx_base = per_paycheck base\<rparr>) (\<lambda>(_, gross).
       wages_loop basis paydays (dadd cumulative gross)))"

definition cumulative_wages :: "payroll_basis \<Rightarrow> date \<Rightarrow> dec res" where
  "cumulative_wages basis payday =
     bind_res (paydays_in_year_before (basis_calendar basis) payday) (\<lambda>paydays. wages_loop basis paydays 0)"

section \<open>Withholding\<close>

record wage_basis =
  wage_gross :: dec
  wage_taxable :: dec
  wage_cumulative :: dec
  wage_periods :: dec

text \<open>
  The count of paychecks a year is a whole Decimal (lemma \<open>periods_per_year_count\<close>); the tax calculator's
  model takes it as an integer.\<close>

definition bracket_federal :: "pay_profile \<Rightarrow> dec \<Rightarrow> dec \<Rightarrow> federal_rules option \<Rightarrow> dec \<Rightarrow> dec res" where
  "bracket_federal p gross periods rules annual_pre_tax =
     calculate_federal_withholding gross \<lfloor>periods\<rfloor> rules
       \<lparr>additional_income = w4_additional_income p, pre_tax_deductions = annual_pre_tax,
        additional_deductions = w4_additional_deductions p, qualifying_children = w4_qualifying_children p,
        other_dependents = w4_other_dependents p, extra_withholding = w4_extra_withholding p\<rparr>"

definition bracket_state :: "(tax_type \<Rightarrow> int) \<Rightarrow> dec \<Rightarrow> dec \<Rightarrow> state_tax_rules option \<Rightarrow> dec res" where
  "bracket_state tax_type_id taxable_pay periods config =
     bind_res (calculate_state_tax tax_type_id (dmul taxable_pay periods) config 0)
       (\<lambda>annual. Inr (round_money (ddiv annual periods)))"

definition bracket_tax_lines :: "(tax_type \<Rightarrow> int) \<Rightarrow> payroll_basis \<Rightarrow> wage_basis \<Rightarrow> dec \<Rightarrow> tax_configs \<Rightarrow> tax_lines res" where
  "bracket_tax_lines tax_type_id basis wages pre_tax configs =
     bind_res
       (case bracket_set configs of None \<Rightarrow> Inr 0
        | Some rules \<Rightarrow> bracket_federal (profile basis) (wage_gross wages) (wage_periods wages) (Some rules)
                          (dmul pre_tax (wage_periods wages))) (\<lambda>federal.
     bind_res (bracket_state tax_type_id (wage_taxable wages) (wage_periods wages) (state_config configs)) (\<lambda>state.
       let fica = calculate_fica (wage_gross wages) (fica_config configs) (wage_cumulative wages)
       in Inr \<lparr>tax_federal = federal, tax_state = state, tax_social_security = fica_ss fica,
               tax_medicare = fica_medicare fica, tax_stub_payday = None\<rparr>))"

section \<open>Pay stubs\<close>

record stub_totals =
  stub_gross :: dec
  stub_pre_tax :: dec
  stub_taxes :: dec
  stub_post_tax :: dec
  stub_after_tax :: dec
  stub_net :: dec

definition kind_total :: "stub_line list \<Rightarrow> line_kind \<Rightarrow> dec" where
  "kind_total figures kind = dsum (map stub_line_amount [f \<leftarrow> figures. stub_line_kind f = kind])"

definition totals_of_stub :: "dec \<Rightarrow> stub_line list \<Rightarrow> dec list \<Rightarrow> stub_totals" where
  "totals_of_stub base_pay kinded taxes =
     (let gross = waterfall_gross base_pay (kind_total kinded Taxable_Earning);
          total_taxes = dsum taxes;
          pre = kind_total kinded Pre_Tax_Deduction;
          post = kind_total kinded Post_Tax_Deduction;
          after = kind_total kinded After_Tax_Earning
      in \<lparr>stub_gross = gross, stub_pre_tax = pre, stub_taxes = total_taxes, stub_post_tax = post,
          stub_after_tax = after, stub_net = waterfall_net gross pre total_taxes post after\<rparr>)"

definition tax_years_for :: "payroll_basis \<Rightarrow> derived_period list \<Rightarrow> int set" where
  "tax_years_for basis periods =
     (\<lambda>p. d_year (start_date p)) ` set periods \<union> (\<lambda>s. d_year (stub_payday s)) ` set (pay_stubs (profile basis))"

text \<open>The law a paycheck is priced on: its own year's, and every year's where the caller resolved them.\<close>

record paycheck_law =
  law_configs :: tax_configs
  law_year :: int
  law_by_year :: "(int \<rightharpoonup> tax_configs) option"

definition law_for_stub :: "paycheck_law \<Rightarrow> pay_stub \<Rightarrow> tax_configs res" where
  "law_for_stub law stub =
     (case law_by_year law of
        Some resolved \<Rightarrow> (case resolved (d_year (stub_payday stub)) of None \<Rightarrow> Inl ValueError | Some c \<Rightarrow> Inr c)
      | None \<Rightarrow> if d_year (stub_payday stub) \<noteq> law_year law then Inl ValueError else Inr (law_configs law))"

record pay_figures =
  fig_payday :: date
  fig_gross :: dec
  fig_pre_tax :: dec

definition taxed :: "stub_line list \<Rightarrow> stub_line list" where
  "taxed rows = [row \<leftarrow> rows. stub_line_kind row \<in> {Taxable_Earning, Pre_Tax_Deduction} \<and> stub_line_amount row \<noteq> 0]"

definition one_offs_change_taxes :: "stub_line list \<Rightarrow> bool" where
  "one_offs_change_taxes rows = (taxed rows \<noteq> [])"

definition carried_lines :: "stub_line list \<Rightarrow> int option set" where
  "carried_lines rows = stub_line_id ` set (taxed rows)"

definition figure_of :: "priced_line \<Rightarrow> stub_line" where
  "figure_of p = \<lparr>stub_line_id = priced_id p, stub_line_kind = priced_kind p, stub_line_amount = priced_amount p\<rparr>"

definition has_the_lines :: "pay_stub \<Rightarrow> int option set \<Rightarrow> bool" where
  "has_the_lines stub lines = (carried_lines (line_amounts stub) = lines \<and> \<not> one_offs_change_taxes (one_offs stub))"

text \<open>Python's \<open>max\<close> keeps the first of equal maxima.\<close>

fun latest_stub :: "pay_stub list \<Rightarrow> pay_stub option" where
  "latest_stub [] = None"
| "latest_stub (s # stubs) =
     Some (foldl (\<lambda>best stub. if stub_payday best < stub_payday stub then stub else best) s stubs)"

definition pricing_stub :: "pay_stub list \<Rightarrow> date \<Rightarrow> int option set \<Rightarrow> pay_stub option" where
  "pricing_stub stubs payday lines =
     (let candidates = [stub \<leftarrow> stubs. use_for_pricing stub \<and> stub_payday stub \<le> payday];
          same = [stub \<leftarrow> candidates. has_the_lines stub lines]
      in latest_stub (if same \<noteq> [] then same else candidates))"

definition printed_taxes :: "pay_stub \<Rightarrow> tax_lines res" where
  "printed_taxes stub =
     (let printed = map_of (rev (withholdings stub))
      in case (printed Federal_Income, printed State_Income, printed Social_Security, printed Medicare) of
           (Some f, Some s, Some ss, Some m) \<Rightarrow>
             Inr \<lparr>tax_federal = f, tax_state = s, tax_social_security = ss, tax_medicare = m, tax_stub_payday = None\<rparr>
         | _ \<Rightarrow> Inl ValueError)"

definition formula_taxes :: "(tax_type \<Rightarrow> int) \<Rightarrow> payroll_basis \<Rightarrow> pay_figures \<Rightarrow> tax_configs \<Rightarrow> tax_lines res" where
  "formula_taxes tax_type_id basis pay configs =
     bind_res (cumulative_wages basis (fig_payday pay)) (\<lambda>wages.
     bind_res (base_pay_on basis (fig_payday pay)) (\<lambda>base.
       bracket_tax_lines tax_type_id basis
         \<lparr>wage_gross = fig_gross pay, wage_taxable = waterfall_taxable (fig_gross pay) (fig_pre_tax pay),
          wage_cumulative = wages, wage_periods = periods_per_year (base_cadence base)\<rparr>
         (fig_pre_tax pay) configs))"

definition floored :: "dec \<Rightarrow> dec" where
  "floored x = round_money (max x 0)"

definition priced_taxes :: "(tax_type \<Rightarrow> int) \<Rightarrow> payroll_basis \<Rightarrow> pay_figures \<Rightarrow> stub_line list \<Rightarrow> paycheck_law \<Rightarrow> tax_lines res" where
  "priced_taxes tax_type_id basis pay lines law =
     bind_res (formula_taxes tax_type_id basis pay (law_configs law)) (\<lambda>formulas.
       case pricing_stub (pay_stubs (profile basis)) (fig_payday pay) (carried_lines lines) of
         None \<Rightarrow> Inr formulas
       | Some stub \<Rightarrow>
           bind_res (printed_taxes stub) (\<lambda>printed.
             let totals = totals_of_stub (stub_base_pay stub) (line_amounts stub @ one_offs stub) (map snd (withholdings stub))
             in bind_res (law_for_stub law stub) (\<lambda>stub_law.
                bind_res (formula_taxes tax_type_id basis
                    \<lparr>fig_payday = stub_payday stub, fig_gross = stub_gross totals, fig_pre_tax = stub_pre_tax totals\<rparr> stub_law)
                  (\<lambda>on_stub. Inr
                    \<lparr>tax_federal = floored (dsub (dadd (tax_federal printed) (tax_federal formulas)) (tax_federal on_stub)),
                     tax_state = floored (dsub (dadd (tax_state printed) (tax_state formulas)) (tax_state on_stub)),
                     tax_social_security =
                       floored (dsub (dadd (tax_social_security printed) (tax_social_security formulas)) (tax_social_security on_stub)),
                     tax_medicare = floored (dsub (dadd (tax_medicare printed) (tax_medicare formulas)) (tax_medicare on_stub)),
                     tax_stub_payday = Some (stub_payday stub)\<rparr>))))"

section \<open>Pricing\<close>

definition calculate_paycheck ::
  "(tax_type \<Rightarrow> int) \<Rightarrow> payroll_basis \<Rightarrow> derived_period \<Rightarrow> tax_configs \<Rightarrow> (int \<rightharpoonup> tax_configs) option \<Rightarrow> paycheck_breakdown res" where
  "calculate_paycheck tax_type_id basis period configs by_year =
     bind_res (base_pay_on basis (start_date period)) (\<lambda>base.
     bind_res (month_ordinal_of (basis_calendar basis) (start_date period)) (\<lambda>ordinal.
     let ctx = \<lparr>ctx_basis = basis, ctx_payday = start_date period, ctx_base = per_paycheck base\<rparr>
     in bind_res (priced_gross ctx) (\<lambda>(earned, gross).
        bind_res (compute_deductions ctx) (\<lambda>deductions.
        bind_res (priced_taxes tax_type_id basis
            \<lparr>fig_payday = start_date period, fig_gross = gross, fig_pre_tax = total_pre_tax deductions\<rparr>
            (map figure_of (earned @ pre_tax_lines deductions @ post_tax_lines deductions))
            \<lparr>law_configs = configs, law_year = d_year (start_date period), law_by_year = by_year\<rparr>) (\<lambda>taxes.
        bind_res (priced_after_tax ctx) (\<lambda>after.
        bind_res (pay_event_on basis period) (\<lambda>event.
          let taxable_pay = waterfall_taxable gross (total_pre_tax deductions);
              net = waterfall_net gross (total_pre_tax deductions) (tax_total taxes) (total_post_tax deductions) (line_total after)
          in Inr \<lparr>paycheck_period = \<lparr>info_payday = start_date period, info_period_id = period_id period,
                     info_third_paycheck = is_third_paycheck ordinal, info_event = event, info_cadence = base_cadence base\<rparr>,
                  paycheck_earnings = \<lparr>annual_salary = base_annual (per_paycheck base) (base_cadence base),
                     base_biweekly = per_paycheck base, gross_biweekly = gross, taxable_income = taxable_pay, net_pay = net,
                     taxable_lines = earned, after_tax_lines = after\<rparr>,
                  paycheck_taxes = taxes, paycheck_deductions = deductions\<rparr>)))))))"

text \<open>A run of paychecks, on one law or on one law a year; a year no law was resolved for raises \<open>KeyError\<close>.\<close>

definition project_salary ::
  "(tax_type \<Rightarrow> int) \<Rightarrow> payroll_basis \<Rightarrow> derived_period list \<Rightarrow> tax_configs option \<Rightarrow> (int \<rightharpoonup> tax_configs) option \<Rightarrow>
   paycheck_breakdown list res" where
  "project_salary tax_type_id basis periods tax_configs by_year =
     (if Option.is_none tax_configs = Option.is_none by_year then Inl ValueError
      else collect (map (\<lambda>period.
        case tax_configs of
          Some configs \<Rightarrow> calculate_paycheck tax_type_id basis period configs by_year
        | None \<Rightarrow>
            (case the by_year (d_year (start_date period)) of
               None \<Rightarrow> Inl KeyError
             | Some configs \<Rightarrow> calculate_paycheck tax_type_id basis period configs by_year)) periods))"
section \<open>Cents stay cents\<close>

lemma is_cents_fix28:
  assumes "is_cents x"
  shows "is_cents (fix28 x)"
proof (cases "\<bar>x\<bar> < 10 ^ 26")
  case True
  then show ?thesis using assms by (simp add: fix28_cents)
next
  case False
  then have "x \<noteq> 0" by auto
  then have "(10 :: rat) powi 26 < 10 powi (adj_exp x + 1)" using False adj_exp_bounds(2)[of x] by simp
  then have "26 \<le> adj_exp x" using power_int_increasing[of "adj_exp x + 1" 26 "10 :: rat"] by force
  define k where "k = nat (adj_exp x - 26)"
  have "adj_exp x - 27 = int k - 1" using \<open>26 \<le> adj_exp x\<close> by (simp add: k_def)
  then have "ulp28 x = of_int (10 ^ k) / 10" by (simp add: ulp28_def power_int_diff)
  then have "fix28 x = of_int (round_half_even (x / ulp28 x) * 10 ^ k * 10) / 100" by (simp add: fix28_def \<open>x \<noteq> 0\<close>)
  then show ?thesis by (rule is_centsI)
qed

lemma is_cents_dec [simp, intro]:
  "is_cents x \<Longrightarrow> is_cents y \<Longrightarrow> is_cents (dadd x y)"
  "is_cents x \<Longrightarrow> is_cents y \<Longrightarrow> is_cents (dsub x y)"
  by (auto simp: dadd_def dsub_def intro!: is_cents_fix28 is_cents_add is_cents_diff)

lemma is_cents_foldl: "is_cents a \<Longrightarrow> \<forall>x \<in> set xs. is_cents x \<Longrightarrow> is_cents (foldl dadd a xs)"
  by (induction xs arbitrary: a) auto

lemma is_cents_dsum: "\<forall>x \<in> set xs. is_cents x \<Longrightarrow> is_cents (dsum xs)"
  by (simp add: dsum_def is_cents_foldl)
lemma collect_Inr: "collect rs = Inr xs \<longleftrightarrow> rs = map Inr xs"
proof
  show "collect rs = Inr xs \<Longrightarrow> rs = map Inr xs" by (induction rs arbitrary: xs) (auto elim!: bind_res_InrE)
next
  have "collect (map Inr xs) = Inr xs" by (induction xs) auto
  then show "rs = map Inr xs \<Longrightarrow> collect rs = Inr xs" by simp
qed

lemma collect_member:
  assumes "collect (map f zs) = Inr xs" "x \<in> set xs"
  obtains z where "z \<in> set zs" "f z = Inr x"
proof -
  have "Inr x \<in> set (map f zs)" using assms by (simp add: collect_Inr)
  then show thesis using that by auto
qed

text \<open>A profile whose entries and caps are kept in cents, as the columns keep them.\<close>

definition cents_profile :: "pay_profile \<Rightarrow> bool" where
  "cents_profile p \<longleftrightarrow> list_all (\<lambda>e. is_cents (snd e)) (pay_entries p) \<and>
     list_all (\<lambda>line. pred_option is_cents (line_annual_cap line)) (profile_lines p)"

lemma entry_loop_member: "entry_loop chosen es d \<in> insert chosen (set es)"
  by (induction es arbitrary: chosen) auto

lemma entry_for_member:
  assumes "entry_for basis payday = Inr e"
  shows "e \<in> set (pay_entries (profile basis))"
proof -
  let ?es = "sort (pay_entries (profile basis))"
  have ne: "?es \<noteq> []" and e: "e = entry_loop (hd ?es) ?es payday"
    using assms by (auto simp: entry_for_def pay_list_def Let_def split: if_splits)
  have "e \<in> set ?es" using entry_loop_member[of "hd ?es" ?es payday] hd_in_set[OF ne] unfolding e by auto
  then show ?thesis by simp
qed

lemma carry_cents [simp]: "is_cents (carry pay a c)"
  by (simp add: carry_def)

lemma pay_steps_cents: "pay_steps es w = Inr w' \<Longrightarrow> is_cents (fst w) \<Longrightarrow> is_cents (fst w')"
proof (induction es arbitrary: w)
  case (Cons e es)
  then obtain w1 where w1: "pay_step e w = Inr w1" "pay_steps es w1 = Inr w'" by (auto elim: bind_res_InrE)
  have "is_cents (fst w1)"
    using w1(1) Cons.prems(2)
    by (cases "(e, w)" rule: pay_step.cases)
      (auto simp: change_rhythm_def Let_def raise_pay_def elim!: bind_res_InrE split: if_splits option.splits prod.splits)
  then show ?case using Cons.IH w1(2) by blast
qed simp

lemma base_pay_cents:
  assumes "cents_profile (profile basis)" "base_pay_on basis payday = Inr b"
  shows "is_cents (per_paycheck b)"
proof -
  obtain entered pay paid_at final pay' paid_at' carried where w: "entry_for basis payday = Inr (entered, pay)"
    "pay_steps (pay_events (cal_eras (basis_calendar basis)) (basis_raises basis) entered payday) (pay, paid_at, None) = Inr (pay', paid_at', carried)"
    "per_paycheck b = (if periods_per_year final \<noteq> periods_per_year paid_at' then carry pay' paid_at' final else pay')"
    using assms(2) by (force simp: base_pay_on_def walk_pay_def elim!: bind_res_InrE split: if_splits)
  have "is_cents pay" using entry_for_member[OF w(1)] assms(1) by (force simp: cents_profile_def list_all_iff)
  then have "is_cents pay'" using pay_steps_cents[OF w(2)] by simp
  then show ?thesis by (simp add: w(3))
qed

lemma raw_line_cents [simp]: "is_cents (raw_line_amount line base payday p)"
  by (simp add: raw_line_amount_def Let_def)

lemma cumulative_loop_cents: "cumulative_loop line basis ds c = Inr c' \<Longrightarrow> is_cents c \<Longrightarrow> is_cents c'"
  by (induction ds arbitrary: c) (auto elim!: bind_res_InrE split: if_splits)

lemma priced_line_cents:
  assumes "cents_profile (profile (ctx_basis ctx))" "line \<in> set (profile_lines (profile (ctx_basis ctx)))"
    and "priced_line_of ctx line = Inr p"
  shows "is_cents (priced_amount p)"
proof -
  have cap: "is_cents cap" if "line_annual_cap line = Some cap" for cap
    using assms(1,2) that by (force simp: cents_profile_def list_all_iff)
  show ?thesis
    using assms(3) cap
    by (auto simp: priced_line_of_def cap_period_amount_def Let_def cumulative_line_before_def min_def
        elim!: bind_res_InrE split: option.splits if_splits dest!: cumulative_loop_cents)
qed

lemma priced_lines_cents:
  assumes "cents_profile (profile (ctx_basis ctx))" "priced_lines ctx kind = Inr ls" "p \<in> set ls"
  shows "is_cents (priced_amount p)"
proof -
  obtain line where "line \<in> set (profile_lines (profile (ctx_basis ctx)))" "priced_line_of ctx line = Inr p"
    using assms(2,3) unfolding priced_lines_def by (auto elim!: collect_member)
  then show ?thesis by (rule priced_line_cents[OF assms(1)])
qed
definition taxes_in_cents :: "tax_lines \<Rightarrow> bool" where
  "taxes_in_cents t \<longleftrightarrow> is_cents (tax_federal t) \<and> is_cents (tax_state t) \<and> is_cents (tax_social_security t) \<and> is_cents (tax_medicare t)"

lemma fica_cents: "is_cents (fica_ss (calculate_fica g c w))" "is_cents (fica_medicare (calculate_fica g c w))"
  by (auto simp: calculate_fica_def capped_social_security_def Let_def split: option.splits)

lemma federal_cents: "calculate_federal_withholding g n rules w4 = Inr x \<Longrightarrow> is_cents x"
  by (auto simp: calculate_federal_withholding_def Let_def elim!: bind_res_InrE split: if_splits option.splits)

lemma formula_taxes_cents:
  assumes "formula_taxes tt basis pay configs = Inr t"
  shows "taxes_in_cents t"
  using assms
  by (auto simp: formula_taxes_def bracket_tax_lines_def bracket_federal_def bracket_state_def taxes_in_cents_def Let_def fica_cents
      elim!: bind_res_InrE split: option.splits dest!: federal_cents)

lemma floored_cents [simp]: "is_cents (floored x)" "0 \<le> floored x"
  by (simp_all add: floored_def round_money_nonneg)

lemma priced_taxes_cents:
  assumes "priced_taxes tt basis pay lines law = Inr t"
  shows "taxes_in_cents t"
proof (cases "pricing_stub (pay_stubs (profile basis)) (fig_payday pay) (carried_lines lines)")
  case None
  then show ?thesis using assms formula_taxes_cents by (auto simp: priced_taxes_def elim!: bind_res_InrE)
next
  case (Some stub)
  then show ?thesis using assms by (auto simp: priced_taxes_def Let_def taxes_in_cents_def elim!: bind_res_InrE)
qed

section \<open>A paycheck adds up\<close>

lemma calculate_paycheck_parts:
  assumes "calculate_paycheck tt basis period configs by_year = Inr b"
  obtains base ctx where "base_pay_on basis (start_date period) = Inr base"
    "ctx = \<lparr>ctx_basis = basis, ctx_payday = start_date period, ctx_base = per_paycheck base\<rparr>"
    "base_biweekly (paycheck_earnings b) = per_paycheck base"
    "priced_lines ctx Taxable_Earning = Inr (taxable_lines (paycheck_earnings b))"
    "priced_lines ctx Pre_Tax_Deduction = Inr (pre_tax_lines (paycheck_deductions b))"
    "priced_lines ctx Post_Tax_Deduction = Inr (post_tax_lines (paycheck_deductions b))"
    "priced_lines ctx After_Tax_Earning = Inr (after_tax_lines (paycheck_earnings b))"
    "gross_biweekly (paycheck_earnings b) = waterfall_gross (per_paycheck base) (line_total (taxable_lines (paycheck_earnings b)))"
    "taxable_income (paycheck_earnings b) =
       waterfall_taxable (gross_biweekly (paycheck_earnings b)) (total_pre_tax (paycheck_deductions b))"
    "net_pay (paycheck_earnings b) = waterfall_net (gross_biweekly (paycheck_earnings b)) (total_pre_tax (paycheck_deductions b))
       (tax_total (paycheck_taxes b)) (total_post_tax (paycheck_deductions b)) (line_total (after_tax_lines (paycheck_earnings b)))"
    "priced_taxes tt basis
       \<lparr>fig_payday = start_date period, fig_gross = gross_biweekly (paycheck_earnings b), fig_pre_tax = total_pre_tax (paycheck_deductions b)\<rparr>
       (map figure_of (taxable_lines (paycheck_earnings b) @ pre_tax_lines (paycheck_deductions b) @ post_tax_lines (paycheck_deductions b)))
       \<lparr>law_configs = configs, law_year = d_year (start_date period), law_by_year = by_year\<rparr> = Inr (paycheck_taxes b)"
  using assms
  by (auto simp: calculate_paycheck_def priced_gross_def compute_deductions_def priced_after_tax_def Let_def elim!: bind_res_InrE)

text \<open>All the figures of a paycheck in absolute value: the magnitude its sums can reach.\<close>

definition magnitude :: "paycheck_breakdown \<Rightarrow> dec" where
  "magnitude b = \<bar>base_biweekly (paycheck_earnings b)\<bar> +
     sum_list (map abs (map priced_amount (taxable_lines (paycheck_earnings b)))) +
     sum_list (map abs (map priced_amount (pre_tax_lines (paycheck_deductions b)))) +
     \<bar>tax_federal (paycheck_taxes b)\<bar> + \<bar>tax_state (paycheck_taxes b)\<bar> +
     \<bar>tax_social_security (paycheck_taxes b)\<bar> + \<bar>tax_medicare (paycheck_taxes b)\<bar> +
     sum_list (map abs (map priced_amount (post_tax_lines (paycheck_deductions b)))) +
     sum_list (map abs (map priced_amount (after_tax_lines (paycheck_earnings b))))"

lemma waterfall_exact:
  assumes "is_cents B" "is_cents E" "is_cents P" "is_cents S" "is_cents A" "is_cents f" "is_cents s" "is_cents ss" "is_cents m"
    and "\<bar>B\<bar> + \<bar>E\<bar> + \<bar>P\<bar> + \<bar>f\<bar> + \<bar>s\<bar> + \<bar>ss\<bar> + \<bar>m\<bar> + \<bar>S\<bar> + \<bar>A\<bar> < 10 ^ 26"
  shows "waterfall_gross B E = B + E" "waterfall_taxable (B + E) P = max (B + E - P) 0"
    "dadd (dadd (dadd f s) ss) m = f + s + ss + m"
    "waterfall_net (B + E) P (f + s + ss + m) S A = B + E - P - (f + s + ss + m) - S + A"
    "is_cents (B + E - P - (f + s + ss + m) - S + A)"
proof -
  note cents = is_cents_add is_cents_diff assms(1-9)
  obtain b1 b2 b3 b4 b5 b6 b7 b8 b9 where small: "B \<le> b1" "- B \<le> b1" "E \<le> b2" "- E \<le> b2" "P \<le> b3" "- P \<le> b3" "f \<le> b4" "- f \<le> b4" "s \<le> b5" "- s \<le> b5" "ss \<le> b6" "- ss \<le> b6" "m \<le> b7" "- m \<le> b7" "S \<le> b8" "- S \<le> b8" "A \<le> b9" "- A \<le> b9"
    "b1 + b2 + b3 + b4 + b5 + b6 + b7 + b8 + b9 < 10 ^ 26"
    by (rule that[OF abs_ge_self abs_ge_minus_self abs_ge_self abs_ge_minus_self abs_ge_self abs_ge_minus_self
          abs_ge_self abs_ge_minus_self abs_ge_self abs_ge_minus_self abs_ge_self abs_ge_minus_self abs_ge_self abs_ge_minus_self abs_ge_self abs_ge_minus_self abs_ge_self abs_ge_minus_self assms(10)])
  show "waterfall_gross B E = B + E" unfolding waterfall_gross_def using small by (intro dadd_exact cents) linarith
  have pre: "dsub (B + E) P = B + E - P" using small by (intro dsub_exact cents) linarith
  then show "waterfall_taxable (B + E) P = max (B + E - P) 0" by (simp add: waterfall_taxable_def)
  have "dadd f s = f + s" "dadd (f + s) ss = f + s + ss" "dadd (f + s + ss) m = f + s + ss + m"
    using small by (intro dadd_exact cents; linarith)+
  then show "dadd (dadd (dadd f s) ss) m = f + s + ss + m" by simp
  have taxed: "dsub (B + E - P) (f + s + ss + m) = B + E - P - (f + s + ss + m)"
    using small by (intro dsub_exact cents) linarith
  have post: "dsub (B + E - P - (f + s + ss + m)) S = B + E - P - (f + s + ss + m) - S"
    using small by (intro dsub_exact cents) linarith
  have after: "dadd (B + E - P - (f + s + ss + m) - S) A = B + E - P - (f + s + ss + m) - S + A"
    using small by (intro dadd_exact cents) linarith
  show c: "is_cents (B + E - P - (f + s + ss + m) - S + A)" by (intro cents)
  show "waterfall_net (B + E) P (f + s + ss + m) S A = B + E - P - (f + s + ss + m) - S + A"
    unfolding waterfall_net_def pre taxed post after by (rule round_money_fixed[OF c])
qed

lemma line_total_parts:
  assumes "\<forall>p \<in> set ls. is_cents (priced_amount p)" "sum_list (map abs (map priced_amount ls)) < 10 ^ 26"
  shows "line_total ls = sum_list (map priced_amount ls)" "is_cents (sum_list (map priced_amount ls))"
    "\<bar>sum_list (map priced_amount ls)\<bar> \<le> sum_list (map abs (map priced_amount ls))"
proof -
  show "line_total ls = sum_list (map priced_amount ls)"
    unfolding line_total_def using assms by (intro dsum_exact) auto
  show "is_cents (sum_list (map priced_amount ls))" using assms(1) by (induction ls) (auto intro: is_cents_add)
qed (rule sum_list_abs_le)

lemma magnitude_parts:
  "sum_list (map abs (map priced_amount (taxable_lines (paycheck_earnings b)))) \<le> magnitude b"
  "sum_list (map abs (map priced_amount (pre_tax_lines (paycheck_deductions b)))) \<le> magnitude b"
  "sum_list (map abs (map priced_amount (post_tax_lines (paycheck_deductions b)))) \<le> magnitude b"
  "sum_list (map abs (map priced_amount (after_tax_lines (paycheck_earnings b)))) \<le> magnitude b"
proof -
  have pos: "0 \<le> sum_list (map abs xs)" for xs :: "dec list" by (induction xs) auto
  show "sum_list (map abs (map priced_amount (taxable_lines (paycheck_earnings b)))) \<le> magnitude b"
    "sum_list (map abs (map priced_amount (pre_tax_lines (paycheck_deductions b)))) \<le> magnitude b"
    "sum_list (map abs (map priced_amount (post_tax_lines (paycheck_deductions b)))) \<le> magnitude b"
    "sum_list (map abs (map priced_amount (after_tax_lines (paycheck_earnings b)))) \<le> magnitude b"
    using pos[of "map priced_amount (taxable_lines (paycheck_earnings b))"] pos[of "map priced_amount (pre_tax_lines (paycheck_deductions b))"]
      pos[of "map priced_amount (post_tax_lines (paycheck_deductions b))"] pos[of "map priced_amount (after_tax_lines (paycheck_earnings b))"]
    unfolding magnitude_def by linarith+
qed

text \<open>
  C6: a paycheck adds up.  To the cent, the gross pay is the base pay plus the taxable earnings, the
  taxable income what the pre-tax deductions leave of it (never below zero), and the net pay the gross
  less the pre-tax deductions, the four withholdings and the post-tax deductions, plus the after-tax
  earnings: no rounding of the ten or more Decimal operations moves a cent.\<close>

theorem paycheck_adds_up:
  assumes "calculate_paycheck tt basis period configs by_year = Inr b" "cents_profile (profile basis)" "magnitude b < 10 ^ 26"
  shows "gross_biweekly (paycheck_earnings b) = base_biweekly (paycheck_earnings b) +
      sum_list (map priced_amount (taxable_lines (paycheck_earnings b))) \<and>
    taxable_income (paycheck_earnings b) =
      max (gross_biweekly (paycheck_earnings b) - sum_list (map priced_amount (pre_tax_lines (paycheck_deductions b)))) 0 \<and>
    net_pay (paycheck_earnings b) = gross_biweekly (paycheck_earnings b) -
      sum_list (map priced_amount (pre_tax_lines (paycheck_deductions b))) -
      (tax_federal (paycheck_taxes b) + tax_state (paycheck_taxes b) + tax_social_security (paycheck_taxes b) + tax_medicare (paycheck_taxes b)) -
      sum_list (map priced_amount (post_tax_lines (paycheck_deductions b))) +
      sum_list (map priced_amount (after_tax_lines (paycheck_earnings b))) \<and>
    is_cents (net_pay (paycheck_earnings b))"
proof -
  obtain base ctx where parts: "base_pay_on basis (start_date period) = Inr base"
    "ctx = \<lparr>ctx_basis = basis, ctx_payday = start_date period, ctx_base = per_paycheck base\<rparr>"
    "base_biweekly (paycheck_earnings b) = per_paycheck base"
    "priced_lines ctx Taxable_Earning = Inr (taxable_lines (paycheck_earnings b))"
    "priced_lines ctx Pre_Tax_Deduction = Inr (pre_tax_lines (paycheck_deductions b))"
    "priced_lines ctx Post_Tax_Deduction = Inr (post_tax_lines (paycheck_deductions b))"
    "priced_lines ctx After_Tax_Earning = Inr (after_tax_lines (paycheck_earnings b))"
    "gross_biweekly (paycheck_earnings b) = waterfall_gross (per_paycheck base) (line_total (taxable_lines (paycheck_earnings b)))"
    "taxable_income (paycheck_earnings b) =
       waterfall_taxable (gross_biweekly (paycheck_earnings b)) (total_pre_tax (paycheck_deductions b))"
    "net_pay (paycheck_earnings b) = waterfall_net (gross_biweekly (paycheck_earnings b)) (total_pre_tax (paycheck_deductions b))
       (tax_total (paycheck_taxes b)) (total_post_tax (paycheck_deductions b)) (line_total (after_tax_lines (paycheck_earnings b)))"
    "taxes_in_cents (paycheck_taxes b)"
    by (rule calculate_paycheck_parts[OF assms(1)]) (metis priced_taxes_cents)
  have ctx: "cents_profile (profile (ctx_basis ctx))" using assms(2) parts(2) by simp
  have small: "x < 10 ^ 26" if "x \<le> magnitude b" for x using that assms(3) by simp
  note E = line_total_parts[OF _ small[OF magnitude_parts(1)]] and P = line_total_parts[OF _ small[OF magnitude_parts(2)]]
    and S = line_total_parts[OF _ small[OF magnitude_parts(3)]] and A = line_total_parts[OF _ small[OF magnitude_parts(4)]]
  have cents: "\<forall>p \<in> set (taxable_lines (paycheck_earnings b)). is_cents (priced_amount p)"
    "\<forall>p \<in> set (pre_tax_lines (paycheck_deductions b)). is_cents (priced_amount p)"
    "\<forall>p \<in> set (post_tax_lines (paycheck_deductions b)). is_cents (priced_amount p)"
    "\<forall>p \<in> set (after_tax_lines (paycheck_earnings b)). is_cents (priced_amount p)"
    using priced_lines_cents[OF ctx] parts(4-7) by blast+
  have tax: "is_cents (tax_federal (paycheck_taxes b))" "is_cents (tax_state (paycheck_taxes b))"
    "is_cents (tax_social_security (paycheck_taxes b))" "is_cents (tax_medicare (paycheck_taxes b))"
    using parts(11) by (simp_all add: taxes_in_cents_def)
  have all: "\<bar>per_paycheck base\<bar> + \<bar>sum_list (map priced_amount (taxable_lines (paycheck_earnings b)))\<bar> +
      \<bar>sum_list (map priced_amount (pre_tax_lines (paycheck_deductions b)))\<bar> + \<bar>tax_federal (paycheck_taxes b)\<bar> +
      \<bar>tax_state (paycheck_taxes b)\<bar> + \<bar>tax_social_security (paycheck_taxes b)\<bar> + \<bar>tax_medicare (paycheck_taxes b)\<bar> +
      \<bar>sum_list (map priced_amount (post_tax_lines (paycheck_deductions b)))\<bar> +
      \<bar>sum_list (map priced_amount (after_tax_lines (paycheck_earnings b)))\<bar> < 10 ^ 26"
    using E(3)[OF cents(1)] P(3)[OF cents(2)] S(3)[OF cents(3)] A(3)[OF cents(4)] assms(3)
    unfolding magnitude_def parts(3) by linarith
  note exact = waterfall_exact[OF base_pay_cents[OF assms(2) parts(1)] E(2)[OF cents(1)] P(2)[OF cents(2)] S(2)[OF cents(3)]
      A(2)[OF cents(4)] tax all]
  have gross: "gross_biweekly (paycheck_earnings b) = base_biweekly (paycheck_earnings b) +
      sum_list (map priced_amount (taxable_lines (paycheck_earnings b)))"
    unfolding parts(3,8) E(1)[OF cents(1)] by (rule exact(1))
  have taxable: "taxable_income (paycheck_earnings b) =
      max (gross_biweekly (paycheck_earnings b) - sum_list (map priced_amount (pre_tax_lines (paycheck_deductions b)))) 0"
    unfolding parts(9) total_pre_tax_def P(1)[OF cents(2)] gross parts(3) by (rule exact(2))
  have net: "net_pay (paycheck_earnings b) = gross_biweekly (paycheck_earnings b) -
      sum_list (map priced_amount (pre_tax_lines (paycheck_deductions b))) -
      (tax_federal (paycheck_taxes b) + tax_state (paycheck_taxes b) + tax_social_security (paycheck_taxes b) + tax_medicare (paycheck_taxes b)) -
      sum_list (map priced_amount (post_tax_lines (paycheck_deductions b))) +
      sum_list (map priced_amount (after_tax_lines (paycheck_earnings b)))"
    unfolding parts(10) total_pre_tax_def total_post_tax_def tax_total_def P(1)[OF cents(2)] S(1)[OF cents(3)] A(1)[OF cents(4)]
      gross parts(3) exact(3) by (rule exact(4))
  have "is_cents (net_pay (paycheck_earnings b))" unfolding net gross parts(3) by (rule exact(5))
  with gross taxable net show ?thesis by (intro conjI)
qed
section \<open>A worked paycheck\<close>

text \<open>Two recorded periods of the biweekly era, a capped retirement deduction, a parking deduction and a reimbursement.\<close>

definition sample_line :: "int \<Rightarrow> string \<Rightarrow> line_kind \<Rightarrow> calc_method \<Rightarrow> dec \<Rightarrow> dec option \<Rightarrow> paycheck_line" where
  "sample_line i name kind how figure cap =
     \<lparr>line_id = i, line_name = name, line_is_active = True, line_kind_of = kind, line_method = how, line_amount = figure,
      line_annual_cap = cap, line_inflation_enabled = False, line_inflation_rate = None, line_inflation_month = None,
      line_target_account = None, line_admits = None\<rparr>"

definition retirement :: paycheck_line where
  "retirement = sample_line 1 ''401(k)'' Pre_Tax_Deduction Percentage (5/100) (Some 150)"

definition parking :: paycheck_line where
  "parking = sample_line 2 ''parking'' Post_Tax_Deduction Flat 20 None"

definition phone :: paycheck_line where
  "phone = sample_line 3 ''phone'' After_Tax_Earning Flat (161/4) None"

definition sample_periods :: "derived_period list" where
  "sample_periods =
     [\<lparr>period_id = Some 1, period_index = 0, start_date = Date 2026 1 2, end_date = Date 2026 1 15, end_is_projected = False\<rparr>,
      \<lparr>period_id = Some 2, period_index = 1, start_date = Date 2026 1 16, end_date = Date 2026 1 29, end_is_projected = True\<rparr>]"

definition priced_basis :: payroll_basis where
  "priced_basis =
     \<lparr>profile = sample_profile\<lparr>profile_lines := [retirement, parking, phone]\<rparr>,
      basis_calendar = \<lparr>cal_periods = sample_periods, cal_eras = one_era, history_opens_on = None\<rparr>, stated_raises = None\<rparr>"

definition fica_only :: tax_configs where
  "fica_only = \<lparr>bracket_set = None, state_config = None, fica_config = Some FICA_2026\<rparr>"

lemma priced_basis_pay:
  assumes "valid_date day" "Date 2026 1 2 \<le> day" "day < Date 2026 7 1"
  shows "base_pay_on priced_basis day = Inr \<lparr>per_paycheck = 2000, base_cadence = Fixed_Days 14\<rparr>"
proof -
  have "entry_for priced_basis day = Inr (Date 2026 1 2, 2000)"
    using assms(2,3) by (intro entry_in_force) (auto simp: priced_basis_def sample_profile_def less_date_def less_eq_date_def)
  moreover have "cadence_on (basis_calendar priced_basis) day = Inr (Fixed_Days 14)"
    "cadence_on (basis_calendar priced_basis) (Date 2026 1 2) = Inr (Fixed_Days 14)"
    using assms(1) by (intro one_era_cadence; simp add: priced_basis_def valid_Date days_in_month_def)+
  moreover have "a \<notin> set (applied_by sample_raises day)" if "Date 2026 1 2 < fst a" for a
  proof
    assume "a \<in> set (applied_by sample_raises day)"
    then obtain t y where t: "t \<in> set sample_raises" "fst a = Date y (effective_month t) 1" "Date y (effective_month t) 1 \<le> day"
      by (auto simp: applied_by_set[OF assms(1)] raise_years_iff[OF assms(1)])
    then have "effective_month t = 7" by (auto simp: sample_raises_def)
    then show False using t(2,3) that assms(3) by (auto simp: less_date_def less_eq_date_def)
  qed
  then have "applications_between sample_raises (Date 2026 1 2) day = []"
    by (auto simp: applications_between_alt filter_empty_conv)
  ultimately show ?thesis
    by (simp add: base_pay_on_def walk_pay_def pay_events_def priced_basis_def one_era_def basis_raises_def sample_profile_def)
qed

lemma priced_basis_lines:
  "cents_profile (profile priced_basis)"
  by (simp add: priced_basis_def sample_profile_def retirement_def parking_def phone_def sample_line_def cents_profile_def)

lemma sample_paydays:
  "paydays_in_year_before (basis_calendar priced_basis) (Date 2026 1 16) = Inr [Date 2026 1 2]"
  "paydays_in_month_through (basis_calendar priced_basis) (Date 2026 1 16) = Inr [Date 2026 1 2, Date 2026 1 16]"
proof -
  have "add_days (Date 2026 1 16) (- 1) = Date 2026 1 15" by (simp add: evaluate_day)
  then show "paydays_in_year_before (basis_calendar priced_basis) (Date 2026 1 16) = Inr [Date 2026 1 2]"
    "paydays_in_month_through (basis_calendar priced_basis) (Date 2026 1 16) = Inr [Date 2026 1 2, Date 2026 1 16]"
    by (simp_all add: paydays_in_year_before_def paydays_in_month_through_def month_opens_def rhythm_between_def priced_basis_def
        sample_periods_def backdated_paydays_def paydays_between_def bisect_left_start_def bisect_right_start_def less_date_def less_eq_date_def)
qed

lemma fix28_numeral:
  "of_int \<lfloor>x * 10 ^ 6\<rfloor> = x * 10 ^ 6 \<Longrightarrow> \<bar>x\<bar> < 10 ^ 15 \<Longrightarrow> fix28 x = x"
  by (rule fix28_places[of 6]) (simp_all add: places_def)

lemma floor_numerals:
  "\<lfloor>numeral a / numeral b :: rat\<rfloor> = numeral a div numeral b" "\<lfloor>1 / numeral b :: rat\<rfloor> = 1 div numeral b"
  "\<lfloor>- (numeral a / numeral b) :: rat\<rfloor> = (- numeral a) div numeral b"
  using floor_divide_of_int_eq[of "numeral a" "numeral b", where 'a=rat] floor_divide_of_int_eq[of 1 "numeral b", where 'a=rat]
    floor_divide_of_int_eq[of "- numeral a" "numeral b", where 'a=rat] by simp_all

lemmas dec_evaluate = dadd_def dsub_def dmul_def dsum_def fix28_numeral floor_numerals
lemma priced_basis_days:
  "base_pay_on priced_basis (Date 2026 1 2) = Inr \<lparr>per_paycheck = 2000, base_cadence = Fixed_Days 14\<rparr>"
  "base_pay_on priced_basis (Date 2026 1 16) = Inr \<lparr>per_paycheck = 2000, base_cadence = Fixed_Days 14\<rparr>"
  by (rule priced_basis_pay; simp add: valid_Date days_in_month_def less_date_def less_eq_date_def)+

definition sample_context :: "date \<Rightarrow> line_context" where
  "sample_context day = \<lparr>ctx_basis = priced_basis, ctx_payday = day, ctx_base = 2000\<rparr>"

lemmas sample_lines_def = retirement_def parking_def phone_def sample_line_def

lemma sample_line_facts:
  "raw_line_amount retirement 2000 day p = 100" "raw_line_amount parking 2000 day p = 20" "raw_line_amount phone 2000 day p = 161/4"
  "line_is_active retirement" "line_is_active parking" "line_is_active phone"
  "line_kind_of retirement = Pre_Tax_Deduction" "line_kind_of parking = Post_Tax_Deduction" "line_kind_of phone = After_Tax_Earning"
  "line_annual_cap retirement = Some 150" "line_annual_cap parking = None" "line_annual_cap phone = None"
  "line_applies_on retirement day" "line_applies_on parking day" "line_applies_on phone day"
  by (simp_all add: raw_line_amount_def sample_lines_def line_applies_on_def dec_evaluate round_money_def quantize_cents_def
      round_half_up_def Let_def)

lemma sample_priced:
  "priced_lines (sample_context (Date 2026 1 16)) Taxable_Earning = Inr []"
  "\<exists>l. priced_lines (sample_context (Date 2026 1 16)) Pre_Tax_Deduction = Inr [l] \<and> priced_amount l = 50"
  "\<exists>l. priced_lines (sample_context (Date 2026 1 16)) Post_Tax_Deduction = Inr [l] \<and> priced_amount l = 20"
  "\<exists>l. priced_lines (sample_context (Date 2026 1 16)) After_Tax_Earning = Inr [l] \<and> priced_amount l = 161/4"
proof -
  have lines: "profile_lines (profile priced_basis) = [retirement, parking, phone]" by (simp add: priced_basis_def)
  have "cumulative_line_before retirement priced_basis (Date 2026 1 16) = Inr 100"
    by (simp add: cumulative_line_before_def sample_paydays sample_line_facts priced_basis_days dec_evaluate)
  note facts = this priced_lines_def sample_context_def lines priced_line_of_def cap_period_amount_def sample_line_facts dec_evaluate
  show "priced_lines (sample_context (Date 2026 1 16)) Taxable_Earning = Inr []"
    "\<exists>l. priced_lines (sample_context (Date 2026 1 16)) Pre_Tax_Deduction = Inr [l] \<and> priced_amount l = 50"
    "\<exists>l. priced_lines (sample_context (Date 2026 1 16)) Post_Tax_Deduction = Inr [l] \<and> priced_amount l = 20"
    "\<exists>l. priced_lines (sample_context (Date 2026 1 16)) After_Tax_Earning = Inr [l] \<and> priced_amount l = 161/4"
    by (simp_all add: facts)
qed

lemma sample_taxes:
  "\<exists>t. priced_taxes (\<lambda>_. 0) priced_basis \<lparr>fig_payday = Date 2026 1 16, fig_gross = 2000, fig_pre_tax = 50\<rparr> lines
     \<lparr>law_configs = fica_only, law_year = 2026, law_by_year = None\<rparr> = Inr t \<and> tax_federal t = 0 \<and> tax_state t = 0 \<and>
     tax_social_security t = 124 \<and> tax_medicare t = 29"
proof -
  have "priced_lines (sample_context (Date 2026 1 2)) Taxable_Earning = Inr []"
    by (simp add: priced_lines_def sample_context_def priced_basis_def sample_line_facts)
  then have "cumulative_wages priced_basis (Date 2026 1 16) = Inr 2000"
    by (simp add: cumulative_wages_def sample_paydays priced_basis_days priced_gross_def sample_context_def[symmetric]
        waterfall_gross_def line_total_def dec_evaluate)
  moreover have "pay_stubs (profile priced_basis) = []" by (simp add: priced_basis_def sample_profile_def)
  moreover have "fica_ss (calculate_fica 2000 (fica_config fica_only) 2000) = 124"
    "fica_medicare (calculate_fica 2000 (fica_config fica_only) 2000) = 29"
    by (simp_all add: calculate_fica_def capped_social_security_def fica_only_def FICA_2026_def four_places_def Let_def
        dec_evaluate round_money_def quantize_cents_def round_half_up_def)
  moreover have "bracket_state (\<lambda>_. 0) x y (state_config fica_only) = Inr 0" for x y
    by (simp add: bracket_state_def calculate_state_tax_def fica_only_def ddiv_def)
  moreover have "bracket_set fica_only = None" by (simp add: fica_only_def)
  ultimately show ?thesis
    by (simp add: priced_taxes_def formula_taxes_def pricing_stub_def priced_basis_days bracket_tax_lines_def Let_def)
qed

lemma sample_paycheck:
  "\<exists>b. calculate_paycheck (\<lambda>_. 0) priced_basis (sample_periods ! 1) fica_only None = Inr b \<and> magnitude b < 10 ^ 26 \<and>
     base_biweekly (paycheck_earnings b) = 2000 \<and> taxable_lines (paycheck_earnings b) = [] \<and>
     map priced_amount (pre_tax_lines (paycheck_deductions b)) = [50] \<and> map priced_amount (post_tax_lines (paycheck_deductions b)) = [20] \<and>
     map priced_amount (after_tax_lines (paycheck_earnings b)) = [161/4] \<and>
     tax_federal (paycheck_taxes b) + tax_state (paycheck_taxes b) + tax_social_security (paycheck_taxes b) + tax_medicare (paycheck_taxes b) = 153"
proof -
  obtain pre post after where lines: "priced_lines (sample_context (Date 2026 1 16)) Pre_Tax_Deduction = Inr [pre]" "priced_amount pre = 50"
    "priced_lines (sample_context (Date 2026 1 16)) Post_Tax_Deduction = Inr [post]" "priced_amount post = 20"
    "priced_lines (sample_context (Date 2026 1 16)) After_Tax_Earning = Inr [after]" "priced_amount after = 161/4"
    using sample_priced by blast
  obtain t where t: "priced_taxes (\<lambda>_. 0) priced_basis \<lparr>fig_payday = Date 2026 1 16, fig_gross = 2000, fig_pre_tax = 50\<rparr>
      (map figure_of [pre, post]) \<lparr>law_configs = fica_only, law_year = 2026, law_by_year = None\<rparr> = Inr t"
    "tax_federal t = 0" "tax_state t = 0" "tax_social_security t = 124" "tax_medicare t = 29"
    using sample_taxes by blast
  obtain event where event: "pay_event_on priced_basis (sample_periods ! 1) = Inr event"
  proof -
    obtain w where w: "walk_pay priced_basis (Date 2026 1 16) = Inr w"
      using priced_basis_days(2) by (auto simp: base_pay_on_def elim: bind_res_InrE)
    have entry: "entry_for priced_basis (Date 2026 1 16) = Inr (Date 2026 1 2, 2000)"
      by (intro entry_in_force) (auto simp: priced_basis_def sample_profile_def less_date_def less_eq_date_def)
    then have "walked_entry w = Date 2026 1 2"
      using w by (auto simp: walk_pay_def elim!: bind_res_InrE split: if_splits)
    moreover obtain entries where "pay_list priced_basis = Inr entries"
      using entry by (auto simp: entry_for_def elim!: bind_res_InrE)
    ultimately have "\<exists>event. pay_event_on priced_basis (sample_periods ! 1) = Inr event"
      using w by (simp add: pay_event_on_def sample_periods_def Let_def split: if_split)
    then show thesis using that by blast
  qed
  let ?ctx = "sample_context (Date 2026 1 16)" and ?cut = "\<lparr>pre_tax_lines = [pre], post_tax_lines = [post]\<rparr>"
  have ctx: "\<lparr>ctx_basis = priced_basis, ctx_payday = Date 2026 1 16, ctx_base = 2000\<rparr> = ?ctx"
    by (simp add: sample_context_def)
  have start: "start_date (sample_periods ! 1) = Date 2026 1 16" by (simp add: sample_periods_def)
  have gross: "priced_gross ?ctx = Inr ([], 2000)"
    by (simp add: priced_gross_def sample_priced(1) waterfall_gross_def line_total_def dec_evaluate) (simp add: sample_context_def dec_evaluate)
  have cut: "compute_deductions ?ctx = Inr ?cut" using lines by (simp add: compute_deductions_def)
  have pre: "total_pre_tax ?cut = 50" using lines by (simp add: total_pre_tax_def line_total_def dec_evaluate)
  have ordinal: "month_ordinal_of (basis_calendar priced_basis) (Date 2026 1 16) = Inr 2"
    by (simp add: month_ordinal_of_def sample_paydays)
  have year: "d_year (Date 2026 1 16) = 2026" by simp
  obtain b where b: "calculate_paycheck (\<lambda>_. 0) priced_basis (sample_periods ! 1) fica_only None = Inr b"
    "base_biweekly (paycheck_earnings b) = 2000" "taxable_lines (paycheck_earnings b) = []" "paycheck_deductions b = ?cut"
    "after_tax_lines (paycheck_earnings b) = [after]" "paycheck_taxes b = t"
    unfolding calculate_paycheck_def start priced_basis_days(2) bind_res_simps ordinal Let_def base_pay.select_convs ctx gross
      prod.case cut pre year priced_after_tax_def lines(5) event deduction_breakdown.select_convs append_Nil append_Cons t(1)
    by auto
  then have "magnitude b < 10 ^ 26" using lines t(2-5) by (simp add: magnitude_def)
  then show ?thesis using b lines t(2-5) by (intro exI[of _ b]) simp
qed

lemma paycheck_adds_up_witness:
  "\<exists>b. calculate_paycheck (\<lambda>_. 0) priced_basis (sample_periods ! 1) fica_only None = Inr b \<and>
     gross_biweekly (paycheck_earnings b) = 2000 \<and> taxable_income (paycheck_earnings b) = 1950 \<and> net_pay (paycheck_earnings b) = 181725/100"
proof -
  obtain b where b: "calculate_paycheck (\<lambda>_. 0) priced_basis (sample_periods ! 1) fica_only None = Inr b" "magnitude b < 10 ^ 26"
    "base_biweekly (paycheck_earnings b) = 2000" "taxable_lines (paycheck_earnings b) = []"
    "map priced_amount (pre_tax_lines (paycheck_deductions b)) = [50]" "map priced_amount (post_tax_lines (paycheck_deductions b)) = [20]"
    "map priced_amount (after_tax_lines (paycheck_earnings b)) = [161/4]"
    "tax_federal (paycheck_taxes b) + tax_state (paycheck_taxes b) + tax_social_security (paycheck_taxes b) + tax_medicare (paycheck_taxes b) = 153"
    using sample_paycheck by (elim exE conjE) (rule that)
  note sums = paycheck_adds_up[OF b(1) priced_basis_lines b(2)]
  note adds = conjunct1[OF sums] conjunct1[OF conjunct2[OF sums]] conjunct1[OF conjunct2[OF conjunct2[OF sums]]]
  have "gross_biweekly (paycheck_earnings b) = 2000" unfolding adds(1) b(3,4) by simp
  moreover from this have "taxable_income (paycheck_earnings b) = 1950" unfolding adds(2) b(5) by simp
  moreover have "net_pay (paycheck_earnings b) = 181725/100" unfolding adds(3) b(5-8) calculation(1) by simp
  ultimately show ?thesis using b(1) by blast
qed

end
