(* ===== verification/Paycheck_Year.thy ===== *)
theory Paycheck_Year
  imports Paycheck
begin

text \<open>
  The paychecks of a calendar year together: what an annual cap lets a line take
  (\<open>app/utils/deduction_cap.py\<close>, \<open>_cumulative_line_before\<close>) and what the payroll taxes add up to
  (\<open>_get_cumulative_wages\<close>, \<open>tax_calculator.calculate_fica\<close>).
\<close>

section \<open>An annual cap\<close>

text \<open>What a line comes to on a payday before its cap, and what the paycheck of that day takes.\<close>

definition pay_on :: "payroll_basis \<Rightarrow> date \<Rightarrow> dec" where
  "pay_on basis day = per_paycheck (projr (base_pay_on basis day))"

definition raw_on :: "payroll_basis \<Rightarrow> paycheck_line \<Rightarrow> date \<Rightarrow> dec" where
  "raw_on basis line day =
     (if line_applies_on line day then raw_line_amount line (pay_on basis day) day (profile basis) else 0)"

definition taken_on :: "payroll_basis \<Rightarrow> paycheck_line \<Rightarrow> date \<Rightarrow> dec" where
  "taken_on basis line day =
     (if line_applies_on line day
      then priced_amount (projr (priced_line_of \<lparr>ctx_basis = basis, ctx_payday = day, ctx_base = pay_on basis day\<rparr> line)) else 0)"

lemma raw_on_cents [simp]: "is_cents (raw_on basis line day)"
  by (simp add: raw_on_def)

lemma sum_raw_cents: "is_cents (sum_list (map (raw_on basis line) ds))"
  by (induction ds) (auto intro: is_cents_add)

lemma cumulative_loop_exact:
  assumes "\<forall>d \<in> set ds. \<exists>b. base_pay_on basis d = Inr b" "\<forall>d \<in> set ds. 0 \<le> raw_on basis line d"
    and "is_cents c" "0 \<le> c" "c + sum_list (map (raw_on basis line) ds) < 10 ^ 26"
  shows "cumulative_loop line basis ds c = Inr (c + sum_list (map (raw_on basis line) ds))"
  using assms
proof (induction ds arbitrary: c)
  case (Cons d ds)
  obtain b where b: "base_pay_on basis d = Inr b" using Cons.prems(1) by auto
  have pos: "0 \<le> raw_on basis line d" "0 \<le> sum_list (map (raw_on basis line) ds)"
    using Cons.prems(2) by (auto intro!: sum_list_nonneg)
  show ?case
  proof (cases "line_applies_on line d")
    case True
    then have raw: "raw_line_amount line (per_paycheck b) d (profile basis) = raw_on basis line d"
      by (simp add: raw_on_def pay_on_def b)
    have "dadd c (raw_on basis line d) = c + raw_on basis line d"
      using Cons.prems pos by (intro dadd_exact) simp_all
    then show ?thesis using Cons.prems pos True b raw Cons.IH[of "c + raw_on basis line d"] by (simp add: is_cents_add add.assoc)
  next
    case False
    then show ?thesis using Cons.prems Cons.IH[of c] by (simp add: raw_on_def)
  qed
qed simp

lemma taken_on_payday:
  assumes "paydays_in_year_before (basis_calendar basis) day = Inr ds"
    and "\<forall>d \<in> set ds. \<exists>b. base_pay_on basis d = Inr b" "\<forall>d \<in> set ds. 0 \<le> raw_on basis line d"
    and "sum_list (map (raw_on basis line) ds) < 10 ^ 25" "0 \<le> raw_on basis line day"
    and "line_annual_cap line = Some cap" "is_cents cap" "0 \<le> cap" "cap < 10 ^ 25"
  shows "taken_on basis line day =
    min cap (sum_list (map (raw_on basis line) ds) + raw_on basis line day) - min cap (sum_list (map (raw_on basis line) ds))"
proof (cases "line_applies_on line day")
  case True
  let ?before = "sum_list (map (raw_on basis line) ds)"
  have pos: "0 \<le> ?before" using assms(3) by (auto intro!: sum_list_nonneg)
  have "cumulative_line_before line basis day = Inr ?before"
    using cumulative_loop_exact[OF assms(2,3) is_cents_0] assms(1,4) by (simp add: cumulative_line_before_def)
  moreover have "dsub cap ?before = cap - ?before"
    using pos assms(4,8,9) by (intro dsub_exact assms(7) sum_raw_cents) (simp add: abs_less_iff)
  ultimately have "taken_on basis line day = (if cap - ?before \<le> 0 then 0 else min (raw_on basis line day) (cap - ?before))"
    using True assms(6) by (simp add: taken_on_def priced_line_of_def raw_on_def cap_period_amount_def Let_def)
  then show ?thesis using assms(5) by auto
next
  case False
  then show ?thesis by (simp add: taken_on_def raw_on_def)
qed

lemma sorted_days_length:
  assumes "sorted_wrt (<) ds" "\<forall>d \<in> set ds. valid_date d \<and> a \<le> d \<and> d \<le> b" "valid_date a" "valid_date b" "a \<le> b"
  shows "int (length ds) \<le> day_number b - day_number a + 1"
proof -
  have "sorted_wrt (<) (map day_number ds)"
    unfolding sorted_wrt_map by (rule sorted_wrt_mono_rel[OF _ assms(1)]) (use assms(2) in \<open>simp add: day_number_less_iff\<close>)
  then have d: "distinct (map day_number ds)" using strict_sorted_iff by blast
  have "set (map day_number ds) \<subseteq> {day_number a .. day_number b}"
    using assms(2-4) by (auto simp: day_number_le_iff)
  then have "card (set (map day_number ds)) \<le> card {day_number a .. day_number b}" by (intro card_mono) simp_all
  then have "length ds \<le> nat (day_number b - day_number a + 1)" using distinct_card[OF d] by simp
  moreover have "day_number a \<le> day_number b" using assms(3-5) by (simp add: day_number_le_iff)
  ultimately show ?thesis by simp
qed

lemma year_paydays_length:
  assumes "calendar_ok cal" "cal_periods cal \<noteq> []" "\<forall>d. history_opens_on cal = Some d \<longrightarrow> valid_date d"
    and "1 \<le> year" "year \<le> 2100"
  shows "length (year_paydays cal year) \<le> 366"
proof -
  have y: "valid_date (Date year 1 1)" "valid_date (Date year 12 31)" "Date year 12 31 \<le> CALENDAR_DATE_MAX"
    using assms(4,5) by (auto simp: valid_Date days_in_month_def less_eq_date_def CALENDAR_DATE_MAX_def)
  obtain ds where ds: "rhythm_between cal (Date year 1 1) (Date year 12 31) = Inr ds" "sorted_wrt (<) ds"
    "\<forall>d. d \<in> set ds \<longleftrightarrow> Date year 1 1 \<le> d \<and> d \<le> Date year 12 31 \<and> rhythm_payday cal d"
    by (rule rhythm_value[OF assms(1,2) y assms(3)])
  have "int (length ds) \<le> day_number (Date year 12 31) - day_number (Date year 1 1) + 1"
    using ds(3) rhythm_payday_valid[OF assms(1,2)] by (intro sorted_days_length[OF ds(2)] ballI y) (auto simp: less_eq_date_def)
  also have "\<dots> \<le> 366"
    using day_of_year_bounds(2)[OF y(2)] day_of_year_bounds(1)[OF y(1)] days_before_year_step[of year] by (cases "is_leap year") simp_all
  finally show ?thesis by (simp add: year_paydays_def ds(1))
qed

text \<open>
  C7: an annual cap is met and never passed.  Over the paydays of a calendar year a capped line takes
  the whole of what it comes to until the cap is reached, and nothing after: the year's total is the
  lesser of the two, to the cent, whatever raises, inflation or recurrence do to the paychecks, and each
  paycheck takes no more than the line comes to that day.\<close>

theorem cap_over_a_year:
  assumes "calendar_ok (basis_calendar basis)" "cal_periods (basis_calendar basis) \<noteq> []"
    and "\<forall>d. history_opens_on (basis_calendar basis) = Some d \<longrightarrow> valid_date d" "1 \<le> year" "year \<le> 2100"
    and "\<forall>d \<in> set (year_paydays (basis_calendar basis) year). 
      (\<exists>b. base_pay_on basis d = Inr b) \<and> 0 \<le> raw_on basis line d \<and> raw_on basis line d \<le> 10 ^ 20"
    and "line_annual_cap line = Some cap" "is_cents cap" "0 \<le> cap" "cap < 10 ^ 25"
  shows "sum_list (map (taken_on basis line) (year_paydays (basis_calendar basis) year)) =
      min cap (sum_list (map (raw_on basis line) (year_paydays (basis_calendar basis) year))) \<and>
    (\<forall>d \<in> set (year_paydays (basis_calendar basis) year). 0 \<le> taken_on basis line d \<and> taken_on basis line d \<le> raw_on basis line d)"
proof -
  let ?ds = "year_paydays (basis_calendar basis) year"
  have n: "length ?ds \<le> 366" by (rule year_paydays_length[OF assms(1-5)])
  have "sum_list (map (raw_on basis line) ?ds) \<le> of_nat (length ?ds) * 10 ^ 20"
    using assms(6) sum_list_bounds[of ?ds 0 "raw_on basis line" "10 ^ 20"] by simp
  also have "\<dots> \<le> 366 * 10 ^ 20" using n of_nat_le_iff[of "length ?ds" 366, where 'a=rat] by (intro mult_right_mono) simp_all
  finally have small: "sum_list (map (raw_on basis line) ?ds) < 10 ^ 25" by simp
  define S where "S = (\<lambda>k. sum_list (map (raw_on basis line) (take k ?ds)))"
  have split: "sum_list (map (raw_on basis line) ?ds) = S k + sum_list (map (raw_on basis line) (drop k ?ds))" for k
    unfolding S_def by (metis append_take_drop_id map_append sum_list_append)
  have pos: "0 \<le> S k" "0 \<le> sum_list (map (raw_on basis line) (drop k ?ds))" for k
    unfolding S_def using assms(6) by (auto intro!: sum_list_nonneg dest!: in_set_takeD in_set_dropD)
  have step: "S (Suc k) = S k + raw_on basis line (?ds ! k)" if "k < length ?ds" for k
    using that by (simp add: S_def take_Suc_conv_app_nth)
  have taken: "taken_on basis line (?ds ! k) = min cap (S (Suc k)) - min cap (S k)" if k: "k < length ?ds" for k
    unfolding step[OF k] unfolding S_def
  proof (rule taken_on_payday)
    show "paydays_in_year_before (basis_calendar basis) (?ds ! k) = Inr (take k ?ds)"
      by (rule paydays_in_year_before_prefix(1)[OF assms(1-5) k])
    show "sum_list (map (raw_on basis line) (take k ?ds)) < 10 ^ 25" using split[of k] pos(2)[of k] small by (simp add: S_def)
    show "0 \<le> raw_on basis line (?ds ! k)" using assms(6) nth_mem[OF k] by blast
  qed (use assms in \<open>auto dest: in_set_takeD\<close>)
  have "sum_list (map (taken_on basis line) (take k ?ds)) = min cap (S k)" if "k \<le> length ?ds" for k
    using that
  proof (induction k)
    case 0
    then show ?case using assms(9) by (simp add: S_def)
  next
    case (Suc k)
    then show ?case using taken[of k] by (simp add: take_Suc_conv_app_nth)
  qed
  from this[of "length ?ds"] have sum: "sum_list (map (taken_on basis line) ?ds) = min cap (sum_list (map (raw_on basis line) ?ds))"
    by (simp add: S_def)
  have "0 \<le> taken_on basis line d \<and> taken_on basis line d \<le> raw_on basis line d" if d: "d \<in> set ?ds" for d
  proof -
    obtain k where k: "k < length ?ds" "d = ?ds ! k" using d by (auto simp: in_set_conv_nth)
    have "0 \<le> raw_on basis line (?ds ! k)" using assms(6) nth_mem[OF k(1)] by blast
    then show ?thesis using taken[OF k(1)] step[OF k(1)] by (auto simp: k(2))
  qed
  with sum show ?thesis by blast
qed

section \<open>Social Security and Medicare over a calendar year\<close>

definition gross_on :: "payroll_basis \<Rightarrow> date \<Rightarrow> dec" where
  "gross_on basis day = snd (projr (priced_gross \<lparr>ctx_basis = basis, ctx_payday = day, ctx_base = pay_on basis day\<rparr>))"

definition fica_on :: "payroll_basis \<Rightarrow> fica_rules \<Rightarrow> date \<Rightarrow> fica_tax" where
  "fica_on basis c day = calculate_fica (gross_on basis day) (Some c) (projr (cumulative_wages basis day))"

text \<open>A payday whose gross pay can be priced, as an amount the application can hold.\<close>

definition priced_payday :: "payroll_basis \<Rightarrow> date \<Rightarrow> bool" where
  "priced_payday basis day \<longleftrightarrow> (\<exists>b. base_pay_on basis day = Inr b) \<and>
     (\<exists>r. priced_gross \<lparr>ctx_basis = basis, ctx_payday = day, ctx_base = pay_on basis day\<rparr> = Inr r) \<and>
     is_amount (gross_on basis day)"

lemma priced_paydayD:
  assumes "priced_payday basis d"
  obtains b earned where "base_pay_on basis d = Inr b" "per_paycheck b = pay_on basis d"
    "priced_gross \<lparr>ctx_basis = basis, ctx_payday = d, ctx_base = pay_on basis d\<rparr> = Inr (earned, gross_on basis d)"
proof -
  obtain b r where "base_pay_on basis d = Inr b"
    "priced_gross \<lparr>ctx_basis = basis, ctx_payday = d, ctx_base = pay_on basis d\<rparr> = Inr r"
    using assms by (auto simp: priced_payday_def)
  then show thesis using that[of b "fst r"] by (simp add: pay_on_def gross_on_def)
qed

lemma wages_loop_exact:
  assumes "\<forall>d \<in> set ds. priced_payday basis d" "is_cents c" "0 \<le> c" "c + sum_list (map (gross_on basis) ds) < 10 ^ 26"
  shows "wages_loop basis ds c = Inr (c + sum_list (map (gross_on basis) ds))"
  using assms
proof (induction ds arbitrary: c)
  case (Cons d ds)
  obtain b earned where b: "base_pay_on basis d = Inr b" "per_paycheck b = pay_on basis d"
    "priced_gross \<lparr>ctx_basis = basis, ctx_payday = d, ctx_base = pay_on basis d\<rparr> = Inr (earned, gross_on basis d)"
    using Cons.prems(1) by (auto elim: priced_paydayD)
  have g: "is_cents (gross_on basis d)" "0 \<le> gross_on basis d" "0 \<le> sum_list (map (gross_on basis) ds)"
    using Cons.prems(1) by (auto simp: priced_payday_def is_amount_def intro!: sum_list_nonneg)
  have "dadd c (gross_on basis d) = c + gross_on basis d" using Cons.prems g by (intro dadd_exact) simp_all
  then show ?case using Cons.prems g b Cons.IH[of "c + gross_on basis d"] by (simp add: is_cents_add add.assoc)
qed simp

lemma fica_year_nth:
  "length (fica_year c cum gs) = length gs"
  "k < length gs \<Longrightarrow> fica_year c cum gs ! k = calculate_fica (gs ! k) (Some c) (cum + sum_list (take k gs))"
proof (induction gs arbitrary: cum k)
  case (Cons g gs)
  {
    case 2
    then show ?case using Cons.IH(2)[of "k - 1" "cum + g"] by (cases k) (simp_all add: add.assoc)
  }
qed (use Cons in simp_all)

lemma year_wages:
  assumes "calendar_ok (basis_calendar basis)" "cal_periods (basis_calendar basis) \<noteq> []"
    and "\<forall>d. history_opens_on (basis_calendar basis) = Some d \<longrightarrow> valid_date d" "1 \<le> year" "year \<le> 2100"
    and "\<forall>d \<in> set (year_paydays (basis_calendar basis) year). priced_payday basis d"
  defines "gs \<equiv> map (gross_on basis) (year_paydays (basis_calendar basis) year)"
  shows "sum_list gs < 10 ^ 15" "\<forall>g \<in> set gs. is_amount g"
    "k < length gs \<Longrightarrow> cumulative_wages basis (year_paydays (basis_calendar basis) year ! k) = Inr (sum_list (take k gs))"
proof -
  let ?ds = "year_paydays (basis_calendar basis) year"
  show amounts: "\<forall>g \<in> set gs. is_amount g" using assms(6) by (auto simp: gs_def priced_payday_def)
  have n: "length ?ds \<le> 366" by (rule year_paydays_length[OF assms(1-5)])
  have "sum_list (map (gross_on basis) ?ds) \<le> of_nat (length ?ds) * 10 ^ 10"
    using conjunct2[OF sum_list_bounds[of ?ds 0 "gross_on basis" "10 ^ 10"]] assms(6)
    by (force simp: priced_payday_def is_amount_def)
  also have "\<dots> \<le> 366 * 10 ^ 10" using n of_nat_le_iff[of "length ?ds" 366, where 'a=rat] by (intro mult_right_mono) simp_all
  finally show small: "sum_list gs < 10 ^ 15" by (simp add: gs_def)
  assume "k < length gs"
  then have k: "k < length ?ds" by (simp add: gs_def)
  have "sum_list gs = sum_list (take k gs) + sum_list (drop k gs)" by (metis append_take_drop_id sum_list_append)
  moreover have "0 \<le> sum_list (drop k gs)" using amounts by (auto simp: is_amount_def intro!: sum_list_nonneg dest!: in_set_dropD)
  ultimately have "sum_list (take k gs) < 10 ^ 26" using small by simp
  then have "wages_loop basis (take k ?ds) 0 = Inr (sum_list (take k gs))"
    using wages_loop_exact[of "take k ?ds" basis 0] assms(6) by (auto simp: gs_def take_map dest: in_set_takeD)
  then show "cumulative_wages basis (?ds ! k) = Inr (sum_list (take k gs))"
    by (simp add: cumulative_wages_def paydays_in_year_before_prefix(1)[OF assms(1-5) k])
qed

text \<open>
  C9: the payroll taxes of a calendar year.  The Social Security and Medicare the formulas price on the
  paydays of a year, each on the wages the year's earlier paychecks grossed, add up to the rate on the
  year's wages up to the wage base, and to the base rate on all of them and the surtax above its
  threshold, within half a cent and a cent a paycheck; and it is what every paycheck of the year without
  a pay stub is charged.\<close>

theorem payroll_taxes_of_a_year:
  assumes "calendar_ok (basis_calendar basis)" "cal_periods (basis_calendar basis) \<noteq> []"
    and "\<forall>d. history_opens_on (basis_calendar basis) = Some d \<longrightarrow> valid_date d" "1 \<le> year" "year \<le> 2100"
    and "\<forall>d \<in> set (year_paydays (basis_calendar basis) year). priced_payday basis d" "check_fica c = Inr ()"
  defines "ds \<equiv> year_paydays (basis_calendar basis) year"
  shows "\<bar>sum_list (map (\<lambda>d. fica_ss (fica_on basis c d)) ds) -
        ss_rate c * min (sum_list (map (gross_on basis) ds)) (ss_wage_base c)\<bar> \<le> of_nat (length ds) / 200 \<and>
    \<bar>sum_list (map (\<lambda>d. fica_medicare (fica_on basis c d)) ds) - (medicare_rate c * sum_list (map (gross_on basis) ds) +
        medicare_surtax_rate c * max 0 (sum_list (map (gross_on basis) ds) - medicare_surtax_threshold c))\<bar> \<le> of_nat (length ds) / 100 \<and>
    (\<forall>d pre configs t. formula_taxes tt basis \<lparr>fig_payday = d, fig_gross = gross_on basis d, fig_pre_tax = pre\<rparr> configs = Inr t \<and>
      fica_config configs = Some c \<longrightarrow>
      tax_social_security t = fica_ss (fica_on basis c d) \<and> tax_medicare t = fica_medicare (fica_on basis c d))"
proof -
  define gs where "gs = map (gross_on basis) ds"
  note year = year_wages[OF assms(1-6), folded ds_def, folded gs_def]
  have f: "check_fica c = Inr () \<and> 0 \<le> ss_wage_base c \<and> 0 \<le> medicare_surtax_threshold c"
    using assms(7) checked_fica[OF assms(7)] by (simp add: pay_sum_def)
  have "fica_year c 0 gs = map (fica_on basis c) ds"
    using year(3) by (intro nth_equalityI) (simp_all add: fica_year_nth fica_on_def gs_def)
  then have lists: "map fica_ss (fica_year c 0 gs) = map (\<lambda>d. fica_ss (fica_on basis c d)) ds"
    "map fica_medicare (fica_year c 0 gs) = map (\<lambda>d. fica_medicare (fica_on basis c d)) ds" by simp_all
  have nn: "0 \<le> sum_list gs" "is_cents (sum_list gs)"
    using year(2) by (auto simp: is_amount_def intro!: sum_list_nonneg is_cents_sum_list)
  have "pay_sum 0" "pay_sum (0 + sum_list gs)" using nn year(1) by (simp_all add: pay_sum_def)
  note due = fica_year_due[OF assms(7) year(2) this, unfolded lists add_0]
  have zero: "ss_due c 0 = 0" "medicare_due c 0 = 0" using f by (simp_all add: ss_due_def medicare_due_def)
  have "\<bar>sum_list (map (\<lambda>d. fica_ss (fica_on basis c d)) ds) -
        ss_rate c * min (sum_list (map (gross_on basis) ds)) (ss_wage_base c)\<bar> \<le> of_nat (length ds) / 200"
    "\<bar>sum_list (map (\<lambda>d. fica_medicare (fica_on basis c d)) ds) - (medicare_rate c * sum_list (map (gross_on basis) ds) +
        medicare_surtax_rate c * max 0 (sum_list (map (gross_on basis) ds) - medicare_surtax_threshold c))\<bar> \<le> of_nat (length ds) / 100"
    using due unfolding zero diff_zero unfolding ss_due_def medicare_due_def gs_def by simp_all
  moreover have "tax_social_security t = fica_ss (fica_on basis c d) \<and> tax_medicare t = fica_medicare (fica_on basis c d)"
    if "formula_taxes tt basis \<lparr>fig_payday = d, fig_gross = gross_on basis d, fig_pre_tax = pre\<rparr> configs = Inr t"
      "fica_config configs = Some c" for d pre configs t
    using that by (auto simp: formula_taxes_def bracket_tax_lines_def fica_on_def Let_def elim!: bind_res_InrE)
  ultimately show ?thesis by blast
qed

section \<open>A year on record\<close>

text \<open>A calendar of two recorded biweekly paydays, and a profile of one entry, no raises and a capped deduction.\<close>

lemma one_era_calendar:
  obtains cal where "from_paydays two_paydays one_era None = Inr cal" "calendar_ok cal" "cal_periods cal \<noteq> []"
    "cal_eras cal = one_era" "history_opens_on cal = None" "Date 2026 1 2 \<in> set (year_paydays cal 2026)"
proof -
  have v: "\<forall>row \<in> set two_paydays. valid_date (snd row)" by (simp add: two_paydays_def valid_Date days_in_month_def)
  have "distinct (map snd two_paydays)" by (simp add: two_paydays_def)
  then obtain ps where ps: "derive_periods two_paydays one_era = Inr ps" using derive_periods_value[OF one_era_sound v] by metis
  then obtain cal where cal: "from_paydays two_paydays one_era None = Inr cal" by (simp add: from_paydays_def)
  note ok = from_paydays_ok[OF one_era_sound v cal]
  have "cal_periods cal \<noteq> []" using ok(4) by (auto simp: two_paydays_def)
  moreover obtain ds where ds: "rhythm_between cal (Date 2026 1 1) (Date 2026 12 31) = Inr ds" "sorted_wrt (<) ds"
    "\<forall>d. d \<in> set ds \<longleftrightarrow> Date 2026 1 1 \<le> d \<and> d \<le> Date 2026 12 31 \<and> rhythm_payday cal d"
    using rhythm_value[OF ok(1) calculation, of "Date 2026 1 1" "Date 2026 12 31"] ok(3)
    by (auto simp: valid_Date days_in_month_def less_eq_date_def CALENDAR_DATE_MAX_def)
  have "rhythm_payday cal (Date 2026 1 2)" using ok(4) by (simp add: rhythm_payday_def two_paydays_def)
  then have "Date 2026 1 2 \<in> set (year_paydays cal 2026)" using ds by (simp add: year_paydays_def less_eq_date_def)
  ultimately show thesis using that[OF cal] ok by simp
qed

definition steady_basis :: "pay_calendar \<Rightarrow> payroll_basis" where
  "steady_basis cal =
     \<lparr>profile = sample_profile\<lparr>pay_entries := [(Date 2026 1 2, 2000)], profile_raises := [], profile_lines := [retirement]\<rparr>,
      basis_calendar = cal, stated_raises = None\<rparr>"

lemma steady_pay:
  assumes "cal_eras cal = one_era" "valid_date day"
  shows "base_pay_on (steady_basis cal) day = Inr \<lparr>per_paycheck = 2000, base_cadence = Fixed_Days 14\<rparr>"
proof -
  have "entry_for (steady_basis cal) day = Inr (Date 2026 1 2, 2000)"
    by (simp add: entry_for_def pay_list_def steady_basis_def)
  moreover have "cadence_on cal day = Inr (Fixed_Days 14)" "cadence_on cal (Date 2026 1 2) = Inr (Fixed_Days 14)"
    using assms by (intro one_era_cadence; simp add: valid_Date days_in_month_def)+
  ultimately show ?thesis
    by (simp add: base_pay_on_def walk_pay_def pay_events_def steady_basis_def one_era_def basis_raises_def
        applications_between_def applications_def assms(1))
qed

lemma steady_year:
  assumes "calendar_ok cal" "cal_periods cal \<noteq> []" "history_opens_on cal = None" "cal_eras cal = one_era"
    and "day \<in> set (year_paydays cal 2026)"
  shows "valid_date day" "base_pay_on (steady_basis cal) day = Inr \<lparr>per_paycheck = 2000, base_cadence = Fixed_Days 14\<rparr>"
    "pay_on (steady_basis cal) day = 2000" "raw_on (steady_basis cal) retirement day = 100"
    "priced_gross \<lparr>ctx_basis = steady_basis cal, ctx_payday = day, ctx_base = 2000\<rparr> = Inr ([], 2000)"
    "gross_on (steady_basis cal) day = 2000"
proof -
  obtain k where "k < length (year_paydays cal 2026)" "day = year_paydays cal 2026 ! k"
    using assms(5) by (auto simp: in_set_conv_nth)
  then show v: "valid_date day" using paydays_in_year_before_prefix(2)[OF assms(1,2), of 2026 k] assms(3) by simp
  show base: "base_pay_on (steady_basis cal) day = Inr \<lparr>per_paycheck = 2000, base_cadence = Fixed_Days 14\<rparr>"
    by (rule steady_pay[OF assms(4) v])
  then show pay: "pay_on (steady_basis cal) day = 2000" by (simp add: pay_on_def)
  show "raw_on (steady_basis cal) retirement day = 100"
    by (simp add: raw_on_def pay sample_line_facts)
  have "profile_lines (profile (steady_basis cal)) = [retirement]" by (simp add: steady_basis_def)
  then show gross: "priced_gross \<lparr>ctx_basis = steady_basis cal, ctx_payday = day, ctx_base = 2000\<rparr> = Inr ([], 2000)"
    by (simp add: priced_gross_def priced_lines_def sample_line_facts waterfall_gross_def line_total_def dec_evaluate)
  then show "gross_on (steady_basis cal) day = 2000" by (simp add: gross_on_def pay)
qed

lemma cap_over_a_year_witness:
  "\<exists>cal. from_paydays two_paydays one_era None = Inr cal \<and>
     sum_list (map (taken_on (steady_basis cal) retirement) (year_paydays cal 2026)) =
       min 150 (sum_list (map (raw_on (steady_basis cal) retirement) (year_paydays cal 2026))) \<and>
     (\<exists>d. d \<in> set (year_paydays cal 2026) \<and> 0 \<le> taken_on (steady_basis cal) retirement d \<and>
        taken_on (steady_basis cal) retirement d \<le> 100)"
proof -
  obtain cal where cal: "from_paydays two_paydays one_era None = Inr cal" "calendar_ok cal" "cal_periods cal \<noteq> []"
    "cal_eras cal = one_era" "history_opens_on cal = None" and day: "Date 2026 1 2 \<in> set (year_paydays cal 2026)"
    by (rule one_era_calendar)
  note year = steady_year[OF cal(2,3,5,4)]
  have b: "basis_calendar (steady_basis cal) = cal" by (simp add: steady_basis_def)
  have cap: "line_annual_cap retirement = Some 150" "is_cents 150" by (simp_all add: sample_line_facts is_cents_def)
  have paid: "\<forall>d \<in> set (year_paydays cal 2026). (\<exists>b. base_pay_on (steady_basis cal) d = Inr b) \<and>
      0 \<le> raw_on (steady_basis cal) retirement d \<and> raw_on (steady_basis cal) retirement d \<le> 10 ^ 20"
    using year by auto
  have opens: "\<forall>d. history_opens_on cal = Some d \<longrightarrow> valid_date d" using cal(5) by simp
  note capped = cap_over_a_year[where basis = "steady_basis cal" and year = 2026 and line = retirement and cap = 150, unfolded b,
      OF cal(2,3) opens _ _ paid cap]
  have "sum_list (map (taken_on (steady_basis cal) retirement) (year_paydays cal 2026)) =
      min 150 (sum_list (map (raw_on (steady_basis cal) retirement) (year_paydays cal 2026)))"
    using capped by simp
  moreover have "0 \<le> taken_on (steady_basis cal) retirement (Date 2026 1 2) \<and>
      taken_on (steady_basis cal) retirement (Date 2026 1 2) \<le> 100"
    using capped year(4)[OF day] day by auto
  ultimately show ?thesis using cal(1) day by blast
qed

lemma payroll_taxes_of_a_year_witness:
  "\<exists>cal n. from_paydays two_paydays one_era None = Inr cal \<and> n = length (year_paydays cal 2026) \<and>
     \<bar>sum_list (map (\<lambda>d. fica_ss (fica_on (steady_basis cal) FICA_2026 d)) (year_paydays cal 2026)) -
        ss_rate FICA_2026 * min (of_nat n * 2000) (ss_wage_base FICA_2026)\<bar> \<le> of_nat n / 200 \<and>
     (\<exists>t. formula_taxes (\<lambda>_. 0) (steady_basis cal) \<lparr>fig_payday = Date 2026 1 2, fig_gross = gross_on (steady_basis cal) (Date 2026 1 2), fig_pre_tax = 100\<rparr>
        fica_only = Inr t \<and> tax_social_security t = fica_ss (fica_on (steady_basis cal) FICA_2026 (Date 2026 1 2)))"
proof -
  obtain cal where cal: "from_paydays two_paydays one_era None = Inr cal" "calendar_ok cal" "cal_periods cal \<noteq> []"
    "cal_eras cal = one_era" "history_opens_on cal = None" and day: "Date 2026 1 2 \<in> set (year_paydays cal 2026)"
    by (rule one_era_calendar)
  note year = steady_year[OF cal(2,3,5,4)]
  let ?ds = "year_paydays cal 2026" and ?day = "Date 2026 1 2"
  have b: "basis_calendar (steady_basis cal) = cal" by (simp add: steady_basis_def)
  have opens: "\<forall>d. history_opens_on cal = Some d \<longrightarrow> valid_date d" using cal(5) by simp
  have priced: "\<forall>d \<in> set ?ds. priced_payday (steady_basis cal) d"
    using year by (simp add: priced_payday_def is_amount_def)
  note taxes = payroll_taxes_of_a_year[where basis = "steady_basis cal" and year = 2026 and c = FICA_2026, unfolded b,
      OF cal(2,3) opens _ _ priced fica_rules_load(2)]
  have "map (gross_on (steady_basis cal)) ?ds = replicate (length ?ds) 2000"
    using year(6) by (intro nth_equalityI) simp_all
  then have gross: "sum_list (map (gross_on (steady_basis cal)) ?ds) = of_nat (length ?ds) * 2000"
    by (simp add: sum_list_replicate)
  have "\<bar>sum_list (map (\<lambda>d. fica_ss (fica_on (steady_basis cal) FICA_2026 d)) ?ds) -
        ss_rate FICA_2026 * min (of_nat (length ?ds) * 2000) (ss_wage_base FICA_2026)\<bar> \<le> of_nat (length ?ds) / 200"
    using taxes unfolding gross by simp
  note ss = this
  have "\<exists>t. formula_taxes (\<lambda>_. 0) (steady_basis cal) \<lparr>fig_payday = ?day, fig_gross = gross_on (steady_basis cal) ?day, fig_pre_tax = 100\<rparr>
      fica_only = Inr t"
  proof -
    obtain k where k: "k < length ?ds" "?ds ! k = ?day" using day by (auto simp: in_set_conv_nth)
    obtain w where "cumulative_wages (steady_basis cal) ?day = Inr w"
      using year_wages(3)[where basis = "steady_basis cal" and year = 2026 and k = k, unfolded b, OF cal(2,3) opens _ _ priced] k by simp
    then show ?thesis
      by (simp add: formula_taxes_def year(2)[OF day] bracket_tax_lines_def bracket_state_def calculate_state_tax_def
          fica_only_def Let_def)
  qed
  then obtain t where t: "formula_taxes (\<lambda>_. 0) (steady_basis cal)
      \<lparr>fig_payday = ?day, fig_gross = gross_on (steady_basis cal) ?day, fig_pre_tax = 100\<rparr> fica_only = Inr t" ..
  have "fica_config fica_only = Some FICA_2026" by (simp add: fica_only_def)
  then have "tax_social_security t = fica_ss (fica_on (steady_basis cal) FICA_2026 ?day)"
    using taxes t by (auto elim!: allE[of _ ?day])
  then show ?thesis using cal(1) ss t by (intro exI[of _ cal] exI[of _ "length ?ds"] conjI refl exI[of _ t])
qed

end
