(* ===== verification/Pay_Stubs.thy ===== *)
theory Pay_Stubs
  imports Paycheck
begin

text \<open>
  What a pay stub prices (\<open>app/services/paycheck_calculator/_stubs.py\<close>): which recorded stub a paycheck's
  taxes are read off, and how the taxes printed on it move with the formulas.
\<close>

section \<open>The stub a paycheck is priced on\<close>

lemma foldl_latest:
  "foldl (\<lambda>best stub. if stub_payday best < stub_payday stub then stub else best) s stubs \<in> insert s (set stubs) \<and>
   (\<forall>x \<in> insert s (set stubs). stub_payday x \<le>
      stub_payday (foldl (\<lambda>best stub. if stub_payday best < stub_payday stub then stub else best) s stubs))"
proof (induction stubs arbitrary: s)
  case (Cons x stubs)
  show ?case using Cons[of "if stub_payday s < stub_payday x then x else s"] by (auto split: if_splits intro: order_trans less_imp_le)
qed simp

lemma latest_stub_value:
  "latest_stub stubs = None \<longleftrightarrow> stubs = []"
  "latest_stub stubs = Some s \<Longrightarrow> s \<in> set stubs" "latest_stub stubs = Some s \<Longrightarrow> x \<in> set stubs \<Longrightarrow> stub_payday x \<le> stub_payday s"
  using foldl_latest[of "hd stubs" "tl stubs"] by (cases stubs; auto)+

definition candidate_stub :: "pay_stub \<Rightarrow> date \<Rightarrow> bool" where
  "candidate_stub s payday \<longleftrightarrow> use_for_pricing s \<and> stub_payday s \<le> payday"

text \<open>
  C40: the stub a paycheck is priced on.  None is chosen only where no stub by that day may price; the one
  chosen may, carries the paycheck's taxed lines if any that may does, and is the latest of those that
  do, or of all where none does.\<close>

theorem pricing_stub_choice:
  "(pricing_stub stubs payday lines = None \<longleftrightarrow> \<not> (\<exists>s. s \<in> set stubs \<and> candidate_stub s payday)) \<and>
   (\<forall>s. pricing_stub stubs payday lines = Some s \<longrightarrow>
      s \<in> set stubs \<and> candidate_stub s payday \<and>
      (\<forall>x. x \<in> set stubs \<and> candidate_stub x payday \<and> has_the_lines x lines \<longrightarrow> has_the_lines s lines \<and> stub_payday x \<le> stub_payday s) \<and>
      (has_the_lines s lines \<or> (\<forall>x. x \<in> set stubs \<and> candidate_stub x payday \<longrightarrow> stub_payday x \<le> stub_payday s)))"
proof -
  define candidates where "candidates = [stub \<leftarrow> stubs. use_for_pricing stub \<and> stub_payday stub \<le> payday]"
  define same where "same = [stub \<leftarrow> candidates. has_the_lines stub lines]"
  have chosen: "pricing_stub stubs payday lines = latest_stub (if same \<noteq> [] then same else candidates)"
    by (simp add: pricing_stub_def candidates_def same_def Let_def)
  have members: "x \<in> set candidates \<longleftrightarrow> x \<in> set stubs \<and> candidate_stub x payday"
    "x \<in> set same \<longleftrightarrow> x \<in> set candidates \<and> has_the_lines x lines" for x
    by (auto simp: candidates_def same_def candidate_stub_def)
  show ?thesis
  proof (cases "same = []")
    case True
    then have "\<not> has_the_lines x lines" if "x \<in> set candidates" for x using members(2)[of x] that by auto
    then show ?thesis using True latest_stub_value[of candidates] members unfolding chosen by (auto simp: filter_empty_conv)
  next
    case False
    then show ?thesis using latest_stub_value[of same] members unfolding chosen by (auto simp: neq_Nil_conv)
  qed
qed

section \<open>Taxes moved off the stub\<close>

text \<open>A withholding figure and a formula's answer, as the Decimal context keeps their sums.\<close>

definition modest :: "tax_lines \<Rightarrow> bool" where
  "modest t \<longleftrightarrow> taxes_in_cents t \<and> \<bar>tax_federal t\<bar> < 10 ^ 25 \<and> \<bar>tax_state t\<bar> < 10 ^ 25 \<and>
     \<bar>tax_social_security t\<bar> < 10 ^ 25 \<and> \<bar>tax_medicare t\<bar> < 10 ^ 25"

lemma moved_exact:
  assumes "is_cents p" "is_cents f" "is_cents s" "\<bar>p\<bar> < 10 ^ 25" "\<bar>f\<bar> < 10 ^ 25" "\<bar>s\<bar> < 10 ^ 25"
  shows "floored (dsub (dadd p f) s) = max 0 (p + f - s)"
proof -
  have "dadd p f = p + f" using assms(4,5) by (intro dadd_exact assms) (simp add: abs_less_iff)
  moreover have "dsub (p + f) s = p + f - s" using assms(4-6) by (intro dsub_exact is_cents_add assms) (simp add: abs_less_iff)
  moreover have "is_cents (max (p + f - s) 0)" using assms(1-3) by (simp add: max_def is_cents_add is_cents_diff)
  ultimately show ?thesis by (simp add: floored_def max.commute)
qed

text \<open>
  C8: a stub calibrates the formulas.  Where a stub prices a paycheck, each withholding is the one
  printed on the stub moved by exactly what the formulas say the two paychecks differ by, never below
  zero; so a paycheck on the stub's own payday that repeats its gross pay and pre-tax deductions is
  taxed to the cent as printed.\<close>

theorem stub_calibrates_the_formulas:
  fixes stub :: pay_stub
  defines "totals \<equiv> totals_of_stub (stub_base_pay stub) (line_amounts stub @ one_offs stub) (map snd (withholdings stub))"
  assumes "pricing_stub (pay_stubs (profile basis)) (fig_payday pay) (carried_lines lines) = Some stub"
    and "printed_taxes stub = Inr printed" "law_for_stub law stub = Inr stub_law"
    and "formula_taxes tt basis pay (law_configs law) = Inr formulas"
    and "formula_taxes tt basis \<lparr>fig_payday = stub_payday stub, fig_gross = stub_gross totals, fig_pre_tax = stub_pre_tax totals\<rparr> stub_law = Inr on_stub"
    and "modest printed" "modest formulas" "modest on_stub"
  shows "priced_taxes tt basis pay lines law = Inr
      \<lparr>tax_federal = max 0 (tax_federal printed + tax_federal formulas - tax_federal on_stub),
       tax_state = max 0 (tax_state printed + tax_state formulas - tax_state on_stub),
       tax_social_security = max 0 (tax_social_security printed + tax_social_security formulas - tax_social_security on_stub),
       tax_medicare = max 0 (tax_medicare printed + tax_medicare formulas - tax_medicare on_stub),
       tax_stub_payday = Some (stub_payday stub)\<rparr> \<and>
    (pay = \<lparr>fig_payday = stub_payday stub, fig_gross = stub_gross totals, fig_pre_tax = stub_pre_tax totals\<rparr> \<and>
      stub_law = law_configs law \<and>
      0 \<le> tax_federal printed \<and> 0 \<le> tax_state printed \<and> 0 \<le> tax_social_security printed \<and> 0 \<le> tax_medicare printed \<longrightarrow>
      priced_taxes tt basis pay lines law = Inr (printed\<lparr>tax_stub_payday := Some (stub_payday stub)\<rparr>))"
proof -
  have priced: "priced_taxes tt basis pay lines law = Inr
      \<lparr>tax_federal = max 0 (tax_federal printed + tax_federal formulas - tax_federal on_stub),
       tax_state = max 0 (tax_state printed + tax_state formulas - tax_state on_stub),
       tax_social_security = max 0 (tax_social_security printed + tax_social_security formulas - tax_social_security on_stub),
       tax_medicare = max 0 (tax_medicare printed + tax_medicare formulas - tax_medicare on_stub),
       tax_stub_payday = Some (stub_payday stub)\<rparr>"
    using assms(2-6,7-9) by (simp add: priced_taxes_def totals_def Let_def modest_def taxes_in_cents_def moved_exact)
  moreover have "on_stub = formulas"
    if "pay = \<lparr>fig_payday = stub_payday stub, fig_gross = stub_gross totals, fig_pre_tax = stub_pre_tax totals\<rparr>"
      "stub_law = law_configs law"
    using that assms(5,6) by simp
  ultimately show ?thesis by auto
qed

section \<open>A stub on record\<close>

definition sample_stub :: pay_stub where
  "sample_stub =
     \<lparr>stub_payday = Date 2026 1 16, stub_base_pay = 2000, use_for_pricing = True,
      line_amounts = [\<lparr>stub_line_id = Some 1, stub_line_kind = Pre_Tax_Deduction, stub_line_amount = 50\<rparr>], one_offs = [],
      withholdings = [(Federal_Income, 15010/100), (State_Income, 80), (Social_Security, 12401/100), (Medicare, 29)]\<rparr>"

definition stub_basis :: payroll_basis where
  "stub_basis = priced_basis\<lparr>profile := profile priced_basis\<lparr>pay_stubs := [sample_stub]\<rparr>\<rparr>"

lemma pricing_stub_choice_witness:
  "pricing_stub [sample_stub, sample_stub\<lparr>stub_payday := Date 2026 1 2, line_amounts := []\<rparr>] (Date 2026 2 1) {} =
     Some (sample_stub\<lparr>stub_payday := Date 2026 1 2, line_amounts := []\<rparr>) \<and>
   pricing_stub [sample_stub] (Date 2026 1 15) {} = None"
proof -
  let ?late = "sample_stub" and ?bare = "sample_stub\<lparr>stub_payday := Date 2026 1 2, line_amounts := []\<rparr>"
  have lines: "has_the_lines ?bare {}" "\<not> has_the_lines ?late {}"
    by (simp_all add: has_the_lines_def carried_lines_def taxed_def one_offs_change_taxes_def sample_stub_def)
  have cand: "candidate_stub ?bare (Date 2026 2 1)" "candidate_stub ?late (Date 2026 2 1)" "\<not> candidate_stub ?late (Date 2026 1 15)"
    by (simp_all add: candidate_stub_def sample_stub_def less_eq_date_def)
  have "pricing_stub [?late, ?bare] (Date 2026 2 1) {} \<noteq> None"
    using pricing_stub_choice[of "[?late, ?bare]" "Date 2026 2 1" "{}"] cand by auto
  then obtain s where s: "pricing_stub [?late, ?bare] (Date 2026 2 1) {} = Some s" by blast
  then have "s \<in> {?late, ?bare}" "has_the_lines s {}"
    using pricing_stub_choice[of "[?late, ?bare]" "Date 2026 2 1" "{}"] cand lines by auto
  then have "s = ?bare" using lines by auto
  moreover have "pricing_stub [?late] (Date 2026 1 15) {} = None"
    using pricing_stub_choice[of "[?late]" "Date 2026 1 15" "{}"] cand by auto
  ultimately show ?thesis using s by simp
qed

lemma stub_basis_taxes:
  "\<exists>t. formula_taxes (\<lambda>_. 0) stub_basis \<lparr>fig_payday = Date 2026 1 16, fig_gross = 2000, fig_pre_tax = 50\<rparr> fica_only = Inr t \<and> modest t"
proof -
  have "basis_raises stub_basis = basis_raises priced_basis"
    by (simp add: basis_raises_def stub_basis_def split: option.split)
  moreover have "profile stub_basis = profile priced_basis\<lparr>pay_stubs := [sample_stub]\<rparr>" "basis_calendar stub_basis = basis_calendar priced_basis"
    by (simp_all add: stub_basis_def)
  ultimately have same: "base_pay_on stub_basis day = base_pay_on priced_basis day" for day
    by (simp add: base_pay_on_def walk_pay_def entry_for_def pay_list_def)
  have "basis_calendar stub_basis = basis_calendar priced_basis" by (simp add: stub_basis_def)
  moreover have "profile_lines (profile stub_basis) = [retirement, parking, phone]"
    by (simp add: stub_basis_def priced_basis_def)
  then have "priced_gross \<lparr>ctx_basis = stub_basis, ctx_payday = Date 2026 1 2, ctx_base = 2000\<rparr> = Inr ([], 2000)"
    by (simp add: priced_gross_def priced_lines_def sample_line_facts waterfall_gross_def line_total_def dec_evaluate)
  ultimately have "cumulative_wages stub_basis (Date 2026 1 16) = Inr 2000"
    by (simp add: cumulative_wages_def sample_paydays same priced_basis_days dec_evaluate)
  moreover have "fica_ss (calculate_fica 2000 (Some FICA_2026) 2000) = 124" "fica_medicare (calculate_fica 2000 (Some FICA_2026) 2000) = 29"
    by (simp_all add: calculate_fica_def capped_social_security_def FICA_2026_def four_places_def Let_def
        dec_evaluate round_money_def quantize_cents_def round_half_up_def)
  ultimately show ?thesis
    by (simp add: formula_taxes_def same priced_basis_days bracket_tax_lines_def bracket_state_def calculate_state_tax_def
        fica_only_def Let_def modest_def taxes_in_cents_def ddiv_def is_cents_def)
qed

lemma stub_calibrates_the_formulas_witness:
  "\<exists>t. priced_taxes (\<lambda>_. 0) stub_basis \<lparr>fig_payday = Date 2026 1 16, fig_gross = 2000, fig_pre_tax = 50\<rparr> (line_amounts sample_stub)
     \<lparr>law_configs = fica_only, law_year = 2026, law_by_year = None\<rparr> = Inr t \<and>
     tax_federal t = 15010/100 \<and> tax_social_security t = 12401/100 \<and> tax_stub_payday t = Some (Date 2026 1 16)"
proof -
  let ?totals = "totals_of_stub (stub_base_pay sample_stub) (line_amounts sample_stub @ one_offs sample_stub) (map snd (withholdings sample_stub))"
  let ?pay = "\<lparr>fig_payday = Date 2026 1 16, fig_gross = 2000, fig_pre_tax = 50\<rparr>"
  let ?law = "\<lparr>law_configs = fica_only, law_year = 2026, law_by_year = None\<rparr>"
  let ?printed = "\<lparr>tax_federal = 15010/100, tax_state = 80, tax_social_security = 12401/100, tax_medicare = 29, tax_stub_payday = None\<rparr>"
  have pay: "?pay = \<lparr>fig_payday = stub_payday sample_stub, fig_gross = stub_gross ?totals, fig_pre_tax = stub_pre_tax ?totals\<rparr>"
    by (simp add: totals_of_stub_def kind_total_def sample_stub_def Let_def waterfall_gross_def dec_evaluate)
  obtain t where t: "formula_taxes (\<lambda>_. 0) stub_basis ?pay fica_only = Inr t" "modest t" using stub_basis_taxes by blast
  have chosen: "pricing_stub (pay_stubs (profile stub_basis)) (fig_payday ?pay) (carried_lines (line_amounts sample_stub)) = Some sample_stub"
    by (simp add: pricing_stub_def stub_basis_def sample_stub_def has_the_lines_def one_offs_change_taxes_def taxed_def Let_def)
  have printed: "printed_taxes sample_stub = Inr ?printed" by (simp add: printed_taxes_def sample_stub_def Let_def)
  have law: "law_for_stub ?law sample_stub = Inr fica_only" by (simp add: law_for_stub_def sample_stub_def)
  have small: "modest ?printed" by (simp add: modest_def taxes_in_cents_def is_cents_def floor_numerals)
  have "priced_taxes (\<lambda>_. 0) stub_basis ?pay (line_amounts sample_stub) ?law = Inr (?printed\<lparr>tax_stub_payday := Some (stub_payday sample_stub)\<rparr>)"
    using t chosen printed law small pay
      stub_calibrates_the_formulas[of stub_basis ?pay "line_amounts sample_stub" sample_stub ?printed ?law fica_only "\<lambda>_. 0" t t]
    by simp
  then show ?thesis by (simp add: sample_stub_def)
qed

end
