(* ===== verification/Installments.thy ===== *)
theory Installments
  imports Civil_Days
begin

text \<open>
  \<open>app/services/installment_calendar.py\<close>: a loan's contractual installments, one rule (installment
  \<open>k\<close> is the due day, clamped, of the \<open>k\<close>-th month after the origination's) and the questions the
  loan components derive from it.
\<close>

definition due_in_following_month :: "date \<Rightarrow> int \<Rightarrow> date" where
  "due_in_following_month reference payment_day = clamped_day (month_ordinal reference + 1) payment_day"

definition first_installment_date :: "date \<Rightarrow> int \<Rightarrow> date" where
  "first_installment_date origination_date payment_day =
     due_in_following_month origination_date payment_day"

definition monthly_due_date :: "date \<Rightarrow> int \<Rightarrow> date" where
  "monthly_due_date period_start payment_day =
     clamped_day (grid_month_on_or_after period_start payment_day) payment_day"

definition installment_dates :: "date \<Rightarrow> int \<Rightarrow> date \<Rightarrow> date list" where
  "installment_dates origination_date payment_day through =
     map (\<lambda>ordinal. clamped_day ordinal payment_day)
       (grid_months_within payment_day (first_installment_date origination_date payment_day) through)"

definition installment_of :: "date \<Rightarrow> int \<Rightarrow> date \<Rightarrow> date option" where
  "installment_of origination_date payment_day day =
     (let ordinal = grid_month_on_or_before day payment_day
      in if ordinal < month_ordinal (first_installment_date origination_date payment_day)
         then None else Some (clamped_day ordinal payment_day))"

definition installment_paid_by :: "date \<Rightarrow> int \<Rightarrow> date \<Rightarrow> date" where
  "installment_paid_by origination_date payment_day due =
     (case installment_of origination_date payment_day due of None \<Rightarrow> due | Some d \<Rightarrow> d)"

text \<open>Installment \<open>k\<close> of the rule, for the statements below.\<close>

definition installment_number :: "date \<Rightarrow> int \<Rightarrow> int \<Rightarrow> date" where
  "installment_number origination_date payment_day k =
     clamped_day (month_ordinal origination_date + k) payment_day"

lemma valid_due_in_following_month: "1 \<le> p \<Longrightarrow> valid_date (due_in_following_month r p)"
  by (simp add: due_in_following_month_def valid_clamped_day)

lemma month_due_in_following [simp]:
  "month_ordinal (due_in_following_month r p) = month_ordinal r + 1"
  by (simp add: due_in_following_month_def)

lemma month_first_installment [simp]:
  "month_ordinal (first_installment_date r p) = month_ordinal r + 1"
  by (simp add: first_installment_date_def)

lemma valid_first_installment: "1 \<le> p \<Longrightarrow> valid_date (first_installment_date r p)"
  by (simp add: first_installment_date_def valid_due_in_following_month)

lemma due_in_following_month_after:
  "valid_date r \<Longrightarrow> r < due_in_following_month r p"
  unfolding due_in_following_month_def by (rule grid.land_after) (simp_all add: valid_dateD)

lemma first_installment_on_or_after [simp]:
  "grid_month_on_or_after (first_installment_date r p) p = month_ordinal r + 1"
  unfolding first_installment_date_def due_in_following_month_def
  by (simp add: grid_month_on_or_after_def)

lemma installment_dates_map:
  "installment_dates og p through =
     map (\<lambda>k. clamped_day k p) [month_ordinal og + 1 .. grid_month_on_or_before through p]"
  by (simp add: installment_dates_def grid_months_within_def)

lemma installment_of_Some:
  assumes "valid_date day"
  shows "installment_of og p day = Some i \<longleftrightarrow>
         (\<exists>k \<ge> 1. i = installment_number og p k \<and> installment_number og p k \<le> day \<and>
                  day < installment_number og p (k + 1))"
    (is "_ \<longleftrightarrow> (\<exists>k \<ge> 1. ?P k)")
proof
  define g where "g = grid_month_on_or_before day p"
  have le: "clamped_day k p \<le> day \<longleftrightarrow> k \<le> g" for k using on_or_before_iff[OF assms] by (simp add: g_def)
  assume "installment_of og p day = Some i"
  then have g1: "month_ordinal og + 1 \<le> g" and i: "i = clamped_day g p"
    by (auto simp: installment_of_def g_def Let_def split: if_splits)
  have "?P (g - month_ordinal og)"
    using i le[of g] le[of "g + 1"] by (simp add: installment_number_def not_le[symmetric] add.commute)
  with g1 show "\<exists>k \<ge> 1. ?P k" by (intro exI[of _ "g - month_ordinal og"]) simp
next
  define g where "g = grid_month_on_or_before day p"
  have le: "clamped_day k p \<le> day \<longleftrightarrow> k \<le> g" for k using on_or_before_iff[OF assms] by (simp add: g_def)
  assume "\<exists>k \<ge> 1. ?P k"
  then obtain k where k: "1 \<le> k" "?P k" by blast
  then have "month_ordinal og + k = g"
    using le[of "month_ordinal og + k"] le[of "month_ordinal og + (k + 1)"]
    by (simp add: installment_number_def not_le[symmetric])
  with k show "installment_of og p day = Some i"
    by (simp add: installment_of_def g_def[symmetric] Let_def installment_number_def)
qed

lemma installment_of_None:
  assumes "valid_date day"
  shows "installment_of og p day = None \<longleftrightarrow> day < first_installment_date og p"
  using on_or_before_iff[OF assms, of "month_ordinal og + 1" p]
  by (auto simp: installment_of_def Let_def first_installment_date_def due_in_following_month_def)

lemma installment_dates_last:
  assumes "valid_date through"
  shows "installment_of og p through =
         (if installment_dates og p through = [] then None else Some (last (installment_dates og p through)))"
proof (cases "month_ordinal og + 1 \<le> grid_month_on_or_before through p")
  case True
  then have "[month_ordinal og + 1 .. grid_month_on_or_before through p] \<noteq> []" by simp
  moreover have "last [month_ordinal og + 1 .. grid_month_on_or_before through p] =
      grid_month_on_or_before through p" using True by (simp add: upto_rec2)
  ultimately show ?thesis using True
    by (simp add: installment_of_def installment_dates_map last_map Let_def)
next
  case False
  then show ?thesis by (simp add: installment_of_def installment_dates_map Let_def)
qed

lemma set_installment_dates:
  assumes "valid_date through"
  shows "set (installment_dates og p through) =
         {d. \<exists>k \<ge> 1. d = installment_number og p k \<and> d \<le> through}"
proof (intro set_eqI iffI)
  fix d assume "d \<in> set (installment_dates og p through)"
  then obtain k where "d = clamped_day k p" "month_ordinal og + 1 \<le> k" "d \<le> through"
    by (auto simp: installment_dates_map on_or_before_iff[OF assms])
  then show "d \<in> {d. \<exists>k \<ge> 1. d = installment_number og p k \<and> d \<le> through}"
    by (intro CollectI exI[of _ "k - month_ordinal og"]) (simp add: installment_number_def)
next
  fix d assume "d \<in> {d. \<exists>k \<ge> 1. d = installment_number og p k \<and> d \<le> through}"
  then obtain k where "1 \<le> k" "d = clamped_day (month_ordinal og + k) p" "d \<le> through"
    by (auto simp: installment_number_def)
  then show "d \<in> set (installment_dates og p through)"
    by (auto simp: installment_dates_map on_or_before_iff[OF assms])
qed

lemma installment_dates_sorted: "sorted_wrt (<) (installment_dates og p through)"
  by (simp add: installment_dates_map sorted_wrt_map grid.land_less_iff sorted_wrt_less_upto)

text \<open>
  the charge calendar and the installment lookup are readings of one rule.  The list through a
  day is every installment of the rule up to that day, ascending; the installment a day falls in is
  the last of that list (and there is none exactly before the first one); and it is the unique
  installment \<open>k\<close> with the day in its interval, from its own date up to the next one's.
\<close>

theorem installment_lookup_inverts_rule:
  assumes "valid_date day"
  shows "set (installment_dates og p day) = {d. \<exists>k \<ge> 1. d = installment_number og p k \<and> d \<le> day} \<and>
         sorted_wrt (<) (installment_dates og p day) \<and>
         installment_of og p day =
           (if installment_dates og p day = [] then None else Some (last (installment_dates og p day))) \<and>
         (installment_of og p day = None \<longleftrightarrow> day < first_installment_date og p) \<and>
         (\<forall>i. installment_of og p day = Some i \<longleftrightarrow>
            (\<exists>k \<ge> 1. i = installment_number og p k \<and> i \<le> day \<and> day < installment_number og p (k + 1)))"
proof (intro conjI allI)
  show "set (installment_dates og p day) = {d. \<exists>k \<ge> 1. d = installment_number og p k \<and> d \<le> day}"
    by (rule set_installment_dates[OF assms])
  show "installment_of og p day =
      (if installment_dates og p day = [] then None else Some (last (installment_dates og p day)))"
    by (rule installment_dates_last[OF assms])
  show "installment_of og p day = Some i \<longleftrightarrow>
      (\<exists>k \<ge> 1. i = installment_number og p k \<and> i \<le> day \<and> day < installment_number og p (k + 1))" for i
    unfolding installment_of_Some[OF assms] by metis
qed (simp_all add: installment_of_None[OF assms] installment_dates_sorted)

lemma installment_lookup_inverts_rule_witness:
  "installment_of (Date 2025 12 5) 31 (Date 2026 3 15) = Some (Date 2026 2 28) \<and>
   last (installment_dates (Date 2025 12 5) 31 (Date 2026 3 15)) = Date 2026 2 28"
proof -
  have v: "valid_date (Date 2026 3 15)" by (simp add: valid_date_def days_in_month_def)
  have e: "installment_of (Date 2025 12 5) 31 (Date 2026 3 15) = Some (Date 2026 2 28)"
    by (simp add: installment_of_def grid_month_on_or_before_def month_ordinal_def clamped_day_def
        days_in_month_def is_leap_def less_eq_date_def first_installment_date_def
        due_in_following_month_def)
  moreover have "installment_of (Date 2025 12 5) 31 (Date 2026 3 15) =
      (if installment_dates (Date 2025 12 5) 31 (Date 2026 3 15) = [] then None
       else Some (last (installment_dates (Date 2025 12 5) 31 (Date 2026 3 15))))"
    using installment_lookup_inverts_rule[OF v] by blast
  ultimately show ?thesis by (simp split: if_splits)
qed

lemma monthly_due_date_first:
  assumes "valid_date s"
  shows "s \<le> monthly_due_date s p" "s \<le> clamped_day k p \<Longrightarrow> monthly_due_date s p \<le> clamped_day k p"
  using on_or_after_iff[OF assms] by (simp_all add: monthly_due_date_def grid.land_le_iff)

text \<open>
  a payment is named by the installment it pays.  Naming is idempotent, never names a date after
  the payment's own, gives a payment due on a contractual date that date and a payment due in the
  first installment's past its own date, and never swaps the order of two payments.
\<close>

theorem installment_paid_by_names:
  assumes "valid_date due" "valid_date due'" "1 \<le> p"
  shows "installment_paid_by og p due \<le> due \<and>
         installment_paid_by og p (installment_paid_by og p due) = installment_paid_by og p due \<and>
         (due < first_installment_date og p \<longrightarrow> installment_paid_by og p due = due) \<and>
         (\<forall>k \<ge> 1. due = installment_number og p k \<longrightarrow> installment_paid_by og p due = due) \<and>
         (due \<le> due' \<longrightarrow> installment_paid_by og p due \<le> installment_paid_by og p due')"
proof -
  define g where "g = (\<lambda>d. grid_month_on_or_before d p)"
  have le: "clamped_day k p \<le> d \<longleftrightarrow> k \<le> g d" if "valid_date d" for k d
    using on_or_before_iff[OF that] by (simp add: g_def)
  have paid: "installment_paid_by og p d = (if g d < month_ordinal og + 1 then d else clamped_day (g d) p)" for d
    by (simp add: installment_paid_by_def installment_of_def g_def Let_def)
  have self: "g (clamped_day k p) = k" for k
    by (simp add: g_def grid_month_on_or_before_def)
  have first: "due < first_installment_date og p \<longleftrightarrow> g due < month_ordinal og + 1"
    using le[OF assms(1), of "month_ordinal og + 1"]
    by (auto simp: first_installment_date_def due_in_following_month_def)
  have mono: "g due \<le> g due'" if "due \<le> due'"
    using le[OF assms(1), of "g due"] le[OF assms(2), of "g due"] that order.trans by blast
  have "installment_paid_by og p due \<le> installment_paid_by og p due'" if d: "due \<le> due'"
  proof (cases "g due < month_ordinal og + 1")
    case True
    have "due \<le> clamped_day (g due') p" if "month_ordinal og + 1 \<le> g due'"
      using True that le[OF assms(1), of "g due'"] by simp
    with True d show ?thesis by (simp add: paid)
  next
    case False
    with mono[OF d] show ?thesis by (simp add: paid grid.land_le_iff)
  qed
  then show ?thesis
    using le[OF assms(1), of "g due"] first by (auto simp: paid self installment_number_def)
qed

lemma installment_paid_by_names_witness:
  "installment_paid_by (Date 2026 1 5) 22 (Date 2026 3 10) = Date 2026 2 22 \<and>
   installment_paid_by (Date 2026 1 5) 22 (Date 2026 2 22) = Date 2026 2 22"
proof -
  have v: "valid_date (Date 2026 3 10)" by (simp add: valid_date_def days_in_month_def)
  have e: "installment_paid_by (Date 2026 1 5) 22 (Date 2026 3 10) = Date 2026 2 22"
    by (simp add: installment_paid_by_def installment_of_def grid_month_on_or_before_def month_ordinal_def
        clamped_day_def days_in_month_def is_leap_def less_eq_date_def first_installment_date_def
        due_in_following_month_def)
  then show ?thesis using installment_paid_by_names[OF v v, of 22 "Date 2026 1 5"] by simp
qed

end
