(* ===== verification/Effective_Dated.thy ===== *)
theory Effective_Dated
  imports Civil_Dates
begin

text \<open>
  \<open>app/utils/effective_dated.py\<close>: a series of rows that each carry an effective date and supersede
  one another.  The locale \<open>effective_dated\<close> holds the contract every reader of such a series relies
  on (the row with the greatest effective date on or before the day), the facts that follow from it,
  and is interpreted here on \<open>in_effect_on\<close>; the loan components interpret it on their own walks.
\<close>

section \<open>Python's \<open>max\<close> with a key\<close>

text \<open>The first of the maximal elements, as \<open>max(xs, key=key)\<close> returns it.\<close>

fun max_by :: "('a \<Rightarrow> 'k::linorder) \<Rightarrow> 'a \<Rightarrow> 'a list \<Rightarrow> 'a" where
  "max_by key best [] = best"
| "max_by key best (x # xs) = max_by key (if key best < key x then x else best) xs"

text \<open>The first of the minimal elements, as \<open>min(xs, key=key)\<close> returns it.\<close>

fun min_by :: "('a \<Rightarrow> 'k::linorder) \<Rightarrow> 'a \<Rightarrow> 'a list \<Rightarrow> 'a" where
  "min_by key best [] = best"
| "min_by key best (x # xs) = min_by key (if key x < key best then x else best) xs"

lemma min_by_in: "min_by key b xs \<in> insert b (set xs)"
  by (induction key b xs rule: min_by.induct) auto

lemma max_by_in: "max_by key b xs \<in> insert b (set xs)"
  by (induction key b xs rule: max_by.induct) auto

lemma max_by_ge: "x \<in> insert b (set xs) \<Longrightarrow> key x \<le> key (max_by key b xs)"
proof (induction key b xs arbitrary: x rule: max_by.induct)
  case (2 key best y ys)
  have "key best \<le> key (max_by key best (y # ys))" "key y \<le> key (max_by key best (y # ys))"
    using 2(1)[of "if key best < key y then y else best"] by (auto split: if_splits)
  then show ?case using 2 by auto
qed simp

section \<open>The row in effect\<close>

definition in_effect_on :: "('a \<Rightarrow> date) \<Rightarrow> 'a list \<Rightarrow> date \<Rightarrow> 'a option" where
  "in_effect_on effective_date rows on_date =
     (case [row \<leftarrow> rows. effective_date row \<le> on_date] of
        [] \<Rightarrow> None
      | r # rs \<Rightarrow> Some (max_by effective_date r rs))"

subsection \<open>The contract of an effective-dated series\<close>

locale effective_dated =
  fixes key :: "'a \<Rightarrow> date"
    and select :: "'a list \<Rightarrow> date \<Rightarrow> 'a option"
  assumes select_None: "select rows d = None \<longleftrightarrow> (\<forall>r \<in> set rows. d < key r)"
    and select_in: "select rows d = Some r \<Longrightarrow> r \<in> set rows"
    and select_le: "select rows d = Some r \<Longrightarrow> key r \<le> d"
    and select_latest: "select rows d = Some r \<Longrightarrow> q \<in> set rows \<Longrightarrow> key q \<le> d \<Longrightarrow> key q \<le> key r"
begin

lemma select_SomeD:
  assumes "select rows d = Some r"
  shows "r \<in> set rows" "key r \<le> d" "\<forall>q \<in> set rows. key q \<le> d \<longrightarrow> key q \<le> key r"
  using assms select_in select_le select_latest by blast+

lemma select_defined: "q \<in> set rows \<Longrightarrow> key q \<le> d \<Longrightarrow> \<exists>r. select rows d = Some r"
  using select_None[of rows d] by (cases "select rows d") auto

text \<open>Time only moves the series forward.\<close>

lemma select_mono:
  assumes "select rows d = Some r" "d \<le> e"
  shows "\<exists>q. select rows e = Some q \<and> key r \<le> key q"
proof -
  have "key r \<le> e" using select_le[OF assms(1)] assms(2) by simp
  with select_in[OF assms(1)] obtain q where q: "select rows e = Some q"
    using select_defined by blast
  with select_latest[OF q select_in[OF assms(1)]] \<open>key r \<le> e\<close> show ?thesis by blast
qed

text \<open>Where effective dates are distinct the answer depends on the set of rows only.\<close>

lemma select_unique:
  assumes "select rows d = Some r" "select rows' d = Some r'" "set rows = set rows'"
    and "inj_on key (set rows)"
  shows "r = r'"
proof -
  have "key r = key r'"
    using assms select_in select_le select_latest by (metis antisym)
  with assms select_in show ?thesis by (metis inj_onD)
qed

lemma select_same_rows:
  assumes "set rows = set rows'" "inj_on key (set rows)"
  shows "select rows d = select rows' d"
proof (cases "select rows d")
  case None
  then show ?thesis using assms(1) select_None[of rows d] select_None[of rows' d] by simp
next
  case (Some r)
  then obtain r' where "select rows' d = Some r'"
    using assms(1) select_None[of rows d] select_None[of rows' d] by (cases "select rows' d") auto
  with Some assms select_unique show ?thesis by metis
qed

text \<open>A row governs from its own date up to the next one's, and a later row changes nothing before.\<close>

lemma select_eqI:
  assumes "r \<in> set rows" "key r \<le> d" "\<forall>q \<in> set rows. key q \<le> d \<longrightarrow> key q \<le> key r"
    and "inj_on key (set rows)"
  shows "select rows d = Some r"
proof -
  obtain q where q: "select rows d = Some q" using select_defined assms(1,2) by blast
  then have "key q = key r"
    using assms(1-3) select_in[OF q] select_le[OF q] select_latest[OF q, of r] by (metis antisym)
  then have "q = r" using assms(1,4) select_in[OF q] by (metis inj_onD)
  with q show ?thesis by simp
qed

lemma select_later_row:
  assumes "\<forall>q \<in> set rows' - set rows. d < key q" "set rows \<subseteq> set rows'" "inj_on key (set rows')"
  shows "select rows' d = select rows d"
proof (cases "select rows d")
  case None
  then have "\<forall>q \<in> set rows'. d < key q" using assms(1) select_None[of rows d] by auto
  then show ?thesis using None select_None[of rows' d] by simp
next
  case (Some r)
  have "select rows' d = Some r"
  proof (rule select_eqI)
    show "r \<in> set rows'" using assms(2) select_in[OF Some] by auto
    show "\<forall>q \<in> set rows'. key q \<le> d \<longrightarrow> key q \<le> key r"
      using assms(1) select_latest[OF Some] by (metis Diff_iff not_le)
  qed (use Some select_le assms(3) in auto)
  with Some show ?thesis by simp
qed

end

lemma in_effect_on_None: "in_effect_on key rows d = None \<longleftrightarrow> (\<forall>r \<in> set rows. d < key r)"
proof -
  have "in_effect_on key rows d = None \<longleftrightarrow> [row \<leftarrow> rows. key row \<le> d] = []"
    by (simp add: in_effect_on_def split: list.splits)
  then show ?thesis by (auto simp: filter_empty_conv not_le)
qed

lemma in_effect_on_SomeD:
  assumes "in_effect_on key rows d = Some r"
  shows "r \<in> set rows \<and> key r \<le> d \<and> (\<forall>q \<in> set rows. key q \<le> d \<longrightarrow> key q \<le> key r)"
proof -
  obtain b bs where c: "[row \<leftarrow> rows. key row \<le> d] = b # bs" and r: "r = max_by key b bs"
    using assms by (auto simp: in_effect_on_def split: list.splits)
  have s: "insert b (set bs) = {q \<in> set rows. key q \<le> d}"
    using arg_cong[OF c, of set] by (simp add: set_filter)
  have "r \<in> insert b (set bs)" unfolding r by (rule max_by_in)
  moreover have "key q \<le> key r" if "q \<in> insert b (set bs)" for q
    unfolding r using that by (rule max_by_ge)
  ultimately show ?thesis unfolding s by simp
qed

interpretation in_effect: effective_dated key "in_effect_on key" for key
  by unfold_locales (simp add: in_effect_on_None, (drule in_effect_on_SomeD, simp)+)

section \<open>The walk over a sorted series\<close>

text \<open>
  The loan components hold their series sorted by start date and walk it: keep the last entry that
  has started, stop at the first that has not.  \<open>scan_by\<close> is that loop (a \<open>for\<close> with its \<open>break\<close>), with
  the value \<open>val\<close> it keeps of an entry; what it keeps is the last started entry, so the walk over a
  sorted series is an effective-dated resolver as well.
\<close>

fun scan_by :: "('a \<Rightarrow> date) \<Rightarrow> ('a \<Rightarrow> 'b) \<Rightarrow> date \<Rightarrow> 'b \<Rightarrow> 'a list \<Rightarrow> 'b" where
  "scan_by key val d chosen [] = chosen"
| "scan_by key val d chosen (x # xs) = (if key x \<le> d then scan_by key val d (val x) xs else chosen)"

lemma scan_by_last:
  "sorted (map key xs) \<Longrightarrow>
   scan_by key val d c xs =
     (if [x \<leftarrow> xs. key x \<le> d] = [] then c else val (last [x \<leftarrow> xs. key x \<le> d]))"
proof (induction key val d c xs rule: scan_by.induct)
  case (2 key val d c x xs)
  show ?case
  proof (cases "key x \<le> d")
    case False
    then have "[y \<leftarrow> x # xs. key y \<le> d] = []" using 2(2) by (auto simp: filter_empty_conv)
    with False show ?thesis by simp
  next
    case True
    then show ?thesis using 2 by simp
  qed
qed simp

definition scan_select :: "('a \<Rightarrow> date) \<Rightarrow> 'a list \<Rightarrow> date \<Rightarrow> 'a option" where
  "scan_select key rows d = scan_by key Some d None (sort_key key rows)"

lemma scan_select_last:
  "scan_select key rows d =
     (if [r \<leftarrow> sort_key key rows. key r \<le> d] = [] then None
      else Some (last [r \<leftarrow> sort_key key rows. key r \<le> d]))"
  by (simp add: scan_select_def scan_by_last)

lemma scan_select_None: "scan_select key rows d = None \<longleftrightarrow> (\<forall>r \<in> set rows. d < key r)"
  by (auto simp: scan_select_last filter_empty_conv not_le)

lemma scan_select_SomeD:
  assumes "scan_select key rows d = Some r"
  shows "r \<in> set rows \<and> key r \<le> d \<and> (\<forall>q \<in> set rows. key q \<le> d \<longrightarrow> key q \<le> key r)"
proof -
  let ?fs = "[r \<leftarrow> sort_key key rows. key r \<le> d]"
  have fs: "?fs \<noteq> []" and r: "r = last ?fs"
    using assms by (simp_all add: scan_select_last split: if_splits)
  have "r \<in> set ?fs" unfolding r using fs by (rule last_in_set)
  moreover have "key q \<le> key r" if q: "q \<in> set ?fs" for q
  proof -
    have "sorted (map key ?fs)" by (rule sorted_filter) simp
    moreover obtain i where "i < length ?fs" "q = ?fs ! i" using q unfolding in_set_conv_nth by blast
    ultimately show ?thesis unfolding r using fs by (simp add: last_conv_nth sorted_iff_nth_mono)
  qed
  ultimately show ?thesis by simp
qed

interpretation scanned: effective_dated key "scan_select key" for key
  by unfold_locales (simp add: scan_select_None, (drule scan_select_SomeD, simp)+)

text \<open>The value the walk returns, as the resolver's answer with a default.\<close>

lemma scan_by_sort_select:
  "scan_by key val d c (sort_key key rows) = (case scan_select key rows d of None \<Rightarrow> c | Some r \<Rightarrow> val r)"
  by (simp add: scan_by_last scan_select_last)

lemma scan_by_select:
  "sorted (map key rows) \<Longrightarrow>
   scan_by key val d c rows = (case scan_select key rows d of None \<Rightarrow> c | Some r \<Rightarrow> val r)"
  using scan_by_sort_select[of key val d c rows] by (simp add: sort_key_id_if_sorted)

text \<open>For distinct dates the walk and \<open>in_effect_on\<close> are one resolver.\<close>

lemma scan_select_in_effect:
  assumes "inj_on key (set rows)"
  shows "scan_select key rows d = in_effect_on key rows d"
proof (cases "scan_select key rows d")
  case None
  then show ?thesis using scan_select_None in_effect_on_None by metis
next
  case (Some r)
  then have "in_effect_on key rows d = Some r"
    using scan_select_SomeD[OF Some] assms by (intro in_effect.select_eqI) auto
  with Some show ?thesis by simp
qed

section \<open>The contract\<close>

text \<open>
  the one resolver of effective-dated rows answers the row a reader expects: nothing exactly when
  every row starts later, otherwise a row of the series in effect on the day with no later one; a
  later day never goes back to an earlier row; and for distinct effective dates the answer does not
  depend on the order the rows are handed over in.
\<close>

theorem in_effect_on_contract:
  assumes "inj_on key (set rows)" "d \<le> e" "set rows' = set rows"
  shows "(in_effect_on key rows d = None \<longleftrightarrow> (\<forall>r \<in> set rows. d < key r)) \<and>
         (\<forall>r. in_effect_on key rows d = Some r \<longleftrightarrow>
            r \<in> set rows \<and> key r \<le> d \<and> (\<forall>q \<in> set rows. key q \<le> d \<longrightarrow> key q \<le> key r)) \<and>
         (\<forall>r. in_effect_on key rows d = Some r \<longrightarrow>
            (\<exists>q. in_effect_on key rows e = Some q \<and> key r \<le> key q)) \<and>
         in_effect_on key rows' d = in_effect_on key rows d"
proof (intro conjI allI impI)
  show "in_effect_on key rows d = None \<longleftrightarrow> (\<forall>r \<in> set rows. d < key r)"
    by (rule in_effect_on_None)
  show "in_effect_on key rows d = Some r \<longleftrightarrow>
      r \<in> set rows \<and> key r \<le> d \<and> (\<forall>q \<in> set rows. key q \<le> d \<longrightarrow> key q \<le> key r)" for r
    using in_effect_on_SomeD in_effect.select_eqI[OF _ _ _ assms(1)] by metis
  show "\<exists>q. in_effect_on key rows e = Some q \<and> key r \<le> key q"
    if "in_effect_on key rows d = Some r" for r
    using that assms(2) by (rule in_effect.select_mono)
  show "in_effect_on key rows' d = in_effect_on key rows d"
    using assms(1,3) by (intro in_effect.select_same_rows) simp_all
qed

lemma in_effect_on_contract_witness:
  "in_effect_on fst [(Date 2026 1 1, 100), (Date 2026 6 1, 200::nat)] (Date 2026 5 31) =
     Some (Date 2026 1 1, 100) \<and>
   in_effect_on fst [(Date 2026 6 1, 200::nat), (Date 2026 1 1, 100)] (Date 2026 5 31) =
     in_effect_on fst [(Date 2026 1 1, 100), (Date 2026 6 1, 200)] (Date 2026 5 31)"
proof -
  let ?rows = "[(Date 2026 1 1, 100), (Date 2026 6 1, 200::nat)]"
  have i: "inj_on fst (set ?rows)" by simp
  have le: "Date 2026 5 31 \<le> Date 2026 5 31" by simp
  have s: "set [(Date 2026 6 1, 200::nat), (Date 2026 1 1, 100)] = set ?rows" by auto
  have "in_effect_on fst ?rows (Date 2026 5 31) = Some (Date 2026 1 1, 100)"
    by (simp add: less_eq_date_def in_effect_on_def)
  then show ?thesis
    using in_effect_on_contract[OF i le s, THEN conjunct2, THEN conjunct2, THEN conjunct2]
    by (intro conjI)
qed

end
