(* ===== verification/Escrow.thy ===== *)
theory Escrow
  imports Money Effective_Dated "HOL-Library.Multiset"
begin

text \<open>
  \<open>app/services/escrow_calculator.py\<close>: escrow lines as series of effective-dated versions, the
  monthly escrow of a date, the cent allocation of the display rows, the version drawer with its
  forward-only guard, and the merge of two lines.  The figures of the versions are money-column
  Decimals, so the source's \<open>Decimal(str(x))\<close> is the identity here.
\<close>

section \<open>State\<close>

record escrow_version =
  ver_id :: int
  effective_date :: date
  annual_amount :: dec
  inflation_rate :: "dec option"
  is_removed :: bool

record escrow_line =
  line_id :: int
  line_name :: string
  versions :: "escrow_version list"

record resolved_escrow_line =
  res_id :: int
  res_name :: string
  res_annual :: dec
  res_inflation :: "dec option"

record escrow_component_display =
  disp_id :: int
  disp_name :: string
  disp_annual :: dec
  disp_monthly :: dec
  disp_inflation :: "dec option"
  disp_inflation_pct :: "dec option"

record escrow_version_display =
  vd_id :: int
  vd_effective_date :: date
  vd_annual :: dec
  vd_monthly :: dec
  vd_inflation_pct :: "dec option"
  vd_is_removed :: bool
  vd_status_key :: string
  vd_status_label :: string
  vd_is_editable :: bool
  vd_is_deletable :: bool

record escrow_line_display =
  card_summary :: escrow_component_display
  card_versions :: "escrow_version_display list"
  card_has_scheduled :: bool

record escrow_merge_plan =
  versions_to_move :: "escrow_version list"
  versions_to_drop :: "escrow_version list"
  merge_error :: "string option"

section \<open>The monthly escrow of a date\<close>

definition resolve_active_lines :: "escrow_line list \<Rightarrow> date \<Rightarrow> resolved_escrow_line list" where
  "resolve_active_lines ls on_date =
     concat (map (\<lambda>line.
       case in_effect_on effective_date (versions line) on_date of
         None \<Rightarrow> []
       | Some version \<Rightarrow>
           if is_removed version then []
           else [\<lparr>res_id = line_id line, res_name = line_name line,
                  res_annual = annual_amount version, res_inflation = inflation_rate version\<rparr>]) ls)"

definition calculate_monthly_escrow :: "dec list \<Rightarrow> dec" where
  "calculate_monthly_escrow annuals =
     round_money (foldl (\<lambda>acc annual. dadd acc (ddiv annual MONTHS_PER_YEAR)) 0 annuals)"

text \<open>Python's \<open>x ** years\<close> for any whole number of years.\<close>

definition dpow_int :: "dec \<Rightarrow> int \<Rightarrow> dec" where
  "dpow_int x years = (if 0 \<le> years then dpow x (nat years) else fix28 (1 / x ^ nat (- years)))"

definition project_monthly_escrow :: "resolved_escrow_line list \<Rightarrow> int \<Rightarrow> dec" where
  "project_monthly_escrow components years =
     round_money (foldl (\<lambda>acc comp.
       let annual = (case res_inflation comp of
                       None \<Rightarrow> res_annual comp
                     | Some rate \<Rightarrow> dmul (res_annual comp) (dpow_int (dadd 1 rate) years))
       in dadd acc (ddiv annual MONTHS_PER_YEAR)) 0 components)"

definition escrow_monthly_as_of :: "escrow_line list \<Rightarrow> date \<Rightarrow> dec" where
  "escrow_monthly_as_of ls on_date =
     calculate_monthly_escrow (map res_annual (resolve_active_lines ls on_date))"

definition calculate_total_payment :: "dec \<Rightarrow> dec list \<Rightarrow> dec" where
  "calculate_total_payment monthly_pi annuals =
     round_money (dadd monthly_pi (calculate_monthly_escrow annuals))"

lemma calculate_monthly_escrow_dsum:
  "calculate_monthly_escrow annuals = round_money (dsum (map (\<lambda>a. ddiv a MONTHS_PER_YEAR) annuals))"
  by (simp add: calculate_monthly_escrow_def dsum_def foldl_map)

lemma is_cents_escrow [simp]:
  "is_cents (calculate_monthly_escrow as)" "is_cents (escrow_monthly_as_of ls d)"
  by (simp_all add: calculate_monthly_escrow_def escrow_monthly_as_of_def)

section \<open>The cent allocation of the display rows\<close>

text \<open>Python's \<open>xs[:k]\<close>, a negative \<open>k\<close> counting from the end.\<close>

definition slice_to :: "int \<Rightarrow> 'a list \<Rightarrow> 'a list" where
  "slice_to k xs = take (nat (if k < 0 then int (length xs) + k else k)) xs"

text \<open>Python's \<open>int(x)\<close> of a Decimal: truncation toward zero.\<close>

definition py_int :: "dec \<Rightarrow> int" where
  "py_int x = (if 0 \<le> x then \<lfloor>x\<rfloor> else \<lceil>x\<rceil>)"

text \<open>\<open>sorted(xs, key=key, reverse=True)\<close> keeps the order of equal elements.\<close>

definition sorted_desc :: "('a \<Rightarrow> rat) \<Rightarrow> 'a list \<Rightarrow> 'a list" where
  "sorted_desc key xs = sort_key (\<lambda>x. - key x) xs"

definition allocate_monthly_amounts :: "dec list \<Rightarrow> dec list" where
  "allocate_monthly_amounts annuals =
     (let exacts = map (\<lambda>annual. ddiv annual MONTHS_PER_YEAR) annuals;
          total_amount = round_money (dsum exacts);
          bases = map round_money_floor exacts;
          remainder_cents = py_int (ddiv (dsub total_amount (dsum bases)) CENTS);
          by_remainder = sorted_desc (\<lambda>i. dsub (exacts ! i) (bases ! i)) [0 ..< length exacts]
      in foldl (\<lambda>ms i. ms[i := dadd (ms ! i) CENTS]) bases (slice_to remainder_cents by_remainder))"

text \<open>Annual amounts a loan's lines can hold: column amounts, not negative, fewer than 4,000 lines.\<close>

definition escrow_annuals :: "dec list \<Rightarrow> bool" where
  "escrow_annuals as = ((\<forall>a \<in> set as. in_column a \<and> 0 \<le> a) \<and> length as \<le> 4000)"

lemma round_money_above:
  assumes "is_cents c" "c - 1/200 < x"
  shows "c \<le> round_money x"
proof (rule ccontr)
  assume "\<not> c \<le> round_money x"
  then have "round_money x + 1/100 \<le> c" by (intro cents_gap) (simp_all add: assms)
  with round_money_near[of x] assms(2) show False by (simp add: abs_le_iff)
qed

lemma round_money_below:
  assumes "is_cents c" "x < c + 1/200"
  shows "round_money x \<le> c"
proof (rule ccontr)
  assume "\<not> round_money x \<le> c"
  then have "c + 1/100 \<le> round_money x" by (intro cents_gap) (simp_all add: assms)
  with round_money_near[of x] assms(2) show False by (simp add: abs_le_iff)
qed

lemma add_cents_fold:
  assumes "\<forall>i \<in> set is. i < length bs" "distinct is"
    and "\<And>b. b \<in> set bs \<Longrightarrow> dadd b CENTS = b + 1/100"
  defines "ms \<equiv> foldl (\<lambda>ms i. ms[i := dadd (ms ! i) CENTS]) bs is"
  shows "length ms = length bs \<and>
         (\<forall>j < length bs. ms ! j = (if j \<in> set is then bs ! j + 1/100 else bs ! j))"
proof -
  have "length (foldl (\<lambda>ms i. ms[i := dadd (ms ! i) CENTS]) bs is) = length bs \<and>
      (\<forall>j < length bs. foldl (\<lambda>ms i. ms[i := dadd (ms ! i) CENTS]) bs is ! j =
         (if j \<in> set is then bs ! j + 1/100 else bs ! j))"
    using assms(1,2)
  proof (induction "is" rule: rev_induct)
    case (snoc i js)
    then have IH: "length (foldl (\<lambda>ms i. ms[i := dadd (ms ! i) CENTS]) bs js) = length bs"
      "\<forall>j < length bs. foldl (\<lambda>ms i. ms[i := dadd (ms ! i) CENTS]) bs js ! j =
         (if j \<in> set js then bs ! j + 1/100 else bs ! j)" by simp_all
    have "dadd (bs ! i) CENTS = bs ! i + 1/100" using snoc assms(3) by simp
    then show ?case using IH snoc by (auto simp: nth_list_update)
  qed simp
  then show ?thesis by (simp add: ms_def)
qed

lemma sum_list_nth_rat: "sum_list (xs :: rat list) = (\<Sum>i<length xs. xs ! i)"
  by (simp add: sum_list_sum_nth atLeast0LessThan)

lemma sum_add_indices:
  fixes bs ms :: "rat list"
  assumes "length ms = length bs" "I \<subseteq> {..< length bs}"
    and "\<forall>j < length bs. ms ! j = (if j \<in> I then bs ! j + 1/100 else bs ! j)"
  shows "sum_list ms = sum_list bs + of_nat (card I) / 100"
proof -
  have "sum_list ms = (\<Sum>j<length bs. bs ! j + (if j \<in> I then 1/100 else 0))"
    using assms(1,3) by (simp add: sum_list_nth_rat) (intro sum.cong, simp_all)
  also have "\<dots> = sum_list bs + (\<Sum>j<length bs. if j \<in> I then 1/100 else 0)"
    by (simp add: sum.distrib sum_list_nth_rat)
  also have "(\<Sum>j<length bs. if j \<in> I then 1/100 else 0 :: rat) = (\<Sum>j\<in>I. 1/100)"
    using assms(2) by (simp add: sum.If_cases Int_absorb1)
  finally show ?thesis by simp
qed

subsection \<open>The remainder in cents\<close>

lemma monthly_exact_bounds:
  assumes "in_column a" "0 \<le> a"
  shows "0 \<le> ddiv a MONTHS_PER_YEAR" "ddiv a MONTHS_PER_YEAR \<le> 10 ^ 10"
proof -
  show "0 \<le> ddiv a MONTHS_PER_YEAR"
    using assms by (simp add: ddiv_def MONTHS_PER_YEAR_def fix28_nonneg)
  have a: "\<bar>a / 12\<bar> \<le> 10 ^ 9" using assms by (simp add: in_column_def MONEY_COLUMN_MAX_def)
  have "\<bar>a / 12\<bar> / (2 * 10 ^ 27) \<le> 10 ^ 9 / (2 * 10 ^ 27)" using a by (rule divide_right_mono) simp
  also have "\<dots> \<le> 1" by simp
  finally have "\<bar>fix28 (a / 12) - a / 12\<bar> \<le> 1" using fix28_error[of "a / 12"] by linarith
  then have "fix28 (a / 12) \<le> 10 ^ 9 + 1" using a by linarith
  then show "ddiv a MONTHS_PER_YEAR \<le> 10 ^ 10" by (simp add: ddiv_def MONTHS_PER_YEAR_def)
qed

lemma allocation_remainder:
  assumes "escrow_annuals annuals"
  defines "exacts \<equiv> map (\<lambda>a. ddiv a MONTHS_PER_YEAR) annuals"
  defines "bases \<equiv> map round_money_floor exacts"
  shows "\<exists>k. k \<le> length annuals \<and> round_money (dsum exacts) = sum_list bases + of_nat k / 100 \<and>
             py_int (ddiv (dsub (round_money (dsum exacts)) (dsum bases)) CENTS) = int k"
proof -
  define n where "n = length annuals"
  have n: "n \<le> 4000" using assms(1) by (simp add: escrow_annuals_def n_def)
  have e: "0 \<le> x \<and> x \<le> 10 ^ 10" if "x \<in> set exacts" for x
    using that assms(1) monthly_exact_bounds by (auto simp: exacts_def escrow_annuals_def)
  have b: "is_cents x \<and> 0 \<le> x \<and> x \<le> 10 ^ 10" if x: "x \<in> set bases" for x
  proof -
    obtain y where y: "x = round_money_floor y" "y \<in> set exacts" using x by (auto simp: bases_def)
    then show ?thesis using e[of y] round_money_floor_le[of y]
      by (simp add: round_money_floor_def floor_mode.quantize_nonneg)
  qed
  define S where "S = sum_list exacts"
  define B where "B = sum_list bases"
  define T where "T = round_money (dsum exacts)"
  have len: "length exacts = n" "length bases = n" by (simp_all add: exacts_def bases_def n_def)
  have "\<bar>dsum exacts - S\<bar> \<le> of_nat n / 10 ^ 6"
    unfolding S_def len(1)[symmetric]
  proof (rule dsum_error)
    show "\<bar>x\<bar> \<le> 10 ^ 11" if "x \<in> set exacts" for x using e[OF that] by simp
  qed (use n len in simp)
  moreover have "(of_nat n :: rat) \<le> 4000" using n by (metis of_nat_le_iff of_nat_numeral)
  ultimately have dS: "\<bar>dsum exacts - S\<bar> \<le> 4/1000" by simp
  have diff: "0 \<le> y - round_money_floor y \<and> y - round_money_floor y \<le> 1/100" for y
    using round_money_floor_le[of y] round_money_floor_gt[of y] by simp
  have "S - B = sum_list (map (\<lambda>y. y - round_money_floor y) exacts)"
    using sum_list_map_diff[of "\<lambda>y. y" exacts round_money_floor] by (simp add: S_def B_def bases_def)
  moreover have "0 \<le> sum_list (map (\<lambda>y. y - round_money_floor y) exacts) \<and>
      sum_list (map (\<lambda>y. y - round_money_floor y) exacts) \<le> of_nat n * (1/100)"
    using sum_list_bounds[of exacts 0 "\<lambda>y. y - round_money_floor y" "1/100"] diff len by simp
  ultimately have SB: "B \<le> S" "S \<le> B + of_nat n / 100" by simp_all
  have cB: "is_cents B" unfolding B_def by (rule is_cents_sum_list) (use b in blast)
  have "(of_nat n :: rat) / 100 = of_int (int n) / 100" by simp
  then have cn: "is_cents ((of_nat n :: rat) / 100)" by (rule is_centsI)
  have dS': "- (4/1000) \<le> dsum exacts - S" "dsum exacts - S \<le> 4/1000" using dS by linarith+
  have "B - 1/200 < dsum exacts" "dsum exacts < (B + of_nat n / 100) + 1/200"
    using dS' SB by linarith+
  note close = this
  have BT: "B \<le> T" unfolding T_def by (rule round_money_above[OF cB close(1)])
  have TB: "T \<le> B + of_nat n / 100" unfolding T_def
    by (rule round_money_below[OF is_cents_add[OF cB cn] close(2)])
  have cT: "is_cents T" by (simp add: T_def)
  then obtain k where k: "T - B = of_int k / 100" using is_cents_diff[OF cT cB] by (auto elim: is_centsE)
  have "0 \<le> (of_int k :: rat)" "(of_int k :: rat) \<le> of_int (int n)" using k BT TB by simp_all
  then have k0: "0 \<le> k" "k \<le> int n" by (simp_all only: of_int_0_le_iff of_int_le_iff)
  have "sum_list (map abs bases) \<le> of_nat n * 10 ^ 10"
    using sum_list_bounds[of bases 0 abs "10 ^ 10"] b len by auto
  also have "\<dots> \<le> 4000 * 10 ^ 10" using \<open>(of_nat n :: rat) \<le> 4000\<close> by (intro mult_right_mono) simp_all
  finally have "dsum bases = B" unfolding B_def using b by (intro dsum_exact) auto
  moreover have "\<bar>T - B\<bar> < 10 ^ 26" using BT TB \<open>(of_nat n :: rat) \<le> 4000\<close> by simp
  then have "dsub T B = of_int k / 100" using cT cB k by (simp add: dsub_exact)
  moreover have "fix28 (of_int k) = of_int k"
    by (rule fix28_exact[of _ k 0]) (use k0 n in simp_all)
  ultimately have "py_int (ddiv (dsub T (dsum bases)) CENTS) = k"
    using k0 by (simp add: ddiv_def CENTS_def py_int_def)
  moreover have "T = sum_list bases + of_nat (nat k) / 100" using k k0 by (simp add: B_def)
  ultimately show ?thesis using k0
    by (intro exI[of _ "nat k"]) (simp add: T_def[symmetric] n_def)
qed

lemma column_base_plus_cent:
  assumes "in_column a" "0 \<le> a"
  defines "b \<equiv> round_money_floor (ddiv a MONTHS_PER_YEAR)"
  shows "dadd b CENTS = b + 1/100"
proof -
  have "0 \<le> b" "b \<le> 10 ^ 10" "is_cents b"
    using monthly_exact_bounds[OF assms(1,2)] round_money_floor_le[of "ddiv a MONTHS_PER_YEAR"]
    by (simp_all add: b_def) (simp add: round_money_floor_def floor_mode.quantize_nonneg)
  moreover have "is_cents CENTS" by (rule is_centsI[of _ 1]) (simp add: CENTS_def)
  ultimately show ?thesis by (simp add: dadd_exact CENTS_def)
qed

lemma sorted_take_drop_le:
  assumes "sorted (map f xs)" "i \<in> set (take k xs)" "j \<in> set (drop k xs)"
  shows "f i \<le> f j"
proof -
  have "sorted (map f (take k xs) @ map f (drop k xs))"
    using assms(1) by (metis append_take_drop_id map_append)
  with assms(2,3) show ?thesis by (auto simp: sorted_append)
qed

text \<open>The allocation is the floors plus one cent on a set of rows with the largest remainders.\<close>

lemma allocation_split:
  assumes "escrow_annuals annuals"
  defines "e \<equiv> \<lambda>i. ddiv (annuals ! i) MONTHS_PER_YEAR"
  defines "ms \<equiv> allocate_monthly_amounts annuals"
  obtains I where "I \<subseteq> {..< length annuals}" "length ms = length annuals"
    "sum_list ms = calculate_monthly_escrow annuals"
    "\<And>i. i < length annuals \<Longrightarrow> ms ! i = round_money_floor (e i) + (if i \<in> I then 1/100 else 0)"
    "\<And>i j. i \<in> I \<Longrightarrow> j < length annuals \<Longrightarrow> j \<notin> I \<Longrightarrow>
       dsub (e j) (round_money_floor (e j)) \<le> dsub (e i) (round_money_floor (e i))"
proof -
  define exacts where "exacts = map (\<lambda>a. ddiv a MONTHS_PER_YEAR) annuals"
  define bases where "bases = map round_money_floor exacts"
  define rem where "rem = (\<lambda>i. dsub (exacts ! i) (bases ! i))"
  define order where "order = sorted_desc rem [0 ..< length exacts]"
  obtain k where k: "k \<le> length annuals" "round_money (dsum exacts) = sum_list bases + of_nat k / 100"
    "py_int (ddiv (dsub (round_money (dsum exacts)) (dsum bases)) CENTS) = int k"
    using allocation_remainder[OF assms(1)] by (auto simp: exacts_def bases_def)
  have ms: "ms = foldl (\<lambda>ms i. ms[i := dadd (ms ! i) CENTS]) bases (take k order)"
    using k(3) by (simp add: ms_def allocate_monthly_amounts_def exacts_def[symmetric] bases_def[symmetric]
        rem_def order_def slice_to_def Let_def)
  have len: "length bases = length annuals" "length exacts = length annuals" "length order = length annuals"
    by (simp_all add: bases_def exacts_def order_def sorted_desc_def)
  have order: "set order = {..< length annuals}" "distinct order"
    by (auto simp: order_def sorted_desc_def len)
  have base: "bases ! i = round_money_floor (e i)" "exacts ! i = e i" if "i < length annuals" for i
    using that by (simp_all add: bases_def exacts_def e_def)
  define I where "I = set (take k order)"
  have sub: "I \<subseteq> {..< length annuals}" using order by (auto simp: I_def dest: in_set_takeD)
  have small: "dadd b CENTS = b + 1/100" if "b \<in> set bases" for b
    using that assms(1) column_base_plus_cent by (auto simp: bases_def exacts_def escrow_annuals_def)
  have fold: "length ms = length bases \<and>
      (\<forall>j < length bases. ms ! j = (if j \<in> I then bases ! j + 1/100 else bases ! j))"
    unfolding ms I_def
    by (rule add_cents_fold[OF _ _ small]) (use order sub len in \<open>auto simp: I_def distinct_take\<close>)
  have "card I = k" using order k len by (simp add: I_def distinct_card distinct_take)
  then have "sum_list ms = sum_list bases + of_nat k / 100"
    using sum_add_indices[of ms bases I] fold sub len by simp
  then have total: "sum_list ms = calculate_monthly_escrow annuals"
    using k(2) by (simp add: calculate_monthly_escrow_dsum exacts_def)
  have sorted: "sorted (map (\<lambda>i. - rem i) order)" by (simp add: order_def sorted_desc_def)
  have best: "rem j \<le> rem i" if ij: "i \<in> I" "j < length annuals" "j \<notin> I" for i j
  proof -
    have "j \<in> set order" using ij(2) order by simp
    then have "j \<in> set (drop k order)"
      using ij(3) by (metis I_def Un_iff append_take_drop_id set_append)
    then show ?thesis using sorted_take_drop_le[OF sorted, of i k j] ij(1) by (simp add: I_def)
  qed
  show ?thesis
  proof (rule that[OF sub _ total])
    show "length ms = length annuals" using fold len by simp
    show "ms ! i = round_money_floor (e i) + (if i \<in> I then 1/100 else 0)" if "i < length annuals" for i
      using fold that len base(1)[OF that] by simp
    show "dsub (e j) (round_money_floor (e j)) \<le> dsub (e i) (round_money_floor (e i))"
      if ij: "i \<in> I" "j < length annuals" "j \<notin> I" for i j
    proof -
      have "i < length annuals" using ij(1) sub by auto
      then show ?thesis using best[OF ij] base ij(2) by (simp only: rem_def)
    qed
  qed
qed

lemma allocate_monthly_amounts_sum:
  "escrow_annuals annuals \<Longrightarrow>
   sum_list (allocate_monthly_amounts annuals) = calculate_monthly_escrow annuals"
  by (rule allocation_split)

text \<open>
  C30: the escrow rows add up to the escrow badge.  For the annual amounts a loan can hold, the
  allocated monthly amounts sum exactly to the sum-then-round total, one row per component, each
  within a cent of its own twelfth, and the extra cents go to the largest remainders.
\<close>

theorem allocate_monthly_sums_to_badge:
  assumes "escrow_annuals annuals"
  defines "ms \<equiv> allocate_monthly_amounts annuals"
    and "e \<equiv> \<lambda>i. ddiv (annuals ! i) MONTHS_PER_YEAR"
  shows "sum_list ms = calculate_monthly_escrow annuals \<and> length ms = length annuals \<and>
         (\<forall>i < length annuals. is_cents (ms ! i) \<and> \<bar>ms ! i - e i\<bar> \<le> 1/100) \<and>
         (\<forall>i < length annuals. \<forall>j < length annuals.
            ms ! j = round_money_floor (e j) \<and> ms ! i \<noteq> round_money_floor (e i) \<longrightarrow>
            dsub (e j) (round_money_floor (e j)) \<le> dsub (e i) (round_money_floor (e i)))"
proof -
  obtain I where I: "I \<subseteq> {..< length annuals}" "length ms = length annuals"
    "sum_list ms = calculate_monthly_escrow annuals"
    "\<And>i. i < length annuals \<Longrightarrow> ms ! i = round_money_floor (e i) + (if i \<in> I then 1/100 else 0)"
    "\<And>i j. i \<in> I \<Longrightarrow> j < length annuals \<Longrightarrow> j \<notin> I \<Longrightarrow>
       dsub (e j) (round_money_floor (e j)) \<le> dsub (e i) (round_money_floor (e i))"
    unfolding ms_def e_def using allocation_split[OF assms(1)] by metis
  have cent: "is_cents (1/100 :: dec)" by (rule is_centsI[of _ 1]) simp
  have near: "is_cents (ms ! i) \<and> \<bar>ms ! i - e i\<bar> \<le> 1/100" if i: "i < length annuals" for i
    using I(4)[OF i] round_money_floor_le[of "e i"] round_money_floor_gt[of "e i"] cent
    by (auto simp: is_cents_add abs_le_iff)
  show ?thesis
  proof (intro conjI allI impI)
    fix i j assume ij: "i < length annuals" "j < length annuals"
      "ms ! j = round_money_floor (e j) \<and> ms ! i \<noteq> round_money_floor (e i)"
    then have "i \<in> I" "j \<notin> I" using I(4)[OF ij(1)] I(4)[OF ij(2)] by (auto split: if_splits)
    then show "dsub (e j) (round_money_floor (e j)) \<le> dsub (e i) (round_money_floor (e i))"
      using I(5) ij(2) by blast
  qed (use I(2,3) near in simp_all)
qed

lemma allocate_monthly_sums_to_badge_witness:
  "sum_list (allocate_monthly_amounts [100, 100]) = calculate_monthly_escrow [100, 100] \<and>
   length (allocate_monthly_amounts [100, 100]) = 2"
proof -
  have "escrow_annuals [100, 100]"
    by (simp add: escrow_annuals_def in_column_def is_cents_def MONEY_COLUMN_MAX_def)
  note sums = allocate_monthly_sums_to_badge[OF this]
  have "length [100, 100 :: dec] = 2" by simp
  with sums show ?thesis by metis
qed

section \<open>The forward-only guard\<close>

definition after_forward_boundary :: "date \<Rightarrow> date option \<Rightarrow> bool" where
  "after_forward_boundary effective boundary =
     (case boundary of None \<Rightarrow> True | Some b \<Rightarrow> b < effective)"

text \<open>
  The versions of a line the guard freezes.  A change the guard allows leaves them as they are: it
  edits, deletes or adds only versions that clear the boundary.
\<close>

definition frozen_versions :: "date option \<Rightarrow> escrow_line \<Rightarrow> escrow_version list" where
  "frozen_versions boundary line =
     [v \<leftarrow> versions line. \<not> after_forward_boundary (effective_date v) boundary]"

lemma in_effect_on_cong:
  "[v \<leftarrow> vs. key v \<le> d] = [v \<leftarrow> ws. key v \<le> d'] \<Longrightarrow> in_effect_on key vs d = in_effect_on key ws d'"
  by (simp add: in_effect_on_def)

lemma resolve_active_lines_Nil [simp]: "resolve_active_lines [] d = []"
  by (simp add: resolve_active_lines_def)

lemma resolve_active_lines_Cons:
  "resolve_active_lines (l # ls) d = resolve_active_lines [l] d @ resolve_active_lines ls d"
  by (simp add: resolve_active_lines_def)

lemma resolve_active_lines_cong1:
  assumes "in_effect_on effective_date (versions l) d = in_effect_on effective_date (versions l') d'"
    and "line_id l = line_id l'" "line_name l = line_name l'"
  shows "resolve_active_lines [l] d = resolve_active_lines [l'] d'"
  using assms by (simp add: resolve_active_lines_def split: option.split)

lemma resolve_active_lines_cong:
  "list_all2 (\<lambda>l l'. in_effect_on effective_date (versions l) d = in_effect_on effective_date (versions l') d' \<and>
      line_id l = line_id l' \<and> line_name l = line_name l') ls ls' \<Longrightarrow>
   resolve_active_lines ls d = resolve_active_lines ls' d'"
proof (induction rule: list_all2_induct)
  case (Cons x xs y ys)
  then have "resolve_active_lines [x] d = resolve_active_lines [y] d'"
    by (intro resolve_active_lines_cong1) simp_all
  then show ?case
    using Cons.IH by (simp add: resolve_active_lines_Cons[of x xs] resolve_active_lines_Cons[of y ys])
qed simp

lemma frozen_in_effect:
  assumes "frozen_versions (Some b) l = frozen_versions (Some b) l'" "d \<le> b"
  shows "in_effect_on effective_date (versions l) d = in_effect_on effective_date (versions l') d"
proof (rule in_effect_on_cong)
  have "[v \<leftarrow> versions m. effective_date v \<le> d] =
      [v \<leftarrow> frozen_versions (Some b) m. effective_date v \<le> d]" for m
    unfolding frozen_versions_def filter_filter
    by (rule filter_cong) (use assms(2) in \<open>auto simp: after_forward_boundary_def\<close>)
  then show "[v \<leftarrow> versions l. effective_date v \<le> d] = [v \<leftarrow> versions l'. effective_date v \<le> d]"
    using assms(1) by simp
qed

text \<open>
  the forward-only guard protects settled payments.  Whatever edits, deletions and additions are
  made to versions that clear the boundary, line by line, the escrow of every day up to the boundary
  (and with it the escrow split of every payment settled so far) is what it was.
\<close>

theorem forward_only_guard_protects:
  assumes "list_all2 (\<lambda>l l'. line_id l' = line_id l \<and> line_name l' = line_name l \<and>
             frozen_versions (Some boundary) l' = frozen_versions (Some boundary) l) before after"
    and "day \<le> boundary"
  shows "escrow_monthly_as_of after day = escrow_monthly_as_of before day \<and>
         resolve_active_lines after day = resolve_active_lines before day"
proof -
  have "resolve_active_lines before day = resolve_active_lines after day"
    using assms(1)
    by (intro resolve_active_lines_cong, elim list_all2_mono) (auto intro: frozen_in_effect[OF _ assms(2)])
  then show ?thesis by (simp add: escrow_monthly_as_of_def)
qed

definition example_version :: "int \<Rightarrow> date \<Rightarrow> dec \<Rightarrow> escrow_version" where
  "example_version i d a =
     \<lparr>ver_id = i, effective_date = d, annual_amount = a, inflation_rate = None, is_removed = False\<rparr>"

lemma forward_only_guard_protects_witness:
  "escrow_monthly_as_of
     [\<lparr>line_id = 1, line_name = ''tax'', versions = [example_version 1 (Date 2025 1 1) 1200]\<rparr>]
     (Date 2026 3 1) =
   escrow_monthly_as_of
     [\<lparr>line_id = 1, line_name = ''tax'',
       versions = [example_version 1 (Date 2025 1 1) 1200, example_version 2 (Date 2026 3 2) 2400]\<rparr>]
     (Date 2026 3 1)"
  by (rule forward_only_guard_protects[of "Date 2026 3 1", THEN conjunct1])
     (simp_all add: frozen_versions_def after_forward_boundary_def example_version_def less_date_def)

section \<open>Merging two lines\<close>

definition escrow_unchanged_by_merge :: "escrow_line \<Rightarrow> escrow_line \<Rightarrow> escrow_version list \<Rightarrow> bool" where
  "escrow_unchanged_by_merge source target merged_versions =
     (let merged_line = \<lparr>line_id = line_id target, line_name = line_name target,
                         versions = merged_versions\<rparr>;
          dates = remdups (map effective_date (versions source) @ map effective_date (versions target))
      in list_all (\<lambda>on_date. escrow_monthly_as_of [source, target] on_date =
                            escrow_monthly_as_of [merged_line] on_date) dates)"

definition merge_overlap_error :: string where
  "merge_overlap_error =
     ''These lines are active at the same time, so merging them would change the escrow on some dates. Overlapping escrow lines can't be merged (if one is a duplicate, remove it instead).''"

definition plan_escrow_line_merge :: "escrow_line \<Rightarrow> escrow_line \<Rightarrow> escrow_merge_plan" where
  "plan_escrow_line_merge source target =
     (let target_dates = map effective_date (versions target);
          to_move = [v \<leftarrow> versions source. effective_date v \<notin> set target_dates];
          to_drop = [v \<leftarrow> versions source. effective_date v \<in> set target_dates];
          merged_versions = versions target @ to_move
      in if \<not> escrow_unchanged_by_merge source target merged_versions
         then \<lparr>versions_to_move = [], versions_to_drop = [], merge_error = Some merge_overlap_error\<rparr>
         else \<lparr>versions_to_move = to_move, versions_to_drop = to_drop, merge_error = None\<rparr>)"

text \<open>The line a merge leaves behind.\<close>

definition merged_line :: "escrow_line \<Rightarrow> escrow_line \<Rightarrow> escrow_line" where
  "merged_line source target =
     target\<lparr>versions := versions target @ versions_to_move (plan_escrow_line_merge source target)\<rparr>"

text \<open>The escrow is a step function: between two version dates nothing changes.\<close>

lemma in_effect_on_step:
  assumes "\<forall>v \<in> set vs. key v \<le> d \<longrightarrow> key v \<le> b" "b \<le> d"
  shows "in_effect_on key vs d = in_effect_on key vs b"
  by (intro in_effect_on_cong filter_cong) (use assms order.trans in blast)+

lemma escrow_step:
  assumes "\<forall>l \<in> set ls. \<forall>v \<in> set (versions l). effective_date v \<le> d \<longrightarrow> effective_date v \<le> b" "b \<le> d"
  shows "escrow_monthly_as_of ls d = escrow_monthly_as_of ls b"
proof -
  have "resolve_active_lines ls d = resolve_active_lines ls b"
    by (rule resolve_active_lines_cong)
       (use assms in \<open>auto simp: list_all2_same intro!: in_effect_on_step\<close>)
  then show ?thesis by (simp add: escrow_monthly_as_of_def)
qed

lemma escrow_before_all:
  assumes "\<forall>l \<in> set ls. \<forall>v \<in> set (versions l). d < effective_date v"
  shows "escrow_monthly_as_of ls d = 0"
proof -
  have "in_effect_on effective_date (versions l) d = None" if "l \<in> set ls" for l
    using assms that by (simp add: in_effect_on_None)
  then have "resolve_active_lines ls d = []" by (simp add: resolve_active_lines_def)
  then show ?thesis by (simp add: escrow_monthly_as_of_def calculate_monthly_escrow_def)
qed

lemma merge_checked_everywhere:
  assumes "escrow_unchanged_by_merge source target ms"
    and sub: "effective_date ` set ms \<subseteq>
                effective_date ` set (versions source) \<union> effective_date ` set (versions target)"
  shows "escrow_monthly_as_of [source, target] d =
         escrow_monthly_as_of [\<lparr>line_id = line_id target, line_name = line_name target, versions = ms\<rparr>] d"
    (is "_ = escrow_monthly_as_of [?m] d")
proof -
  define E where "E = effective_date ` set (versions source) \<union> effective_date ` set (versions target)"
  have check: "escrow_monthly_as_of [source, target] e = escrow_monthly_as_of [?m] e" if "e \<in> E" for e
    using assms(1) that by (auto simp: escrow_unchanged_by_merge_def list_all_iff Let_def E_def)
  show ?thesis
  proof (cases "{e \<in> E. e \<le> d} = {}")
    case True
    then have none: "\<forall>e \<in> E. d < e" by (auto simp: not_le)
    have "escrow_monthly_as_of [source, target] d = 0"
      by (rule escrow_before_all) (use none in \<open>auto simp: E_def\<close>)
    moreover have "escrow_monthly_as_of [?m] d = 0"
      by (rule escrow_before_all) (use none sub in \<open>auto simp: E_def\<close>)
    ultimately show ?thesis by simp
  next
    case False
    define b where "b = Max {e \<in> E. e \<le> d}"
    have fin: "finite {e \<in> E. e \<le> d}" by (simp add: E_def)
    have b: "b \<in> E" "b \<le> d" using Max_in[OF fin False] by (auto simp: b_def)
    have latest: "e \<le> b" if "e \<in> E" "e \<le> d" for e using Max_ge[OF fin, of e] that by (simp add: b_def)
    have "escrow_monthly_as_of [source, target] d = escrow_monthly_as_of [source, target] b"
      by (rule escrow_step) (use latest b in \<open>auto simp: E_def\<close>)
    moreover have "escrow_monthly_as_of [?m] d = escrow_monthly_as_of [?m] b"
      by (rule escrow_step) (use latest b sub in \<open>auto simp: E_def\<close>)
    ultimately show ?thesis using check[OF b(1)] by simp
  qed
qed

text \<open>
  A loan's escrow is rounded once, over the sum of all its lines; the two lines of a merge are judged on
  a sum of their own.  What the sums of the lines are, up to the rounding of a Decimal:\<close>

definition line_monthly :: "date \<Rightarrow> escrow_line \<Rightarrow> rat" where
  "line_monthly d l = sum_list (map (\<lambda>a. ddiv a MONTHS_PER_YEAR) (map res_annual (resolve_active_lines [l] d)))"

definition column_lines :: "escrow_line list \<Rightarrow> bool" where
  "column_lines ls = ((\<forall>l \<in> set ls. \<forall>v \<in> set (versions l). in_column (annual_amount v) \<and> 0 \<le> annual_amount v) \<and> length ls \<le> 1000)"

lemma resolved_annuals:
  assumes "column_lines ls"
  shows "length (resolve_active_lines ls d) \<le> length ls"
    "a \<in> res_annual ` set (resolve_active_lines ls d) \<Longrightarrow> in_column a \<and> 0 \<le> a"
proof -
  show "length (resolve_active_lines ls d) \<le> length ls"
    by (induction ls) (auto simp: resolve_active_lines_def split: option.split)
  assume "a \<in> res_annual ` set (resolve_active_lines ls d)"
  then obtain l v where "l \<in> set ls" "in_effect_on effective_date (versions l) d = Some v" "a = annual_amount v"
    by (auto simp: resolve_active_lines_def dest: sym split: option.splits if_splits)
  then show "in_column a \<and> 0 \<le> a"
    using assms in_effect_on_SomeD[of effective_date "versions l" d v] by (auto simp: column_lines_def)
qed

lemma escrow_near_its_lines:
  assumes "column_lines ls"
  obtains x where "escrow_monthly_as_of ls d = round_money x" "\<bar>x - sum_list (map (line_monthly d) ls)\<bar> \<le> 1/1000"
proof -
  let ?m = "map (\<lambda>a. ddiv a MONTHS_PER_YEAR) (map res_annual (resolve_active_lines ls d))"
  have "\<bar>y\<bar> \<le> 10 ^ 11" if "y \<in> set ?m" for y
    using that resolved_annuals(2)[OF assms] monthly_exact_bounds by fastforce
  moreover have len: "length ?m \<le> 1000" using resolved_annuals(1)[OF assms, of d] assms by (simp add: column_lines_def)
  ultimately have "\<bar>dsum ?m - sum_list ?m\<bar> \<le> of_nat (length ?m) / 10 ^ 6" by (intro dsum_error) simp_all
  moreover have "(of_nat (length ?m) :: rat) \<le> 1000" using len by (metis of_nat_le_iff of_nat_numeral)
  moreover have "sum_list ?m = sum_list (map (line_monthly d) ls)"
    by (induction ls) (simp_all add: resolve_active_lines_def line_monthly_def)
  ultimately show thesis
    by (intro that[of "dsum ?m"]) (simp_all add: escrow_monthly_as_of_def calculate_monthly_escrow_dsum)
qed

text \<open>
  C28: what the merge of two escrow lines is accepted on, and what it does to the loan.  A plan is
  accepted exactly when the merged line would charge what the two lines charge together, each pair of
  sums rounded, on every day; the check looks at the version dates only, and that is enough.  An accepted
  plan partitions the source's versions, keeps the one-version-per-date rule, and leaves the target's
  versions in place.  The escrow of the loan is rounded over all its lines: beside others, an accepted
  merge may move it, and on no day by more than two cents.
\<close>

theorem merge_preserves_escrow:
  fixes source target :: escrow_line
  assumes "column_lines ls" "column_lines ls'"
  defines "plan \<equiv> plan_escrow_line_merge source target"
  defines "candidate \<equiv> target\<lparr>versions := versions target @
      [v \<leftarrow> versions source. effective_date v \<notin> set (map effective_date (versions target))]\<rparr>"
  shows "(merge_error plan = None \<longleftrightarrow>
            (\<forall>d. escrow_monthly_as_of [candidate] d = escrow_monthly_as_of [source, target] d)) \<and>
         (merge_error plan = None \<longrightarrow> merged_line source target = candidate \<and>
            set (versions_to_move plan) \<union> set (versions_to_drop plan) = set (versions source) \<and>
            length (versions_to_move plan) + length (versions_to_drop plan) = length (versions source) \<and>
            (distinct (map effective_date (versions source)) \<and> distinct (map effective_date (versions target)) \<longrightarrow>
               distinct (map effective_date (versions (merged_line source target)))) \<and>
            (mset ls = mset (others @ [source, target]) \<and> mset ls' = mset (others @ [merged_line source target]) \<longrightarrow>
               \<bar>escrow_monthly_as_of ls' d - escrow_monthly_as_of ls d\<bar> \<le> 1/50))"
proof -
  define moved where "moved = [v \<leftarrow> versions source. effective_date v \<notin> set (map effective_date (versions target))]"
  have cand: "line_id candidate = line_id target" "line_name candidate = line_name target"
    "versions candidate = versions target @ moved"
    by (simp_all add: candidate_def moved_def)
  define ms where "ms = versions target @ moved"
  let ?m = "\<lparr>line_id = line_id target, line_name = line_name target, versions = ms\<rparr>"
  have "resolve_active_lines [candidate] d = resolve_active_lines [?m] d" for d
    by (rule resolve_active_lines_cong1) (simp_all add: cand ms_def)
  then have same: "escrow_monthly_as_of [candidate] d = escrow_monthly_as_of [?m] d" for d
    by (simp add: escrow_monthly_as_of_def)
  have err: "merge_error plan = None \<longleftrightarrow> escrow_unchanged_by_merge source target ms"
    by (simp add: plan_def plan_escrow_line_merge_def Let_def ms_def moved_def)
  have "escrow_unchanged_by_merge source target ms \<longleftrightarrow>
      (\<forall>d. escrow_monthly_as_of [candidate] d = escrow_monthly_as_of [source, target] d)"
  proof
    assume "escrow_unchanged_by_merge source target ms"
    then have "escrow_monthly_as_of [source, target] d = escrow_monthly_as_of [?m] d" for d
      by (rule merge_checked_everywhere) (auto simp: ms_def moved_def)
    then show "\<forall>d. escrow_monthly_as_of [candidate] d = escrow_monthly_as_of [source, target] d"
      by (simp add: same)
  next
    assume "\<forall>d. escrow_monthly_as_of [candidate] d = escrow_monthly_as_of [source, target] d"
    then show "escrow_unchanged_by_merge source target ms"
      by (simp add: escrow_unchanged_by_merge_def Let_def list_all_iff same)
  qed
  moreover have "merged_line source target = candidate \<and>
      set (versions_to_move plan) \<union> set (versions_to_drop plan) = set (versions source) \<and>
      length (versions_to_move plan) + length (versions_to_drop plan) = length (versions source) \<and>
      (distinct (map effective_date (versions source)) \<and> distinct (map effective_date (versions target)) \<longrightarrow>
         distinct (map effective_date (versions (merged_line source target))))"
    if "merge_error plan = None"
  proof -
    have plan: "versions_to_move plan = moved"
      "versions_to_drop plan = [v \<leftarrow> versions source. effective_date v \<in> set (map effective_date (versions target))]"
      using that err by (simp_all add: plan_def plan_escrow_line_merge_def Let_def ms_def moved_def)
    have ml: "merged_line source target = candidate"
      using plan(1) by (simp add: merged_line_def candidate_def plan_def[symmetric] moved_def)
    have "distinct (map effective_date (versions target @ moved))"
      if "distinct (map effective_date (versions source))" "distinct (map effective_date (versions target))"
      using that by (auto simp: moved_def distinct_map_filter) (metis image_eqI)
    then show ?thesis
      using ml plan sum_length_filter_compl[of "\<lambda>v. effective_date v \<in> set (map effective_date (versions target))" "versions source"]
      by (auto simp: cand moved_def)
  qed
  moreover have "\<bar>escrow_monthly_as_of ls' d - escrow_monthly_as_of ls d\<bar> \<le> 1/50"
    if accepted: "\<forall>d. escrow_monthly_as_of [candidate] d = escrow_monthly_as_of [source, target] d"
      and lines: "mset ls = mset (others @ [source, target])" "mset ls' = mset (others @ [candidate])"
  proof -
    have sub: "set ls = set others \<union> {source, target}" "set ls' = insert candidate (set others)" "length ls = length others + 2"
      using arg_cong[OF lines(1), of set_mset] arg_cong[OF lines(2), of set_mset] arg_cong[OF lines(1), of size] by auto
    have pair: "column_lines [source, target]" "column_lines [candidate]"
      using assms(1,2) sub by (auto simp: column_lines_def)
    obtain p where p: "escrow_monthly_as_of [source, target] d = round_money p" "\<bar>p - (line_monthly d source + line_monthly d target)\<bar> \<le> 1/1000"
      by (rule escrow_near_its_lines[OF pair(1), of d]) simp
    obtain q where q: "escrow_monthly_as_of [candidate] d = round_money q" "\<bar>q - line_monthly d candidate\<bar> \<le> 1/1000"
      by (rule escrow_near_its_lines[OF pair(2), of d]) simp
    obtain x where x: "escrow_monthly_as_of ls d = round_money x" "\<bar>x - sum_list (map (line_monthly d) ls)\<bar> \<le> 1/1000"
      by (rule escrow_near_its_lines[OF assms(1), of d])
    obtain y where y: "escrow_monthly_as_of ls' d = round_money y" "\<bar>y - sum_list (map (line_monthly d) ls')\<bar> \<le> 1/1000"
      by (rule escrow_near_its_lines[OF assms(2), of d])
    have sums: "sum_list (map (line_monthly d) ls) = sum_list (map (line_monthly d) others) + line_monthly d source + line_monthly d target"
      "sum_list (map (line_monthly d) ls') = sum_list (map (line_monthly d) others) + line_monthly d candidate"
      using arg_cong[OF lines(1), of "\<lambda>m. sum_mset (image_mset (line_monthly d) m)"]
        arg_cong[OF lines(2), of "\<lambda>m. sum_mset (image_mset (line_monthly d) m)"]
      by (simp_all flip: sum_mset_sum_list add: algebra_simps)
    have "round_money p = round_money q" using accepted p(1) q(1) by simp
    then have "\<bar>p - q\<bar> \<le> 1/100" using round_money_near[of p] round_money_near[of q] by linarith
    then have "\<bar>y - x\<bar> \<le> 14/1000" using p(2) q(2) x(2) y(2) unfolding sums by linarith
    then have "\<bar>round_money y - round_money x\<bar> < 3/100" using round_money_near[of x] round_money_near[of y] by linarith
    moreover have two: "is_cents (1/50)" by (rule is_centsI[of _ 2]) simp
    ultimately have "\<not> round_money x + 1/50 < round_money y" "\<not> round_money y + 1/50 < round_money x"
      using cents_gap[OF is_cents_add[OF is_cents_round_money(1) two] is_cents_round_money(1), of y x] cents_gap[OF is_cents_add[OF is_cents_round_money(1) two] is_cents_round_money(1), of x y]
        by linarith+
    then show ?thesis unfolding x(1) y(1) abs_le_iff by linarith
  qed
  ultimately show ?thesis using err by blast
qed

lemma merge_preserves_escrow_witness:
  "let source = \<lparr>line_id = 1, line_name = ''county tax'',
         versions = [example_version 1 (Date 2024 1 1) 1200,
                     (example_version 2 (Date 2025 1 1) 0)\<lparr>is_removed := True\<rparr>]\<rparr>;
       target = \<lparr>line_id = 2, line_name = ''tax'', versions = [example_version 3 (Date 2025 1 1) 1300]\<rparr>
   in merge_error (plan_escrow_line_merge source target) = None \<and>
      distinct (map effective_date (versions (merged_line source target))) \<and>
      \<bar>escrow_monthly_as_of [merged_line source target] (Date 2026 1 1) - escrow_monthly_as_of [source, target] (Date 2026 1 1)\<bar> \<le> 1/50"
proof -
  let ?s = "\<lparr>line_id = 1, line_name = ''county tax'',
         versions = [example_version 1 (Date 2024 1 1) 1200,
                     (example_version 2 (Date 2025 1 1) 0)\<lparr>is_removed := True\<rparr>]\<rparr>"
  let ?t = "\<lparr>line_id = 2, line_name = ''tax'', versions = [example_version 3 (Date 2025 1 1) 1300]\<rparr>"
  have "merge_error (plan_escrow_line_merge ?s ?t) = None"
    by (simp add: plan_escrow_line_merge_def escrow_unchanged_by_merge_def escrow_monthly_as_of_def
        resolve_active_lines_def in_effect_on_def example_version_def less_eq_date_def less_date_def Let_def)
  moreover have "distinct (map effective_date (versions ?s))" "distinct (map effective_date (versions ?t))"
    by (simp_all add: example_version_def)
  moreover have "column_lines [?s, ?t]" "column_lines [merged_line ?s ?t]"
    using \<open>merge_error (plan_escrow_line_merge ?s ?t) = None\<close>
    by (auto simp: column_lines_def merged_line_def plan_escrow_line_merge_def Let_def example_version_def in_column_def MONEY_COLUMN_MAX_def is_cents_def)
  ultimately show ?thesis using merge_preserves_escrow[of "[?s, ?t]" "[merged_line ?s ?t]" ?s ?t "[]" "Date 2026 1 1"]
    by (simp only: Let_def) (simp add: add_mset_commute)
qed

section \<open>The escrow card\<close>

definition inflation_pct :: "dec option \<Rightarrow> dec option" where
  "inflation_pct inflation = map_option (\<lambda>r. dmul r 100) inflation"

definition build_escrow_display :: "resolved_escrow_line list \<Rightarrow> escrow_component_display list" where
  "build_escrow_display components =
     (let annuals = map res_annual components;
          monthlies = allocate_monthly_amounts annuals
      in map (\<lambda>(comp, annual, monthly).
           \<lparr>disp_id = res_id comp, disp_name = res_name comp, disp_annual = annual,
            disp_monthly = monthly, disp_inflation = res_inflation comp,
            disp_inflation_pct = inflation_pct (res_inflation comp)\<rparr>)
         (zip components (zip annuals monthlies)))"

definition version_status :: "escrow_version \<Rightarrow> int option \<Rightarrow> date \<Rightarrow> string \<times> string" where
  "version_status version current_id on_date =
     (if on_date < effective_date version
      then (''scheduled'', if is_removed version then ''Scheduled removal'' else ''Scheduled'')
      else if Some (ver_id version) = current_id then (''current'', ''Current'')
      else (''past'', if is_removed version then ''Removed'' else ''Past''))"

definition build_version_rows ::
  "escrow_line \<Rightarrow> date \<Rightarrow> date option \<Rightarrow> dec \<Rightarrow> escrow_version_display list" where
  "build_version_rows line on_date boundary current_monthly =
     (let current_id = map_option ver_id (in_effect_on effective_date (versions line) on_date)
      in map (\<lambda>version.
           let monthly = (if Some (ver_id version) = current_id then current_monthly
                          else round_money (ddiv (annual_amount version) MONTHS_PER_YEAR));
               status = version_status version current_id on_date;
               after = after_forward_boundary (effective_date version) boundary;
               is_scheduled = on_date < effective_date version
           in \<lparr>vd_id = ver_id version, vd_effective_date = effective_date version,
               vd_annual = annual_amount version, vd_monthly = monthly,
               vd_inflation_pct = inflation_pct (inflation_rate version),
               vd_is_removed = is_removed version,
               vd_status_key = fst status, vd_status_label = snd status,
               vd_is_editable = (after \<and> \<not> is_removed version),
               vd_is_deletable = (after \<and> is_scheduled)\<rparr>)
         (sort_key effective_date (versions line)))"

definition upcoming_summary :: "escrow_line \<Rightarrow> date \<Rightarrow> escrow_component_display option" where
  "upcoming_summary line on_date =
     (case [v \<leftarrow> versions line. on_date < effective_date v \<and> \<not> is_removed v] of
        [] \<Rightarrow> None
      | v # vs \<Rightarrow>
          (let version = min_by effective_date v vs
           in Some \<lparr>disp_id = line_id line, disp_name = line_name line,
                    disp_annual = annual_amount version,
                    disp_monthly = round_money (ddiv (annual_amount version) MONTHS_PER_YEAR),
                    disp_inflation = inflation_rate version,
                    disp_inflation_pct = inflation_pct (inflation_rate version)\<rparr>))"

definition active_summaries :: "escrow_line list \<Rightarrow> date \<Rightarrow> int \<Rightarrow> escrow_component_display option" where
  "active_summaries ls on_date =
     map_of (rev (map (\<lambda>s. (disp_id s, s)) (build_escrow_display (resolve_active_lines ls on_date))))"

definition card_of ::
  "escrow_line list \<Rightarrow> date \<Rightarrow> date option \<Rightarrow> escrow_line \<Rightarrow> escrow_line_display list" where
  "card_of ls on_date boundary line =
     (case (case active_summaries ls on_date (line_id line) of
              Some s \<Rightarrow> Some s | None \<Rightarrow> upcoming_summary line on_date) of
        None \<Rightarrow> []
      | Some s \<Rightarrow>
          [\<lparr>card_summary = s,
            card_versions = build_version_rows line on_date boundary (disp_monthly s),
            card_has_scheduled = list_ex (\<lambda>v. on_date < effective_date v) (versions line)\<rparr>])"

definition build_escrow_card ::
  "escrow_line list \<Rightarrow> date \<Rightarrow> date option \<Rightarrow> escrow_line_display list" where
  "build_escrow_card ls on_date boundary = concat (map (card_of ls on_date boundary) ls)"

definition line_active :: "date \<Rightarrow> escrow_line \<Rightarrow> bool" where
  "line_active d l =
     (case in_effect_on effective_date (versions l) d of None \<Rightarrow> False | Some v \<Rightarrow> \<not> is_removed v)"

lemma resolved_ids: "map res_id (resolve_active_lines ls d) = map line_id [l \<leftarrow> ls. line_active d l]"
proof (induction ls)
  case (Cons l ls)
  have "map res_id (resolve_active_lines [l] d) = map line_id [m \<leftarrow> [l]. line_active d m]"
    by (simp add: resolve_active_lines_def line_active_def split: option.split)
  then show ?case using Cons by (simp add: resolve_active_lines_Cons[of l ls])
qed simp

lemma length_allocate: "length (allocate_monthly_amounts as) = length as"
proof -
  have "length (foldl (\<lambda>ms i. ms[i := dadd (ms ! i) CENTS]) bs js) = length bs" for bs js
    by (induction js arbitrary: bs) simp_all
  then show ?thesis by (simp add: allocate_monthly_amounts_def Let_def)
qed

lemma build_escrow_display_maps:
  "map disp_id (build_escrow_display comps) = map res_id comps"
  "map disp_monthly (build_escrow_display comps) = allocate_monthly_amounts (map res_annual comps)"
  using length_allocate[of "map res_annual comps"]
  by (auto simp: build_escrow_display_def Let_def intro: nth_equalityI)

lemma lookup_rows:
  assumes "distinct (map key rows)"
  shows "map (\<lambda>i. the (map_of (rev (map (\<lambda>s. (key s, s)) rows)) i)) (map key rows) = rows"
proof (rule nth_equalityI)
  show "length (map (\<lambda>i. the (map_of (rev (map (\<lambda>s. (key s, s)) rows)) i)) (map key rows)) = length rows"
    by simp
  fix n assume "n < length (map (\<lambda>i. the (map_of (rev (map (\<lambda>s. (key s, s)) rows)) i)) (map key rows))"
  then have n: "n < length rows" by simp
  have "distinct (map fst (rev (map (\<lambda>s. (key s, s)) rows)))"
    using assms by (simp add: rev_map[symmetric] o_def)
  moreover have "(key (rows ! n), rows ! n) \<in> set (rev (map (\<lambda>s. (key s, s)) rows))" using n by simp
  ultimately have "map_of (rev (map (\<lambda>s. (key s, s)) rows)) (key (rows ! n)) = Some (rows ! n)"
    by (rule map_of_is_SomeI)
  with n show "map (\<lambda>i. the (map_of (rev (map (\<lambda>s. (key s, s)) rows)) i)) (map key rows) ! n = rows ! n"
    by simp
qed

lemma active_summary_iff:
  assumes "distinct (map line_id ls)" "l \<in> set ls"
  shows "active_summaries ls d (line_id l) = None \<longleftrightarrow> \<not> line_active d l"
proof -
  have "active_summaries ls d i = None \<longleftrightarrow> i \<notin> set (map line_id [l \<leftarrow> ls. line_active d l])" for i
  proof -
    have "active_summaries ls d i = None \<longleftrightarrow>
        i \<notin> set (map disp_id (build_escrow_display (resolve_active_lines ls d)))"
      by (auto simp: active_summaries_def map_of_eq_None_iff image_image)
    then show ?thesis by (simp only: build_escrow_display_maps resolved_ids)
  qed
  moreover have "line_id l \<in> set (map line_id [l \<leftarrow> ls. line_active d l]) \<longleftrightarrow> line_active d l"
    using assms by (auto simp: distinct_map dest: inj_onD)
  ultimately show ?thesis by simp
qed

lemma upcoming_summary_None:
  "upcoming_summary l d = None \<longleftrightarrow> (\<forall>v \<in> set (versions l). d < effective_date v \<longrightarrow> is_removed v)"
proof -
  have "upcoming_summary l d = None \<longleftrightarrow> [v \<leftarrow> versions l. d < effective_date v \<and> \<not> is_removed v] = []"
    by (auto simp: upcoming_summary_def Let_def split: list.splits)
  then show ?thesis by (auto simp: filter_empty_conv)
qed

text \<open>
  the escrow card is complete and adds up.  A line has a card exactly when it is charged today
  or has a real version still to come; the cards of the lines charged today show monthly amounts that
  sum to the escrow total every payment is split with; and the drawer's current row shows its card's
  own figure.
\<close>

theorem escrow_card_adds_up:
  assumes "distinct (map line_id ls)"
    and "escrow_annuals (map res_annual (resolve_active_lines ls today))"
  shows "(\<forall>l \<in> set ls. card_of ls today b l \<noteq> [] \<longleftrightarrow>
            line_active today l \<or> (\<exists>v \<in> set (versions l). today < effective_date v \<and> \<not> is_removed v)) \<and>
         (\<Sum>c \<leftarrow> concat (map (card_of ls today b) [l \<leftarrow> ls. line_active today l]).
            disp_monthly (card_summary c)) = escrow_monthly_as_of ls today \<and>
         (\<forall>c \<in> set (build_escrow_card ls today b). \<forall>v \<in> set (card_versions c).
            vd_status_key v = ''current'' \<longrightarrow> vd_monthly v = disp_monthly (card_summary c))"
proof (intro conjI ballI impI)
  fix l assume l: "l \<in> set ls"
  show "card_of ls today b l \<noteq> [] \<longleftrightarrow>
      line_active today l \<or> (\<exists>v \<in> set (versions l). today < effective_date v \<and> \<not> is_removed v)"
    using active_summary_iff[OF assms(1) l, of today] upcoming_summary_None[of l today]
    by (auto simp: card_of_def split: option.splits)
next
  define act where "act = [l \<leftarrow> ls. line_active today l]"
  define rows where "rows = build_escrow_display (resolve_active_lines ls today)"
  have ids: "map disp_id rows = map line_id act"
    by (simp add: rows_def act_def build_escrow_display_maps resolved_ids)
  have dist: "distinct (map disp_id rows)" unfolding ids act_def using assms(1)
    by (rule distinct_map_filter)
  have lookup: "map (\<lambda>l. the (active_summaries ls today (line_id l))) act = rows"
    using lookup_rows[OF dist] unfolding ids by (simp add: active_summaries_def rows_def o_def)
  have "concat (map (card_of ls today b) act) =
      map (\<lambda>l. \<lparr>card_summary = the (active_summaries ls today (line_id l)),
        card_versions = build_version_rows l today b (disp_monthly (the (active_summaries ls today (line_id l)))),
        card_has_scheduled = list_ex (\<lambda>v. today < effective_date v) (versions l)\<rparr>) act"
  proof -
    have "\<forall>l \<in> set act. active_summaries ls today (line_id l) \<noteq> None"
      using active_summary_iff[OF assms(1)] by (auto simp: act_def)
    then show ?thesis by (induction act) (auto simp: card_of_def)
  qed
  then have "map (\<lambda>c. disp_monthly (card_summary c)) (concat (map (card_of ls today b) act)) =
      map disp_monthly rows"
    unfolding lookup[symmetric] by (simp add: o_def)
  also have "\<dots> = allocate_monthly_amounts (map res_annual (resolve_active_lines ls today))"
    by (simp add: rows_def build_escrow_display_maps)
  finally show "(\<Sum>c \<leftarrow> concat (map (card_of ls today b) [l \<leftarrow> ls. line_active today l]).
      disp_monthly (card_summary c)) = escrow_monthly_as_of ls today"
    using allocate_monthly_amounts_sum[OF assms(2)] by (simp add: act_def escrow_monthly_as_of_def)
next
  fix c v assume "c \<in> set (build_escrow_card ls today b)" "v \<in> set (card_versions c)"
    "vd_status_key v = ''current''"
  then show "vd_monthly v = disp_monthly (card_summary c)"
    by (auto simp: build_escrow_card_def card_of_def build_version_rows_def version_status_def Let_def
        split: option.splits if_splits)
qed

lemma escrow_card_adds_up_witness:
  "let ls = [\<lparr>line_id = 1, line_name = ''tax'', versions = [example_version 1 (Date 2025 1 1) 1200]\<rparr>];
       today = Date 2026 3 1
   in (\<Sum>c \<leftarrow> concat (map (card_of ls today None) [l \<leftarrow> ls. line_active today l]).
         disp_monthly (card_summary c)) = escrow_monthly_as_of ls today"
proof -
  let ?ls = "[\<lparr>line_id = 1, line_name = ''tax'', versions = [example_version 1 (Date 2025 1 1) 1200]\<rparr>]"
  have "map res_annual (resolve_active_lines ?ls (Date 2026 3 1)) = [1200]"
    by (simp add: resolve_active_lines_def in_effect_on_def example_version_def less_eq_date_def)
  moreover have "escrow_annuals [1200]"
    by (simp add: escrow_annuals_def in_column_def MONEY_COLUMN_MAX_def)
  ultimately have "escrow_annuals (map res_annual (resolve_active_lines ?ls (Date 2026 3 1)))" by simp
  from escrow_card_adds_up[OF _ this, of None] show ?thesis by (simp only: Let_def) simp
qed

text \<open>
  whatever the drawer offers to delete is safe to delete.  Removing the version of a deletable
  row leaves today's escrow and the escrow of every day up to the latest settled payment's due date
  as they were.
\<close>

theorem deletable_version_is_safe:
  assumes "row \<in> set (build_version_rows line today boundary monthly)" "vd_is_deletable row"
    and "distinct (map ver_id (versions line))"
    and "day \<le> today \<or> (\<exists>b. boundary = Some b \<and> day \<le> b)"
  shows "escrow_monthly_as_of [line\<lparr>versions := [v \<leftarrow> versions line. ver_id v \<noteq> vd_id row]\<rparr>] day =
         escrow_monthly_as_of [line] day"
proof -
  obtain v where v: "v \<in> set (versions line)" "vd_id row = ver_id v"
    "after_forward_boundary (effective_date v) boundary" "today < effective_date v"
    using assms(1,2) by (auto simp: build_version_rows_def Let_def)
  have later: "day < effective_date v"
    using assms(4) v(3,4) by (auto simp: after_forward_boundary_def)
  have inj: "inj_on ver_id (set (versions line))" using assms(3) by (simp add: distinct_map)
  have "ver_id w \<noteq> vd_id row" if "w \<in> set (versions line)" "effective_date w \<le> day" for w
  proof
    assume "ver_id w = vd_id row"
    then have "w = v" using inj_onD[OF inj _ that(1) v(1)] v(2) by simp
    with that(2) later show False by simp
  qed
  then have "[w \<leftarrow> versions line. ver_id w \<noteq> vd_id row \<and> effective_date w \<le> day] =
      [w \<leftarrow> versions line. effective_date w \<le> day]"
    by (intro filter_cong refl) blast
  then have "resolve_active_lines [line\<lparr>versions := [v \<leftarrow> versions line. ver_id v \<noteq> vd_id row]\<rparr>] day =
      resolve_active_lines [line] day"
    by (intro resolve_active_lines_cong1 in_effect_on_cong) (simp_all add: conj_commute)
  then show ?thesis by (simp add: escrow_monthly_as_of_def)
qed

lemma deletable_version_is_safe_witness:
  "let line = \<lparr>line_id = 1, line_name = ''tax'',
       versions = [example_version 1 (Date 2025 1 1) 1200, example_version 2 (Date 2027 1 1) 2400]\<rparr>
   in escrow_monthly_as_of [line\<lparr>versions := [v \<leftarrow> versions line. ver_id v \<noteq> 2]\<rparr>] (Date 2026 3 1) =
      escrow_monthly_as_of [line] (Date 2026 3 1)"
proof -
  let ?line = "\<lparr>line_id = 1, line_name = ''tax'',
       versions = [example_version 1 (Date 2025 1 1) 1200, example_version 2 (Date 2027 1 1) 2400]\<rparr>"
  let ?row = "\<lparr>vd_id = 2, vd_effective_date = Date 2027 1 1, vd_annual = 2400,
       vd_monthly = round_money (ddiv 2400 MONTHS_PER_YEAR), vd_inflation_pct = None, vd_is_removed = False,
       vd_status_key = ''scheduled'', vd_status_label = ''Scheduled'',
       vd_is_editable = True, vd_is_deletable = True\<rparr>"
  have "?row \<in> set (build_version_rows ?line (Date 2026 3 1) None 100)"
    by (simp add: build_version_rows_def in_effect_on_def example_version_def less_eq_date_def
        less_date_def version_status_def after_forward_boundary_def inflation_pct_def)
  moreover have "vd_is_deletable ?row" "vd_id ?row = 2" by simp_all
  moreover have "distinct (map ver_id (versions ?line))" by (simp add: example_version_def)
  moreover have "Date 2026 3 1 \<le> Date 2026 3 1 \<or> (\<exists>b. None = Some b \<and> Date 2026 3 1 \<le> b)" by simp
  ultimately show ?thesis using deletable_version_is_safe by metis
qed

text \<open>Zero annual steps change nothing: the projection starts at today's escrow.\<close>

lemma project_monthly_escrow_0:
  assumes "\<forall>c \<in> set comps. in_column (res_annual c)"
  shows "project_monthly_escrow comps 0 = calculate_monthly_escrow (map res_annual comps)"
proof -
  have "dmul (res_annual c) (dpow_int (dadd 1 r) 0) = res_annual c" if "c \<in> set comps" for c r
  proof -
    have "fix28 1 = 1" using fix28_fixed_28[of 0] by simp
    moreover have "\<bar>res_annual c\<bar> < 10 ^ 26" "is_cents (res_annual c)"
      using assms that by (auto simp: in_column_def MONEY_COLUMN_MAX_def)
    ultimately show ?thesis by (simp add: dmul_def dpow_int_def dpow_def fix28_cents)
  qed
  then have "foldl (\<lambda>acc comp. let annual = (case res_inflation comp of None \<Rightarrow> res_annual comp
        | Some rate \<Rightarrow> dmul (res_annual comp) (dpow_int (dadd 1 rate) 0))
      in dadd acc (ddiv annual MONTHS_PER_YEAR)) a comps =
    foldl (\<lambda>acc annual. dadd acc (ddiv annual MONTHS_PER_YEAR)) a (map res_annual comps)" for a
    by (induction comps arbitrary: a) (auto simp: Let_def split: option.split)
  then show ?thesis by (simp add: project_monthly_escrow_def calculate_monthly_escrow_def)
qed
text \<open>
  The escrow of a loan can move: two lines of one date, one of four cents a year, merge as equal to the cent,
  and beside a third line of four cents a year the loan pays a cent less a month after it.\<close>

lemma merge_moves_the_loans_escrow:
  "let source = \<lparr>line_id = 1, line_name = ''a'', versions = [example_version 1 (Date 2024 1 1) (4/100)]\<rparr>;
       target = \<lparr>line_id = 2, line_name = ''b'', versions = [example_version 2 (Date 2024 1 1) 1200]\<rparr>;
       third = \<lparr>line_id = 3, line_name = ''c'', versions = [example_version 3 (Date 2024 1 1) (4/100)]\<rparr>
   in merge_error (plan_escrow_line_merge source target) = None \<and>
      escrow_monthly_as_of [source, target, third] (Date 2024 1 1) = 10001/100 \<and>
      escrow_monthly_as_of [merged_line source target, third] (Date 2024 1 1) = 100"
proof -
  let ?s = "\<lparr>line_id = 1, line_name = ''a'', versions = [example_version 1 (Date 2024 1 1) (4/100)]\<rparr>"
  let ?t = "\<lparr>line_id = 2, line_name = ''b'', versions = [example_version 2 (Date 2024 1 1) 1200]\<rparr>"
  let ?u = "\<lparr>line_id = 3, line_name = ''c'', versions = [example_version 3 (Date 2024 1 1) (4/100)]\<rparr>"
  let ?d = "Date 2024 1 1"
  have cents: "is_cents (1/25)" "is_cents 1200" "is_cents (10001/100)" "is_cents 100" by (simp_all add: is_cents_def)
  have lines: "column_lines [?s, ?t]" "column_lines [?t]" "column_lines [?s, ?t, ?u]" "column_lines [?t, ?u]"
    using cents by (simp_all add: column_lines_def example_version_def in_column_def MONEY_COLUMN_MAX_def)
  define a where "a = fix28 (1/300)"
  have a: "\<bar>a - 1/300\<bar> \<le> 1/10 ^ 6" using fix28_error[of "1/300"] by (simp add: a_def)
  have monthly: "line_monthly ?d ?s = a" "line_monthly ?d ?u = a" "line_monthly ?d ?t = 100"
    by (simp_all add: line_monthly_def resolve_active_lines_def in_effect_on_def example_version_def less_eq_date_def less_date_def
        ddiv_def MONTHS_PER_YEAR_def a_def fix28_places[of 0])
  have near: "escrow_monthly_as_of ls ?d = m"
    if h: "column_lines ls" "is_cents m" "\<bar>sum_list (map (line_monthly ?d) ls) - m\<bar> \<le> 39/10000" for ls m
  proof -
    obtain x where x: "escrow_monthly_as_of ls ?d = round_money x" "\<bar>x - sum_list (map (line_monthly ?d) ls)\<bar> \<le> 1/1000"
      by (rule escrow_near_its_lines[OF h(1), of ?d])
    have "m - 1/200 < x" "x < m + 1/200" using x(2) h(3) by linarith+
    then show ?thesis unfolding x(1) using round_money_above[OF h(2)] round_money_below[OF h(2)] by (intro antisym) auto
  qed
  have small: "a \<le> 1/300 + 1/10 ^ 6" "1/300 - 1/10 ^ 6 \<le> a" using a by linarith+
  have sums: "sum_list (map (line_monthly ?d) [?s, ?t]) - 100 = a" "sum_list (map (line_monthly ?d) [?t]) - 100 = 0"
    "sum_list (map (line_monthly ?d) [?s, ?t, ?u]) - 10001/100 = 2 * a - 1/100" "sum_list (map (line_monthly ?d) [?t, ?u]) - 100 = a"
    by (simp_all only: list.map sum_list.Cons sum_list.Nil monthly)
  have within: "\<bar>a\<bar> \<le> 39/10000" "\<bar>2 * a - 1/100\<bar> \<le> 39/10000" using small by (simp_all add: abs_le_iff)
  have pair: "escrow_monthly_as_of [?s, ?t] ?d = 100" by (rule near[OF lines(1) cents(4)]) (simp only: sums within)
  have pair2: "escrow_monthly_as_of [?t] ?d = 100" by (rule near[OF lines(2) cents(4)]) (subst sums(2), simp)
  have pair3: "escrow_monthly_as_of [?s, ?t, ?u] ?d = 10001/100" by (rule near[OF lines(3) cents(3)]) (simp only: sums within)
  have pair4: "escrow_monthly_as_of [?t, ?u] ?d = 100" by (rule near[OF lines(4) cents(4)]) (simp only: sums within)
  have "escrow_unchanged_by_merge ?s ?t (versions ?t)"
    using pair pair2 by (simp add: escrow_unchanged_by_merge_def example_version_def Let_def)
  then have "merge_error (plan_escrow_line_merge ?s ?t) = None" "merged_line ?s ?t = ?t"
    by (simp_all add: plan_escrow_line_merge_def merged_line_def example_version_def Let_def)
  then show ?thesis using pair3 pair4 by (simp add: Let_def)
qed

end
