(* ===== verification/Status_Machine.thy ===== *)
theory Status_Machine
  imports Prelude
begin

text \<open>
  \<open>app/services/state_machine.py\<close> with the status predicates of \<open>app/utils/balance_predicates.py\<close>
  and the status flags of \<open>app/ref_seeds.py\<close>.  A row stores the integer key of its status; the keys
  are the database's, so \<open>ref_cache.status_id\<close> is the parameter \<open>sid\<close> of the definitions, and the
  theorems assume of it only that distinct statuses have distinct keys.
\<close>

section \<open>Statuses\<close>

datatype status = Projected | Done | Received | Credit | Cancelled

definition all_statuses :: "status list" where
  "all_statuses = [Projected, Done, Received, Credit, Cancelled]"

lemma all_statuses_UNIV: "s \<in> set all_statuses"
  by (cases s) (simp_all add: all_statuses_def)

definition status_name :: "status \<Rightarrow> string" where
  "status_name s = (case s of Projected \<Rightarrow> ''Projected'' | Done \<Rightarrow> ''Paid'' | Received \<Rightarrow> ''Received''
     | Credit \<Rightarrow> ''Credit'' | Cancelled \<Rightarrow> ''Cancelled'')"

definition is_settled :: "status \<Rightarrow> bool" where
  "is_settled s = (case s of Done \<Rightarrow> True | Received \<Rightarrow> True | _ \<Rightarrow> False)"

definition is_immutable :: "status \<Rightarrow> bool" where
  "is_immutable s = (case s of Projected \<Rightarrow> False | _ \<Rightarrow> True)"

definition excludes_from_balance :: "status \<Rightarrow> bool" where
  "excludes_from_balance s = (case s of Credit \<Rightarrow> True | Cancelled \<Rightarrow> True | _ \<Rightarrow> False)"

section \<open>The two workflows\<close>

datatype model_class = Transaction_class | Transfer_class | Other_class
datatype workflow = Transaction_workflow | Transfer_workflow

record status_row =
  row_class :: model_class
  status_id :: int

definition context_for :: "status_row \<Rightarrow> workflow res" where
  "context_for row = (case row_class row of
     Transaction_class \<Rightarrow> Inr Transaction_workflow
   | Transfer_class \<Rightarrow> Inr Transfer_workflow
   | Other_class \<Rightarrow> Inl TypeError)"

definition build_transitions :: "(status \<Rightarrow> int) \<Rightarrow> workflow \<Rightarrow> (int \<times> int list) list" where
  "build_transitions sid w =
     (let projected = sid Projected; done = sid Done; received = sid Received;
          credit = sid Credit; cancelled = sid Cancelled
      in case w of
           Transaction_workflow \<Rightarrow>
             [(projected, [projected, done, received, credit, cancelled]),
              (done, [done, projected]),
              (received, [received, projected]),
              (credit, [credit, projected]),
              (cancelled, [cancelled, projected])]
         | Transfer_workflow \<Rightarrow>
             [(projected, [projected, done, cancelled]),
              (done, [done, projected]),
              (cancelled, [cancelled, projected])])"

definition allowed_transitions :: "(status \<Rightarrow> int) \<Rightarrow> status_row \<Rightarrow> int set res" where
  "allowed_transitions sid row =
     bind_res (context_for row) (\<lambda>w.
       Inr (case map_of (build_transitions sid w) (status_id row) of None \<Rightarrow> {} | Some ts \<Rightarrow> set ts))"

definition verify_transition :: "(status \<Rightarrow> int) \<Rightarrow> status_row \<Rightarrow> int \<Rightarrow> unit res" where
  "verify_transition sid row new_status_id =
     bind_res (context_for row) (\<lambda>w.
       case map_of (build_transitions sid w) (status_id row) of
         None \<Rightarrow> Inl ValidationError
       | Some allowed \<Rightarrow> if new_status_id \<in> set allowed then Inr () else Inl ValidationError)"

definition lock_lifts :: "status option \<Rightarrow> status option \<Rightarrow> bool" where
  "lock_lifts current_status new_status =
     (case (current_status, new_status) of
        (Some c, Some n) \<Rightarrow> is_immutable c \<and> \<not> is_immutable n
      | _ \<Rightarrow> False)"

definition finalised_edit_rejection :: "status option \<Rightarrow> status option \<Rightarrow> string \<Rightarrow> string option" where
  "finalised_edit_rejection current_status new_status ctxt =
     (case current_status of
        None \<Rightarrow> None
      | Some c \<Rightarrow>
          if \<not> is_immutable c then None
          else if lock_lifts current_status new_status then None
          else Some (''Cannot edit a finalised ('' @ status_name c @ '') '' @ ctxt @
            ''. Revert it to Projected before changing the amount, category, period, or due date.''))"

section \<open>The status predicates\<close>

definition balance_excluded_status_ids :: "(status \<Rightarrow> int) \<Rightarrow> int set" where
  "balance_excluded_status_ids sid = {sid Credit, sid Cancelled}"

definition settled_status_ids :: "(status \<Rightarrow> int) \<Rightarrow> int set" where
  "settled_status_ids sid = {sid Done, sid Received}"

definition is_identity_move :: "status_row \<Rightarrow> int \<Rightarrow> bool" where
  "is_identity_move row new_status_id = (status_id row = new_status_id)"

definition enters_settled_band :: "(status \<Rightarrow> int) \<Rightarrow> status_row \<Rightarrow> int \<Rightarrow> bool" where
  "enters_settled_band sid row new_status_id =
     (status_id row \<notin> settled_status_ids sid \<and> new_status_id \<in> settled_status_ids sid)"

definition reverts_to_projected :: "(status \<Rightarrow> int) \<Rightarrow> status_row \<Rightarrow> int \<Rightarrow> bool" where
  "reverts_to_projected sid row new_status_id =
     (status_id row \<noteq> sid Projected \<and> new_status_id = sid Projected)"

definition status_contributes_to_balance :: "status option \<Rightarrow> bool" where
  "status_contributes_to_balance st = (\<not> (case st of None \<Rightarrow> False | Some s \<Rightarrow> excludes_from_balance s))"

definition is_balance_contributing :: "bool \<Rightarrow> status option \<Rightarrow> bool" where
  "is_balance_contributing is_deleted st = (if is_deleted then False else status_contributes_to_balance st)"

definition is_projected :: "(status \<Rightarrow> int) \<Rightarrow> status_row \<Rightarrow> bool" where
  "is_projected sid row = (status_id row = sid Projected)"

section \<open>What the machine allows\<close>

text \<open>The statuses a row of each class may hold, and the policy the two maps spell out.\<close>

definition vocabulary :: "model_class \<Rightarrow> status set" where
  "vocabulary c = (case c of Transaction_class \<Rightarrow> {Projected, Done, Received, Credit, Cancelled}
     | Transfer_class \<Rightarrow> {Projected, Done, Cancelled} | Other_class \<Rightarrow> {})"

lemma vocabulary_transaction: "vocabulary Transaction_class = UNIV"
  by (auto simp: vocabulary_def) (metis status.exhaust)

definition policy :: "status \<Rightarrow> status \<Rightarrow> bool" where
  "policy s t = (s = t \<or> s = Projected \<or> t = Projected)"

lemma inj_keys:
  assumes "inj sid"
  shows "sid s = sid t \<longleftrightarrow> s = t"
  using assms by (simp add: inj_eq)

lemma lookup_transitions:
  assumes "inj sid"
  shows "map_of (build_transitions sid Transaction_workflow) (sid s) =
           Some (if s = Projected then map sid all_statuses else [sid s, sid Projected])"
    and "map_of (build_transitions sid Transfer_workflow) (sid s) =
           (if s \<in> {Received, Credit} then None
            else Some (if s = Projected then [sid Projected, sid Done, sid Cancelled]
                       else [sid s, sid Projected]))"
  by (cases s; simp add: build_transitions_def Let_def inj_keys[OF assms] all_statuses_def)+

lemma lookup_unknown:
  assumes "map_of (build_transitions sid w) i = Some ts"
  shows "\<exists>s. i = sid s"
  using assms by (cases w) (auto simp: build_transitions_def Let_def split: if_splits)

lemma transitions_iff:
  assumes "inj sid"
  shows "(\<exists>ts. map_of (build_transitions sid Transaction_workflow) i = Some ts \<and> j \<in> set ts) \<longleftrightarrow>
           (\<exists>s \<in> vocabulary Transaction_class. \<exists>t \<in> vocabulary Transaction_class.
              i = sid s \<and> j = sid t \<and> policy s t)"
    and "(\<exists>ts. map_of (build_transitions sid Transfer_workflow) i = Some ts \<and> j \<in> set ts) \<longleftrightarrow>
           (\<exists>s \<in> vocabulary Transfer_class. \<exists>t \<in> vocabulary Transfer_class.
              i = sid s \<and> j = sid t \<and> policy s t)"
proof -
  have known: "(\<exists>ts. map_of (build_transitions sid w) i = Some ts \<and> j \<in> set ts) \<longleftrightarrow>
      (\<exists>s. i = sid s \<and> (\<exists>ts. map_of (build_transitions sid w) (sid s) = Some ts \<and> j \<in> set ts))" for w
    using lookup_unknown[of sid w i] by blast
  have "(\<exists>ts. map_of (build_transitions sid Transaction_workflow) (sid s) = Some ts \<and> j \<in> set ts) \<longleftrightarrow>
      (\<exists>t. j = sid t \<and> policy s t)" for s
    using all_statuses_UNIV by (auto simp: lookup_transitions[OF assms] policy_def image_iff)
  then show "(\<exists>ts. map_of (build_transitions sid Transaction_workflow) i = Some ts \<and> j \<in> set ts) \<longleftrightarrow>
           (\<exists>s \<in> vocabulary Transaction_class. \<exists>t \<in> vocabulary Transaction_class.
              i = sid s \<and> j = sid t \<and> policy s t)"
    unfolding vocabulary_transaction known by blast
  have "(\<exists>ts. map_of (build_transitions sid Transfer_workflow) (sid s) = Some ts \<and> j \<in> set ts) \<longleftrightarrow>
      s \<in> vocabulary Transfer_class \<and> (\<exists>t \<in> vocabulary Transfer_class. j = sid t \<and> policy s t)" for s
    by (cases s) (auto simp: lookup_transitions[OF assms] policy_def vocabulary_def)
  then show "(\<exists>ts. map_of (build_transitions sid Transfer_workflow) i = Some ts \<and> j \<in> set ts) \<longleftrightarrow>
           (\<exists>s \<in> vocabulary Transfer_class. \<exists>t \<in> vocabulary Transfer_class.
              i = sid s \<and> j = sid t \<and> policy s t)"
    unfolding known by blast
qed

lemma verify_ok_iff:
  "verify_transition sid row new = Inr () \<longleftrightarrow>
     (\<exists>w. context_for row = Inr w \<and>
        (\<exists>ts. map_of (build_transitions sid w) (status_id row) = Some ts \<and> new \<in> set ts))"
  by (cases "context_for row") (auto simp: verify_transition_def split: option.splits if_splits)

lemma verify_transition_iff:
  assumes "inj sid"
  shows "verify_transition sid row new = Inr () \<longleftrightarrow>
         (\<exists>s \<in> vocabulary (row_class row). \<exists>t \<in> vocabulary (row_class row).
            status_id row = sid s \<and> new = sid t \<and> policy s t)"
proof (cases "row_class row")
  case Transaction_class
  then show ?thesis unfolding verify_ok_iff by (simp add: context_for_def transitions_iff[OF assms])
next
  case Transfer_class
  then show ?thesis unfolding verify_ok_iff by (simp add: context_for_def transitions_iff[OF assms])
next
  case Other_class
  then show ?thesis by (simp add: verify_transition_def context_for_def vocabulary_def)
qed

lemma verify_transition_error:
  "verify_transition sid row new = Inl e \<Longrightarrow>
   e = (if row_class row = Other_class then TypeError else ValidationError)"
  by (cases "row_class row")
     (auto simp: verify_transition_def context_for_def split: option.splits if_splits)

text \<open>
  C29: the two transition maps say one policy.  A move is accepted exactly when both statuses belong
  to the row's vocabulary and it is the identity, leaves Projected or returns to Projected; anything
  else is a \<open>ValidationError\<close> (a \<open>TypeError\<close> for an object that is no status-bearing row); a transfer
  never reaches Credit or Received; and the dropdown's hint offers exactly the accepted moves.
\<close>

theorem verify_transition_policy:
  assumes "inj sid"
  shows "(verify_transition sid row new = Inr () \<longleftrightarrow>
            (\<exists>s \<in> vocabulary (row_class row). \<exists>t \<in> vocabulary (row_class row).
               status_id row = sid s \<and> new = sid t \<and> (s = t \<or> s = Projected \<or> t = Projected))) \<and>
         (verify_transition sid row new \<noteq> Inr () \<longrightarrow> verify_transition sid row new =
            Inl (if row_class row = Other_class then TypeError else ValidationError)) \<and>
         (row_class row = Transfer_class \<and> verify_transition sid row new = Inr () \<longrightarrow>
            new \<noteq> sid Credit \<and> new \<noteq> sid Received) \<and>
         (\<forall>ts. allowed_transitions sid row = Inr ts \<longrightarrow> (new \<in> ts \<longleftrightarrow> verify_transition sid row new = Inr ()))"
proof (intro conjI impI allI)
  show "verify_transition sid row new = Inr () \<longleftrightarrow>
      (\<exists>s \<in> vocabulary (row_class row). \<exists>t \<in> vocabulary (row_class row).
         status_id row = sid s \<and> new = sid t \<and> (s = t \<or> s = Projected \<or> t = Projected))"
    unfolding verify_transition_iff[OF assms] policy_def ..
  assume "verify_transition sid row new \<noteq> Inr ()"
  then show "verify_transition sid row new = Inl (if row_class row = Other_class then TypeError else ValidationError)"
    using verify_transition_error by (cases "verify_transition sid row new") auto
next
  fix ts assume "allowed_transitions sid row = Inr ts"
  then show "new \<in> ts \<longleftrightarrow> verify_transition sid row new = Inr ()"
    by (cases "context_for row")
       (auto simp: allowed_transitions_def verify_transition_def split: option.splits)
qed (auto simp: verify_transition_iff[OF assms] vocabulary_def inj_keys[OF assms])

text \<open>Concrete keys, as a seeded database has them.\<close>

definition example_keys :: "status \<Rightarrow> int" where
  "example_keys s = (case s of Projected \<Rightarrow> 1 | Done \<Rightarrow> 2 | Received \<Rightarrow> 3 | Credit \<Rightarrow> 4 | Cancelled \<Rightarrow> 5)"

lemma inj_example_keys: "inj example_keys"
  by (rule injI) (simp add: example_keys_def split: status.splits)

lemma verify_transition_policy_witness:
  "verify_transition example_keys \<lparr>row_class = Transaction_class, status_id = 5\<rparr> 2 = Inl ValidationError"
proof -
  have "verify_transition example_keys \<lparr>row_class = Transaction_class, status_id = 5\<rparr> 2 \<noteq> Inr ()"
    by (simp add: verify_transition_def context_for_def build_transitions_def example_keys_def)
  with verify_transition_policy[OF inj_example_keys, of "\<lparr>row_class = Transaction_class, status_id = 5\<rparr>" 2]
  show ?thesis by simp
qed

section \<open>Rows over time\<close>

text \<open>One accepted status assignment.\<close>

inductive status_step :: "(status \<Rightarrow> int) \<Rightarrow> model_class \<Rightarrow> int \<Rightarrow> int \<Rightarrow> bool"
  for sid :: "status \<Rightarrow> int" and c :: model_class where
  accepted: "verify_transition sid \<lparr>row_class = c, status_id = i\<rparr> j = Inr () \<Longrightarrow> status_step sid c i j"

inductive_simps status_step_iff: "status_step sid c i j"
inductive_cases status_stepE: "status_step sid c i j"

lemma status_step_vocabulary:
  "inj sid \<Longrightarrow> status_step sid c i j \<longleftrightarrow>
     (\<exists>s \<in> vocabulary c. \<exists>t \<in> vocabulary c. i = sid s \<and> j = sid t \<and> policy s t)"
  by (simp add: status_step_iff verify_transition_iff)

lemma reachable_vocabulary:
  assumes "inj sid" "(status_step sid c)\<^sup>*\<^sup>* i j" "i \<in> sid ` vocabulary c"
  shows "j \<in> sid ` vocabulary c"
  using assms(2,3)
proof (induction rule: rtranclp_induct)
  case (step j k)
  then show ?case by (auto simp: status_step_vocabulary[OF assms(1)])
qed

lemma projected_in_vocabulary: "c \<noteq> Other_class \<Longrightarrow> Projected \<in> vocabulary c"
  by (cases c) (simp_all add: vocabulary_def)

text \<open>
  C32: no state is both reachable and absorbing.  From Projected every history of accepted
  assignments stays in the row's vocabulary, and from wherever it ends one accepted assignment takes
  the row back to Projected; so a row that can be finalised can always be corrected.
\<close>

theorem no_reachable_state_absorbing:
  assumes "inj sid" "c \<noteq> Other_class" "(status_step sid c)\<^sup>*\<^sup>* (sid Projected) i"
  shows "i \<in> sid ` vocabulary c \<and> status_step sid c i (sid Projected) \<and> status_step sid c i i \<and>
         (\<forall>t \<in> vocabulary c. (status_step sid c)\<^sup>*\<^sup>* i (sid t))"
proof -
  have p: "Projected \<in> vocabulary c" using assms(2) by (rule projected_in_vocabulary)
  have i: "i \<in> sid ` vocabulary c"
    using reachable_vocabulary[OF assms(1,3)] p by blast
  then have revert: "status_step sid c i (sid Projected)" and stay: "status_step sid c i i"
    using p by (auto simp: status_step_vocabulary[OF assms(1)] policy_def)
  have "(status_step sid c)\<^sup>*\<^sup>* i (sid t)" if "t \<in> vocabulary c" for t
  proof -
    have "status_step sid c (sid Projected) (sid t)"
      using p that by (auto simp: status_step_vocabulary[OF assms(1)] policy_def)
    with revert show ?thesis by (meson rtranclp.rtrancl_into_rtrancl r_into_rtranclp)
  qed
  with i revert stay show ?thesis by blast
qed

lemma no_reachable_state_absorbing_witness:
  "status_step example_keys Transfer_class 5 1"
proof -
  have "status_step example_keys Transfer_class (example_keys Projected) 5"
    by (simp add: status_step_iff verify_transition_def context_for_def build_transitions_def example_keys_def)
  then have "(status_step example_keys Transfer_class)\<^sup>*\<^sup>* (example_keys Projected) 5" by blast
  from no_reachable_state_absorbing[OF inj_example_keys _ this] show ?thesis
    by (simp add: example_keys_def)
qed

text \<open>
  the lock on a finalised row lifts for exactly one kind of accepted request.  A locked row's
  fields may be edited only in a request that changes its status, and among the moves the machine
  accepts that is the return to Projected; a projected row is never locked; and entering the settled
  band and reverting are disjoint acts, each starting outside the band it enters.
\<close>

theorem lock_lifts_only_by_revert:
  assumes "inj sid" "status_id row = sid s"
    and "verify_transition sid row (sid t) = Inr ()"
  shows "(finalised_edit_rejection (Some s) (Some t) ctxt = None \<longleftrightarrow>
            s = Projected \<or> reverts_to_projected sid row (sid t)) \<and>
         (finalised_edit_rejection (Some s) None ctxt = None \<longleftrightarrow> s = Projected) \<and>
         (enters_settled_band sid row (sid t) \<longrightarrow> s = Projected \<and> is_settled t) \<and>
         \<not> (enters_settled_band sid row (sid t) \<and> reverts_to_projected sid row (sid t))"
proof -
  have "policy s t" using assms by (auto simp: verify_transition_iff inj_keys)
  then show ?thesis using assms(2)
    by (cases s; cases t)
       (simp_all add: policy_def finalised_edit_rejection_def lock_lifts_def is_immutable_def
        reverts_to_projected_def enters_settled_band_def settled_status_ids_def is_settled_def
        inj_keys[OF assms(1)])
qed

lemma lock_lifts_only_by_revert_witness:
  "finalised_edit_rejection (Some Done) (Some Projected) ''transaction'' = None \<and>
   finalised_edit_rejection (Some Done) (Some Done) ''transaction'' \<noteq> None"
proof -
  let ?row = "\<lparr>row_class = Transaction_class, status_id = 2\<rparr>"
  have "verify_transition example_keys ?row (example_keys Projected) = Inr ()"
    "verify_transition example_keys ?row (example_keys Done) = Inr ()"
    "status_id ?row = example_keys Done"
    by (simp_all add: verify_transition_def context_for_def build_transitions_def example_keys_def)
  from lock_lifts_only_by_revert[OF inj_example_keys this(3,1), of "''transaction''"]
    lock_lifts_only_by_revert[OF inj_example_keys this(3,2), of "''transaction''"]
  show ?thesis by (simp add: reverts_to_projected_def example_keys_def)
qed

end
