(* ===== verification/Debt_Strategy.thy ===== *)
theory Debt_Strategy
  imports Money Civil_Dates "HOL-Library.Product_Lexorder" "HOL-Library.Multiset"
begin

text \<open>
  \<open>app/services/debt_strategy_service.py\<close>: the month-by-month payoff simulation over several debts
  (avalanche, snowball or custom order).  The working arrays are parallel lists as in the source, and
  every loop over \<open>enumerate(sorted_debts)\<close> is a fold over the positions.
\<close>

section \<open>Inputs\<close>

record debt_account =
  account_id :: int
  debt_name :: string
  current_principal :: dec
  debt_rate :: dec
  minimum_payment :: dec

text \<open>The constructor with its checks (\<open>__post_init__\<close>), over arbitrary Python values.\<close>

definition make_debt_account ::
  "py_value \<Rightarrow> py_value \<Rightarrow> py_value \<Rightarrow> py_value \<Rightarrow> py_value \<Rightarrow> debt_account res" where
  "make_debt_account i nm p r q =
     (case i of IntV i' \<Rightarrow>
       (case nm of StrV nm' \<Rightarrow>
         (case p of DecimalV p' \<Rightarrow>
           (case r of DecimalV r' \<Rightarrow>
             (case q of DecimalV q' \<Rightarrow>
                if p' < 0 then Inl ValueError
                else if r' < 0 then Inl ValueError
                else if q' < 0 then Inl ValueError
                else Inr \<lparr>account_id = i', debt_name = nm', current_principal = p', debt_rate = r',
                          minimum_payment = q'\<rparr>
              | _ \<Rightarrow> Inl TypeError)
            | _ \<Rightarrow> Inl TypeError)
          | _ \<Rightarrow> Inl TypeError)
        | _ \<Rightarrow> Inl TypeError)
      | _ \<Rightarrow> Inl TypeError)"

record account_payoff =
  po_account_id :: int
  po_name :: string
  payoff_month :: int
  payoff_date :: date
  po_total_interest :: dec
  po_total_paid :: dec
  balance_timeline :: "dec list"

record strategy_result =
  per_account :: "account_payoff list"
  total_interest :: dec
  total_paid :: dec
  debt_free_date :: date
  total_months :: int
  strategy_name :: string
  horizon_reached :: bool

record strategy_request =
  debts :: "debt_account list"
  extra_monthly :: py_value
  strategy :: string
  custom_order :: "int list option"
  start_date :: "date option"
  max_horizon_months :: int

definition DEFAULT_MAX_HORIZON_MONTHS :: int where "DEFAULT_MAX_HORIZON_MONTHS = 600"
definition STRATEGY_AVALANCHE :: string where "STRATEGY_AVALANCHE = ''avalanche''"
definition STRATEGY_SNOWBALL :: string where "STRATEGY_SNOWBALL = ''snowball''"
definition STRATEGY_CUSTOM :: string where "STRATEGY_CUSTOM = ''custom''"

section \<open>Validation\<close>

definition validate_custom_order :: "debt_account list \<Rightarrow> int list option \<Rightarrow> unit res" where
  "validate_custom_order active_debts order =
     (case order of
        None \<Rightarrow> Inl ValueError
      | Some ids \<Rightarrow>
          if ids = [] then Inl ValueError
          else if length ids \<noteq> card (set ids) then Inl ValueError
          else if set (map account_id active_debts) - set ids \<noteq> {} then Inl ValueError
          else if set ids - set (map account_id active_debts) \<noteq> {} then Inl ValueError
          else Inr ())"

text \<open>The checks in the order of the source; the value is the extra payment, now known to be a Decimal.\<close>

definition validate_inputs ::
  "debt_account list \<Rightarrow> py_value \<Rightarrow> string \<Rightarrow> int list option \<Rightarrow> dec res" where
  "validate_inputs active_debts extra strat order =
     (if active_debts = [] then Inl ValueError
      else case extra of
        DecimalV x \<Rightarrow>
          if x < 0 then Inl ValueError
          else if strat \<notin> {STRATEGY_AVALANCHE, STRATEGY_SNOWBALL, STRATEGY_CUSTOM} then Inl ValueError
          else if list_ex (\<lambda>d. minimum_payment d \<le> 0) active_debts then Inl ValueError
          else if strat = STRATEGY_CUSTOM
          then bind_res (validate_custom_order active_debts order) (\<lambda>_. Inr x)
          else Inr x
      | _ \<Rightarrow> Inl TypeError)"

section \<open>Priority order\<close>

definition positions :: "int list \<Rightarrow> int \<Rightarrow> nat option" where
  "positions ids = map_of (rev (zip ids [0 ..< length ids]))"

definition sort_debts :: "debt_account list \<Rightarrow> string \<Rightarrow> int list option \<Rightarrow> debt_account list res" where
  "sort_debts ds strat order =
     (if strat = STRATEGY_AVALANCHE
      then Inr (sort_key (\<lambda>d. (- debt_rate d, current_principal d, account_id d)) ds)
      else if strat = STRATEGY_SNOWBALL
      then Inr (sort_key (\<lambda>d. (current_principal d, - debt_rate d, account_id d)) ds)
      else case order of
        None \<Rightarrow> Inl TypeError
      | Some ids \<Rightarrow>
          if list_ex (\<lambda>d. positions ids (account_id d) = None) ds then Inl KeyError
          else Inr (sort_key (\<lambda>d. the (positions ids (account_id d))) ds))"

section \<open>The simulation\<close>

definition snap_to_zero :: "dec \<Rightarrow> dec" where
  "snap_to_zero balance = (let result = round_money balance in if result < 0 then 0 else result)"

record sim_state =
  sorted_debts :: "debt_account list"
  balances :: "dec list"
  interest_totals :: "dec list"
  paid_totals :: "dec list"
  payoff_months :: "int list"
  timelines :: "dec list list"

definition initialize :: "debt_account list \<Rightarrow> sim_state" where
  "initialize ds =
     \<lparr>sorted_debts = ds, balances = map current_principal ds,
      interest_totals = replicate (length ds) 0, paid_totals = replicate (length ds) 0,
      payoff_months = replicate (length ds) 0, timelines = map (\<lambda>d. [current_principal d]) ds\<rparr>"

definition accrue_at :: "sim_state \<Rightarrow> nat \<Rightarrow> sim_state" where
  "accrue_at s i =
     (if balances s ! i \<le> 0 then s
      else let interest = accrue_monthly_interest (balances s ! i) (debt_rate (sorted_debts s ! i))
           in s\<lparr>balances := (balances s)[i := dadd (balances s ! i) interest],
                interest_totals := (interest_totals s)[i := dadd (interest_totals s ! i) interest]\<rparr>)"

definition accrue_interest :: "sim_state \<Rightarrow> sim_state" where
  "accrue_interest s = foldl accrue_at s [0 ..< length (sorted_debts s)]"

definition minimum_at :: "int \<Rightarrow> sim_state \<times> dec \<times> dec \<Rightarrow> nat \<Rightarrow> sim_state \<times> dec \<times> dec" where
  "minimum_at month acc i =
     (case acc of (s, minimum_surplus, newly_freed) \<Rightarrow>
        if balances s ! i \<le> 0 then acc
        else let debt = sorted_debts s ! i;
                 min_pay = min (minimum_payment debt) (balances s ! i);
                 balance = snap_to_zero (dsub (balances s ! i) min_pay);
                 s' = s\<lparr>balances := (balances s)[i := balance],
                        paid_totals := (paid_totals s)[i := dadd (paid_totals s ! i) min_pay]\<rparr>
             in if balance \<le> 0 \<and> payoff_months s ! i = 0
                then (s'\<lparr>payoff_months := (payoff_months s)[i := month]\<rparr>,
                      dadd minimum_surplus (dsub (minimum_payment debt) min_pay),
                      dadd newly_freed (minimum_payment debt))
                else (s', minimum_surplus, newly_freed))"

definition apply_minimum_payments :: "sim_state \<Rightarrow> int \<Rightarrow> sim_state \<times> dec \<times> dec" where
  "apply_minimum_payments s month =
     foldl (minimum_at month) (s, 0, 0) [0 ..< length (sorted_debts s)]"

fun cascade_loop :: "int \<Rightarrow> sim_state \<Rightarrow> dec \<Rightarrow> dec \<Rightarrow> nat list \<Rightarrow> sim_state \<times> dec" where
  "cascade_loop month s remaining newly_freed [] = (s, newly_freed)"
| "cascade_loop month s remaining newly_freed (i # js) =
     (if remaining \<le> 0 then (s, newly_freed)
      else if balances s ! i \<le> 0 then cascade_loop month s remaining newly_freed js
      else let debt = sorted_debts s ! i;
               extra_pay = min remaining (balances s ! i);
               balance = snap_to_zero (dsub (balances s ! i) extra_pay);
               s' = s\<lparr>balances := (balances s)[i := balance],
                      paid_totals := (paid_totals s)[i := dadd (paid_totals s ! i) extra_pay]\<rparr>
           in if balance \<le> 0 \<and> payoff_months s ! i = 0
              then cascade_loop month (s'\<lparr>payoff_months := (payoff_months s)[i := month]\<rparr>)
                     (dsub remaining extra_pay) (dadd newly_freed (minimum_payment debt)) js
              else cascade_loop month s' (dsub remaining extra_pay) newly_freed js)"

definition cascade_extra_payments :: "sim_state \<Rightarrow> int \<Rightarrow> dec \<Rightarrow> sim_state \<times> dec" where
  "cascade_extra_payments s month available_extra =
     cascade_loop month s available_extra 0 [0 ..< length (sorted_debts s)]"

definition simulate_month :: "sim_state \<Rightarrow> int \<Rightarrow> dec \<Rightarrow> sim_state \<times> dec" where
  "simulate_month s month extra_pool =
     (let s1 = accrue_interest s;
          (s2, minimum_surplus, freed_from_min) = apply_minimum_payments s1 month;
          available_extra = dadd extra_pool minimum_surplus;
          (s3, freed_from_extra) = cascade_extra_payments s2 month available_extra;
          s4 = s3\<lparr>timelines := map2 (\<lambda>t b. t @ [b]) (timelines s3) (balances s3)\<rparr>
      in (s4, dadd freed_from_min freed_from_extra))"

text \<open>
  The month loop: \<open>Some (month - 1)\<close> is the month the \<open>break\<close> reports, \<open>None\<close> an exhausted horizon.
\<close>

fun simulate_loop :: "int list \<Rightarrow> sim_state \<Rightarrow> dec \<Rightarrow> sim_state \<times> int option" where
  "simulate_loop [] s extra_pool = (s, None)"
| "simulate_loop (month # months) s extra_pool =
     (if list_all (\<lambda>b. b \<le> 0) (balances s) then (s, Some (month - 1))
      else let (s', freed) = simulate_month s month extra_pool
           in simulate_loop months s' (dadd extra_pool freed))"

definition payoff_of :: "sim_state \<Rightarrow> date \<Rightarrow> nat \<Rightarrow> account_payoff" where
  "payoff_of s start i =
     \<lparr>po_account_id = account_id (sorted_debts s ! i), po_name = debt_name (sorted_debts s ! i),
      payoff_month = payoff_months s ! i, payoff_date = add_months start (payoff_months s ! i),
      po_total_interest = round_money (interest_totals s ! i),
      po_total_paid = round_money (paid_totals s ! i),
      balance_timeline = timelines s ! i\<rparr>"

definition build_result :: "sim_state \<Rightarrow> date \<Rightarrow> int \<Rightarrow> string \<Rightarrow> bool \<Rightarrow> strategy_result" where
  "build_result s start final_month strat reached =
     (let accounts = map (payoff_of s start) [0 ..< length (sorted_debts s)]
      in \<lparr>per_account = accounts,
          total_interest = dsum (map po_total_interest accounts),
          total_paid = dsum (map po_total_paid accounts),
          debt_free_date = add_months start final_month,
          total_months = final_month, strategy_name = strat, horizon_reached = reached\<rparr>)"

definition calculate_strategy :: "date \<Rightarrow> strategy_request \<Rightarrow> strategy_result res" where
  "calculate_strategy today request =
     (let active_debts = [d \<leftarrow> debts request. 0 < current_principal d]
      in bind_res (validate_inputs active_debts (extra_monthly request) (strategy request) (custom_order request))
         (\<lambda>extra. bind_res (sort_debts active_debts (strategy request) (custom_order request))
         (\<lambda>sorted_active.
            let start = (case start_date request of None \<Rightarrow> today | Some d \<Rightarrow> d);
                max_horizon = max_horizon_months request;
                (s, broke) = simulate_loop [1 .. max_horizon] (initialize sorted_active) extra;
                final_month = (case broke of None \<Rightarrow> max_horizon | Some k \<Rightarrow> k);
                reached = (case broke of None \<Rightarrow> list_ex (\<lambda>b. 0 < b) (balances s) | Some k \<Rightarrow> False);
                s' = s\<lparr>payoff_months := map (\<lambda>k. if k = 0 then max_horizon else k) (payoff_months s)\<rparr>
            in Inr (build_result s' start final_month (strategy request) reached))))"

section \<open>Bounds\<close>

text \<open>
  A debt the database can hold: a positive principal and a positive minimum of a money column, and a
  rate of at most 36%, the rate \<open>growth\<close> is sized for.
\<close>

definition debt_ok :: "debt_account \<Rightarrow> bool" where
  "debt_ok d = (in_column (current_principal d) \<and> 0 < current_principal d \<and>
                in_column (minimum_payment d) \<and> 0 < minimum_payment d \<and>
                0 \<le> debt_rate d \<and> debt_rate d \<le> 36/100)"

section \<open>The books of the simulation\<close>

abbreviation positions_of :: "sim_state \<Rightarrow> nat" where
  "positions_of s \<equiv> length (sorted_debts s)"

definition paid_sum :: "sim_state \<Rightarrow> dec" where
  "paid_sum s = (\<Sum>i<positions_of s. paid_totals s ! i)"

definition active_minimums :: "sim_state \<Rightarrow> dec" where
  "active_minimums s =
     (\<Sum>i<positions_of s. if 0 < balances s ! i then minimum_payment (sorted_debts s ! i) else 0)"

text \<open>
  The books of one debt: what it still owes and what was paid on it is what it owed plus what it was
  charged, and its payoff month is set exactly when it owes nothing.
\<close>

definition debt_books :: "dec \<Rightarrow> sim_state \<Rightarrow> nat \<Rightarrow> bool" where
  "debt_books B s i =
     (debt_ok (sorted_debts s ! i) \<and>
      is_cents (balances s ! i) \<and> 0 \<le> balances s ! i \<and> balances s ! i \<le> B \<and>
      is_cents (interest_totals s ! i) \<and> 0 \<le> interest_totals s ! i \<and>
      is_cents (paid_totals s ! i) \<and> 0 \<le> paid_totals s ! i \<and>
      balances s ! i + paid_totals s ! i =
        current_principal (sorted_debts s ! i) + interest_totals s ! i \<and>
      (payoff_months s ! i = 0 \<longleftrightarrow> 0 < balances s ! i))"

definition sound :: "dec \<Rightarrow> sim_state \<Rightarrow> bool" where
  "sound B s =
     (length (balances s) = positions_of s \<and> length (interest_totals s) = positions_of s \<and>
      length (paid_totals s) = positions_of s \<and> length (payoff_months s) = positions_of s \<and>
      length (timelines s) = positions_of s \<and>
      (\<forall>i < positions_of s. debt_books B s i))"

lemma soundD:
  assumes "sound B s"
  shows "length (balances s) = positions_of s" "length (interest_totals s) = positions_of s"
    "length (paid_totals s) = positions_of s" "length (payoff_months s) = positions_of s"
    "length (timelines s) = positions_of s" "i < positions_of s \<Longrightarrow> debt_books B s i"
  using assms by (simp_all add: sound_def)

lemma debt_booksD:
  assumes "debt_books B s i"
  shows "debt_ok (sorted_debts s ! i)" "is_cents (balances s ! i)" "0 \<le> balances s ! i"
    "balances s ! i \<le> B" "is_cents (interest_totals s ! i)" "0 \<le> interest_totals s ! i"
    "is_cents (paid_totals s ! i)" "0 \<le> paid_totals s ! i"
    "balances s ! i + paid_totals s ! i = current_principal (sorted_debts s ! i) + interest_totals s ! i"
    "payoff_months s ! i = 0 \<longleftrightarrow> 0 < balances s ! i"
  using assms by (simp_all add: debt_books_def)

lemma debt_okD:
  assumes "debt_ok d"
  shows "in_column (current_principal d)" "0 < current_principal d" "in_column (minimum_payment d)"
    "0 < minimum_payment d" "0 \<le> debt_rate d" "debt_rate d \<le> 36/100"
    "is_cents (minimum_payment d)" "minimum_payment d \<le> 10 ^ 10" "current_principal d \<le> 10 ^ 10"
  using assms by (auto simp: debt_ok_def in_column_def MONEY_COLUMN_MAX_def)

lemma paid_le_sum:
  assumes "sound B s" "i < positions_of s"
  shows "paid_totals s ! i \<le> paid_sum s"
  unfolding paid_sum_def
  by (rule member_le_sum) (use assms in \<open>auto dest: soundD(6) debt_booksD\<close>)

lemma paid_sum_nonneg: "sound B s \<Longrightarrow> 0 \<le> paid_sum s"
  unfolding paid_sum_def by (rule sum_nonneg) (auto dest: soundD(6) debt_booksD)

lemma active_minimums_nonneg: "sound B s \<Longrightarrow> 0 \<le> active_minimums s"
  unfolding active_minimums_def
  by (rule sum_nonneg) (auto dest!: soundD(6) debt_booksD(1) debt_okD(4))

lemma is_cents_sum: "(\<And>i. i \<in> A \<Longrightarrow> is_cents (f i)) \<Longrightarrow> is_cents (sum f A)"
  by (induction A rule: infinite_finite_induct) (auto intro: is_cents_add)

lemma is_cents_active_minimums: "sound B s \<Longrightarrow> is_cents (active_minimums s)"
  unfolding active_minimums_def
  by (rule is_cents_sum) (auto dest!: soundD(6) debt_booksD(1) debt_okD(7))

text \<open>A sum over positions after one entry of the list has changed.\<close>

lemma sum_list_update_index:
  fixes h :: "'a \<Rightarrow> nat \<Rightarrow> rat"
  assumes "i < n" "n = length xs"
  shows "(\<Sum>j<n. h (xs[i := v] ! j) j) = (\<Sum>j<n. h (xs ! j) j) - h (xs ! i) i + h v i"
proof -
  have "(\<Sum>j<n. h (xs[i := v] ! j) j) = h v i + (\<Sum>j\<in>{..<n} - {i}. h (xs[i := v] ! j) j)"
    using assms by (subst sum.remove[of _ i]) simp_all
  also have "(\<Sum>j\<in>{..<n} - {i}. h (xs[i := v] ! j) j) = (\<Sum>j\<in>{..<n} - {i}. h (xs ! j) j)"
    by (rule sum.cong) auto
  also have "(\<Sum>j\<in>{..<n} - {i}. h (xs ! j) j) = (\<Sum>j<n. h (xs ! j) j) - h (xs ! i) i"
    using assms by (subst (2) sum.remove[of _ i]) simp_all
  finally show ?thesis by simp
qed

subsection \<open>One payment\<close>

definition pay_at :: "int \<Rightarrow> dec \<Rightarrow> sim_state \<Rightarrow> nat \<Rightarrow> sim_state" where
  "pay_at month x s i =
     s\<lparr>balances := (balances s)[i := balances s ! i - x],
       paid_totals := (paid_totals s)[i := paid_totals s ! i + x],
       payoff_months := (payoff_months s)[i := if balances s ! i - x \<le> 0 then month else payoff_months s ! i]\<rparr>"

lemma pay_at_simps [simp]:
  "sorted_debts (pay_at month x s i) = sorted_debts s"
  "interest_totals (pay_at month x s i) = interest_totals s"
  "timelines (pay_at month x s i) = timelines s"
  "balances (pay_at month x s i) = (balances s)[i := balances s ! i - x]"
  by (simp_all add: pay_at_def)

lemma pay_at_code:
  assumes "payoff_months s ! i = 0"
  shows "pay_at month x s i =
    (if balances s ! i - x \<le> 0
     then s\<lparr>balances := (balances s)[i := balances s ! i - x],
            paid_totals := (paid_totals s)[i := paid_totals s ! i + x],
            payoff_months := (payoff_months s)[i := month]\<rparr>
     else s\<lparr>balances := (balances s)[i := balances s ! i - x],
            paid_totals := (paid_totals s)[i := paid_totals s ! i + x]\<rparr>)"
proof -
  have "(payoff_months s)[i := 0] = payoff_months s" using list_update_id[of "payoff_months s" i] assms by simp
  then show ?thesis using assms by (intro sim_state.equality) (simp_all add: pay_at_def)
qed

lemma pay_at_sound:
  assumes "sound B s" "i < positions_of s" "1 \<le> month" "is_cents x" "0 < x" "x \<le> balances s ! i"
  shows "sound B (pay_at month x s i)"
    "paid_sum (pay_at month x s i) = paid_sum s + x"
    "active_minimums (pay_at month x s i) =
       active_minimums s - (if balances s ! i = x then minimum_payment (sorted_debts s ! i) else 0)"
proof -
  note len = soundD(1-5)[OF assms(1)]
  have b: "debt_books B s i" using assms(1,2) by (rule soundD(6))
  have "debt_books B (pay_at month x s i) j" if j: "j < positions_of s" for j
  proof (cases "j = i")
    case True
    have "debt_books B (pay_at month x s i) i"
      using debt_booksD[OF b] assms(2-6) len
      unfolding debt_books_def by (simp add: pay_at_def is_cents_diff is_cents_add)
    with True show ?thesis by simp
  next
    case False
    then show ?thesis using soundD(6)[OF assms(1) j] by (simp add: debt_books_def pay_at_def)
  qed
  then show "sound B (pay_at month x s i)" using len by (simp add: sound_def) (simp add: pay_at_def)
  show "paid_sum (pay_at month x s i) = paid_sum s + x"
  proof -
    have "(\<Sum>j<positions_of s. (\<lambda>p j. p) ((paid_totals s)[i := paid_totals s ! i + x] ! j) j) =
        (\<Sum>j<positions_of s. (\<lambda>p j. p) (paid_totals s ! j) j) - paid_totals s ! i + (paid_totals s ! i + x)"
      by (rule sum_list_update_index) (use assms(2) len in simp_all)
    then show ?thesis by (simp add: paid_sum_def pay_at_def)
  qed
  show "active_minimums (pay_at month x s i) =
       active_minimums s - (if balances s ! i = x then minimum_payment (sorted_debts s ! i) else 0)"
  proof -
    let ?m = "\<lambda>p j. if 0 < (p :: dec) then minimum_payment (sorted_debts s ! j) else 0"
    have E: "(\<Sum>j<positions_of s. ?m ((balances s)[i := balances s ! i - x] ! j) j) =
        (\<Sum>j<positions_of s. ?m (balances s ! j) j) - ?m (balances s ! i) i + ?m (balances s ! i - x) i"
      by (rule sum_list_update_index) (use assms(2) len in simp_all)
    have "0 < balances s ! i" "0 < balances s ! i - x \<longleftrightarrow> balances s ! i \<noteq> x"
      using assms(5,6) by auto
    then show ?thesis unfolding active_minimums_def pay_at_simps E by simp
  qed
qed

subsection \<open>Interest\<close>

lemma sound_weaken: "sound B s \<Longrightarrow> B \<le> C \<Longrightarrow> sound C s"
  by (fastforce simp: sound_def debt_books_def)

text \<open>Everything the simulation adds is in range, given the bound on balances and the sum paid.\<close>

lemma interest_total_bound:
  assumes "sound B s" "i < positions_of s" "B \<le> 10 ^ 19" "paid_sum s \<le> 10 ^ 17"
  shows "interest_totals s ! i \<le> 2 * 10 ^ 19"
proof -
  note b = debt_booksD[OF soundD(6)[OF assms(1,2)]]
  have "interest_totals s ! i \<le> balances s ! i + paid_totals s ! i"
    using b(9) debt_okD(2)[OF b(1)] by linarith
  also have "\<dots> \<le> 10 ^ 19 + 10 ^ 17"
    using b(4) assms(3,4) paid_le_sum[OF assms(1,2)] by linarith
  finally show ?thesis by simp
qed

lemma accrue_at_sound:
  assumes "sound C s" "i < positions_of s" "balances s ! i \<le> B" "10 \<le> B" "B * 1031/1000 \<le> C"
    and "C \<le> 10 ^ 19" "paid_sum s \<le> 10 ^ 17"
  defines "t \<equiv> accrue_at s i"
  shows "sound C t" "sorted_debts t = sorted_debts s" "paid_totals t = paid_totals s"
    "payoff_months t = payoff_months s" "timelines t = timelines s"
    "\<And>j. j \<noteq> i \<Longrightarrow> balances t ! j = balances s ! j"
    "\<And>j. j < positions_of s \<Longrightarrow> 0 < balances t ! j \<longleftrightarrow> 0 < balances s ! j"
proof -
  note len = soundD(1-5)[OF assms(1)]
  have books: "debt_books C s i" using assms(1,2) by (rule soundD(6))
  note b = debt_booksD[OF books] and d = debt_okD[OF debt_booksD(1)[OF books]]
  define x where "x = accrue_monthly_interest (balances s ! i) (debt_rate (sorted_debts s ! i))"
  have x: "is_cents x" "0 \<le> x" "x \<le> balances s ! i * (305/10000) + 1/200"
    unfolding x_def using b(3) d(5,6) by (simp, intro accrue_nonneg, simp, intro accrual_growth)
  have grown: "balances s ! i + x \<le> C" using x(3) assms(3,4,5) b(3) by (simp add: field_simps)
  have "x \<le> 10 ^ 19" using grown assms(6) b(3) by linarith
  then have sums: "dadd (balances s ! i) x = balances s ! i + x"
      "dadd (interest_totals s ! i) x = interest_totals s ! i + x"
    using b x grown assms(6) interest_total_bound[OF assms(1,2,6,7)]
    by (auto intro!: dadd_amount amount_nonneg)
  have t: "t = (if balances s ! i \<le> 0 then s
      else s\<lparr>balances := (balances s)[i := balances s ! i + x],
             interest_totals := (interest_totals s)[i := interest_totals s ! i + x]\<rparr>)"
    by (simp add: t_def accrue_at_def Let_def x_def[symmetric] sums)
  show "sorted_debts t = sorted_debts s" "paid_totals t = paid_totals s"
    "payoff_months t = payoff_months s" "timelines t = timelines s"
    "\<And>j. j \<noteq> i \<Longrightarrow> balances t ! j = balances s ! j" by (simp_all add: t)
  show "0 < balances t ! j \<longleftrightarrow> 0 < balances s ! j" if "j < positions_of s" for j
    using that b x(2) len by (cases "j = i") (simp_all add: t)
  have "debt_books C t j" if j: "j < positions_of s" for j
  proof (cases "j = i \<and> 0 < balances s ! i")
    case True
    then show ?thesis using b x grown len assms(2)
      unfolding debt_books_def t by (simp add: is_cents_add)
  next
    case False
    then show ?thesis using soundD(6)[OF assms(1) j] by (auto simp: debt_books_def t)
  qed
  then show "sound C t" using len by (auto simp: sound_def t)
qed

lemma accrue_interest_sound:
  assumes "sound B s" "10 \<le> B" "B * 1031/1000 \<le> C" "C \<le> 10 ^ 19" "paid_sum s \<le> 10 ^ 17"
  defines "t \<equiv> accrue_interest s"
  shows "sound C t" "sorted_debts t = sorted_debts s" "paid_totals t = paid_totals s"
    "payoff_months t = payoff_months s" "timelines t = timelines s"
    "\<And>j. j < positions_of s \<Longrightarrow> 0 < balances t ! j \<longleftrightarrow> 0 < balances s ! j"
proof -
  have BC: "B \<le> C" using assms(2,3) by simp
  define f where "f = (\<lambda>k. foldl accrue_at s [0 ..< k])"
  have "k \<le> positions_of s \<Longrightarrow> sound C (f k) \<and> sorted_debts (f k) = sorted_debts s \<and>
      paid_totals (f k) = paid_totals s \<and> payoff_months (f k) = payoff_months s \<and>
      timelines (f k) = timelines s \<and> (\<forall>j \<ge> k. balances (f k) ! j = balances s ! j) \<and>
      (\<forall>j < positions_of s. 0 < balances (f k) ! j \<longleftrightarrow> 0 < balances s ! j)" for k
  proof (induction k)
    case 0
    then show ?case using sound_weaken[OF assms(1) BC] by (simp add: f_def)
  next
    case (Suc k)
    then have IH: "sound C (f k)" "sorted_debts (f k) = sorted_debts s"
      "paid_totals (f k) = paid_totals s" "payoff_months (f k) = payoff_months s"
      "timelines (f k) = timelines s" "\<forall>j \<ge> k. balances (f k) ! j = balances s ! j"
      "\<forall>j < positions_of s. 0 < balances (f k) ! j \<longleftrightarrow> 0 < balances s ! j" by auto
    have k: "k < positions_of (f k)" using Suc.prems IH(2) by simp
    have bk: "balances (f k) ! k \<le> B"
      using IH(6) soundD(6)[OF assms(1), of k] Suc.prems by (auto dest: debt_booksD)
    have ps: "paid_sum (f k) \<le> 10 ^ 17" using assms(5) IH(2,3) by (simp add: paid_sum_def)
    have F: "f (Suc k) = accrue_at (f k) k" by (simp add: f_def)
    note step = accrue_at_sound[OF IH(1) k bk assms(2,3,4) ps]
    show ?case unfolding F using step IH by (simp add: IH)
  qed
  from this[of "positions_of s"] show "sound C t" "sorted_debts t = sorted_debts s"
    "paid_totals t = paid_totals s" "payoff_months t = payoff_months s" "timelines t = timelines s"
    "\<And>j. j < positions_of s \<Longrightarrow> 0 < balances t ! j \<longleftrightarrow> 0 < balances s ! j"
    by (simp_all add: t_def accrue_interest_def f_def)
qed

subsection \<open>Minimum payments\<close>

lemma snap_cents: "is_cents x \<Longrightarrow> 0 \<le> x \<Longrightarrow> snap_to_zero x = x"
  by (simp add: snap_to_zero_def Let_def)

lemma is_cents_min2: "is_cents x \<Longrightarrow> is_cents y \<Longrightarrow> is_cents (min x y)"
  by (simp add: min_def)

lemma minimum_at_pay:
  assumes "sound B s" "B \<le> 10 ^ 19" "i < positions_of s" "paid_sum s \<le> 10 ^ 17" "0 < balances s ! i"
  defines "d \<equiv> sorted_debts s ! i" and "x \<equiv> min (minimum_payment (sorted_debts s ! i)) (balances s ! i)"
  shows "minimum_at month (s, surplus, freed) i =
    (pay_at month x s i,
     if balances s ! i = x then dadd surplus (minimum_payment d - x) else surplus,
     if balances s ! i = x then dadd freed (minimum_payment d) else freed)"
proof -
  note b = debt_booksD[OF soundD(6)[OF assms(1,3)]]
  note dk = debt_okD[OF b(1)]
  have x: "is_cents x" "0 < x" "x \<le> balances s ! i" "x \<le> 10 ^ 10" "x \<le> minimum_payment d"
    using b(2) dk assms(5) by (auto simp: x_def d_def intro: is_cents_min2)
  have big: "balances s ! i \<le> 10 ^ 19" using b(4) assms(2) by simp
  have sub: "dsub (balances s ! i) x = balances s ! i - x" "dsub (minimum_payment d) x = minimum_payment d - x"
    using b(2,3) x big dk by (auto intro!: dsub_amount amount_nonneg simp: d_def)
  have add: "dadd (paid_totals s ! i) x = paid_totals s ! i + x"
    using b(7,8) x paid_le_sum[OF assms(1,3)] assms(4) by (auto intro!: dadd_amount amount_nonneg)
  have snap: "snap_to_zero (balances s ! i - x) = balances s ! i - x"
    using b(2) x by (intro snap_cents is_cents_diff) simp_all
  have p0: "payoff_months s ! i = 0" using b(10) assms(5) by simp
  have off: "balances s ! i - x \<le> 0 \<longleftrightarrow> balances s ! i = x" using x(3) by auto
  have "minimum_at month (s, surplus, freed) i =
     (let balance = snap_to_zero (dsub (balances s ! i) x);
          s' = s\<lparr>balances := (balances s)[i := balance],
                 paid_totals := (paid_totals s)[i := dadd (paid_totals s ! i) x]\<rparr>
      in if balance \<le> 0 \<and> payoff_months s ! i = 0
         then (s'\<lparr>payoff_months := (payoff_months s)[i := month]\<rparr>,
               dadd surplus (dsub (minimum_payment d) x), dadd freed (minimum_payment d))
         else (s', surplus, freed))"
    using assms(5) by (simp add: minimum_at_def Let_def x_def d_def)
  also have "\<dots> = (if balances s ! i = x
      then (pay_at month x s i, dadd surplus (minimum_payment d - x), dadd freed (minimum_payment d))
      else (pay_at month x s i, surplus, freed))"
    unfolding Let_def sub add snap off pay_at_code[OF p0] p0
    by (cases "balances s ! i = x") (simp_all only: simp_thms if_True if_False)
  finally show ?thesis by simp
qed

lemma apply_minimum_payments_sound:
  assumes "sound B s" "B \<le> 10 ^ 19" "1 \<le> month" "paid_sum s + active_minimums s \<le> 10 ^ 17"
    and "apply_minimum_payments s month = (t, surplus, freed)"
  shows "sound B t" "sorted_debts t = sorted_debts s" "timelines t = timelines s"
    "is_cents surplus" "0 \<le> surplus" "is_cents freed" "0 \<le> freed"
    "active_minimums t + freed = active_minimums s"
    "paid_sum t + surplus = paid_sum s + active_minimums s" "paid_sum s \<le> paid_sum t"
proof -
  define f where "f = (\<lambda>k. foldl (minimum_at month) (s, 0, 0) [0 ..< k])"
  define m where "m = (\<lambda>j. if 0 < balances s ! j then minimum_payment (sorted_debts s ! j) else 0)"
  have m0: "0 \<le> m j" if "j < positions_of s" for j
    using debt_okD(4)[OF debt_booksD(1)[OF soundD(6)[OF assms(1) that]]] by (simp add: m_def)
  have part: "(\<Sum>j<k. m j) \<le> active_minimums s" if "k \<le> positions_of s" for k
    unfolding active_minimums_def m_def[symmetric] by (rule sum_mono2) (use m0 that in auto)
  have "k \<le> positions_of s \<Longrightarrow> (case f k of (t, sur, fr) \<Rightarrow>
      sound B t \<and> sorted_debts t = sorted_debts s \<and> timelines t = timelines s \<and>
      (\<forall>j \<ge> k. balances t ! j = balances s ! j) \<and> is_cents sur \<and> 0 \<le> sur \<and> is_cents fr \<and> 0 \<le> fr \<and>
      active_minimums t + fr = active_minimums s \<and> paid_sum t + sur = paid_sum s + (\<Sum>j<k. m j) \<and>
      paid_sum s \<le> paid_sum t)" for k
  proof (induction k)
    case 0
    then show ?case using assms(1) by (simp add: f_def)
  next
    case (Suc k)
    obtain t sur fr where fk: "f k = (t, sur, fr)" by (cases "f k") auto
    with Suc have IH: "sound B t" "sorted_debts t = sorted_debts s" "timelines t = timelines s"
      "\<forall>j \<ge> k. balances t ! j = balances s ! j" "is_cents sur" "0 \<le> sur" "is_cents fr" "0 \<le> fr"
      "active_minimums t + fr = active_minimums s" "paid_sum t + sur = paid_sum s + (\<Sum>j<k. m j)"
      "paid_sum s \<le> paid_sum t" by auto
    have F: "f (Suc k) = minimum_at month (t, sur, fr) k" by (simp add: f_def flip: fk)
    have k: "k < positions_of t" using Suc.prems IH(2) by simp
    have bk: "balances t ! k = balances s ! k" using IH(4) by simp
    have total: "paid_sum t + sur \<le> 10 ^ 17" using IH(10) part[of k] Suc.prems assms(4) by simp
    show ?case
    proof (cases "0 < balances s ! k")
      case False
      then have "f (Suc k) = (t, sur, fr)" "m k = 0" using bk by (simp_all add: F minimum_at_def m_def)
      then show ?thesis using IH by simp
    next
      case True
      define x where "x = min (minimum_payment (sorted_debts t ! k)) (balances t ! k)"
      have ps: "paid_sum t \<le> 10 ^ 17" using total IH(6) by linarith
      note b = debt_booksD[OF soundD(6)[OF IH(1) k]]
      note dk = debt_okD[OF b(1)]
      have x: "is_cents x" "0 < x" "x \<le> balances t ! k" "x \<le> minimum_payment (sorted_debts t ! k)"
        "balances t ! k \<noteq> x \<longrightarrow> x = minimum_payment (sorted_debts t ! k)"
        using b(2) dk True bk by (auto simp: x_def min_def)
      have step: "f (Suc k) = (pay_at month x t k,
          if balances t ! k = x then dadd sur (minimum_payment (sorted_debts t ! k) - x) else sur,
          if balances t ! k = x then dadd fr (minimum_payment (sorted_debts t ! k)) else fr)"
        unfolding F x_def using True bk by (intro minimum_at_pay[OF IH(1) assms(2) k ps]) simp
      have "fr \<le> 10 ^ 17" using IH(9) active_minimums_nonneg[OF IH(1)] paid_sum_nonneg[OF assms(1)] assms(4) by linarith
      then have adds: "dadd sur (minimum_payment (sorted_debts t ! k) - x) =
          sur + (minimum_payment (sorted_debts t ! k) - x)"
        "dadd fr (minimum_payment (sorted_debts t ! k)) = fr + minimum_payment (sorted_debts t ! k)"
        using IH(5-8) x dk total paid_sum_nonneg[OF IH(1)]
        by (auto intro!: dadd_amount amount_nonneg is_cents_diff)
      note pay = pay_at_sound[OF IH(1) k assms(3) x(1-3)]
      have mk: "m k = minimum_payment (sorted_debts t ! k)" using True IH(2) by (simp add: m_def)
      show ?thesis unfolding step adds
        using IH x dk pay k by (auto simp: mk is_cents_add is_cents_diff)
    qed
  qed
  note inv = this
  have total: "(\<Sum>j<positions_of s. m j) = active_minimums s" by (simp add: active_minimums_def m_def)
  have last: "f (positions_of s) = (t, surplus, freed)"
    using assms(5) by (simp add: f_def apply_minimum_payments_def)
  show "sound B t" "sorted_debts t = sorted_debts s"
    "timelines t = timelines s" "is_cents surplus" "0 \<le> surplus" "is_cents freed" "0 \<le> freed"
    "active_minimums t + freed = active_minimums s"
    "paid_sum t + surplus = paid_sum s + active_minimums s" "paid_sum s \<le> paid_sum t"
    using inv[OF order_refl] unfolding last prod.case total by blast+
qed

subsection \<open>The cascade\<close>

lemma cascade_loop_sound:
  assumes "sound B s" "B \<le> 10 ^ 19" "1 \<le> month" "\<forall>i \<in> set js. i < positions_of s"
    and "is_cents rem" "0 \<le> rem" "paid_sum s + rem \<le> 10 ^ 17"
    and "is_cents fr" "0 \<le> fr" "fr + active_minimums s \<le> 10 ^ 17"
    and "cascade_loop month s rem fr js = (t, fr')"
  shows "sound B t \<and> sorted_debts t = sorted_debts s \<and> timelines t = timelines s \<and>
         is_cents fr' \<and> 0 \<le> fr' \<and> active_minimums t + fr' = active_minimums s + fr \<and>
         (\<forall>j < positions_of s. balances t ! j \<le> balances s ! j) \<and>
         paid_sum s \<le> paid_sum t \<and> paid_sum t \<le> paid_sum s + rem \<and>
         (paid_sum t = paid_sum s + rem \<or> (\<forall>i \<in> set js. balances t ! i = 0))"
  using assms
proof (induction js arbitrary: s rem fr)
  case Nil
  then show ?case by simp
next
  case (Cons i js)
  have i: "i < positions_of s" using Cons.prems(4) by simp
  note b = debt_booksD[OF soundD(6)[OF Cons.prems(1) i]]
  note dk = debt_okD[OF b(1)]
  show ?case
  proof (cases "rem \<le> 0")
    case True
    then show ?thesis using Cons.prems by simp
  next
    case rem: False
    show ?thesis
    proof (cases "balances s ! i \<le> 0")
      case True
      then have run: "cascade_loop month s rem fr js = (t, fr')" using Cons.prems(11) rem by simp
      have "\<forall>i \<in> set js. i < positions_of s" using Cons.prems(4) by simp
      note IH = Cons.IH[OF Cons.prems(1-3) this Cons.prems(5-10) run]
      have "sound B t" "positions_of t = positions_of s" "balances t ! i \<le> balances s ! i" using IH i by auto
      then have "balances t ! i = 0" using True i debt_booksD(3)[OF soundD(6), of B t i] by simp
      with IH show ?thesis by auto
    next
      case False
      define x where "x = min rem (balances s ! i)"
      have x: "is_cents x" "0 < x" "x \<le> balances s ! i" "x \<le> rem" "balances s ! i \<noteq> x \<Longrightarrow> x = rem"
        using b(2) Cons.prems(5) False rem by (auto simp: x_def min_def split: if_splits)
      have big: "balances s ! i \<le> 10 ^ 19" "rem \<le> 10 ^ 17" "paid_totals s ! i \<le> 10 ^ 17"
        using b(4) Cons.prems(2,6,7) paid_sum_nonneg[OF Cons.prems(1)] paid_le_sum[OF Cons.prems(1) i] by linarith+
      have sub: "dsub (balances s ! i) x = balances s ! i - x" "dsub rem x = rem - x"
        using b(2,3) x big Cons.prems(5,6) by (auto intro!: dsub_amount amount_nonneg)
      have add: "dadd (paid_totals s ! i) x = paid_totals s ! i + x"
        using b(7,8) x big by (auto intro!: dadd_amount amount_nonneg)
      have fr: "dadd fr (minimum_payment (sorted_debts s ! i)) = fr + minimum_payment (sorted_debts s ! i)"
        using Cons.prems(8-10) dk active_minimums_nonneg[OF Cons.prems(1)]
        by (auto intro!: dadd_amount amount_nonneg)
      have snap: "snap_to_zero (balances s ! i - x) = balances s ! i - x"
        using b(2) x by (intro snap_cents is_cents_diff) simp_all
      have p0: "payoff_months s ! i = 0" using b(10) False by simp
      have off: "balances s ! i - x \<le> 0 \<longleftrightarrow> balances s ! i = x" using x(3) by auto
      define fr1 where "fr1 = (if balances s ! i = x then fr + minimum_payment (sorted_debts s ! i) else fr)"
      have "cascade_loop month s rem fr (i # js) =
        (let balance = snap_to_zero (dsub (balances s ! i) x);
             s' = s\<lparr>balances := (balances s)[i := balance],
                    paid_totals := (paid_totals s)[i := dadd (paid_totals s ! i) x]\<rparr>
         in if balance \<le> 0 \<and> payoff_months s ! i = 0
            then cascade_loop month (s'\<lparr>payoff_months := (payoff_months s)[i := month]\<rparr>)
                   (dsub rem x) (dadd fr (minimum_payment (sorted_debts s ! i))) js
            else cascade_loop month s' (dsub rem x) fr js)"
        using rem False by (simp add: Let_def x_def)
      also have "\<dots> = cascade_loop month (pay_at month x s i) (rem - x) fr1 js"
        unfolding Let_def sub add snap off fr pay_at_code[OF p0] p0 fr1_def
        by (cases "balances s ! i = x") (simp_all only: simp_thms if_True if_False)
      finally have run: "cascade_loop month (pay_at month x s i) (rem - x) fr1 js = (t, fr')"
        using Cons.prems(11) by simp
      note pay = pay_at_sound[OF Cons.prems(1) i Cons.prems(3) x(1-3)]
      have js: "\<forall>i \<in> set js. i < positions_of (pay_at month x s i)" using Cons.prems(4) by simp
      have prems: "is_cents (rem - x)" "0 \<le> rem - x" "paid_sum (pay_at month x s i) + (rem - x) \<le> 10 ^ 17"
        "is_cents fr1" "0 \<le> fr1" "fr1 + active_minimums (pay_at month x s i) \<le> 10 ^ 17"
        using Cons.prems(5-10) x dk pay by (auto simp: fr1_def is_cents_diff is_cents_add)
      have js': "\<forall>j \<in> set js. j < positions_of (pay_at month x s i)" using Cons.prems(4) by simp
      note IH = Cons.IH[OF pay(1) Cons.prems(2,3) js' prems run]
      have bal: "balances t ! j \<le> balances s ! j" if "j < positions_of s" for j
      proof -
        have "balances t ! j \<le> balances (pay_at month x s i) ! j" using IH that by simp
        also have "\<dots> \<le> balances s ! j"
          using x(2) that soundD(1)[OF Cons.prems(1)] by (cases "j = i") simp_all
        finally show ?thesis .
      qed
      have act: "active_minimums t + fr' = active_minimums s + fr"
        using IH pay(3) by (simp add: fr1_def split: if_splits)
      have sum: "paid_sum t = paid_sum s + rem \<or> (\<forall>j \<in> set (i # js). balances t ! j = 0)"
      proof (cases "balances s ! i = x")
        case True
        have "balances t ! i \<le> 0"
        proof -
          have "balances t ! i \<le> balances (pay_at month x s i) ! i" using IH i by simp
          then show ?thesis using True i soundD(1)[OF Cons.prems(1)] by simp
        qed
        moreover have "0 \<le> balances t ! i"
          using IH i debt_booksD(3)[OF soundD(6), of B t i] by simp
        ultimately show ?thesis using IH pay(2) by auto
      next
        case False
        then have "paid_sum t = paid_sum s + rem" using IH pay(2) x(5) by simp
        then show ?thesis ..
      qed
      have "paid_sum s \<le> paid_sum t" "paid_sum t \<le> paid_sum s + rem"
        using IH pay(2) x(2) by simp_all
      with IH act sum bal show ?thesis by simp
    qed
  qed
qed

subsection \<open>Payoff months\<close>

text \<open>A payoff month, once set, stays; a new one is the current month.\<close>

definition payoff_step :: "int \<Rightarrow> sim_state \<Rightarrow> sim_state \<Rightarrow> bool" where
  "payoff_step month s t \<longleftrightarrow>
     (\<forall>i. payoff_months t ! i = payoff_months s ! i \<or>
          payoff_months s ! i = 0 \<and> payoff_months t ! i = month)"

lemma payoff_step_refl: "payoff_months t = payoff_months s \<Longrightarrow> payoff_step month s t"
  by (simp add: payoff_step_def)

lemma payoff_step_trans: "payoff_step month s t \<Longrightarrow> payoff_step month t u \<Longrightarrow> payoff_step month s u"
  unfolding payoff_step_def by metis

lemma payoff_step_set:
  assumes "payoff_months t = (payoff_months s)[i := month]" "payoff_months s ! i = 0"
  shows "payoff_step month s t"
proof (cases "i < length (payoff_months s)")
  case True
  with assms show ?thesis by (auto simp: payoff_step_def nth_list_update)
next
  case False
  then have "(payoff_months s)[i := month] = payoff_months s" by (simp add: list_update_beyond)
  with assms(1) show ?thesis by (intro payoff_step_refl) simp
qed

lemma payoff_step_minimum: "payoff_step month s (fst (minimum_at month (s, a, b) i))"
  by (auto simp: minimum_at_def Let_def intro: payoff_step_refl payoff_step_set)

lemma payoff_step_minimums:
  "payoff_step month s (fst (foldl (minimum_at month) (s, a, b) js))"
proof (induction js arbitrary: s a b)
  case Nil
  show ?case by (simp add: payoff_step_refl)
next
  case (Cons i js)
  obtain u c d where u: "minimum_at month (s, a, b) i = (u, c, d)" by (cases "minimum_at month (s, a, b) i") auto
  then have "payoff_step month s u" using payoff_step_minimum[of month s a b i] by simp
  with Cons[of u c d] show ?case by (simp add: u payoff_step_trans)
qed

lemma payoff_step_cascade: "payoff_step month s (fst (cascade_loop month s rem fr js))"
proof (induction js arbitrary: s rem fr)
  case (Cons i js)
  show ?case
    using Cons[of s rem fr]
    by (auto simp: Let_def payoff_step_refl intro!: payoff_step_trans[OF _ Cons]
        intro: payoff_step_refl payoff_step_set)
qed (simp add: payoff_step_refl)

subsection \<open>One month\<close>

lemma simulate_month_sound:
  assumes "sound B s" "10 \<le> B" "B * 1031/1000 \<le> C" "C \<le> 10 ^ 19" "1 \<le> month"
    and "is_cents pool" "0 \<le> pool" "paid_sum s + pool + active_minimums s \<le> 10 ^ 16"
    and "simulate_month s month pool = (t, freed)"
  shows "sound C t" "sorted_debts t = sorted_debts s"
    "timelines t = map2 (\<lambda>ts b. ts @ [b]) (timelines s) (balances t)"
    "is_cents freed" "0 \<le> freed" "active_minimums t + freed = active_minimums s"
    "paid_sum s \<le> paid_sum t" "paid_sum t \<le> paid_sum s + pool + active_minimums s"
    "paid_sum t = paid_sum s + pool + active_minimums s \<or> (\<forall>i < positions_of s. balances t ! i = 0)"
    "payoff_step month s t"
proof -
  define s1 where "s1 = accrue_interest s"
  obtain s2 sur fr1 where m2: "apply_minimum_payments s1 month = (s2, sur, fr1)"
    by (cases "apply_minimum_payments s1 month") auto
  obtain s3 fr2 where m3: "cascade_extra_payments s2 month (dadd pool sur) = (s3, fr2)"
    by (cases "cascade_extra_payments s2 month (dadd pool sur)") auto
  have t: "t = s3\<lparr>timelines := map2 (\<lambda>ts b. ts @ [b]) (timelines s3) (balances s3)\<rparr>" "freed = dadd fr1 fr2"
    using assms(9) m2 m3 by (simp_all add: simulate_month_def s1_def[symmetric] Let_def)
  have A0: "0 \<le> active_minimums s" "0 \<le> paid_sum s"
    using active_minimums_nonneg paid_sum_nonneg assms(1) by blast+
  have ps: "paid_sum s \<le> 10 ^ 17" using assms(7,8) A0 by simp
  note a = accrue_interest_sound[OF assms(1-4) ps, folded s1_def]
  have act1: "active_minimums s1 = active_minimums s" "paid_sum s1 = paid_sum s"
    using a(2,3,6) by (auto simp: active_minimums_def paid_sum_def intro!: sum.cong)
  have ps1: "paid_sum s1 + active_minimums s1 \<le> 10 ^ 17" using act1 assms(7,8) A0 by simp
  note b = apply_minimum_payments_sound[OF a(1) assms(4,5) ps1 m2]
  have s2: "0 \<le> active_minimums s2" "0 \<le> paid_sum s2"
    using active_minimums_nonneg paid_sum_nonneg b(1) by blast+
  have bound: "sur \<le> 10 ^ 16" "fr1 \<le> 10 ^ 16" "pool \<le> 10 ^ 16" "active_minimums s2 \<le> 10 ^ 16"
    using b(5,7-9) act1 assms(7,8) A0 s2 by simp_all
  have pool: "dadd pool sur = pool + sur"
    using b(4,5) assms(6,7) bound by (auto intro!: dadd_amount amount_nonneg)
  have js: "\<forall>i \<in> set [0 ..< positions_of s2]. i < positions_of s2" by simp
  have rem: "is_cents (pool + sur)" "0 \<le> pool + sur" "paid_sum s2 + (pool + sur) \<le> 10 ^ 17"
    using b(4,5,9) assms(6-8) act1 A0 by (auto simp: is_cents_add)
  have fr0: "is_cents 0" "(0 :: dec) \<le> 0" "0 + active_minimums s2 \<le> 10 ^ 17" using bound by simp_all
  have run: "cascade_loop month s2 (pool + sur) 0 [0 ..< positions_of s2] = (s3, fr2)"
    using m3 by (simp add: cascade_extra_payments_def pool)
  note c = cascade_loop_sound[OF b(1) assms(4,5) js rem fr0 run]
  have len3: "length (timelines s3) = positions_of s3" "length (balances s3) = positions_of s3"
    using c soundD by blast+
  have books: "debt_books C t i \<longleftrightarrow> debt_books C s3 i" for i by (simp add: debt_books_def t)
  show "sound C t" using c len3 by (auto simp: sound_def t(1) debt_books_def)
  show "sorted_debts t = sorted_debts s" using a(2) b(2) c by (simp add: t)
  show "timelines t = map2 (\<lambda>ts b. ts @ [b]) (timelines s) (balances t)"
    using a(5) b(3) c by (simp add: t)
  have "fr2 \<le> 10 ^ 16" using c bound(4) active_minimums_nonneg[of C s3] by simp
  then have freed: "freed = fr1 + fr2"
    using b(6,7) c bound(2) unfolding t(2) by (intro dadd_amount amount_nonneg) auto
  show "is_cents freed" "0 \<le> freed" using b(6,7) c by (simp_all add: freed is_cents_add)
  have t3: "sorted_debts t = sorted_debts s3" "balances t = balances s3" "paid_totals t = paid_totals s3"
    by (simp_all add: t)
  have same: "active_minimums t = active_minimums s3" "paid_sum t = paid_sum s3"
    by (simp_all only: active_minimums_def paid_sum_def t3)
  show "active_minimums t + freed = active_minimums s" using b(8) c act1 by (simp add: freed same)
  show "paid_sum s \<le> paid_sum t" "paid_sum t \<le> paid_sum s + pool + active_minimums s"
    using b(9,10) c act1 by (simp_all add: same)
  show "paid_sum t = paid_sum s + pool + active_minimums s \<or> (\<forall>i < positions_of s. balances t ! i = 0)"
    unfolding same t3 using b(9) c act1 a(2) b(2) by auto
  have "payoff_step month s s1" using a(4) by (rule payoff_step_refl)
  also have "payoff_step month s1 s2"
    using payoff_step_minimums[of month s1 0 0 "[0 ..< positions_of s1]"] m2
    by (simp add: apply_minimum_payments_def)
  also (payoff_step_trans) have "payoff_step month s2 s3"
    using payoff_step_cascade[of month s2 "pool + sur" 0 "[0 ..< positions_of s2]"] run by simp
  finally (payoff_step_trans) show "payoff_step month s t" by (simp add: payoff_step_def t)
qed

section \<open>The whole run\<close>

text \<open>The balance history of one debt after \<open>m\<close> months, and its payoff month.\<close>

definition timeline_ok :: "nat \<Rightarrow> sim_state \<Rightarrow> nat \<Rightarrow> bool" where
  "timeline_ok m s i =
     (let ts = timelines s ! i; p = payoff_months s ! i
      in length ts = m + 1 \<and> ts ! 0 = current_principal (sorted_debts s ! i) \<and> ts ! m = balances s ! i \<and>
         0 \<le> p \<and> p \<le> int m \<and>
         (\<forall>k \<le> m. 0 \<le> ts ! k \<and> (ts ! k = 0 \<longleftrightarrow> p \<noteq> 0 \<and> p \<le> int k)))"

definition run_inv :: "dec \<Rightarrow> debt_account list \<Rightarrow> nat \<Rightarrow> sim_state \<Rightarrow> dec \<Rightarrow> bool" where
  "run_inv budget ds m s pool =
     (sound (growth m) s \<and> sorted_debts s = ds \<and> is_cents pool \<and> 0 \<le> pool \<and>
      pool + active_minimums s = budget \<and> paid_sum s \<le> of_nat m * budget \<and>
      ((\<exists>i < length ds. 0 < balances s ! i) \<longrightarrow> paid_sum s = of_nat m * budget) \<and>
      of_nat (m - 1) * budget \<le> paid_sum s \<and>
      (\<forall>i < length ds. timeline_ok m s i))"

lemma timeline_step:
  assumes "timeline_ok m s i" "i < positions_of s" "sound B s" "sound C t"
    and "timelines t = map2 (\<lambda>ts b. ts @ [b]) (timelines s) (balances t)"
    and "sorted_debts t = sorted_debts s" "payoff_step (int m + 1) s t"
  shows "timeline_ok (Suc m) t i"
proof -
  have i: "i < positions_of t" using assms(2,6) by simp
  note bs = debt_booksD[OF soundD(6)[OF assms(3,2)]] and bt = debt_booksD[OF soundD(6)[OF assms(4) i]]
  have ts: "timelines t ! i = timelines s ! i @ [balances t ! i]"
    using assms(2,5) soundD(1)[OF assms(4)] soundD(5)[OF assms(3)] i by simp
  note T = assms(1)[unfolded timeline_ok_def Let_def]
  have p: "payoff_months t ! i = payoff_months s ! i \<or>
      payoff_months s ! i = 0 \<and> payoff_months t ! i = int m + 1"
    using assms(7) by (simp add: payoff_step_def)
  have new: "balances t ! i = 0 \<longleftrightarrow> payoff_months t ! i \<noteq> 0" using bt(3,10) by auto
  have "0 \<le> (timelines s ! i @ [balances t ! i]) ! k \<and>
      ((timelines s ! i @ [balances t ! i]) ! k = 0 \<longleftrightarrow>
         payoff_months t ! i \<noteq> 0 \<and> payoff_months t ! i \<le> int k)" if k: "k \<le> Suc m" for k
  proof (cases "k = Suc m")
    case True
    then show ?thesis using T p new bt(3) by (auto simp: nth_append)
  next
    case False
    then have "k \<le> m" using k by simp
    then show ?thesis using T p by (auto simp: nth_append)
  qed
  then show ?thesis unfolding timeline_ok_def Let_def ts using T p assms(6) by (auto simp: nth_append)
qed

lemma run_inv_month:
  assumes "run_inv budget ds m s pool" "m < 600" "budget \<le> 10 ^ 13"
    and "\<exists>i < length ds. 0 < balances s ! i"
    and "simulate_month s (int m + 1) pool = (t, freed)"
  shows "run_inv budget ds (Suc m) t (dadd pool freed)"
proof -
  have R: "sound (growth m) s" "sorted_debts s = ds" "is_cents pool" "0 \<le> pool"
    "pool + active_minimums s = budget" "paid_sum s = of_nat m * budget"
    "\<forall>i < length ds. timeline_ok m s i"
    using assms(1,4) by (auto simp: run_inv_def)
  have act: "0 \<le> active_minimums s" using R(1) by (rule active_minimums_nonneg)
  have B0: "0 \<le> budget" using R(4,5) act by simp
  have "(of_nat m :: rat) \<le> 600" using assms(2) by (metis less_imp_le of_nat_le_iff of_nat_numeral)
  then have "of_nat m * budget \<le> 600 * 10 ^ 13" using assms(3) B0 by (intro mult_mono) simp_all
  then have bound: "paid_sum s + pool + active_minimums s \<le> 10 ^ 16" using R(5,6) assms(3) by simp
  have g: "10 \<le> growth m" "growth m * 1031/1000 \<le> growth (Suc m)" "growth (Suc m) \<le> 10 ^ 19"
    using growth_ge[of m] growth_600[of "Suc m"] assms(2) by (simp_all add: growth_Suc)
  note M = simulate_month_sound[OF R(1) g _ R(3,4) bound assms(5)]
  have m1: "1 \<le> int m + 1" by simp
  have pool: "dadd pool freed = pool + freed"
    using R(3-5) M(4-6)[OF m1] active_minimums_nonneg[OF M(1)[OF m1]] act assms(3)
    by (intro dadd_amount amount_nonneg) simp_all
  have paid: "of_nat (Suc m) * budget = of_nat m * budget + budget" by (simp add: algebra_simps)
  show ?thesis unfolding run_inv_def
  proof (intro conjI)
    show "sound (growth (Suc m)) t" "sorted_debts t = ds" "is_cents (dadd pool freed)" "0 \<le> dadd pool freed"
      "dadd pool freed + active_minimums t = budget" "paid_sum t \<le> of_nat (Suc m) * budget"
      "of_nat (Suc m - 1) * budget \<le> paid_sum t"
      using M[OF m1] R unfolding pool paid by (simp_all add: is_cents_add)
    show "(\<exists>i < length ds. 0 < balances t ! i) \<longrightarrow> paid_sum t = of_nat (Suc m) * budget"
      using M(9)[OF m1] R unfolding paid by auto
    show "\<forall>i < length ds. timeline_ok (Suc m) t i"
      using timeline_step[OF _ _ R(1) M(1)[OF m1] M(3)[OF m1] M(2)[OF m1] M(10)[OF m1]] R(2,7) by simp
  qed
qed

lemma list_all_balances:
  "sound B s \<Longrightarrow> list_all (\<lambda>b. b \<le> 0) (balances s) \<longleftrightarrow> \<not> (\<exists>i < positions_of s. 0 < balances s ! i)"
  using soundD(1)[of B s] by (simp add: list_all_length not_less) (metis not_le)

lemma simulate_loop_inv:
  assumes "run_inv budget ds m s pool" "m \<le> M" "M \<le> 600" "budget \<le> 10 ^ 13"
    and "simulate_loop [int m + 1 .. int M] s pool = (t, r)"
  shows "\<exists>k pool'. m \<le> k \<and> k \<le> M \<and> run_inv budget ds k t pool' \<and>
           (r = Some (int k) \<and> \<not> (\<exists>i < length ds. 0 < balances t ! i) \<or> r = None \<and> k = M)"
  using assms
proof (induction "M - m" arbitrary: m s pool)
  case 0
  then show ?case by auto
next
  case (Suc d)
  have R: "sound (growth m) s" "sorted_debts s = ds" using Suc.prems(1) by (simp_all add: run_inv_def)
  have months: "[int m + 1 .. int M] = (int m + 1) # [int (Suc m) + 1 .. int M]"
    using Suc.hyps(2) by (subst upto_rec1) (simp_all add: add.commute)
  show ?case
  proof (cases "\<exists>i < length ds. 0 < balances s ! i")
    case False
    then have "list_all (\<lambda>b. b \<le> 0) (balances s)" using list_all_balances[OF R(1)] R(2) by simp
    then have "t = s" "r = Some (int m)" using Suc.prems(5) by (simp_all add: months)
    then show ?thesis using Suc.prems(1,2) False by blast
  next
    case True
    obtain u freed where u: "simulate_month s (int m + 1) pool = (u, freed)"
      by (cases "simulate_month s (int m + 1) pool") auto
    have "\<not> list_all (\<lambda>b. b \<le> 0) (balances s)" using True list_all_balances[OF R(1)] R(2) by simp
    then have run: "simulate_loop [int (Suc m) + 1 .. int M] u (dadd pool freed) = (t, r)"
      using Suc.prems(5) u by (simp add: months)
    have "m < 600" using Suc.hyps(2) Suc.prems(3) by simp
    from run_inv_month[OF Suc.prems(1) this Suc.prems(4) True u]
    have inv: "run_inv budget ds (Suc m) u (dadd pool freed)" .
    have "d = M - Suc m" "Suc m \<le> M" using Suc.hyps(2) by simp_all
    from Suc.hyps(1)[OF this(1) inv this(2) Suc.prems(3,4) run] obtain k pool' where
      "Suc m \<le> k" "k \<le> M" "run_inv budget ds k t pool'"
      "r = Some (int k) \<and> \<not> (\<exists>i < length ds. 0 < balances t ! i) \<or> r = None \<and> k = M" by blast
    then show ?thesis by (intro exI[of _ k] exI[of _ pool'] conjI) simp_all
  qed
qed

lemma run_inv_initialize:
  assumes "\<forall>d \<in> set ds. debt_ok d" "is_cents extra" "0 \<le> extra"
  shows "run_inv (extra + (\<Sum>i<length ds. minimum_payment (ds ! i))) ds 0 (initialize ds) extra"
proof -
  have books: "debt_books (growth 0) (initialize ds) i" if "i < length ds" for i
  proof -
    have "debt_ok (ds ! i)" using assms(1) that by simp
    then show ?thesis using that debt_okD[of "ds ! i"]
      by (simp add: debt_books_def initialize_def growth_def in_column_def)
  qed
  have pos: "0 < current_principal (ds ! i)" if "i < length ds" for i
    using assms(1) that debt_okD(2) by simp
  have "active_minimums (initialize ds) = (\<Sum>i<length ds. minimum_payment (ds ! i))"
    unfolding active_minimums_def initialize_def using pos by (auto intro!: sum.cong)
  moreover have "paid_sum (initialize ds) = 0" by (simp add: paid_sum_def initialize_def)
  moreover have "timeline_ok 0 (initialize ds) i" if "i < length ds" for i
    using that pos[OF that] by (simp add: timeline_ok_def initialize_def Let_def)
  moreover have "sound (growth 0) (initialize ds)"
    using books by (simp add: sound_def) (simp add: initialize_def)
  ultimately show ?thesis using assms(2,3) by (simp add: run_inv_def) (simp add: initialize_def)
qed

lemma sort_debts_mset:
  assumes "sort_debts ds strat order = Inr ds'"
  shows "mset ds' = mset ds"
  using assms by (auto simp: sort_debts_def split: if_splits option.splits)

lemma validate_inputs_Inr:
  assumes "validate_inputs ds extra strat order = Inr x"
  shows "ds \<noteq> []" "extra = DecimalV x" "0 \<le> x" "\<forall>d \<in> set ds. 0 < minimum_payment d"
    "strat \<in> {STRATEGY_AVALANCHE, STRATEGY_SNOWBALL, STRATEGY_CUSTOM}"
    "strat = STRATEGY_CUSTOM \<Longrightarrow> validate_custom_order ds order = Inr ()"
proof -
  have "ds \<noteq> []" using assms by (auto simp: validate_inputs_def)
  moreover obtain y where y: "extra = DecimalV y"
    using assms \<open>ds \<noteq> []\<close> by (auto simp: validate_inputs_def split: py_value.splits)
  ultimately show "ds \<noteq> []" "extra = DecimalV x" "0 \<le> x" "\<forall>d \<in> set ds. 0 < minimum_payment d"
    "strat \<in> {STRATEGY_AVALANCHE, STRATEGY_SNOWBALL, STRATEGY_CUSTOM}"
    "strat = STRATEGY_CUSTOM \<Longrightarrow> validate_custom_order ds order = Inr ()"
    using assms by (auto simp: validate_inputs_def list_ex_iff not_le split: if_splits elim!: bind_res_InrE)
qed

text \<open>What a finished calculation is: a run of the month loop, read out.\<close>

lemma calculate_strategy_run:
  assumes "calculate_strategy today req = Inr res"
    and "\<forall>d \<in> set (debts req). 0 < current_principal d \<longrightarrow> debt_ok d"
    and "extra_monthly req = DecimalV extra" "in_column extra"
    and "length (debts req) \<le> 100" "max_horizon_months req \<le> 600" "0 \<le> max_horizon_months req"
  obtains ds k s pool where
    "mset ds = mset [d \<leftarrow> debts req. 0 < current_principal d]" "ds \<noteq> []" "\<forall>d \<in> set ds. debt_ok d"
    "0 \<le> extra" "int k \<le> max_horizon_months req" "k \<le> 600"
    "run_inv (extra + (\<Sum>i<length ds. minimum_payment (ds ! i))) ds k s pool"
    "extra + (\<Sum>i<length ds. minimum_payment (ds ! i)) \<le> 10 ^ 13"
    "res = build_result (s\<lparr>payoff_months := map (\<lambda>p. if p = 0 then max_horizon_months req else p) (payoff_months s)\<rparr>)
       (case start_date req of None \<Rightarrow> today | Some d \<Rightarrow> d) (int k) (strategy req) (horizon_reached res)"
    "horizon_reached res \<longleftrightarrow> (\<exists>i < length ds. 0 < balances s ! i)"
    "(\<exists>i < length ds. 0 < balances s ! i) \<longrightarrow> int k = max_horizon_months req"
    "sort_debts [d \<leftarrow> debts req. 0 < current_principal d] (strategy req) (custom_order req) = Inr ds"
proof -
  define active where "active = [d \<leftarrow> debts req. 0 < current_principal d]"
  obtain x ds where v: "validate_inputs active (extra_monthly req) (strategy req) (custom_order req) = Inr x"
    and sort: "sort_debts active (strategy req) (custom_order req) = Inr ds"
    using assms(1) by (auto simp: calculate_strategy_def active_def Let_def elim!: bind_res_InrE)
  have x: "x = extra" "0 \<le> extra" "active \<noteq> []" using validate_inputs_Inr[OF v] assms(3) by simp_all
  have ms: "mset ds = mset active" using sort by (rule sort_debts_mset)
  have set: "set ds = set active" "length ds = length active"
    using ms by (metis set_mset_mset, metis size_mset)
  have ok: "\<forall>d \<in> set ds. debt_ok d" using assms(2) by (auto simp: set active_def)
  have len: "length ds \<le> 100" unfolding set active_def
    using length_filter_le[of "\<lambda>d. 0 < current_principal d" "debts req"] assms(5) by linarith
  define budget where "budget = extra + (\<Sum>i<length ds. minimum_payment (ds ! i))"
  have "(\<Sum>i<length ds. minimum_payment (ds ! i)) \<le> (\<Sum>i<length ds. 10 ^ 10)"
    by (rule sum_mono) (use ok debt_okD(8) in simp)
  also have "\<dots> \<le> 100 * 10 ^ 10"
  proof -
    have "(of_nat (length ds) :: rat) \<le> 100" using len by (metis of_nat_le_iff of_nat_numeral)
    then show ?thesis by simp
  qed
  finally have sum: "(\<Sum>i<length ds. minimum_payment (ds ! i)) \<le> 100 * 10 ^ 10" .
  have "extra \<le> 10 ^ 10" using assms(4) by (auto simp: in_column_def MONEY_COLUMN_MAX_def)
  with sum have B: "budget \<le> 10 ^ 13" by (simp add: budget_def)
  have init: "run_inv budget ds 0 (initialize ds) extra"
    unfolding budget_def using ok assms(4) x(2) by (intro run_inv_initialize) (simp_all add: in_column_def)
  define M where "M = nat (max_horizon_months req)"
  have M: "int M = max_horizon_months req" "M \<le> 600" using assms(6,7) by (simp_all add: M_def)
  obtain s r where run: "simulate_loop [1 .. max_horizon_months req] (initialize ds) extra = (s, r)"
    by (cases "simulate_loop [1 .. max_horizon_months req] (initialize ds) extra") auto
  have "simulate_loop [int 0 + 1 .. int M] (initialize ds) extra = (s, r)" using run M(1) by simp
  from simulate_loop_inv[OF init _ M(2) B this] obtain k pool where k: "k \<le> M" "run_inv budget ds k s pool"
    "r = Some (int k) \<and> \<not> (\<exists>i < length ds. 0 < balances s ! i) \<or> r = None \<and> k = M" by auto
  have sd: "sound (growth k) s" "sorted_debts s = ds" using k(2) by (simp_all add: run_inv_def)
  have ex: "list_ex (\<lambda>b. 0 < b) (balances s) \<longleftrightarrow> (\<exists>i < length ds. 0 < balances s ! i)"
    using soundD(1)[OF sd(1)] sd(2) by (simp add: list_ex_length)
  define reached where "reached = (case r of None \<Rightarrow> list_ex (\<lambda>b. 0 < b) (balances s) | Some k \<Rightarrow> False)"
  have final: "(case r of None \<Rightarrow> max_horizon_months req | Some k \<Rightarrow> k) = int k" using k(3) M(1) by auto
  have res: "res = build_result (s\<lparr>payoff_months := map (\<lambda>p. if p = 0 then max_horizon_months req else p) (payoff_months s)\<rparr>)
       (case start_date req of None \<Rightarrow> today | Some d \<Rightarrow> d) (int k) (strategy req) reached"
    using assms(1) v sort run final x(1)
    by (simp add: calculate_strategy_def active_def[symmetric] Let_def reached_def)
  then have hr: "horizon_reached res = reached" by (simp add: build_result_def Let_def)
  have reached: "reached \<longleftrightarrow> (\<exists>i < length ds. 0 < balances s ! i)"
    using k(3) ex by (auto simp: reached_def)
  show ?thesis
  proof (rule that[of ds k s pool])
    show "ds \<noteq> []" using x(3) set by auto
  qed (use ms ok x(2) k M B res hr reached sort in \<open>auto simp: budget_def active_def\<close>)
qed

lemma build_result_simps:
  "per_account (build_result s start k strat h) = map (payoff_of s start) [0 ..< positions_of s]"
  "total_months (build_result s start k strat h) = k"
  "total_interest (build_result s start k strat h) =
     dsum (map po_total_interest (map (payoff_of s start) [0 ..< positions_of s]))"
  "total_paid (build_result s start k strat h) =
     dsum (map po_total_paid (map (payoff_of s start) [0 ..< positions_of s]))"
  "horizon_reached (build_result s start k strat h) = h"
  by (simp_all add: build_result_def Let_def)

lemma dsum_positions:
  assumes "\<And>i. i < n \<Longrightarrow> is_cents (f i) \<and> 0 \<le> f i \<and> f i \<le> 10 ^ 20" "n \<le> 100"
  shows "dsum (map (\<lambda>i. round_money (f i)) [0 ..< n]) = (\<Sum>i<n. f i)"
proof -
  have fs: "map (\<lambda>i. round_money (f i)) [0 ..< n] = map f [0 ..< n]" using assms(1) by simp
  have "0 \<le> \<bar>x\<bar> \<and> \<bar>x\<bar> \<le> 10 ^ 20" if "x \<in> set (map f [0 ..< n])" for x
    using that assms(1) by auto
  from sum_list_bounds[of "map f [0 ..< n]" 0 abs "10 ^ 20", OF this]
  have "sum_list (map abs (map f [0 ..< n])) \<le> of_nat n * 10 ^ 20" by simp
  also have "\<dots> \<le> 100 * 10 ^ 20"
  proof -
    have "(of_nat n :: rat) \<le> 100" using assms(2) by (metis of_nat_le_iff of_nat_numeral)
    then show ?thesis by (intro mult_right_mono) simp_all
  qed
  also have "\<dots> < 10 ^ 26" by simp
  finally have "dsum (map f [0 ..< n]) = sum_list (map f [0 ..< n])"
    using assms(1) by (intro dsum_exact) auto
  then show ?thesis by (simp only: fs) (simp flip: sum_set_upt_conv_sum_list_nat add: lessThan_atLeast0)
qed

lemma sum_active:
  fixes f :: "debt_account \<Rightarrow> rat"
  assumes "mset ds = mset xs"
  shows "(\<Sum>i<length ds. f (ds ! i)) = sum_list (map f xs)"
proof -
  have "(\<Sum>i<length ds. f (ds ! i)) = sum_list (map f ds)"
    by (simp add: sum_list_sum_nth atLeast0LessThan)
  also have "\<dots> = sum_list (map f xs)" using assms by (metis mset_map sum_mset_sum_list)
  finally show ?thesis .
qed

lemma run_books:
  assumes "run_inv budget ds k s pool" "k \<le> 600" "budget \<le> 10 ^ 13" "0 \<le> budget" "i < length ds"
  shows "debt_books (growth k) s i" "paid_totals s ! i \<le> 10 ^ 17" "interest_totals s ! i \<le> 2 * 10 ^ 19"
proof -
  have R: "sound (growth k) s" "sorted_debts s = ds" "paid_sum s \<le> of_nat k * budget"
    using assms(1) by (simp_all add: run_inv_def)
  have i: "i < positions_of s" using R(2) assms(5) by simp
  show "debt_books (growth k) s i" using soundD(6)[OF R(1) i] .
  have "(of_nat k :: rat) \<le> 600" using assms(2) by (metis of_nat_le_iff of_nat_numeral)
  then have "of_nat k * budget \<le> 600 * 10 ^ 13" using assms(3,4) by (intro mult_mono) simp_all
  then have ps: "paid_sum s \<le> 10 ^ 17" using R(3) by simp
  then show "paid_totals s ! i \<le> 10 ^ 17" using paid_le_sum[OF R(1) i] by simp
  show "interest_totals s ! i \<le> 2 * 10 ^ 19"
    by (rule interest_total_bound[OF R(1) i growth_600[OF assms(2)] ps])
qed

text \<open>
  C23: the payoff strategy accounts for every dollar.  For debts the database can hold, the result
  lists each active debt once; what was paid is the principals plus the interest charged, less what is
  still owed; and the household's monthly outlay is constant: until the last month exactly the extra
  payment plus all the minimums is paid every month (freed minimums and surpluses cascade, nothing is
  lost or paid twice), and if a debt is left at the horizon, in every month.
\<close>

theorem strategy_accounts_for_every_dollar:
  assumes "calculate_strategy today req = Inr res"
    and "\<forall>d \<in> set (debts req). 0 < current_principal d \<longrightarrow> debt_ok d"
    and "extra_monthly req = DecimalV extra" "in_column extra"
    and "length (debts req) \<le> 100" "max_horizon_months req \<le> 600" "0 \<le> max_horizon_months req"
  defines "active \<equiv> [d \<leftarrow> debts req. 0 < current_principal d]"
  defines "budget \<equiv> extra + (\<Sum>d \<leftarrow> active. minimum_payment d)"
  shows "mset (map po_account_id (per_account res)) = mset (map account_id active) \<and>
         total_paid res + (\<Sum>a \<leftarrow> per_account res. last (balance_timeline a)) =
           (\<Sum>d \<leftarrow> active. current_principal d) + total_interest res \<and>
         of_int (total_months res - 1) * budget \<le> total_paid res \<and>
         total_paid res \<le> of_int (total_months res) * budget \<and>
         (horizon_reached res \<longrightarrow> total_months res = max_horizon_months req \<and>
            total_paid res = of_int (total_months res) * budget) \<and>
         (\<not> horizon_reached res \<longrightarrow> (\<forall>a \<in> set (per_account res). last (balance_timeline a) = 0))"
proof -
  obtain ds k s pool where R: "mset ds = mset active" "ds \<noteq> []" "\<forall>d \<in> set ds. debt_ok d"
    "0 \<le> extra" "int k \<le> max_horizon_months req" "k \<le> 600"
    "run_inv (extra + (\<Sum>i<length ds. minimum_payment (ds ! i))) ds k s pool"
    "extra + (\<Sum>i<length ds. minimum_payment (ds ! i)) \<le> 10 ^ 13"
    "res = build_result (s\<lparr>payoff_months := map (\<lambda>p. if p = 0 then max_horizon_months req else p) (payoff_months s)\<rparr>)
       (case start_date req of None \<Rightarrow> today | Some d \<Rightarrow> d) (int k) (strategy req) (horizon_reached res)"
    "horizon_reached res \<longleftrightarrow> (\<exists>i < length ds. 0 < balances s ! i)"
    "(\<exists>i < length ds. 0 < balances s ! i) \<longrightarrow> int k = max_horizon_months req"
    "sort_debts active (strategy req) (custom_order req) = Inr ds"
    by (rule calculate_strategy_run[OF assms(1-7), folded active_def])
  have b: "extra + (\<Sum>i<length ds. minimum_payment (ds ! i)) = budget"
    by (simp add: budget_def sum_active[OF R(1)])
  have b0: "0 \<le> budget" unfolding b[symmetric]
    using R(3,4) debt_okD(4) by (intro add_nonneg_nonneg sum_nonneg) (simp_all add: less_imp_le)
  define n where "n = length ds"
  have n: "n \<le> 100" using R(1) assms(5) length_filter_le[of "\<lambda>d. 0 < current_principal d" "debts req"]
    unfolding n_def active_def by (metis le_trans size_mset)
  have sd: "sorted_debts s = ds" "paid_sum s \<le> of_nat k * budget" "of_nat (k - 1) * budget \<le> paid_sum s"
    "(\<exists>i < length ds. 0 < balances s ! i) \<longrightarrow> paid_sum s = of_nat k * budget"
    "\<forall>i < length ds. timeline_ok k s i"
    using R(7) by (simp_all add: run_inv_def b)
  note books = run_books[OF R(7)[unfolded b] R(6) R(8)[unfolded b] b0, folded n_def]
  note bk = debt_booksD[OF books(1)]
  define st where "st = s\<lparr>payoff_months :=
      map (\<lambda>p. if p = 0 then max_horizon_months req else p) (payoff_months s)\<rparr>"
  define start where "start = (case start_date req of None \<Rightarrow> today | Some d \<Rightarrow> d)"
  define hr where "hr = horizon_reached res"
  have res: "res = build_result st start (int k) (strategy req) hr"
    using R(9) unfolding st_def start_def hr_def .
  have n_st: "positions_of st = n" by (simp add: st_def sd(1) n_def)
  note accounts = build_result_simps[of st start "int k" "strategy req" hr, folded res, unfolded n_st]
  have po: "po_total_paid (payoff_of st start i) = round_money (paid_totals s ! i)"
    "po_total_interest (payoff_of st start i) = round_money (interest_totals s ! i)"
    "balance_timeline (payoff_of st start i) = timelines s ! i"
    "po_account_id (payoff_of st start i) = account_id (ds ! i)" for i
    by (simp_all add: payoff_of_def st_def sd(1))
  have paid: "total_paid res = (\<Sum>i<n. paid_totals s ! i)"
    unfolding accounts(4) map_map o_def po
  proof (rule dsum_positions[OF _ n])
    show "is_cents (paid_totals s ! i) \<and> 0 \<le> paid_totals s ! i \<and> paid_totals s ! i \<le> 10 ^ 20"
      if "i < n" for i using bk(7,8)[OF that] books(2)[OF that] by simp
  qed
  have int: "total_interest res = (\<Sum>i<n. interest_totals s ! i)"
    unfolding accounts(3) map_map o_def po
  proof (rule dsum_positions[OF _ n])
    show "is_cents (interest_totals s ! i) \<and> 0 \<le> interest_totals s ! i \<and> interest_totals s ! i \<le> 10 ^ 20"
      if "i < n" for i using bk(5,6)[OF that] books(3)[OF that] by simp
  qed
  have last: "last (timelines s ! i) = balances s ! i" if "i < n" for i
  proof -
    have "timeline_ok k s i" using sd(5) that by (simp add: n_def)
    then have "timelines s ! i \<noteq> []" "timelines s ! i ! (length (timelines s ! i) - 1) = balances s ! i"
      by (auto simp: timeline_ok_def Let_def)
    then show ?thesis by (simp add: last_conv_nth)
  qed
  have lasts: "(\<Sum>a \<leftarrow> per_account res. last (balance_timeline a)) = (\<Sum>i<n. balances s ! i)"
  proof -
    have "map (\<lambda>a. last (balance_timeline a)) (per_account res) = map (\<lambda>i. balances s ! i) [0 ..< n]"
      unfolding accounts(1) by (simp add: po last)
    then show ?thesis by (simp flip: sum_set_upt_conv_sum_list_nat add: lessThan_atLeast0)
  qed
  have "map po_account_id (per_account res) = map account_id ds"
    unfolding accounts(1) by (rule nth_equalityI) (simp_all add: po n_def)
  then have ids: "mset (map po_account_id (per_account res)) = mset (map account_id active)"
    using R(1) by (metis mset_map)
  have "(\<Sum>i<n. balances s ! i) + (\<Sum>i<n. paid_totals s ! i) =
      (\<Sum>i<n. current_principal (ds ! i)) + (\<Sum>i<n. interest_totals s ! i)"
    unfolding sum.distrib[symmetric] using bk(9) sd(1) by (intro sum.cong) auto
  then have ledger: "total_paid res + (\<Sum>a \<leftarrow> per_account res. last (balance_timeline a)) =
      (\<Sum>d \<leftarrow> active. current_principal d) + total_interest res"
    using sum_active[OF R(1), of current_principal] unfolding paid int lasts n_def by simp
  have ps: "paid_sum s = total_paid res" by (simp add: paid paid_sum_def sd(1) n_def)
  have lower: "of_int (total_months res - 1) * budget \<le> total_paid res"
  proof (cases k)
    case 0
    then show ?thesis using b0 sd(3) ps accounts(2) by simp
  next
    case (Suc j)
    then show ?thesis using sd(3) ps accounts(2) by simp
  qed
  show ?thesis
  proof (intro conjI impI ballI)
    fix a assume "\<not> horizon_reached res" "a \<in> set (per_account res)"
    then obtain i where i: "i < n" "balance_timeline a = timelines s ! i" "\<not> 0 < balances s ! i"
      using R(10) unfolding accounts(1) by (auto simp: po n_def)
    then show "last (balance_timeline a) = 0" using last bk(3)[of i] by simp
  qed (use ids ledger lower sd(2,4) ps accounts(2) R(10,11) in auto)
qed

definition example_debts :: "debt_account list" where
  "example_debts =
     [\<lparr>account_id = 1, debt_name = ''van'', current_principal = 9000, debt_rate = 5668/100000,
       minimum_payment = 250\<rparr>,
      \<lparr>account_id = 2, debt_name = ''card'', current_principal = 1500, debt_rate = 20/100,
       minimum_payment = 60\<rparr>]"

definition example_request :: strategy_request where
  "example_request =
     \<lparr>debts = example_debts, extra_monthly = DecimalV 100, strategy = STRATEGY_AVALANCHE,
      custom_order = None, start_date = None, max_horizon_months = 600\<rparr>"

lemma example_request_runs: "\<exists>res. calculate_strategy (Date 2026 1 1) example_request = Inr res"
  by (simp add: calculate_strategy_def example_request_def example_debts_def validate_inputs_def
      sort_debts_def STRATEGY_AVALANCHE_def STRATEGY_CUSTOM_def Let_def split_def)

lemma example_request_ok:
  "\<forall>d \<in> set (debts example_request). 0 < current_principal d \<longrightarrow> debt_ok d"
  "extra_monthly example_request = DecimalV 100" "in_column 100"
  "length (debts example_request) \<le> 100" "max_horizon_months example_request \<le> 600"
  "0 \<le> max_horizon_months example_request"
  by (simp_all add: example_request_def example_debts_def debt_ok_def in_column_def MONEY_COLUMN_MAX_def)

lemma strategy_accounts_for_every_dollar_witness:
  "\<exists>res. calculate_strategy (Date 2026 1 1) example_request = Inr res \<and>
     total_paid res + (\<Sum>a \<leftarrow> per_account res. last (balance_timeline a)) = 10500 + total_interest res \<and>
     total_paid res \<le> of_int (total_months res) * 410"
proof -
  obtain res where res: "calculate_strategy (Date 2026 1 1) example_request = Inr res"
    using example_request_runs by blast
  have "[d \<leftarrow> debts example_request. 0 < current_principal d] = example_debts"
    by (simp add: example_request_def example_debts_def)
  moreover have "(\<Sum>d \<leftarrow> example_debts. current_principal d) = 10500"
    "100 + (\<Sum>d \<leftarrow> example_debts. minimum_payment d) = (410 :: dec)"
    by (simp_all add: example_debts_def)
  ultimately show ?thesis
    using res strategy_accounts_for_every_dollar[OF res example_request_ok] by metis
qed

text \<open>
  each debt's own history is consistent.  It starts at the debt's principal, has one entry per
  simulated month and is never negative; what was paid on the debt plus what is left equals its
  principal plus its interest; and a debt that was paid off reads zero from its payoff month on and
  owes something in every month before, while one that was not reports the horizon.
\<close>

theorem strategy_histories_consistent:
  assumes "calculate_strategy today req = Inr res"
    and "\<forall>d \<in> set (debts req). 0 < current_principal d \<longrightarrow> debt_ok d"
    and "extra_monthly req = DecimalV extra" "in_column extra"
    and "length (debts req) \<le> 100" "max_horizon_months req \<le> 600" "0 \<le> max_horizon_months req"
    and "a \<in> set (per_account res)"
  shows "\<exists>d \<in> set (debts req). 0 < current_principal d \<and> po_account_id a = account_id d \<and>
           balance_timeline a ! 0 = current_principal d \<and>
           int (length (balance_timeline a)) = total_months res + 1 \<and>
           (\<forall>b \<in> set (balance_timeline a). 0 \<le> b) \<and>
           po_total_paid a + last (balance_timeline a) = current_principal d + po_total_interest a \<and>
           (if last (balance_timeline a) = 0
            then 1 \<le> payoff_month a \<and> payoff_month a \<le> total_months res \<and>
              (\<forall>k. int k \<le> total_months res \<longrightarrow>
                 (balance_timeline a ! k = 0 \<longleftrightarrow> payoff_month a \<le> int k))
            else payoff_month a = max_horizon_months req)"
proof -
  define active where "active = [d \<leftarrow> debts req. 0 < current_principal d]"
  obtain ds k s pool where R: "mset ds = mset active" "ds \<noteq> []" "\<forall>d \<in> set ds. debt_ok d"
    "0 \<le> extra" "int k \<le> max_horizon_months req" "k \<le> 600"
    "run_inv (extra + (\<Sum>i<length ds. minimum_payment (ds ! i))) ds k s pool"
    "extra + (\<Sum>i<length ds. minimum_payment (ds ! i)) \<le> 10 ^ 13"
    "res = build_result (s\<lparr>payoff_months := map (\<lambda>p. if p = 0 then max_horizon_months req else p) (payoff_months s)\<rparr>)
       (case start_date req of None \<Rightarrow> today | Some d \<Rightarrow> d) (int k) (strategy req) (horizon_reached res)"
    "horizon_reached res \<longleftrightarrow> (\<exists>i < length ds. 0 < balances s ! i)"
    "(\<exists>i < length ds. 0 < balances s ! i) \<longrightarrow> int k = max_horizon_months req"
    "sort_debts active (strategy req) (custom_order req) = Inr ds"
    by (rule calculate_strategy_run[OF assms(1-7), folded active_def])
  define budget where "budget = extra + (\<Sum>i<length ds. minimum_payment (ds ! i))"
  have b0: "0 \<le> budget" unfolding budget_def
    using R(3,4) debt_okD(4) by (intro add_nonneg_nonneg sum_nonneg) (simp_all add: less_imp_le)
  define st where "st = s\<lparr>payoff_months :=
      map (\<lambda>p. if p = 0 then max_horizon_months req else p) (payoff_months s)\<rparr>"
  define start where "start = (case start_date req of None \<Rightarrow> today | Some d \<Rightarrow> d)"
  define hr where "hr = horizon_reached res"
  have res: "res = build_result st start (int k) (strategy req) hr"
    using R(9) unfolding st_def start_def hr_def .
  have sd: "sound (growth k) s" "sorted_debts s = ds" "\<forall>i < length ds. timeline_ok k s i"
    using R(7) by (simp_all add: run_inv_def)
  have n_st: "positions_of st = length ds" by (simp add: st_def sd(2))
  note accounts = build_result_simps[of st start "int k" "strategy req" hr, folded res, unfolded n_st]
  obtain i where i: "i < length ds" "a = payoff_of st start i"
    using assms(8) unfolding accounts(1) by auto
  note bk = debt_booksD[OF run_books(1)[OF R(7)[folded budget_def] R(6) R(8)[folded budget_def] b0 i(1)]]
  have T: "length (timelines s ! i) = k + 1" "timelines s ! i ! 0 = current_principal (ds ! i)"
    "timelines s ! i ! k = balances s ! i" "payoff_months s ! i \<le> int k" "0 \<le> payoff_months s ! i"
    "\<forall>j \<le> k. 0 \<le> timelines s ! i ! j \<and>
       (timelines s ! i ! j = 0 \<longleftrightarrow> payoff_months s ! i \<noteq> 0 \<and> payoff_months s ! i \<le> int j)"
    using sd(3) i(1) sd(2) by (auto simp: timeline_ok_def Let_def)
  have len: "length (payoff_months s) = length ds" using soundD(4)[OF sd(1)] sd(2) by simp
  have A: "po_account_id a = account_id (ds ! i)" "balance_timeline a = timelines s ! i"
    "po_total_paid a = paid_totals s ! i" "po_total_interest a = interest_totals s ! i"
    "payoff_month a = (if payoff_months s ! i = 0 then max_horizon_months req else payoff_months s ! i)"
    using i len bk(5,7) by (simp_all add: payoff_of_def st_def sd(2))
  have last: "last (timelines s ! i) = balances s ! i"
    using T(1,3) by (metis add_diff_cancel_right' last_conv_nth length_0_conv add_is_0 one_neq_zero)
  have "ds ! i \<in> set active" using i(1) R(1) by (metis nth_mem set_mset_mset)
  then have d: "ds ! i \<in> set (debts req)" "0 < current_principal (ds ! i)" by (simp_all add: active_def)
  have nonneg: "\<forall>b \<in> set (timelines s ! i). 0 \<le> b"
    using T(1,6) by (auto simp: in_set_conv_nth)
  have p: "payoff_months s ! i = 0 \<longleftrightarrow> balances s ! i \<noteq> 0" using bk(3,10) by auto
  show ?thesis
    using d T A last nonneg bk(9) sd(2) accounts(2) p
    by (intro bexI[of _ "ds ! i"]) (auto simp: not_le)
qed

lemma strategy_histories_consistent_witness:
  "\<exists>res. calculate_strategy (Date 2026 1 1) example_request = Inr res \<and>
     (\<forall>a \<in> set (per_account res). int (length (balance_timeline a)) = total_months res + 1)"
proof -
  obtain res where res: "calculate_strategy (Date 2026 1 1) example_request = Inr res"
    using example_request_runs by blast
  then show ?thesis
    using strategy_histories_consistent[OF res example_request_ok] by blast
qed

section \<open>Priority order\<close>

lemma positions_nth:
  assumes "distinct ids" "i < length ids"
  shows "positions ids (ids ! i) = Some i"
proof -
  have "(ids ! i, i) \<in> set (zip ids [0 ..< length ids])" using assms(2) by (auto simp: set_zip)
  moreover have "distinct (map fst (rev (zip ids [0 ..< length ids])))"
    using assms(1) by (simp flip: rev_map)
  ultimately show ?thesis by (simp add: positions_def)
qed

lemma validate_custom_order_ok:
  assumes "validate_custom_order ds (Some ids) = Inr ()"
  shows "distinct ids" "set ids = set (map account_id ds)"
  using assms by (auto simp: validate_custom_order_def card_distinct split: if_splits)

lemma sorted_by_position:
  assumes "distinct ids" "mset xs = mset ids" "sorted (map (\<lambda>x. the (positions ids x)) xs)"
  shows "xs = ids"
proof -
  let ?p = "\<lambda>x. the (positions ids x)"
  have ids: "map ?p ids = [0 ..< length ids]"
    by (rule nth_equalityI) (simp_all add: positions_nth[OF assms(1)])
  have "mset (map ?p xs) = mset (map ?p ids)" using assms(2) by simp
  then have "map ?p xs = map ?p ids"
    using assms(3) by (metis ids sorted_upt properties_for_sort)
  moreover have "inj_on ?p (set xs \<union> set ids)"
  proof -
    have "set xs = set ids" using assms(2) by (metis set_mset_mset)
    moreover have "inj_on ?p (set ids)" using ids by (metis distinct_map distinct_upt)
    ultimately show ?thesis by simp
  qed
  ultimately show ?thesis by (metis map_inj_on)
qed

text \<open>
  the strategies pay in the order they promise.  An accepted avalanche order is by falling
  interest rate with the smaller balance first among equals, a snowball order by rising balance with
  the higher rate first among equals, and a custom order is followed exactly; no debt is dropped or
  repeated.
\<close>

theorem sort_debts_priority:
  assumes "validate_inputs ds extra strat order = Inr x" "distinct (map account_id ds)"
  shows "\<exists>ds'. sort_debts ds strat order = Inr ds' \<and> mset ds' = mset ds \<and>
           (strat = STRATEGY_AVALANCHE \<longrightarrow> sorted_wrt (\<lambda>a b. debt_rate b < debt_rate a \<or>
              debt_rate a = debt_rate b \<and> current_principal a \<le> current_principal b) ds') \<and>
           (strat = STRATEGY_SNOWBALL \<longrightarrow> sorted_wrt (\<lambda>a b. current_principal a < current_principal b \<or>
              current_principal a = current_principal b \<and> debt_rate b \<le> debt_rate a) ds') \<and>
           (strat = STRATEGY_CUSTOM \<longrightarrow> order = Some (map account_id ds'))"
proof -
  have names: "STRATEGY_AVALANCHE \<noteq> STRATEGY_SNOWBALL" "STRATEGY_AVALANCHE \<noteq> STRATEGY_CUSTOM"
    "STRATEGY_SNOWBALL \<noteq> STRATEGY_CUSTOM"
    by (simp_all add: STRATEGY_AVALANCHE_def STRATEGY_SNOWBALL_def STRATEGY_CUSTOM_def)
  consider (a) "strat = STRATEGY_AVALANCHE" | (s) "strat = STRATEGY_SNOWBALL" | (c) "strat = STRATEGY_CUSTOM"
    using validate_inputs_Inr(5)[OF assms(1)] by blast
  then show ?thesis
  proof cases
    case a
    define ds' where "ds' = sort_key (\<lambda>d. (- debt_rate d, current_principal d, account_id d)) ds"
    have "sorted_wrt (\<lambda>a b. (- debt_rate a, current_principal a, account_id a)
        \<le> (- debt_rate b, current_principal b, account_id b)) ds'"
      using sorted_sort_key[of "\<lambda>d. (- debt_rate d, current_principal d, account_id d)" ds]
      by (simp add: ds'_def sorted_map)
    then have "sorted_wrt (\<lambda>a b. debt_rate b < debt_rate a \<or>
        debt_rate a = debt_rate b \<and> current_principal a \<le> current_principal b) ds'"
      by (rule sorted_wrt_mono_rel[rotated]) (auto simp: less_eq_prod_def)
    then show ?thesis using a names by (intro exI[of _ ds']) (simp add: sort_debts_def ds'_def)
  next
    case s
    define ds' where "ds' = sort_key (\<lambda>d. (current_principal d, - debt_rate d, account_id d)) ds"
    have "sorted_wrt (\<lambda>a b. (current_principal a, - debt_rate a, account_id a)
        \<le> (current_principal b, - debt_rate b, account_id b)) ds'"
      using sorted_sort_key[of "\<lambda>d. (current_principal d, - debt_rate d, account_id d)" ds]
      by (simp add: ds'_def sorted_map)
    then have "sorted_wrt (\<lambda>a b. current_principal a < current_principal b \<or>
        current_principal a = current_principal b \<and> debt_rate b \<le> debt_rate a) ds'"
      by (rule sorted_wrt_mono_rel[rotated]) (auto simp: less_eq_prod_def)
    then show ?thesis using s names by (intro exI[of _ ds']) (simp add: sort_debts_def ds'_def)
  next
    case c
    have ok: "validate_custom_order ds order = Inr ()" using validate_inputs_Inr(6)[OF assms(1) c] .
    then obtain ids where ids: "order = Some ids" by (cases order) (auto simp: validate_custom_order_def)
    note v = validate_custom_order_ok[OF ok[unfolded ids]]
    define ds' where "ds' = sort_key (\<lambda>d. the (positions ids (account_id d))) ds"
    have "positions ids (account_id d) \<noteq> None" if d: "d \<in> set ds" for d
    proof -
      have "account_id d \<in> set ids" using v(2) d by simp
      then obtain i where "i < length ids" "ids ! i = account_id d" by (metis in_set_conv_nth)
      then show ?thesis using positions_nth[OF v(1)] by fastforce
    qed
    then have s: "sort_debts ds strat order = Inr ds'"
      using c names by (simp add: sort_debts_def ids ds'_def list_ex_iff)
    have "mset (map account_id ds') = mset (map account_id ds)" by (simp add: ds'_def)
    also have "\<dots> = mset ids" using v assms(2) by (metis set_eq_iff_mset_eq_distinct)
    finally have "map account_id ds' = ids"
      by (rule sorted_by_position[OF v(1)]) (simp add: ds'_def o_def)
    then show ?thesis using c names s ids by (intro exI[of _ ds']) (simp add: ds'_def)
  qed
qed

lemma sort_debts_priority_witness:
  "\<exists>ds'. sort_debts example_debts STRATEGY_CUSTOM (Some [2, 1]) = Inr ds' \<and> map account_id ds' = [2, 1]"
proof -
  have "validate_inputs example_debts (DecimalV 0) STRATEGY_CUSTOM (Some [2, 1]) = Inr 0"
    by (simp add: validate_inputs_def validate_custom_order_def example_debts_def)
  moreover have "distinct (map account_id example_debts)" by (simp add: example_debts_def)
  ultimately show ?thesis using sort_debts_priority by force
qed

end
