(* ===== verification/Amortization.thy ===== *)
theory Amortization
  imports Money Civil_Days Installments Effective_Dated
begin

text \<open>
  \<open>app/services/amortization_engine\<close>: the payment and terms records with their checks, the schedule
  slots, the level-payment formula, the forward projection of a contract and the payoff-by-date
  search.  A projection is a list of rows; the loop over the months is a recursion over the list of
  month numbers, with the two early exits of the source.
\<close>

section \<open>Records\<close>

record payment_dates =
  period_start :: date
  due_date :: date
  settled_on :: "date option"

definition is_confirmed :: "payment_dates \<Rightarrow> bool" where
  "is_confirmed d = (settled_on d \<noteq> None)"

record payment_record =
  pr_dates :: payment_dates
  pr_amount :: dec

definition make_payment_record :: "payment_dates \<Rightarrow> py_value \<Rightarrow> payment_record res" where
  "make_payment_record ds amt =
     (case amt of
        DecimalV x \<Rightarrow> if x < 0 then Inl ValueError else Inr \<lparr>pr_dates = ds, pr_amount = x\<rparr>
      | _ \<Rightarrow> Inl TypeError)"

record rate_change_record =
  rc_effective_date :: date
  rc_interest_rate :: dec
  rc_monthly_pi :: "dec option"

definition make_rate_change_record ::
  "date \<Rightarrow> py_value \<Rightarrow> py_value option \<Rightarrow> rate_change_record res" where
  "make_rate_change_record d rate pi_value =
     (case rate of
        DecimalV r \<Rightarrow>
          if r < 0 then Inl ValueError
          else (case pi_value of
              None \<Rightarrow> Inr \<lparr>rc_effective_date = d, rc_interest_rate = r, rc_monthly_pi = None\<rparr>
            | Some (DecimalV p) \<Rightarrow>
                if p \<le> 0 then Inl ValueError
                else Inr \<lparr>rc_effective_date = d, rc_interest_rate = r, rc_monthly_pi = Some p\<rparr>
            | Some _ \<Rightarrow> Inl TypeError)
      | _ \<Rightarrow> Inl TypeError)"

record period_terms =
  start_date :: date
  annual_rate :: dec
  monthly_pi :: dec

definition make_period_terms :: "date \<Rightarrow> py_value \<Rightarrow> py_value \<Rightarrow> period_terms res" where
  "make_period_terms d rate pi_value =
     (case rate of
        DecimalV r \<Rightarrow>
          if r < 0 then Inl ValueError
          else (case pi_value of
              DecimalV p \<Rightarrow>
                if p < 0 then Inl ValueError
                else Inr \<lparr>start_date = d, annual_rate = r, monthly_pi = p\<rparr>
            | _ \<Rightarrow> Inl TypeError)
      | _ \<Rightarrow> Inl TypeError)"

record amortization_row =
  row_month :: int
  row_payment_date :: date
  row_payment :: dec
  row_principal :: dec
  row_interest :: dec
  row_extra_payment :: dec
  row_remaining_balance :: dec
  row_is_confirmed :: bool
  row_interest_rate :: "dec option"

record projection_inputs =
  starting_balance :: dec
  starting_date :: date
  remaining_months :: int
  payment_day :: int
  terms_schedule :: "period_terms list"

definition make_projection_inputs ::
  "dec \<Rightarrow> date \<Rightarrow> int \<Rightarrow> int \<Rightarrow> period_terms list \<Rightarrow> projection_inputs res" where
  "make_projection_inputs b d n p ts =
     (if ts = [] then Inl ValueError
      else Inr \<lparr>starting_balance = b, starting_date = d, remaining_months = n, payment_day = p,
                terms_schedule = ts\<rparr>)"

record payoff_request =
  rq_current_principal :: dec
  rq_remaining_months :: int
  rq_target_date :: date
  rq_origination_date :: date
  rq_payment_day :: int
  rq_terms_schedule :: "period_terms list"

section \<open>Term and level payment\<close>

definition calculate_remaining_months :: "date \<Rightarrow> int \<Rightarrow> date \<Rightarrow> int" where
  "calculate_remaining_months origination_date term_months as_of =
     max 0 (term_months - months_between origination_date as_of)"

definition calculate_monthly_payment :: "dec \<Rightarrow> dec \<Rightarrow> int \<Rightarrow> dec" where
  "calculate_monthly_payment loan rate months =
     (if loan \<le> 0 \<or> months \<le> 0 then 0
      else if rate \<le> 0 then round_money (ddiv loan (of_int months))
      else let monthly_rate = ddiv rate MONTHS_PER_YEAR;
               factor = dpow (dadd 1 monthly_rate) (nat months);
               payment = ddiv (dmul loan (dmul monthly_rate factor)) (dsub factor 1)
           in round_money payment)"

section \<open>Schedule slots\<close>

text \<open>The \<open>while\<close> of the source: step a month at a time past the months already given out.\<close>

function free_slot :: "(int \<times> int) list \<Rightarrow> int \<Rightarrow> date \<Rightarrow> date" where
  "free_slot allocated pd slot =
     (if (d_year slot, d_month slot) \<in> set allocated
      then free_slot allocated pd (due_in_following_month slot pd) else slot)"
  by pat_completeness auto
termination
proof (relation "measure (\<lambda>(al, pd, s). card {p \<in> set al. month_ordinal s \<le> fst p * 12 + snd p - 1})")
  fix al :: "(int \<times> int) list" and pd s
  assume s: "(d_year s, d_month s) \<in> set al"
  let ?A = "\<lambda>s. {p \<in> set al. month_ordinal s \<le> fst p * 12 + snd p - 1}"
  have "?A (due_in_following_month s pd) \<subset> ?A s"
  proof (rule psubsetI)
    have "(d_year s, d_month s) \<in> ?A s" using s by (simp add: month_ordinal_def)
    moreover have "(d_year s, d_month s) \<notin> ?A (due_in_following_month s pd)"
      by (simp add: month_ordinal_def[of s])
    ultimately show "?A (due_in_following_month s pd) \<noteq> ?A s" by blast
  qed auto
  then have "card (?A (due_in_following_month s pd)) < card (?A s)" by (intro psubset_card_mono) simp
  then show "((al, pd, due_in_following_month s pd), al, pd, s) \<in>
      measure (\<lambda>(al, pd, s). card {p \<in> set al. month_ordinal s \<le> fst p * 12 + snd p - 1})" by simp
qed simp

declare free_slot.simps [simp del]

fun schedule_loop :: "(int \<times> int) list \<Rightarrow> int \<Rightarrow> date list \<Rightarrow> date list" where
  "schedule_loop allocated pd [] = []"
| "schedule_loop allocated pd (due # dues) =
     (let slot = free_slot allocated pd due
      in slot # schedule_loop ((d_year slot, d_month slot) # allocated) pd dues)"

definition schedule_dates :: "date list \<Rightarrow> int \<Rightarrow> date list" where
  "schedule_dates due_dates pd = schedule_loop [] pd due_dates"

definition slotted_dates :: "payment_dates list \<Rightarrow> int \<Rightarrow> payment_dates list" where
  "slotted_dates ds pd =
     map2 (\<lambda>payment slot. payment\<lparr>due_date := slot\<rparr>) ds (schedule_dates (map due_date ds) pd)"

section \<open>The forward projection\<close>

definition governing_terms :: "period_terms list \<Rightarrow> date \<Rightarrow> period_terms" where
  "governing_terms sorted_terms d = scan_by start_date (\<lambda>t. t) d (hd sorted_terms) sorted_terms"

definition apply_contractual_payment ::
  "dec \<Rightarrow> dec \<Rightarrow> dec \<Rightarrow> dec \<Rightarrow> bool \<Rightarrow> dec \<times> dec \<times> dec \<times> dec" where
  "apply_contractual_payment balance intr monthly_payment extra_monthly is_last_month =
     (let parts = apply_payment_cash monthly_payment balance intr 0
      in if 0 < excess parts \<or> balance_after parts \<le> 0 \<or> is_last_month
         then (balance, dadd balance intr, 0, 0)
         else let extra = max (min extra_monthly (balance_after parts)) 0;
                  new_balance = round_money (dsub (balance_after parts) extra)
              in (principal parts, monthly_payment, extra, new_balance))"

fun project_loop ::
  "period_terms list \<Rightarrow> int \<Rightarrow> int \<Rightarrow> int \<Rightarrow> dec \<Rightarrow> int list \<Rightarrow> dec \<Rightarrow> amortization_row list" where
  "project_loop terms first_month pd total_months extra_monthly [] balance = []"
| "project_loop terms first_month pd total_months extra_monthly (month_num # months) balance =
     (if balance \<le> 0 then []
      else let pay_date = clamped_day (first_month + month_num - 1) pd;
               t = governing_terms terms pay_date;
               intr = accrue_monthly_interest balance (annual_rate t);
               (principal_portion, actual_payment, extra, balance') =
                 apply_contractual_payment balance intr (monthly_pi t) extra_monthly
                   (month_num = total_months);
               row = \<lparr>row_month = month_num, row_payment_date = pay_date,
                      row_payment = round_money actual_payment,
                      row_principal = round_money principal_portion, row_interest = intr,
                      row_extra_payment = round_money extra, row_remaining_balance = balance',
                      row_is_confirmed = False, row_interest_rate = Some (annual_rate t)\<rparr>
           in row # (if balance' \<le> 0 then []
                     else project_loop terms first_month pd total_months extra_monthly months balance'))"

definition project_forward :: "projection_inputs \<Rightarrow> dec \<Rightarrow> amortization_row list" where
  "project_forward inputs extra_monthly =
     (if starting_balance inputs \<le> 0 \<or> remaining_months inputs \<le> 0 then []
      else project_loop (sort_key start_date (terms_schedule inputs))
             (month_ordinal (starting_date inputs)) (payment_day inputs) (remaining_months inputs)
             extra_monthly [1 .. remaining_months inputs] (starting_balance inputs))"

section \<open>Payoff by a date\<close>

fun search_loop :: "projection_inputs \<Rightarrow> date \<Rightarrow> nat \<Rightarrow> dec \<Rightarrow> dec \<Rightarrow> dec" where
  "search_loop inputs target_date 0 lo hi = hi"
| "search_loop inputs target_date (Suc n) lo hi =
     (let mid = round_money (ddiv (dadd lo hi) 2);
          schedule = project_forward inputs mid
      in if schedule = [] then mid
         else let actual_payoff = row_payment_date (last schedule);
                  lo' = (if actual_payoff \<le> target_date then lo else mid);
                  hi' = (if actual_payoff \<le> target_date then mid else hi)
              in if dsub hi' lo' \<le> 1/100 then hi' else search_loop inputs target_date n lo' hi')"

definition search_extra_for_payoff :: "projection_inputs \<Rightarrow> date \<Rightarrow> dec \<Rightarrow> dec" where
  "search_extra_for_payoff inputs target_date upper_bound =
     search_loop inputs target_date 100 (1/100) upper_bound"

definition required_extra_for_projection :: "projection_inputs \<Rightarrow> date \<Rightarrow> dec option" where
  "required_extra_for_projection inputs target_date =
     (let baseline = project_forward inputs 0
      in if baseline = [] then Some 0
         else if row_payment_date (last baseline) \<le> target_date then Some 0
         else let target_months = months_between (starting_date inputs) target_date + 1
              in if target_months \<le> 0 then None
                 else if remaining_months inputs \<le> target_months then Some 0
                 else Some (search_extra_for_payoff inputs target_date (starting_balance inputs)))"

definition calculate_payoff_by_date :: "payoff_request \<Rightarrow> dec option res" where
  "calculate_payoff_by_date request =
     (if rq_current_principal request \<le> 0 \<or> rq_remaining_months request \<le> 0 then Inr (Some 0)
      else bind_res (make_projection_inputs (rq_current_principal request)
               (first_installment_date (rq_origination_date request) (rq_payment_day request))
               (rq_remaining_months request) (rq_payment_day request) (rq_terms_schedule request))
             (\<lambda>inputs. Inr (required_extra_for_projection inputs (rq_target_date request))))"

section \<open>What the slots are\<close>

lemma month_key_iff:
  assumes "1 \<le> d_month a" "d_month a \<le> 12" "\<forall>p \<in> set al. 1 \<le> snd p \<and> snd p \<le> 12"
  shows "(d_year a, d_month a) \<in> set al \<longleftrightarrow> month_ordinal a \<in> (\<lambda>p. fst p * 12 + snd p - 1) ` set al"
proof
  assume "month_ordinal a \<in> (\<lambda>p. fst p * 12 + snd p - 1) ` set al"
  then obtain p where p: "p \<in> set al" "month_ordinal a = fst p * 12 + snd p - 1" by blast
  then have "1 \<le> snd p" "snd p \<le> 12" using assms(3) by auto
  then have y: "d_year a = fst p" using p(2) assms(1,2) unfolding month_ordinal_def by linarith
  then have "d_year a = fst p \<and> d_month a = snd p" using p(2) unfolding month_ordinal_def by simp
  with p(1) show "(d_year a, d_month a) \<in> set al" by (metis prod.collapse)
qed (force simp: month_ordinal_def)

text \<open>One search: it stops at the first month that is free, and only an invented slot is clamped.\<close>

lemma free_slot_first_free:
  assumes "valid_date d" "1 \<le> pd" "\<forall>p \<in> set al. 1 \<le> snd p \<and> snd p \<le> 12"
  defines "taken \<equiv> (\<lambda>p. fst p * 12 + snd p - 1) ` set al"
  shows "valid_date (free_slot al pd d) \<and> month_ordinal (free_slot al pd d) \<notin> taken \<and>
         month_ordinal d \<le> month_ordinal (free_slot al pd d) \<and>
         {month_ordinal d ..< month_ordinal (free_slot al pd d)} \<subseteq> taken \<and>
         (if month_ordinal d \<in> taken
          then free_slot al pd d = clamped_day (month_ordinal (free_slot al pd d)) pd
          else free_slot al pd d = d)"
  using assms(1-3) unfolding taken_def
proof (induction al pd d rule: free_slot.induct)
  case (1 al pd d)
  show ?case
  proof (cases "(d_year d, d_month d) \<in> set al")
    case False
    then have "free_slot al pd d = d" by (simp add: free_slot.simps)
    with False 1 show ?thesis by (simp add: month_key_iff valid_dateD)
  next
    case True
    let ?n = "due_in_following_month d pd" and ?s = "free_slot al pd d"
    let ?t = "(\<lambda>p. fst p * 12 + snd p - 1) ` set al"
    have s: "?s = free_slot al pd ?n" using True free_slot.simps[of al pd d] by simp
    have vn: "valid_date ?n" using 1(3) by (rule valid_due_in_following_month)
    have IH: "valid_date ?s" "month_ordinal ?s \<notin> ?t" "month_ordinal d + 1 \<le> month_ordinal ?s"
        "{month_ordinal d + 1 ..< month_ordinal ?s} \<subseteq> ?t"
        "if month_ordinal d + 1 \<in> ?t then ?s = clamped_day (month_ordinal ?s) pd else ?s = ?n"
      using 1(1)[OF True vn 1(3) 1(4)] unfolding s by simp_all
    have "month_ordinal d \<in> ?t" using True 1 by (simp add: month_key_iff valid_dateD)
    moreover have "{month_ordinal d ..< month_ordinal ?s} \<subseteq>
        insert (month_ordinal d) {month_ordinal d + 1 ..< month_ordinal ?s}" by auto
    moreover have "?s = clamped_day (month_ordinal ?s) pd"
    proof (cases "month_ordinal d + 1 \<in> ?t")
      case False
      then show ?thesis using IH(5) by (simp add: due_in_following_month_def)
    qed (use IH(5) in simp)
    ultimately show ?thesis using IH by (auto simp del: image_iff)
  qed
qed

lemma length_schedule_loop [simp]: "length (schedule_loop al pd dues) = length dues"
  by (induction al pd dues rule: schedule_loop.induct) (simp_all add: Let_def)

lemma schedule_loop_slots:
  assumes "\<forall>d \<in> set dues. valid_date d" "1 \<le> pd" "\<forall>p \<in> set al. 1 \<le> snd p \<and> snd p \<le> 12"
    and "i < length dues"
  defines "slots \<equiv> schedule_loop al pd dues"
  defines "taken \<equiv> (\<lambda>p. fst p * 12 + snd p - 1) ` set al \<union> month_ordinal ` set (take i slots)"
  shows "valid_date (slots ! i) \<and> month_ordinal (slots ! i) \<notin> taken \<and>
         month_ordinal (dues ! i) \<le> month_ordinal (slots ! i) \<and>
         {month_ordinal (dues ! i) ..< month_ordinal (slots ! i)} \<subseteq> taken \<and>
         (if month_ordinal (dues ! i) \<in> taken
          then slots ! i = clamped_day (month_ordinal (slots ! i)) pd else slots ! i = dues ! i)"
  using assms(1-4) unfolding taken_def slots_def
proof (induction al pd dues arbitrary: i rule: schedule_loop.induct)
  case (2 al pd due dues)
  define s where "s = free_slot al pd due"
  have s: "valid_date s" "month_ordinal s \<notin> (\<lambda>p. fst p * 12 + snd p - 1) ` set al"
      "month_ordinal due \<le> month_ordinal s"
      "{month_ordinal due ..< month_ordinal s} \<subseteq> (\<lambda>p. fst p * 12 + snd p - 1) ` set al"
      "if month_ordinal due \<in> (\<lambda>p. fst p * 12 + snd p - 1) ` set al
       then s = clamped_day (month_ordinal s) pd else s = due"
    using free_slot_first_free[of due pd al] 2(2-4) unfolding s_def by simp_all
  have loop: "schedule_loop al pd (due # dues) =
      s # schedule_loop ((d_year s, d_month s) # al) pd dues" by (simp add: s_def Let_def)
  show ?case
  proof (cases i)
    case 0
    then show ?thesis using s unfolding loop by simp
  next
    case (Suc j)
    have a: "\<forall>p \<in> set ((d_year s, d_month s) # al). 1 \<le> snd p \<and> snd p \<le> 12"
      using 2(4) s(1) by (auto dest: valid_dateD)
    have j: "j < length dues" using 2(5) Suc by simp
    have m: "(\<lambda>p. fst p * 12 + snd p - 1) ` set ((d_year s, d_month s) # al) =
        insert (month_ordinal s) ((\<lambda>p. fst p * 12 + snd p - 1) ` set al)"
      by (simp add: month_ordinal_def add_diff_eq)
    show ?thesis
      using 2(1)[OF s_def _ 2(3) a j] 2(2) unfolding m loop Suc by simp
  qed
qed simp

lemma distinct_map_nthI:
  "(\<And>i. i < length xs \<Longrightarrow> f (xs ! i) \<notin> f ` set (take i xs)) \<Longrightarrow> distinct (map f xs)"
proof (induction xs rule: rev_induct)
  case (snoc x xs)
  have "f (xs ! i) \<notin> f ` set (take i xs)" if "i < length xs" for i
    using snoc(2)[of i] that by (simp add: nth_append)
  moreover have "f x \<notin> f ` set xs" using snoc(2)[of "length xs"] by simp
  ultimately show ?case using snoc(1) by simp
qed simp

text \<open>
  the schedule slots.  Every payment gets one slot, no two slots share a calendar month, a payment
  whose month is still free keeps its own date, and one whose month is taken gets the due day of the
  first later month that is free.  The search for it steps past at most as many months as payments
  were placed before, so it ends.
\<close>

theorem schedule_dates_slots:
  assumes "\<forall>d \<in> set dues. valid_date d" "1 \<le> pd"
  defines "slots \<equiv> schedule_dates dues pd"
  shows "length slots = length dues \<and> distinct (map month_ordinal slots) \<and>
    (\<forall>i < length dues.
       let taken = month_ordinal ` set (take i slots);
           own = month_ordinal (dues ! i); given = month_ordinal (slots ! i)
       in (if own \<notin> taken then slots ! i = dues ! i
           else slots ! i = clamped_day given pd \<and> own < given) \<and>
          given \<notin> taken \<and> (\<forall>k. own \<le> k \<and> k < given \<longrightarrow> k \<in> taken) \<and>
          own \<le> given \<and> given \<le> own + int i)"
proof -
  have slot: "month_ordinal (slots ! i) \<notin> month_ordinal ` set (take i slots) \<and>
      month_ordinal (dues ! i) \<le> month_ordinal (slots ! i) \<and>
      {month_ordinal (dues ! i) ..< month_ordinal (slots ! i)} \<subseteq>
        month_ordinal ` set (take i slots) \<and>
      (if month_ordinal (dues ! i) \<in> month_ordinal ` set (take i slots)
       then slots ! i = clamped_day (month_ordinal (slots ! i)) pd else slots ! i = dues ! i)"
    if "i < length dues" for i
    using schedule_loop_slots[of dues pd "[]" i] assms(1,2) that
    unfolding slots_def schedule_dates_def by simp
  have len: "length slots = length dues" by (simp add: slots_def schedule_dates_def)
  have near: "month_ordinal (slots ! i) \<le> month_ordinal (dues ! i) + int i" if i: "i < length dues" for i
  proof -
    let ?gap = "{month_ordinal (dues ! i) ..< month_ordinal (slots ! i)}"
    have "card ?gap \<le> card (month_ordinal ` set (take i slots))"
      using slot[OF i] by (intro card_mono) auto
    also have "\<dots> \<le> card (set (take i slots))" by (rule card_image_le) simp
    also have "\<dots> \<le> i" using card_length[of "take i slots"] by simp
    finally show ?thesis by simp
  qed
  show ?thesis
  proof (intro conjI allI impI)
    show "distinct (map month_ordinal slots)"
      by (rule distinct_map_nthI) (use slot len in auto)
    fix i assume i: "i < length dues"
    show "let taken = month_ordinal ` set (take i slots);
           own = month_ordinal (dues ! i); given = month_ordinal (slots ! i)
       in (if own \<notin> taken then slots ! i = dues ! i
           else slots ! i = clamped_day given pd \<and> own < given) \<and>
          given \<notin> taken \<and> (\<forall>k. own \<le> k \<and> k < given \<longrightarrow> k \<in> taken) \<and>
          own \<le> given \<and> given \<le> own + int i"
      using slot[OF i] near[OF i] by (auto simp: Let_def order.strict_iff_order)
  qed (rule len)
qed

lemma schedule_dates_slots_witness:
  "let slots = schedule_dates [Date 2026 5 1, Date 2026 5 1] 31
   in length slots = 2 \<and> month_ordinal (slots ! 0) \<noteq> month_ordinal (slots ! 1)"
proof -
  let ?dues = "[Date 2026 5 1, Date 2026 5 1]"
  have v: "\<forall>d \<in> set ?dues. valid_date d" by (simp add: valid_date_def days_in_month_def)
  have s: "length (schedule_dates ?dues 31) = length ?dues"
      "distinct (map month_ordinal (schedule_dates ?dues 31))"
    using schedule_dates_slots[OF v, of 31] by simp_all
  then show ?thesis using nth_eq_iff_index_eq[OF s(2), of 0 1] by (simp add: Let_def)
qed

section \<open>The terms that govern a day\<close>

text \<open>
  The walk over the sorted terms is the latest-on-or-before resolver of the effective-dated series,
  with one extension: before every entry the first one governs.
\<close>

lemma governing_terms_select:
  "governing_terms (sort_key start_date ts) d =
     (case scan_select start_date ts d of None \<Rightarrow> hd (sort_key start_date ts) | Some t \<Rightarrow> t)"
  by (simp add: governing_terms_def scan_by_sort_select)

lemma governing_terms_in:
  assumes "ts \<noteq> []"
  shows "governing_terms (sort_key start_date ts) d \<in> set ts"
proof -
  have "sort_key start_date ts \<noteq> []" using assms by (metis length_0_conv length_sort)
  then have "hd (sort_key start_date ts) \<in> set (sort_key start_date ts)" by (rule hd_in_set)
  then show ?thesis
    using scanned.select_in[of start_date ts d] by (auto simp: governing_terms_select split: option.split)
qed

section \<open>The rows of a projection\<close>

text \<open>
  Terms the screens accept: a level payment of the money column and a yearly rate of at most 36%.  The
  rate only enters through \<open>growth\<close>: it keeps the balance of a loan whose payments do not even cover
  the interest within the figures whose sums do not round.
\<close>

definition ordinary_terms :: "period_terms \<Rightarrow> bool" where
  "ordinary_terms t =
     (in_column (monthly_pi t) \<and> 0 \<le> monthly_pi t \<and> 0 \<le> annual_rate t \<and> annual_rate t \<le> 36/100)"

text \<open>One month's payment: the four figures of the split, on either branch.\<close>

lemma contractual_payment_parts:
  assumes "0 < balance" "is_cents balance" "amount intr" "amount pay" "amount extra"
    and "0 \<le> intr" "0 \<le> pay" "balance + intr \<le> 10 ^ 20"
  obtains p actual e b where
    "apply_contractual_payment balance intr pay extra last_month = (p, actual, e, b)"
    "is_cents p" "is_cents e" "is_cents b" "is_cents actual"
    "actual = intr + p" "p + e + b = balance" "0 \<le> e" "e \<le> max extra 0" "0 \<le> b"
    "b \<le> balance + intr" "e \<le> balance + intr" "last_month \<Longrightarrow> b = 0" "last_month \<or> actual \<le> pay" "0 < b \<Longrightarrow> actual = pay \<and> e = max extra 0"
proof -
  define after where "after = balance - min (pay - intr) balance"
  have am: "amount balance" using assms by (simp add: amount_nonneg)
  have s: "apply_payment_cash pay balance intr 0 =
      \<lparr>interest = intr, escrow = 0, principal = min (pay - intr) balance,
       excess = max (pay - intr - balance) 0, balance_after = after\<rparr>"
    using apply_payment_cash_open[OF assms(1) assms(4) am assms(3) amount_0] by (simp add: after_def)
  have ac: "is_cents after"
    unfolding after_def using assms am by (intro is_cents_diff is_cents_min) simp_all
  show ?thesis
  proof (cases "0 < max (pay - intr - balance) 0 \<or> after \<le> 0 \<or> last_month")
    case True
    have "apply_contractual_payment balance intr pay extra last_month =
        (balance, dadd balance intr, 0, 0)"
      using True by (simp add: apply_contractual_payment_def s)
    moreover have "dadd balance intr = balance + intr" using am assms(3) by (simp add: exact)
    moreover have "last_month \<or> balance + intr \<le> pay"
      using True by (auto simp: after_def min_def split: if_splits)
    ultimately show ?thesis
      using that[of balance "balance + intr" 0 0] assms by (simp add: is_cents_add)
  next
    case False
    then have a: "0 < after" "after = balance - (pay - intr)" "min (pay - intr) balance = pay - intr"
      by (simp_all add: after_def min_def split: if_splits)
    have ab: "after \<le> balance + intr" using a(2) assms(7) by linarith
    define e where "e = max (min extra after) 0"
    have ec: "is_cents e" unfolding e_def using assms ac by (intro is_cents_intros) simp_all
    have eb: "0 \<le> e" "e \<le> after" "e \<le> max extra 0" using a by (simp_all add: e_def)
    have "after \<le> 10 ^ 20" using ab assms(8) by linarith
    then have "amount after" "amount e"
      using a(1) ac ec eb(1,2) by (auto intro!: amount_nonneg)
    then have "round_money (dsub after e) = after - e"
      using ac ec by (simp add: exact is_cents_diff)
    moreover have "apply_contractual_payment balance intr pay extra last_month =
        (pay - intr, pay, e, round_money (dsub after e))"
      using False a by (simp add: apply_contractual_payment_def s e_def Let_def)
    moreover have "e = max extra 0" if "0 < after - e"
      using that a(1) unfolding e_def by (auto simp: max_def min_def split: if_splits)
    ultimately show ?thesis
      by (intro that[of "pay - intr" pay e "after - e"])
         (use assms(3,4,6,7) a ec eb ac ab False in \<open>simp_all add: is_cents_diff\<close>)
  qed
qed

text \<open>What one row of the table says of the month that starts with balance \<open>b\<close>.\<close>

definition projected_row ::
  "period_terms list \<Rightarrow> int \<Rightarrow> int \<Rightarrow> int \<Rightarrow> dec \<Rightarrow> int \<Rightarrow> dec \<Rightarrow> amortization_row \<Rightarrow> bool" where
  "projected_row ts first_month pd total_months extra k b r =
     (let t = governing_terms ts (row_payment_date r)
      in row_month r = k \<and> row_payment_date r = clamped_day (first_month + k - 1) pd \<and>
         \<not> row_is_confirmed r \<and> row_interest_rate r = Some (annual_rate t) \<and>
         row_interest r = accrue_monthly_interest b (annual_rate t) \<and>
         row_payment r = row_interest r + row_principal r \<and>
         row_principal r + row_extra_payment r + row_remaining_balance r = b \<and>
         0 \<le> row_extra_payment r \<and> row_extra_payment r \<le> max extra 0 \<and>
         (k = total_months \<or> row_payment r \<le> monthly_pi t) \<and>
         (row_remaining_balance r = 0 \<or>
          0 < row_remaining_balance r \<and> row_payment r = monthly_pi t \<and>
          row_extra_payment r = max extra 0))"

definition row_figures :: "amortization_row \<Rightarrow> dec list" where
  "row_figures r = [row_payment r, row_principal r, row_interest r, row_extra_payment r,
                    row_remaining_balance r]"

lemma project_loop_step:
  assumes "ts \<noteq> []" "\<forall>t \<in> set ts. ordinary_terms t" "amount extra" "n \<le> 600" "1 \<le> k" "k \<le> n"
    and "is_cents b" "0 < b" "b \<le> growth (nat (k - 1))" "sorted (map start_date ts)"
  obtains r where "projected_row ts fm pd n extra k b r" "\<forall>x \<in> set (row_figures r). amount x"
    "row_remaining_balance r \<le> growth (nat k)" "k = n \<longrightarrow> row_remaining_balance r = 0"
    "project_loop ts fm pd n extra [k .. n] b =
       r # (if row_remaining_balance r = 0 then []
            else project_loop ts fm pd n extra [k + 1 .. n] (row_remaining_balance r))"
proof -
  define d where "d = clamped_day (fm + k - 1) pd"
  define t where "t = governing_terms ts d"
  define i where "i = accrue_monthly_interest b (annual_rate t)"
  have "t \<in> set ts" unfolding t_def
    using governing_terms_in[OF assms(1)] assms(10) by (metis sort_key_id_if_sorted)
  then have t: "in_column (monthly_pi t)" "0 \<le> monthly_pi t" "0 \<le> annual_rate t" "annual_rate t \<le> 36/100"
    using assms(2) by (simp_all add: ordinary_terms_def)
  have g: "growth (nat (k - 1)) \<le> 10 ^ 19" using assms(4-6) by (intro growth_600) simp
  have i0: "0 \<le> i" "is_cents i" using assms(8) by (simp_all add: i_def accrue_nonneg)
  have bi: "b + i \<le> growth (nat (k - 1)) * 1031/1000"
    unfolding i_def using accrual_step[of b "growth (nat (k - 1))"] growth_ge[of "nat (k - 1)"] assms t by simp
  also have "\<dots> = growth (nat k)" using assms(5) growth_Suc[of "nat (k - 1)"] by (simp add: nat_diff_distrib' Suc_diff_Suc)
  finally have bk: "b + i \<le> growth (nat k)" .
  have big: "b + i \<le> 10 ^ 20" and lim: "2 * b + 2 * i \<le> 10 ^ 20" using bi g by simp_all
  have ai: "amount i" using i0 big assms(8) by (intro amount_nonneg) simp_all
  obtain p actual e b' where ap:
      "apply_contractual_payment b i (monthly_pi t) extra (k = n) = (p, actual, e, b')"
    and c: "is_cents p" "is_cents e" "is_cents b'" "is_cents actual"
    and parts: "actual = i + p" "p + e + b' = b" "0 \<le> e" "e \<le> max extra 0" "0 \<le> b'" "b' \<le> b + i" "e \<le> b + i"
      "k = n \<Longrightarrow> b' = 0" "k = n \<or> actual \<le> monthly_pi t" "0 < b' \<Longrightarrow> actual = monthly_pi t \<and> e = max extra 0"
    using contractual_payment_parts[of b i "monthly_pi t" extra "k = n"] assms t i0 ai big
    by (metis in_column_amount)
  define r where "r = \<lparr>row_month = k, row_payment_date = d, row_payment = actual, row_principal = p,
      row_interest = i, row_extra_payment = e, row_remaining_balance = b', row_is_confirmed = False,
      row_interest_rate = Some (annual_rate t)\<rparr>"
  show ?thesis
  proof (rule that[of r])
    show "projected_row ts fm pd n extra k b r"
      unfolding projected_row_def Let_def r_def amortization_row.select_convs t_def[symmetric]
        i_def[symmetric]
      using parts by (auto simp: d_def)
    have "\<bar>p\<bar> \<le> 10 ^ 20" "\<bar>actual\<bar> \<le> 10 ^ 20" "\<bar>e\<bar> \<le> 10 ^ 20" "\<bar>b'\<bar> \<le> 10 ^ 20"
      using parts(1,2,3,5,6,7) lim i0(1) assms(8) by - (rule abs_leI; linarith)+
    then have "amount p" "amount actual" "amount e" "amount b'"
      using c unfolding amount_def by blast+
    then show "\<forall>x \<in> set (row_figures r). amount x" using ai by (simp add: row_figures_def r_def)
    show "row_remaining_balance r \<le> growth (nat k)" using parts bk by (simp add: r_def)
    show "k = n \<longrightarrow> row_remaining_balance r = 0" using parts by (simp add: r_def)
    have u: "[k .. n] = k # [k + 1 .. n]" using assms(6) by (rule upto_rec1)
    show "project_loop ts fm pd n extra [k .. n] b =
       r # (if row_remaining_balance r = 0 then []
            else project_loop ts fm pd n extra [k + 1 .. n] (row_remaining_balance r))"
      unfolding u using assms(8) ap parts(5) c
      by (auto simp: Let_def d_def[symmetric] t_def[symmetric] i_def[symmetric] r_def)
  qed
qed

fun schedule_from ::
  "period_terms list \<Rightarrow> int \<Rightarrow> int \<Rightarrow> int \<Rightarrow> dec \<Rightarrow> int \<Rightarrow> dec \<Rightarrow> amortization_row list \<Rightarrow> bool" where
  "schedule_from ts fm pd n extra k b [] = (b = 0)"
| "schedule_from ts fm pd n extra k b (r # rs) =
     (0 < b \<and> projected_row ts fm pd n extra k b r \<and>
      schedule_from ts fm pd n extra (k + 1) (row_remaining_balance r) rs)"

lemma project_loop_schedule:
  assumes "ts \<noteq> []" "\<forall>t \<in> set ts. ordinary_terms t" "amount extra" "n \<le> 600" "1 \<le> k" "k \<le> n"
    and "is_cents b" "0 < b" "b \<le> growth (nat (k - 1))" "sorted (map start_date ts)"
  shows "schedule_from ts fm pd n extra k b (project_loop ts fm pd n extra [k .. n] b) \<and>
         length (project_loop ts fm pd n extra [k .. n] b) \<le> nat (n - k + 1) \<and>
         (\<forall>r \<in> set (project_loop ts fm pd n extra [k .. n] b). \<forall>x \<in> set (row_figures r). amount x)"
  using assms
proof (induction "nat (n - k)" arbitrary: k b rule: less_induct)
  case less
  obtain r where r: "projected_row ts fm pd n extra k b r" "\<forall>x \<in> set (row_figures r). amount x"
    "row_remaining_balance r \<le> growth (nat k)" "k = n \<longrightarrow> row_remaining_balance r = 0"
    and loop: "project_loop ts fm pd n extra [k .. n] b =
       r # (if row_remaining_balance r = 0 then []
            else project_loop ts fm pd n extra [k + 1 .. n] (row_remaining_balance r))"
    by (rule project_loop_step[OF less(2-11), of fm pd])
  show ?case
  proof (cases "row_remaining_balance r = 0")
    case True
    then show ?thesis using less(7,9) r(1,2) by (simp add: loop)
  next
    case False
    have b': "0 < row_remaining_balance r" using r(1) False by (auto simp: projected_row_def Let_def)
    have "k < n" using False r(4) less(7) by force
    have c: "is_cents (row_remaining_balance r)" using r(2) by (simp add: row_figures_def)
    have "nat (n - k + 1) = Suc (nat (n - (k + 1) + 1))" using \<open>k < n\<close> by simp
    moreover have k: "nat (n - (k + 1)) < nat (n - k)" "1 \<le> k + 1" "k + 1 \<le> n" "nat (k + 1 - 1) = nat k"
      using \<open>k < n\<close> less(6) by simp_all
    moreover have "schedule_from ts fm pd n extra (k + 1) (row_remaining_balance r)
          (project_loop ts fm pd n extra [k + 1 .. n] (row_remaining_balance r)) \<and>
         length (project_loop ts fm pd n extra [k + 1 .. n] (row_remaining_balance r)) \<le> nat (n - (k + 1) + 1) \<and>
         (\<forall>r \<in> set (project_loop ts fm pd n extra [k + 1 .. n] (row_remaining_balance r)).
            \<forall>x \<in> set (row_figures r). amount x)"
      by (rule less(1)[OF k(1) less(2-5) k(2,3) c b' _ less(11)]) (simp only: k(4) r(3))
    ultimately show ?thesis using False less(9) r(1,2) by (simp add: loop)
  qed
qed

lemma schedule_from_nth:
  assumes "schedule_from ts fm pd n extra k b rows" "i < length rows"
  defines "before \<equiv> if i = 0 then b else row_remaining_balance (rows ! (i - 1))"
  shows "0 < before \<and> projected_row ts fm pd n extra (k + int i) before (rows ! i)"
  using assms(1,2) unfolding before_def
proof (induction rows arbitrary: k b i)
  case (Cons r rows)
  show ?case
  proof (cases i)
    case (Suc j)
    have "schedule_from ts fm pd n extra (k + 1) (row_remaining_balance r) rows" "j < length rows"
      using Cons(2,3) Suc by simp_all
    from Cons.IH[OF this] show ?thesis using Suc by (cases j) (simp_all add: algebra_simps)
  qed (use Cons in simp)
qed simp

lemma schedule_from_sums:
  "schedule_from ts fm pd n extra k b rows \<Longrightarrow>
   sum_list (map (\<lambda>r. row_principal r + row_extra_payment r) rows) = b"
proof (induction rows arbitrary: k b)
  case (Cons r rows)
  have "row_principal r + row_extra_payment r + row_remaining_balance r = b"
    using Cons(2) by (simp add: projected_row_def Let_def)
  moreover have "sum_list (map (\<lambda>r. row_principal r + row_extra_payment r) rows) = row_remaining_balance r"
    using Cons(2) by (intro Cons(1)[of "k + 1"]) simp
  ultimately show ?case by simp
qed simp

lemma schedule_from_last:
  "schedule_from ts fm pd n extra k b rows \<Longrightarrow> rows \<noteq> [] \<Longrightarrow> row_remaining_balance (last rows) = 0"
  by (induction rows arbitrary: k b) auto

text \<open>The inputs of a projection the rest of the section is about.\<close>

definition ordinary_inputs :: "projection_inputs \<Rightarrow> bool" where
  "ordinary_inputs inp =
     (in_column (starting_balance inp) \<and> 0 < starting_balance inp \<and>
      1 \<le> remaining_months inp \<and> remaining_months inp \<le> 600 \<and>
      terms_schedule inp \<noteq> [] \<and> (\<forall>t \<in> set (terms_schedule inp). ordinary_terms t))"

abbreviation sorted_terms :: "projection_inputs \<Rightarrow> period_terms list" where
  "sorted_terms inp \<equiv> sort_key start_date (terms_schedule inp)"

lemma project_forward_schedule:
  assumes "ordinary_inputs inp" "amount extra"
  shows "schedule_from (sorted_terms inp) (month_ordinal (starting_date inp)) (payment_day inp) (remaining_months inp) extra 1
           (starting_balance inp) (project_forward inp extra) \<and>
         length (project_forward inp extra) \<le> nat (remaining_months inp) \<and>
         (\<forall>r \<in> set (project_forward inp extra). \<forall>x \<in> set (row_figures r). amount x)"
proof -
  have s: "sorted_terms inp \<noteq> []"
    using assms(1) by (metis length_0_conv length_sort ordinary_inputs_def)
  have b: "starting_balance inp \<le> growth (nat (1 - 1))"
    using assms(1) growth_ge[of 0] by (auto simp: ordinary_inputs_def in_column_def MONEY_COLUMN_MAX_def)
  have e: "project_forward inp extra =
      project_loop (sorted_terms inp) (month_ordinal (starting_date inp)) (payment_day inp)
        (remaining_months inp) extra [1 .. remaining_months inp] (starting_balance inp)"
    using assms(1) by (simp add: project_forward_def ordinary_inputs_def)
  have i: "\<forall>t \<in> set (sorted_terms inp). ordinary_terms t" "remaining_months inp \<le> 600"
      "(1::int) \<le> 1" "1 \<le> remaining_months inp" "is_cents (starting_balance inp)"
      "0 < starting_balance inp" "sorted (map start_date (sorted_terms inp))"
    using assms(1) by (simp_all add: ordinary_inputs_def in_column_def)
  show ?thesis
    unfolding e
    by (rule project_loop_schedule[OF s i(1) assms(2) i(2-6) b i(7), unfolded diff_add_cancel])
qed

lemma project_forward_nonempty:
  assumes "ordinary_inputs inp" "amount extra"
  shows "project_forward inp extra \<noteq> []"
  using project_forward_schedule[OF assms] assms(1)
  by (cases "project_forward inp extra") (simp_all add: ordinary_inputs_def)

text \<open>
  C24: a projection amortizes its balance.  It has one row a month from the starting month on, each dated
  on the due day; every row accrues the governing rate on the balance before it, splits its payment
  into exactly interest and principal and moves the balance by exactly principal and extra; a row that
  leaves a balance pays exactly the governing level payment and the requested extra; the table ends
  with the balance at zero, within the remaining months, so principal and extra add up to what was
  owed and the cash paid to that plus the interest.
\<close>

theorem project_forward_amortizes:
  assumes "ordinary_inputs inp" "amount extra"
  defines "rows \<equiv> project_forward inp extra"
  shows "rows \<noteq> [] \<and> length rows \<le> nat (remaining_months inp) \<and>
         row_remaining_balance (last rows) = 0 \<and>
         (\<forall>i < length rows.
            projected_row (sort_key start_date (terms_schedule inp))
              (month_ordinal (starting_date inp)) (payment_day inp) (remaining_months inp) extra (int i + 1)
              (if i = 0 then starting_balance inp else row_remaining_balance (rows ! (i - 1)))
              (rows ! i)) \<and>
         sum_list (map (\<lambda>r. row_principal r + row_extra_payment r) rows) = starting_balance inp \<and>
         sum_list (map (\<lambda>r. row_payment r + row_extra_payment r) rows) =
           starting_balance inp + sum_list (map row_interest rows)"
proof -
  have s: "schedule_from (sorted_terms inp) (month_ordinal (starting_date inp)) (payment_day inp) (remaining_months inp) extra 1
           (starting_balance inp) rows" and l: "length rows \<le> nat (remaining_months inp)"
    using project_forward_schedule[OF assms(1,2)] by (simp_all add: rows_def)
  have n: "rows \<noteq> []" unfolding rows_def by (rule project_forward_nonempty[OF assms(1,2)])
  have p: "sum_list (map (\<lambda>r. row_principal r + row_extra_payment r) rows) = starting_balance inp"
    by (rule schedule_from_sums[OF s])
  have "row_payment r + row_extra_payment r =
      row_principal r + row_extra_payment r + row_interest r" if "r \<in> set rows" for r
    using that schedule_from_nth[OF s] by (auto simp: in_set_conv_nth projected_row_def Let_def)
  then have "map (\<lambda>r. row_payment r + row_extra_payment r) rows =
      map (\<lambda>r. row_principal r + row_extra_payment r + row_interest r) rows" by simp
  then have "sum_list (map (\<lambda>r. row_payment r + row_extra_payment r) rows) =
      starting_balance inp + sum_list (map row_interest rows)"
    using p by (simp add: sum_list_addf del: map_eq_conv)
  then show ?thesis
    using n l p schedule_from_last[OF s n] schedule_from_nth[OF s] by (simp add: add.commute)
qed

lemma ordinary_example:
  "ordinary_inputs \<lparr>starting_balance = 100, starting_date = Date 2026 1 1, remaining_months = 3,
     payment_day = 31, terms_schedule = [\<lparr>start_date = Date 2020 1 1, annual_rate = 3/25, monthly_pi = 40\<rparr>]\<rparr>"
  by (simp add: ordinary_inputs_def ordinary_terms_def in_column_def MONEY_COLUMN_MAX_def)

lemma project_forward_amortizes_witness:
  "let rows = project_forward \<lparr>starting_balance = 100, starting_date = Date 2026 1 1,
     remaining_months = 3, payment_day = 31,
     terms_schedule = [\<lparr>start_date = Date 2020 1 1, annual_rate = 3/25, monthly_pi = 40\<rparr>]\<rparr> 5
   in rows \<noteq> [] \<and> length rows \<le> 3 \<and> row_remaining_balance (last rows) = 0 \<and>
      sum_list (map (\<lambda>r. row_principal r + row_extra_payment r) rows) = 100"
proof -
  have "amount 5" by (simp add: amount_def)
  from project_forward_amortizes[OF ordinary_example this] show ?thesis by (simp add: Let_def)
qed

text \<open>
  every cell of a projected table is a money value: in cents, small enough that the boundary
  rounding of it neither raises nor moves it, with a real calendar date, and the dates follow one
  another month by month.
\<close>

theorem projected_cells_are_money:
  assumes "ordinary_inputs inp" "amount extra" "1 \<le> payment_day inp"
    and "r \<in> set (project_forward inp extra)"
  shows "(\<forall>x \<in> set (row_figures r). amount x \<and> round_money_py (DecimalV x) = Inr x) \<and>
         valid_date (row_payment_date r) \<and> 0 \<le> row_interest r \<and> 0 \<le> row_remaining_balance r \<and>
         months_between (starting_date inp) (row_payment_date r) = row_month r - 1"
proof -
  let ?rows = "project_forward inp extra"
  obtain i where i: "i < length ?rows" and r: "r = ?rows ! i"
    using assms(4) unfolding in_set_conv_nth by blast
  have figs: "\<forall>x \<in> set (row_figures r). amount x"
    using project_forward_schedule[OF assms(1,2)] assms(4) by blast
  have "schedule_from (sorted_terms inp) (month_ordinal (starting_date inp)) (payment_day inp) (remaining_months inp) extra 1
      (starting_balance inp) ?rows"
    using project_forward_schedule[OF assms(1,2)] by blast
  from schedule_from_nth[OF this i]
  obtain b where "0 < b" "projected_row (sorted_terms inp) (month_ordinal (starting_date inp))
      (payment_day inp) (remaining_months inp) extra (1 + int i) b r"
    unfolding r by blast
  then have row: "row_payment_date r = clamped_day (month_ordinal (starting_date inp) + int i) (payment_day inp)"
      "0 \<le> row_interest r" "0 \<le> row_remaining_balance r" "row_month r = 1 + int i"
    by (auto simp: projected_row_def Let_def accrue_nonneg)
  have "round_money_py (DecimalV x) = Inr x" if "amount x" for x
    using that round_money_py_defined[of x] by (simp add: amount_def)
  then show ?thesis
    using figs row assms(3) by (simp add: valid_clamped_day months_between_ordinal)
qed

lemma projected_cells_are_money_witness:
  "let r = hd (project_forward \<lparr>starting_balance = 100, starting_date = Date 2026 1 1,
     remaining_months = 3, payment_day = 31,
     terms_schedule = [\<lparr>start_date = Date 2020 1 1, annual_rate = 3/25, monthly_pi = 40\<rparr>]\<rparr> 5)
   in valid_date (row_payment_date r) \<and> round_money_py (DecimalV (row_payment r)) = Inr (row_payment r)"
proof -
  let ?rows = "project_forward \<lparr>starting_balance = 100, starting_date = Date 2026 1 1,
     remaining_months = 3, payment_day = 31,
     terms_schedule = [\<lparr>start_date = Date 2020 1 1, annual_rate = 3/25, monthly_pi = 40\<rparr>]\<rparr> 5"
  have a: "amount 5" by (simp add: amount_def)
  have "?rows \<noteq> []" using project_forward_schedule[OF ordinary_example a] by auto
  from projected_cells_are_money[OF ordinary_example a _ hd_in_set[OF this]]
  show ?thesis by (simp add: row_figures_def)
qed

section \<open>The extra payment that meets a date\<close>

definition payoff_day :: "projection_inputs \<Rightarrow> dec \<Rightarrow> date" where
  "payoff_day inp extra = row_payment_date (last (project_forward inp extra))"

lemma search_midpoint:
  assumes "0 \<le> a" "0 \<le> b" "a \<le> 10 ^ 12" "b \<le> 10 ^ 12"
  shows "round_money (ddiv (dadd (of_int a / 100) (of_int b / 100)) 2) = of_int ((a + b + 1) div 2) / 100"
proof -
  have "(of_int a :: rat) \<le> 10 ^ 12" "(of_int b :: rat) \<le> 10 ^ 12"
    using assms(3,4) by (metis of_int_le_iff of_int_numeral of_int_power)+
  moreover have "(0::rat) \<le> of_int a" "(0::rat) \<le> of_int b" using assms by simp_all
  ultimately have "\<bar>of_int a / 100 + of_int b / 100 :: rat\<bar> < 10 ^ 26" by simp
  moreover have "is_cents (of_int a / 100)" "is_cents (of_int b / 100)" by (auto intro: is_centsI)
  ultimately have s: "dadd (of_int a / 100) (of_int b / 100) = of_int (a + b) / 100"
    by (simp add: dadd_exact add_divide_distrib)
  have "fix28 (of_int (a + b) / 200) = of_int (a + b) / 200"
  proof (rule fix28_exact)
    show "of_int (a + b) / 200 = (of_int (5 * (a + b)) :: rat) * 10 powi (- 3)"
      by (simp add: power_int_minus power3_eq_cube)
    show "\<bar>5 * (a + b)\<bar> < 10 ^ 28" using assms by simp
  qed
  then have "ddiv (dadd (of_int a / 100) (of_int b / 100)) 2 = of_int (a + b) / 200"
    by (simp add: s ddiv_def)
  moreover have "\<lfloor>(of_int (a + b) / 2 + 1/2 :: rat)\<rfloor> = (a + b + 1) div 2"
    using floor_divide_of_int_eq[of "a + b + 1" 2, where 'a = rat] by (simp add: add_divide_distrib)
  moreover have "of_int (a + b) / 200 * 100 = (of_int (a + b) / 2 :: rat)" by simp
  moreover have "0 \<le> (of_int (a + b) / 2 :: rat)" using assms by simp
  ultimately show ?thesis
    by (simp only: round_money_def quantize_cents_def round_half_up_def if_True)
qed

text \<open>
  The bracket halves in every iteration, so the hundred iterations of the source are many more than
  the forty a money-column balance needs, and the loop always stops on the width of the bracket.
\<close>

lemma search_loop_bracket:
  assumes "ordinary_inputs inp" "1 \<le> a" "a \<le> b" "b \<le> 10 ^ 12" "b - a \<le> 2 ^ n"
    and "b = ub \<or> payoff_day inp (of_int b / 100) \<le> target"
    and "a = 1 \<or> target < payoff_day inp (of_int a / 100)"
  shows "\<exists>lo hi. search_loop inp target n (of_int a / 100) (of_int b / 100) = of_int hi / 100 \<and>
           1 \<le> lo \<and> lo \<le> hi \<and> hi \<le> b \<and> hi - lo \<le> 1 \<and>
           (hi = ub \<or> payoff_day inp (of_int hi / 100) \<le> target) \<and>
           (lo = 1 \<or> target < payoff_day inp (of_int lo / 100))"
  using assms(2-7)
proof (induction n arbitrary: a b)
  case 0
  then show ?case by (intro exI[of _ a] exI[of _ b]) simp
next
  case (Suc n)
  define m where "m = (a + b + 1) div 2"
  have mid: "round_money (ddiv (dadd (of_int a / 100) (of_int b / 100)) 2) = of_int m / 100"
    unfolding m_def using Suc.prems by (intro search_midpoint) simp_all
  have m: "a \<le> m" "m \<le> b" "m - a \<le> 2 ^ n" "b - m \<le> 2 ^ n"
    using Suc.prems by (simp_all add: m_def)
  have "(of_int m :: rat) \<le> of_int (10 ^ 12)" using m Suc.prems by (simp only: of_int_le_iff)
  then have "amount (of_int m / 100)"
    using m Suc.prems by (intro amount_nonneg) (auto intro: is_centsI)
  then have ne: "project_forward inp (of_int m / 100) \<noteq> []"
    by (rule project_forward_nonempty[OF assms(1)])
  define early where "early = (payoff_day inp (of_int m / 100) \<le> target)"
  define lo hi where "lo = (if early then a else m)" and "hi = (if early then m else b)"
  have lh: "1 \<le> lo" "lo \<le> hi" "hi \<le> b" "hi \<le> 10 ^ 12" "hi - lo \<le> 2 ^ n"
      "hi = ub \<or> payoff_day inp (of_int hi / 100) \<le> target"
      "lo = 1 \<or> target < payoff_day inp (of_int lo / 100)"
    using m Suc.prems by (auto simp: lo_def hi_def early_def not_le)
  have step: "search_loop inp target (Suc n) (of_int a / 100) (of_int b / 100) =
      (if dsub (of_int hi / 100) (of_int lo / 100) \<le> 1/100 then of_int hi / 100
       else search_loop inp target n (of_int lo / 100) (of_int hi / 100))"
    using ne by (simp add: mid Let_def lo_def hi_def early_def payoff_day_def)
  have "is_cents (of_int hi / 100)" "is_cents (of_int lo / 100)" by (auto intro: is_centsI)
  moreover have "\<bar>of_int hi / 100 - of_int lo / 100 :: rat\<bar> < 10 ^ 26"
  proof -
    have "(of_int hi :: rat) \<le> of_int (10 ^ 12)" "(0::rat) \<le> of_int lo" "(of_int lo :: rat) \<le> of_int hi"
      using lh by (simp_all only: of_int_le_iff of_int_0_le_iff)
    then show ?thesis by simp
  qed
  ultimately have d: "dsub (of_int hi / 100) (of_int lo / 100) = of_int (hi - lo) / 100"
    by (simp add: dsub_exact diff_divide_distrib)
  show ?case
  proof (cases "hi - lo \<le> 1")
    case True
    then have "(of_int (hi - lo) :: rat) \<le> 1" by (metis of_int_1 of_int_le_iff)
    then have "search_loop inp target (Suc n) (of_int a / 100) (of_int b / 100) = of_int hi / 100"
      unfolding step d by simp
    with True lh show ?thesis by (intro exI[of _ lo] exI[of _ hi]) simp
  next
    case False
    then have "\<not> (of_int (hi - lo) :: rat) \<le> 1" by (metis of_int_1 of_int_le_iff)
    then have "search_loop inp target (Suc n) (of_int a / 100) (of_int b / 100) =
        search_loop inp target n (of_int lo / 100) (of_int hi / 100)"
      unfolding step d by simp
    with Suc.IH[OF lh(1,2,4-7)] lh(3) show ?thesis by fastforce
  qed
qed

text \<open>Paying the whole balance at once ends the loan on its first day, if its payment covers the interest.\<close>

lemma payoff_day_of_everything:
  assumes "ordinary_inputs inp"
    and first: "fd = clamped_day (month_ordinal (starting_date inp)) (payment_day inp)"
    and t: "t = governing_terms (sort_key start_date (terms_schedule inp)) fd"
    and covers: "accrue_monthly_interest (starting_balance inp) (annual_rate t) \<le> monthly_pi t"
  shows "payoff_day inp (starting_balance inp) = fd"
proof -
  let ?B = "starting_balance inp"
  have B: "amount ?B" "0 < ?B"
    using assms(1) by (simp_all add: ordinary_inputs_def in_column_amount)
  obtain r rs where rows: "project_forward inp ?B = r # rs"
    using project_forward_nonempty[OF assms(1) B(1)] by (meson neq_Nil_conv)
  then have s: "projected_row (sorted_terms inp) (month_ordinal (starting_date inp)) (payment_day inp) (remaining_months inp) ?B 1 ?B r"
      "schedule_from (sorted_terms inp) (month_ordinal (starting_date inp)) (payment_day inp) (remaining_months inp) ?B 2
        (row_remaining_balance r) rs"
    using project_forward_schedule[OF assms(1) B(1)] by simp_all
  have d: "row_payment_date r = fd" using s(1) by (simp add: projected_row_def Let_def first)
  have "row_remaining_balance r = 0"
    using s(1) covers B(2) by (auto simp: projected_row_def Let_def d t[symmetric])
  then have "rs = []" using s(2) by (cases rs) simp_all
  then show ?thesis by (simp add: payoff_day_def rows d)
qed

text \<open>More paid a month never ends the loan later.\<close>

lemma schedule_not_longer:
  assumes "ts \<noteq> []" "\<forall>t \<in> set ts. ordinary_terms t" "0 \<le> y" "y \<le> x"
  shows "schedule_from (sort_key start_date ts) fm pd n x k a rows \<Longrightarrow> schedule_from (sort_key start_date ts) fm pd n y k b rows' \<Longrightarrow> a \<le> b \<Longrightarrow>
    length rows \<le> nat (n - k + 1) \<Longrightarrow> length rows \<le> length rows'"
proof (induction rows arbitrary: k a b rows')
  case (Cons r rows)
  have a: "0 < a" "projected_row (sort_key start_date ts) fm pd n x k a r" "schedule_from (sort_key start_date ts) fm pd n x (k + 1) (row_remaining_balance r) rows"
    using Cons.prems(1) by simp_all
  then obtain r' rs where rows': "rows' = r' # rs" using Cons.prems(2,3) by (cases rows') auto
  have b: "projected_row (sort_key start_date ts) fm pd n y k b r'" "schedule_from (sort_key start_date ts) fm pd n y (k + 1) (row_remaining_balance r') rs"
    using Cons.prems(2) rows' by simp_all
  have "length rows \<le> length rs"
  proof (cases "rows = [] \<or> row_remaining_balance r = 0")
    case True
    then show ?thesis using a(3) by (cases rows) auto
  next
    case False
    then have more: "k \<noteq> n" using Cons.prems(4) by (cases rows) auto
    let ?t = "governing_terms (sort_key start_date ts) (clamped_day (fm + k - 1) pd)"
    have "0 \<le> annual_rate ?t" using governing_terms_in[OF assms(1)] assms(2) by (auto simp: ordinary_terms_def)
    then have "accrue_monthly_interest a (annual_rate ?t) \<le> accrue_monthly_interest b (annual_rate ?t)"
      using a(1) Cons.prems(3) by (intro accrue_mono) simp_all
    then have "row_remaining_balance r \<le> row_remaining_balance r'"
      using a(2) b(1) False more assms(3,4) Cons.prems(3) by (auto simp: projected_row_def Let_def)
    then show ?thesis using Cons.IH[OF a(3) b(2)] more Cons.prems(4) by simp
  qed
  then show ?case by (simp add: rows')
qed simp

lemma payoff_day_length:
  assumes "ordinary_inputs inp" "amount z"
  shows "payoff_day inp z =
    clamped_day (month_ordinal (starting_date inp) + int (length (project_forward inp z)) - 1) (payment_day inp)"
proof -
  let ?rows = "project_forward inp z"
  have "?rows \<noteq> []" by (rule project_forward_nonempty[OF assms])
  then show ?thesis using schedule_from_nth[OF conjunct1[OF project_forward_schedule[OF assms]], of "length ?rows - 1"]
    by (simp add: payoff_day_def last_conv_nth projected_row_def Let_def of_nat_diff Suc_leI algebra_simps)
qed

lemma payoff_day_antimono:
  assumes "ordinary_inputs inp" "amount x" "amount y" "0 \<le> y" "y \<le> x"
  shows "payoff_day inp x \<le> payoff_day inp y"
proof -
  have ts: "terms_schedule inp \<noteq> []" "\<forall>t \<in> set (terms_schedule inp). ordinary_terms t"
    using assms(1) by (simp_all add: ordinary_inputs_def)
  have "length (project_forward inp x) \<le> nat (remaining_months inp - 1 + 1)"
    using project_forward_schedule[OF assms(1,2)] by simp
  then have "length (project_forward inp x) \<le> length (project_forward inp y)"
    by (rule schedule_not_longer[OF ts assms(4,5) conjunct1[OF project_forward_schedule[OF assms(1,2)]]
          conjunct1[OF project_forward_schedule[OF assms(1,3)]] order_refl])
  then show "payoff_day inp x \<le> payoff_day inp y"
    unfolding payoff_day_length[OF assms(1,2)] payoff_day_length[OF assms(1,3)] by (simp add: grid.land_le_iff)
qed

lemma first_day_le_payoff:
  assumes "ordinary_inputs inp" "amount x"
  shows "clamped_day (month_ordinal (starting_date inp)) (payment_day inp) \<le> payoff_day inp x"
proof -
  have "project_forward inp x \<noteq> []" by (rule project_forward_nonempty[OF assms])
  then have "0 < length (project_forward inp x)" by simp
  then show ?thesis by (simp add: payoff_day_length[OF assms] grid.land_le_iff)
qed

text \<open>
  The search: it never tries its lower bound of one cent, so two cents may be its answer where one would do;
  any other amount below its answer is too little.\<close>

lemma search_extra_least:
  assumes "ordinary_inputs inp"
  obtains h where "search_extra_for_payoff inp target (starting_balance inp) = h" "is_cents h" "1/100 \<le> h" "h \<le> starting_balance inp"
    "h = starting_balance inp \<or> payoff_day inp h \<le> target"
    "\<And>x. is_cents x \<Longrightarrow> 0 < x \<Longrightarrow> x < h \<Longrightarrow> payoff_day inp x \<le> target \<Longrightarrow> x = 1/100 \<and> h = 1/50"
proof -
  obtain B :: int where B: "starting_balance inp = of_int B / 100"
    using assms(1) by (auto simp: ordinary_inputs_def in_column_def elim: is_centsE)
  have "(of_int B :: rat) \<le> of_int (10 ^ 12)" "0 < (of_int B :: rat)"
    using assms(1) by (auto simp: ordinary_inputs_def in_column_def MONEY_COLUMN_MAX_def B)
  then have b: "B \<le> 10 ^ 12" "1 \<le> B" by (simp_all only: of_int_le_iff of_int_0_less_iff)
  have "(10::int) ^ 12 \<le> 2 ^ 100" by simp
  then have w: "B - 1 \<le> 2 ^ 100" using b(1) by linarith
  obtain lo hi where h: "search_loop inp target 100 (of_int 1 / 100) (of_int B / 100) = of_int hi / 100"
    "1 \<le> lo" "lo \<le> hi" "hi \<le> B" "hi - lo \<le> 1"
    "hi = B \<or> payoff_day inp (of_int hi / 100) \<le> target"
    "lo = 1 \<or> target < payoff_day inp (of_int lo / 100)"
    using search_loop_bracket[OF assms(1) _ b(2,1) w, of B target] by auto
  have r: "(of_int 1 :: rat) \<le> of_int hi" "(of_int hi :: rat) \<le> of_int B"
    using h(2-4) by (simp_all only: of_int_le_iff)
  have least: "x = 1/100 \<and> of_int hi / 100 = (1/50 :: rat)"
    if x: "is_cents x" "0 < x" "x < of_int hi / 100" "payoff_day inp x \<le> target" for x
  proof -
    obtain c :: int where c: "x = of_int c / 100" using x(1) by (auto elim: is_centsE)
    then have "(0::rat) < of_int c" "(of_int c :: rat) < of_int hi" using x(2,3) by simp_all
    then have ch: "1 \<le> c" "c < hi" by simp_all
    have "lo = 1"
    proof (rule ccontr)
      assume "lo \<noteq> 1"
      then have late: "target < payoff_day inp (of_int lo / 100)" using h(7) by simp
      have "c \<le> lo" "lo \<le> 10 ^ 12" using ch(2) h(3,4,5) b(1) by linarith+
      then have l: "(of_int c :: rat) \<le> of_int lo" "(of_int lo :: rat) \<le> of_int (10 ^ 12)" by (simp_all only: of_int_le_iff)
      then have "amount (of_int lo / 100)" "amount x" using x(1,2) ch(1) h(2) unfolding c
        by (auto intro!: amount_nonneg is_centsI)
      then have "payoff_day inp (of_int lo / 100) \<le> payoff_day inp x"
        using payoff_day_antimono[OF assms(1), of "of_int lo / 100" x] l(1) x(2) by (simp add: c)
      then show False using late x(4) by simp
    qed
    then have "c = 1" "hi = 2" using ch h(5) by linarith+
    then show ?thesis by (simp add: c)
  qed
  have "search_extra_for_payoff inp target (starting_balance inp) = of_int hi / 100"
    using h(1) by (simp add: search_extra_for_payoff_def B)
  then show ?thesis
    by (rule that) (use least h(6) r B in \<open>auto intro: is_centsI\<close>)
qed

text \<open>
  C27: the answer to "what extra payment retires this loan by that day", on every branch, for a loan
  whose first level payment covers the first month's interest.  No extra where
  the contract does it alone.  Where it does not: no answer for a day before the first payment's month;
  zero from the last scheduled month on, although the contract then pays off after the day asked for; the
  whole balance for a day of the first month before its payment, which no payment can meet; and otherwise the
  least extra payment: an amount in cents of at most the balance whose projection pays off by the day, while
  every smaller amount pays off after it, but for one cent where the answer is two.\<close>

theorem required_extra_minimal:
  fixes target :: date
  assumes "ordinary_inputs inp"
    and "fd = clamped_day (month_ordinal (starting_date inp)) (payment_day inp)"
    and "t = governing_terms (sort_key start_date (terms_schedule inp)) fd"
    and "accrue_monthly_interest (starting_balance inp) (annual_rate t) \<le> monthly_pi t"
  defines "months \<equiv> months_between (starting_date inp) target + 1"
  shows "(payoff_day inp 0 \<le> target \<longrightarrow> required_extra_for_projection inp target = Some 0) \<and>
    (target < payoff_day inp 0 \<longrightarrow>
       (months \<le> 0 \<longrightarrow> required_extra_for_projection inp target = None) \<and>
       (0 < months \<and> remaining_months inp \<le> months \<longrightarrow>
          required_extra_for_projection inp target = Some 0) \<and>
       (0 < months \<and> months < remaining_months inp \<and> target < fd \<longrightarrow>
          required_extra_for_projection inp target = Some (starting_balance inp) \<and>
          (\<forall>x. amount x \<longrightarrow> target < payoff_day inp x)) \<and>
       (0 < months \<and> months < remaining_months inp \<and> fd \<le> target \<longrightarrow>
          (\<exists>h. required_extra_for_projection inp target = Some h \<and> is_cents h \<and> 1/100 \<le> h \<and>
               h \<le> starting_balance inp \<and> payoff_day inp h \<le> target \<and>
               (\<forall>x. is_cents x \<and> 0 \<le> x \<and> x < h \<and> payoff_day inp x \<le> target \<longrightarrow> x = 1/100 \<and> h = 1/50))))"
proof -
  have n: "project_forward inp 0 \<noteq> []" by (rule project_forward_nonempty[OF assms(1)]) simp
  have all: "payoff_day inp (starting_balance inp) = fd"
    by (rule payoff_day_of_everything[OF assms(1,2,3,4)])
  have req: "required_extra_for_projection inp target =
      (if payoff_day inp 0 \<le> target then Some 0 else if months \<le> 0 then None
       else if remaining_months inp \<le> months then Some 0
       else Some (search_extra_for_payoff inp target (starting_balance inp)))"
    using n by (simp add: required_extra_for_projection_def Let_def payoff_day_def months_def)
  obtain h where h: "search_extra_for_payoff inp target (starting_balance inp) = h" "is_cents h" "1/100 \<le> h" "h \<le> starting_balance inp"
    "h = starting_balance inp \<or> payoff_day inp h \<le> target"
    "\<And>x. is_cents x \<Longrightarrow> 0 < x \<Longrightarrow> x < h \<Longrightarrow> payoff_day inp x \<le> target \<Longrightarrow> x = 1/100 \<and> h = 1/50"
    by (rule search_extra_least[OF assms(1)]) blast
  have late: "target < payoff_day inp x" if "amount x" "target < fd" for x
    using first_day_le_payoff[OF assms(1) that(1)] that(2) assms(2) by simp
  have "amount h"
  proof -
    have "starting_balance inp \<le> 10 ^ 10" using assms(1) by (auto simp: ordinary_inputs_def in_column_def MONEY_COLUMN_MAX_def)
    then show ?thesis using h(2-4) by (auto intro!: amount_nonneg)
  qed
  then have whole: "h = starting_balance inp" if "target < fd" using late that h(5) by force
  have early: "payoff_day inp h \<le> target" if "fd \<le> target" using h(5) all that by auto
  show ?thesis
  proof (cases "payoff_day inp 0 \<le> target")
    case True
    then show ?thesis using req by (simp only: not_less[symmetric]) simp
  next
    case False
    have "x = 1/100 \<and> h = 1/50" if "is_cents x" "0 \<le> x" "x < h" "payoff_day inp x \<le> target" for x
      using h(6)[OF that(1) _ that(3,4)] that(2,4) False by (cases "x = 0") auto
    then show ?thesis using False h(1-4) whole early late by (auto simp: req)
  qed
qed

text \<open>A loan without interest, to watch the question on: 40, 40 and 20 on the last days of three months.\<close>

definition free_loan :: projection_inputs where
  "free_loan = \<lparr>starting_balance = 100, starting_date = Date 2026 1 1, remaining_months = 3, payment_day = 31,
     terms_schedule = [\<lparr>start_date = Date 2020 1 1, annual_rate = 0, monthly_pi = 40\<rparr>]\<rparr>"

lemma free_loan_payoff: "payoff_day free_loan 0 = clamped_day (2026 * 12 + 2) 31"
proof -
  have a: "amount 40" "amount 100" "amount 60" "amount 20" by (simp_all add: amount_def)
  have g: "governing_terms [t] d = t" for t d by (simp add: governing_terms_def)
  have u: "[1 .. 3 :: int] = [1, 2, 3]" by (simp add: upto_rec1)
  have p1: "apply_payment_cash 40 b 0 0 = \<lparr>interest = 0, escrow = 0, principal = 40, excess = 0,
      balance_after = b - 40\<rparr>" if "b \<in> {100, 60}" for b
    using that apply_payment_cash_open[of b 40 0 0] a by auto
  show ?thesis
    by (simp add: payoff_day_def project_forward_def free_loan_def u g p1 exact a
        apply_contractual_payment_def month_ordinal_def)
qed

lemma required_extra_minimal_witness:
  "\<exists>h. required_extra_for_projection free_loan (Date 2026 2 28) = Some h \<and>
       payoff_day free_loan h \<le> Date 2026 2 28"
proof -
  have o: "ordinary_inputs free_loan"
    by (simp add: free_loan_def ordinary_inputs_def ordinary_terms_def in_column_def MONEY_COLUMN_MAX_def)
  have "Date 2026 2 28 < payoff_day free_loan 0"
    unfolding free_loan_payoff by (rule grid.land_after) (simp_all add: month_ordinal_def)
  moreover have "clamped_day (month_ordinal (starting_date free_loan)) (payment_day free_loan) \<le> Date 2026 2 28"
    unfolding free_loan_def
    by (rule less_imp_le, rule grid.land_before) (simp_all add: month_ordinal_def)
  moreover have "accrue_monthly_interest (starting_balance free_loan)
      (annual_rate (governing_terms (sort_key start_date (terms_schedule free_loan)) d)) \<le>
      monthly_pi (governing_terms (sort_key start_date (terms_schedule free_loan)) d)" for d
    by (simp add: free_loan_def governing_terms_def)
  ultimately show ?thesis
    using required_extra_minimal[OF _ refl refl, of free_loan "Date 2026 2 28"] o
    by (auto simp: free_loan_def months_between_def)
qed

text \<open>In the last scheduled month the gate answers zero before the due day already.\<close>

lemma required_extra_last_month_gate:
  "Date 2026 3 30 < payoff_day free_loan 0 \<and>
   required_extra_for_projection free_loan (Date 2026 3 30) = Some 0"
proof
  have d: "Date 2026 3 30 < clamped_day (2026 * 12 + 2) 31"
    by (simp add: clamped_day_def days_in_month_def less_date_def Let_def)
  then show late: "Date 2026 3 30 < payoff_day free_loan 0" by (simp only: free_loan_payoff)
  have "ordinary_inputs free_loan"
    by (simp add: free_loan_def ordinary_inputs_def ordinary_terms_def in_column_def MONEY_COLUMN_MAX_def)
  then have "project_forward free_loan 0 \<noteq> []" by (rule project_forward_nonempty) simp
  moreover have "months_between (starting_date free_loan) (Date 2026 3 30) + 1 = 3"
      "remaining_months free_loan = 3"
    by (simp_all add: free_loan_def months_between_def)
  ultimately show "required_extra_for_projection free_loan (Date 2026 3 30) = Some 0"
    using late by (simp add: required_extra_for_projection_def payoff_day_def)
qed

end
