(* ===== verification/Rate_Periods.thy ===== *)
theory Rate_Periods
  imports Amortization "HOL-Library.Product_Lexorder"
begin

text \<open>
  \<open>app/services/rate_period_engine.py\<close>: a loan as a sequence of fixed-rate periods, the level payment
  of each, and the replay of the confirmed payments along the contractual schedule.  An absent list
  (Python's \<open>None\<close>) is the empty list; the dict of recorded payments is an association list in
  insertion order with distinct keys.
\<close>

section \<open>Values\<close>

record rate_period =
  period_index :: nat
  period_start_date :: date
  period_rate :: dec
  period_pi :: dec
  start_month_index :: int
  term_months_at_start :: int

record schedule_replay =
  replay_rows :: "amortization_row list"
  balance_as_of :: dec
  next_pay_date :: date
  remaining_months_as_of :: int
  current_period :: rate_period

record loan_terms =
  origination_date :: date
  original_principal :: dec
  base_rate :: dec
  term_months :: int
  is_arm :: bool
  arm_first_adjustment_months :: "int option"
  arm_adjustment_interval_months :: "int option"

record balance_anchor =
  anchor_amount :: dec
  as_of_date :: date

record confirmed_row_inputs =
  cr_origination_date :: date
  cr_installment :: date
  cr_principal :: dec
  cr_interest :: dec
  cr_period :: rate_period
  cr_remaining_balance :: dec

section \<open>Eligibility and lookups\<close>

definition payment_number :: "date \<Rightarrow> date \<Rightarrow> int" where
  "payment_number origination payment_date = months_between origination payment_date"

definition due_after_anchor :: "date \<Rightarrow> date \<Rightarrow> bool" where
  "due_after_anchor anchor_date due = (anchor_date < due)"

definition is_confirmed_payment_eligible :: "date option \<Rightarrow> date \<Rightarrow> date \<Rightarrow> date \<Rightarrow> bool" where
  "is_confirmed_payment_eligible settled due anchor_date as_of =
     (due_after_anchor anchor_date due \<and> has_settled_by settled as_of)"

definition rate_at_date :: "rate_change_record list \<Rightarrow> date \<Rightarrow> dec \<Rightarrow> dec" where
  "rate_at_date rate_changes target base =
     (if rate_changes = [] then base
      else scan_by rc_effective_date rc_interest_rate target base
             (sort_key rc_effective_date rate_changes))"

definition recorded_pi_at_date :: "(date \<times> dec) list \<Rightarrow> date \<Rightarrow> dec option" where
  "recorded_pi_at_date recorded target =
     (if recorded = [] then None
      else scan_by (\<lambda>k. k) (map_of recorded) target None (sort (map fst recorded)))"

definition period_for_date :: "rate_period list \<Rightarrow> date \<Rightarrow> rate_period res" where
  "period_for_date periods target =
     (if periods = [] then Inl ValueError
      else Inr (scan_by period_start_date (\<lambda>p. p) target (hd periods) periods))"

section \<open>Building the periods\<close>

fun amortize_loop :: "dec \<Rightarrow> dec \<Rightarrow> nat \<Rightarrow> dec \<Rightarrow> dec" where
  "amortize_loop rate level_payment 0 balance = round_money balance"
| "amortize_loop rate level_payment (Suc n) balance =
     (if balance \<le> 0 then 0
      else let intr = accrue_monthly_interest balance rate;
               prin = dsub level_payment intr
           in if balance \<le> prin then 0
              else let balance' = round_money (dsub balance prin)
                   in if balance' < 0 then 0 else amortize_loop rate level_payment n balance')"

definition amortize_forward :: "dec \<Rightarrow> dec \<Rightarrow> dec \<Rightarrow> int \<Rightarrow> dec" where
  "amortize_forward balance rate level_payment months =
     amortize_loop rate level_payment (nat (max 0 months)) balance"

text \<open>The \<open>while\<close> over the adjustment offsets; it ends because a positive interval moves the offset.\<close>

function cadence_boundaries :: "date \<Rightarrow> int \<Rightarrow> int option \<Rightarrow> int \<Rightarrow> date list" where
  "cadence_boundaries origination months interval offset =
     (if offset < months
      then add_months origination offset #
           (case interval of None \<Rightarrow> []
            | Some i \<Rightarrow> if i \<le> 0 then [] else cadence_boundaries origination months interval (offset + i))
      else [])"
  by pat_completeness auto
termination
  by (relation "measure (\<lambda>(og, months, interval, offset). nat (months - offset))") auto

declare cadence_boundaries.simps [simp del]

definition period_boundary_dates :: "loan_terms \<Rightarrow> rate_change_record list \<Rightarrow> date list" where
  "period_boundary_dates terms rate_changes =
     (let term_end = add_months (origination_date terms) (term_months terms);
          recorded = [rc_effective_date c. c \<leftarrow> rate_changes,
                        origination_date terms < rc_effective_date c \<and> rc_effective_date c < term_end];
          cadence =
            (case arm_first_adjustment_months terms of
               None \<Rightarrow> []
             | Some first \<Rightarrow>
                 if is_arm terms \<and> 0 < first \<and> first < term_months terms
                 then cadence_boundaries (origination_date terms) (term_months terms)
                        (arm_adjustment_interval_months terms) first
                 else [])
      in sort (remdups (origination_date terms # recorded @ cadence)))"

definition period_at ::
  "loan_terms \<Rightarrow> rate_change_record list \<Rightarrow> (date \<times> dec) list \<Rightarrow> nat \<Rightarrow> dec \<Rightarrow> date \<Rightarrow> rate_period" where
  "period_at terms rate_changes recorded index balance start =
     (let rate = rate_at_date rate_changes start (base_rate terms);
          month_index = months_between (origination_date terms) start;
          term_at_start = term_months terms - month_index
      in \<lparr>period_index = index, period_start_date = start, period_rate = rate,
          period_pi = (case recorded_pi_at_date recorded start of
              Some p \<Rightarrow> round_money p
            | None \<Rightarrow> round_money (calculate_monthly_payment balance rate term_at_start)),
          start_month_index = month_index, term_months_at_start = term_at_start\<rparr>)"

fun build_loop ::
  "loan_terms \<Rightarrow> rate_change_record list \<Rightarrow> (date \<times> dec) list \<Rightarrow> nat \<Rightarrow> dec \<Rightarrow> date list \<Rightarrow> rate_period list"
where
  "build_loop terms rate_changes recorded index balance [] = []"
| "build_loop terms rate_changes recorded index balance [start] =
     [period_at terms rate_changes recorded index balance start]"
| "build_loop terms rate_changes recorded index balance (start # next # rest) =
     (let p = period_at terms rate_changes recorded index balance start
      in p # build_loop terms rate_changes recorded (index + 1)
               (amortize_forward balance (period_rate p) (period_pi p) (months_between start next))
               (next # rest))"

definition build_rate_periods ::
  "loan_terms \<Rightarrow> rate_change_record list \<Rightarrow> (date \<times> dec) list \<Rightarrow> rate_period list" where
  "build_rate_periods terms rate_changes recorded =
     build_loop terms rate_changes recorded 0 (original_principal terms)
       (period_boundary_dates terms rate_changes)"

section \<open>Confirmed rows and the replay\<close>

definition confirmed_amortization_row :: "confirmed_row_inputs \<Rightarrow> amortization_row" where
  "confirmed_amortization_row row =
     (let cash = dadd (cr_principal row) (cr_interest row);
          extra = max (dsub cash (period_pi (cr_period row))) 0
      in \<lparr>row_month = payment_number (cr_origination_date row) (cr_installment row),
          row_payment_date = cr_installment row, row_payment = round_money (dsub cash extra),
          row_principal = cr_principal row, row_interest = cr_interest row,
          row_extra_payment = round_money extra, row_remaining_balance = cr_remaining_balance row,
          row_is_confirmed = True, row_interest_rate = Some (period_rate (cr_period row))\<rparr>)"

definition replay_payment_row :: "dec \<Rightarrow> rate_period \<Rightarrow> date \<Rightarrow> date \<Rightarrow> amortization_row" where
  "replay_payment_row balance period pay_date origination =
     (let intr = accrue_monthly_interest balance (period_rate period);
          parts = apply_payment_cash (period_pi period) balance intr 0
      in \<lparr>row_month = months_between origination pay_date, row_payment_date = pay_date,
          row_payment = round_money (dadd (principal parts) intr),
          row_principal = round_money (principal parts), row_interest = intr,
          row_extra_payment = 0, row_remaining_balance = balance_after parts,
          row_is_confirmed = True, row_interest_rate = Some (period_rate period)\<rparr>)"

fun replay_loop :: "rate_period list \<Rightarrow> date \<Rightarrow> payment_dates list \<Rightarrow> dec \<Rightarrow> amortization_row list res" where
  "replay_loop periods origination [] balance = Inr []"
| "replay_loop periods origination (payment # payments) balance =
     (if balance \<le> 0 then Inr []
      else bind_res (period_for_date periods (period_start payment))
        (\<lambda>period. let row = replay_payment_row balance period (due_date payment) origination
          in bind_res (replay_loop periods origination payments (row_remaining_balance row))
               (\<lambda>rows. Inr (row # rows))))"

definition eligible_payments :: "payment_dates list \<Rightarrow> date \<Rightarrow> date \<Rightarrow> payment_dates list" where
  "eligible_payments payments anchor_date as_of =
     sort_key (\<lambda>p. (due_date p, period_start p))
       [p \<leftarrow> payments. is_confirmed_payment_eligible (settled_on p) (due_date p) anchor_date as_of]"

definition replay_schedule ::
  "rate_period list \<Rightarrow> balance_anchor \<Rightarrow> payment_dates list \<Rightarrow> int \<Rightarrow> date \<Rightarrow> schedule_replay res" where
  "replay_schedule periods anchor payments pd as_of =
     (if periods = [] then Inl ValueError
      else let origination = period_start_date (hd periods)
           in bind_res (replay_loop periods origination
                (eligible_payments payments (as_of_date anchor) as_of) (anchor_amount anchor))
             (\<lambda>rows. bind_res (period_for_date periods as_of)
               (\<lambda>current.
                 let balance = (if rows = [] then anchor_amount anchor else row_remaining_balance (last rows));
                     next_date = due_in_following_month
                       (if rows = [] then as_of_date anchor else row_payment_date (last rows)) pd
                 in Inr \<lparr>replay_rows = rows, balance_as_of = round_money balance,
                         next_pay_date = next_date,
                         remaining_months_as_of =
                           max 0 (term_months_at_start (hd periods) -
                                  max 0 (months_between origination next_date - 1)),
                         current_period = current\<rparr>)))"

section \<open>The lookups are one resolver\<close>

lemma period_for_date_select:
  assumes "sorted (map period_start_date periods)" "periods \<noteq> []"
  shows "period_for_date periods d =
     Inr (case scan_select period_start_date periods d of None \<Rightarrow> hd periods | Some p \<Rightarrow> p)"
  using assms by (simp add: period_for_date_def scan_by_select)

lemma period_for_date_in:
  assumes "period_for_date periods d = Inr p"
  shows "p \<in> set periods"
proof -
  have "scan_by period_start_date (\<lambda>p. p) d c ps \<in> insert c (set ps)" for c ps
    by (induction ps arbitrary: c) auto
  from this[of "hd periods" periods] show ?thesis
    using assms by (auto simp: period_for_date_def split: if_splits)
qed

lemma period_for_date_total: "periods \<noteq> [] \<Longrightarrow> \<exists>p. period_for_date periods d = Inr p \<and> p \<in> set periods"
  using period_for_date_in by (auto simp: period_for_date_def)

lemma rate_at_date_select:
  "rate_at_date rate_changes d base =
     (case scan_select rc_effective_date rate_changes d of None \<Rightarrow> base | Some c \<Rightarrow> rc_interest_rate c)"
proof (cases "rate_changes = []")
  case True
  then show ?thesis by (simp add: rate_at_date_def scan_select_def)
next
  case False
  then show ?thesis by (simp add: rate_at_date_def scan_by_sort_select)
qed

lemma recorded_pi_at_date_select:
  assumes "distinct (map fst recorded)"
  shows "recorded_pi_at_date recorded d = map_option snd (in_effect_on fst recorded d)"
proof (cases "scan_select (\<lambda>k. k) (map fst recorded) d")
  case None
  then have "\<forall>k \<in> set (map fst recorded). d < k" by (simp only: scan_select_None)
  then have "in_effect_on fst recorded d = None" by (simp add: in_effect_on_None)
  with None show ?thesis
    by (simp add: recorded_pi_at_date_def scan_by_sort_select)
next
  case (Some k)
  note k = scan_select_SomeD[OF Some]
  then obtain v where v: "(k, v) \<in> set recorded" by auto
  have i: "inj_on fst (set recorded)" using assms by (simp add: distinct_map)
  have "in_effect_on fst recorded d = Some (k, v)"
    by (rule in_effect.select_eqI[OF v _ _ i]) (use k in auto)
  moreover have "map_of recorded k = Some v" using v assms by simp
  moreover have "recorded \<noteq> []" using v by auto
  ultimately show ?thesis using Some by (simp add: recorded_pi_at_date_def scan_by_sort_select)
qed

definition terms_of_period :: "rate_period \<Rightarrow> period_terms" where
  "terms_of_period p =
     \<lparr>start_date = period_start_date p, annual_rate = period_rate p, monthly_pi = period_pi p\<rparr>"

lemma scan_by_map:
  "scan_by key val d (f c) (map g xs) = f (scan_by (\<lambda>x. key (g x)) h d c xs)"
  if "\<And>x. val (g x) = f (h x)"
  using that by (induction xs arbitrary: c) simp_all

lemma governing_terms_of_periods:
  assumes "sorted (map period_start_date periods)" "periods \<noteq> []"
  shows "\<exists>p. period_for_date periods d = Inr p \<and>
    governing_terms (sort_key start_date (map terms_of_period periods)) d = terms_of_period p"
proof -
  have "sorted (map start_date (map terms_of_period periods))"
    using assms(1) by (simp add: terms_of_period_def o_def)
  then have s: "sort_key start_date (map terms_of_period periods) = map terms_of_period periods"
    by (rule sort_key_id_if_sorted)
  have "scan_by start_date (\<lambda>t. t) d (terms_of_period (hd periods)) (map terms_of_period periods) =
      terms_of_period (scan_by (\<lambda>p. start_date (terms_of_period p)) (\<lambda>p. p) d (hd periods) periods)"
    by (rule scan_by_map) simp
  then show ?thesis
    using assms(2) unfolding s governing_terms_def period_for_date_def
    by (simp add: hd_map terms_of_period_def)
qed

text \<open>
  the lookups by date are one rule, written four times in the source: the rate on a day, the
  recorded payment on a day, the period of a day and the projection's governing terms all answer the
  effective-dated resolver's row, with the base rate, nothing, and the first period before the first row.
\<close>

theorem lookups_are_one_resolver:
  assumes "distinct (map rc_effective_date rate_changes)" "distinct (map fst recorded)"
    and "sorted_wrt (<) (map period_start_date periods)" "periods \<noteq> []"
  shows "rate_at_date rate_changes d base =
      (case in_effect_on rc_effective_date rate_changes d of None \<Rightarrow> base | Some c \<Rightarrow> rc_interest_rate c) \<and>
    recorded_pi_at_date recorded d = map_option snd (in_effect_on fst recorded d) \<and>
    period_for_date periods d =
      Inr (case in_effect_on period_start_date periods d of None \<Rightarrow> hd periods | Some p \<Rightarrow> p) \<and>
    (\<exists>p. period_for_date periods d = Inr p \<and>
         governing_terms (sort_key start_date (map terms_of_period periods)) d = terms_of_period p)"
proof -
  have s: "sorted (map period_start_date periods)" and "distinct (map period_start_date periods)"
    using assms(3) by (simp_all add: strict_sorted_iff)
  then have i: "inj_on period_start_date (set periods)" by (simp add: distinct_map)
  have "inj_on rc_effective_date (set rate_changes)" using assms(1) by (simp add: distinct_map)
  then show ?thesis
    using recorded_pi_at_date_select[OF assms(2)] governing_terms_of_periods[OF s assms(4)]
      period_for_date_select[OF s assms(4)] scan_select_in_effect[OF i]
    by (simp add: rate_at_date_select scan_select_in_effect)
qed

lemma lookups_are_one_resolver_witness:
  "rate_at_date [\<lparr>rc_effective_date = Date 2026 1 1, rc_interest_rate = 3/100, rc_monthly_pi = None\<rparr>]
     (Date 2025 12 31) (1/20) = 1/20"
  using lookups_are_one_resolver[of "[\<lparr>rc_effective_date = Date 2026 1 1, rc_interest_rate = 3/100,
      rc_monthly_pi = None\<rparr>]" "[]" "[\<lparr>period_index = 0, period_start_date = Date 2026 1 1, period_rate = 0,
      period_pi = 0, start_month_index = 0, term_months_at_start = 1\<rparr>]" "Date 2025 12 31" "1/20"]
  by (simp add: in_effect_on_def less_eq_date_def)

section \<open>The periods of a loan\<close>

lemma set_cadence_boundaries:
  "0 < i \<Longrightarrow> set (cadence_boundaries og n (Some i) k) = {add_months og (k + int j * i) | j. k + int j * i < n}"
proof (induction og n "Some i" k rule: cadence_boundaries.induct)
  case (1 og n k)
  show ?case
  proof (cases "k < n")
    case True
    then have "set (cadence_boundaries og n (Some i) k) =
        insert (add_months og k) {add_months og (k + i + int j * i) | j. k + i + int j * i < n}"
      using 1 by (simp add: cadence_boundaries.simps[of og n "Some i" k])
    also have "{add_months og (k + i + int j * i) | j. k + i + int j * i < n} =
        {add_months og (k + int (Suc j) * i) | j. k + int (Suc j) * i < n}"
      by (simp add: algebra_simps)
    also have "insert (add_months og k) {add_months og (k + int (Suc j) * i) | j. k + int (Suc j) * i < n} =
        {add_months og (k + int j * i) | j. k + int j * i < n}"
    proof (intro set_eqI iffI)
      fix x assume "x \<in> {add_months og (k + int j * i) | j. k + int j * i < n}"
      then obtain j where "x = add_months og (k + int j * i)" "k + int j * i < n" by blast
      then show "x \<in> insert (add_months og k) {add_months og (k + int (Suc j) * i) | j. k + int (Suc j) * i < n}"
        by (cases j) auto
    next
      fix x assume "x \<in> insert (add_months og k) {add_months og (k + int (Suc j) * i) | j. k + int (Suc j) * i < n}"
      then consider "x = add_months og k" | j where "x = add_months og (k + int (Suc j) * i)" "k + int (Suc j) * i < n"
        by blast
      then show "x \<in> {add_months og (k + int j * i) | j. k + int j * i < n}"
      proof cases
        case 1
        with True show ?thesis by (auto intro!: exI[of _ 0])
      qed blast
    qed
    finally show ?thesis .
  next
    case False
    have "\<not> k + int j * i < n" for j using False 1(2) by (simp add: not_less add_increasing2)
    with False show ?thesis by (auto simp: cadence_boundaries.simps[of og n "Some i" k])
  qed
qed

lemma cadence_boundaries_offsets:
  assumes "d \<in> set (cadence_boundaries og n interval k)"
  shows "\<exists>m \<ge> k. m < n \<and> d = add_months og m"
  using assms
proof (induction og n interval k rule: cadence_boundaries.induct)
  case (1 og n interval k)
  show ?case
  proof (cases "k < n")
    case True
    then have "d = add_months og k \<or>
        (\<exists>i. interval = Some i \<and> 0 < i \<and> d \<in> set (cadence_boundaries og n interval (k + i)))"
      using 1(2) by (subst (asm) cadence_boundaries.simps) (auto split: option.splits if_splits)
    then show ?thesis
    proof
      assume "d = add_months og k"
      with True show ?thesis by blast
    next
      assume "\<exists>i. interval = Some i \<and> 0 < i \<and> d \<in> set (cadence_boundaries og n interval (k + i))"
      then obtain i where i: "interval = Some i" "\<not> i \<le> 0" "d \<in> set (cadence_boundaries og n interval (k + i))"
        by auto
      then obtain m where "k + i \<le> m" "m < n" "d = add_months og m" using 1(1)[OF True] by blast
      then show ?thesis using i(2) by (intro exI[of _ m]) simp
    qed
  qed (use 1(2) in \<open>simp add: cadence_boundaries.simps[of og n interval k]\<close>)
qed

text \<open>A loan whose dates the calendar can hold.\<close>

definition loan_on_calendar :: "loan_terms \<Rightarrow> rate_change_record list \<Rightarrow> bool" where
  "loan_on_calendar terms rate_changes =
     (in_python_domain (origination_date terms) \<and> 0 < term_months terms \<and>
      month_ordinal (origination_date terms) + term_months terms < 120000 \<and>
      (\<forall>c \<in> set rate_changes. in_python_domain (rc_effective_date c)))"

lemma add_months_clamped:
  "month_ordinal d + n < 120000 \<Longrightarrow> add_months d n = clamped_day (month_ordinal d + n) (d_day d)"
  by (simp add: add_months_def)

lemma add_months_less:
  assumes "month_ordinal d + n < 120000" "m < n"
  shows "add_months d m < add_months d n"
  using assms by (simp add: add_months_clamped grid.land_strict_mono)

lemma add_months_after:
  assumes "valid_date d" "month_ordinal d + n < 120000" "0 < n"
  shows "d < add_months d n"
  using grid.land_after[of d "month_ordinal d + n" "d_day d"] assms by (simp add: add_months_clamped valid_dateD)

lemma boundaries_within:
  assumes "loan_on_calendar terms rate_changes" "b \<in> set (period_boundary_dates terms rate_changes)"
  shows "valid_date b \<and> origination_date terms \<le> b \<and>
         b < add_months (origination_date terms) (term_months terms)"
proof -
  let ?og = "origination_date terms" and ?n = "term_months terms"
  have og: "valid_date ?og" "0 < ?n" "month_ordinal ?og + ?n < 120000"
    using assms(1) by (simp_all add: loan_on_calendar_def in_python_domain_def)
  have "b = ?og \<or> (\<exists>c \<in> set rate_changes. b = rc_effective_date c \<and> ?og < b \<and> b < add_months ?og ?n) \<or>
      (\<exists>i f. 0 < f \<and> b \<in> set (cadence_boundaries ?og ?n i f))"
    using assms(2) by (auto simp: period_boundary_dates_def Let_def split: option.splits if_splits)
  then consider "b = ?og" | c where "c \<in> set rate_changes" "b = rc_effective_date c" "?og < b" "b < add_months ?og ?n"
    | m where "0 < m" "m < ?n" "b = add_months ?og m"
    using cadence_boundaries_offsets[of b ?og ?n] by (metis less_le_trans)
  then show ?thesis
  proof cases
    case 1
    then show ?thesis using og by (simp add: add_months_after)
  next
    case 2
    then show ?thesis using assms(1) by (auto simp: loan_on_calendar_def in_python_domain_def)
  next
    case 3
    then show ?thesis using og add_months_after[of ?og m] add_months_less[of ?og ?n m]
      by (simp add: valid_add_months)
  qed
qed

lemma boundaries_sorted:
  "sorted_wrt (<) (period_boundary_dates terms rate_changes)"
  by (simp add: period_boundary_dates_def Let_def strict_sorted_iff)

lemma hd_boundaries:
  assumes "loan_on_calendar terms rate_changes"
  shows "period_boundary_dates terms rate_changes \<noteq> []"
    "hd (period_boundary_dates terms rate_changes) = origination_date terms"
proof -
  let ?bs = "period_boundary_dates terms rate_changes"
  have og: "origination_date terms \<in> set ?bs" by (simp add: period_boundary_dates_def Let_def)
  then show ne: "?bs \<noteq> []" by auto
  then have "hd ?bs \<in> set ?bs" by simp
  then have "origination_date terms \<le> hd ?bs" using boundaries_within[OF assms] by simp
  moreover have "hd ?bs \<le> origination_date terms"
    using og ne boundaries_sorted[of terms rate_changes] by (cases ?bs) auto
  ultimately show "hd ?bs = origination_date terms" by simp
qed

lemma build_loop_structure:
  "map period_start_date (build_loop terms rcs rec k balance bs) = bs"
  "i < length bs \<Longrightarrow> \<exists>b. build_loop terms rcs rec k balance bs ! i = period_at terms rcs rec (k + i) b (bs ! i)"
proof -
  show "map period_start_date (build_loop terms rcs rec k balance bs) = bs"
    by (induction terms rcs rec k balance bs rule: build_loop.induct)
       (simp_all add: Let_def period_at_def)
  show "i < length bs \<Longrightarrow> \<exists>b. build_loop terms rcs rec k balance bs ! i = period_at terms rcs rec (k + i) b (bs ! i)"
  proof (induction terms rcs rec k balance bs arbitrary: i rule: build_loop.induct)
    case (3 terms rcs rec k balance start nxt rest)
    then show ?case
    proof (cases i)
      case (Suc j)
      then show ?thesis using 3(1)[OF refl, of j] 3(2) by (simp add: Let_def)
    qed (auto simp: Let_def)
  qed auto
qed
lemma month_ordinal_mono:
  assumes "valid_date a" "valid_date b" "a \<le> b"
  shows "month_ordinal a \<le> month_ordinal b"
proof (rule ccontr)
  assume "\<not> month_ordinal a \<le> month_ordinal b"
  then have "b < a" using assms by (intro grid.month_less) (simp_all add: valid_dateD)
  with assms(3) show False by simp
qed

lemma is_cents_level_payment [simp]: "is_cents (calculate_monthly_payment p r n)"
  by (simp add: calculate_monthly_payment_def Let_def)

lemma recorded_boundary:
  assumes "c \<in> set rate_changes" "origination_date terms < rc_effective_date c"
    and "rc_effective_date c < add_months (origination_date terms) (term_months terms)"
  shows "rc_effective_date c \<in> set (period_boundary_dates terms rate_changes)"
  using assms by (auto simp: period_boundary_dates_def Let_def)

lemma cadence_boundary:
  assumes "is_arm terms" "arm_first_adjustment_months terms = Some first" "0 < first"
    and "arm_adjustment_interval_months terms = Some step" "0 < step" "first + int j * step < term_months terms"
  shows "add_months (origination_date terms) (first + int j * step) \<in> set (period_boundary_dates terms rate_changes)"
proof -
  have "first < term_months terms" using assms(5,6) by (smt (verit) mult_nonneg_nonneg of_nat_0_le_iff)
  moreover have "add_months (origination_date terms) (first + int j * step) \<in>
      set (cadence_boundaries (origination_date terms) (term_months terms) (Some step) first)"
    unfolding set_cadence_boundaries[OF assms(5)] using assms(6) by blast
  ultimately show ?thesis using assms by (simp add: period_boundary_dates_def Let_def)
qed

lemma period_in_term:
  assumes "loan_on_calendar terms rate_changes" "b \<in> set (period_boundary_dates terms rate_changes)"
  shows "0 \<le> months_between (origination_date terms) b \<and> months_between (origination_date terms) b \<le> term_months terms"
proof -
  have og: "valid_date (origination_date terms)" using assms(1) by (simp add: loan_on_calendar_def in_python_domain_def)
  note b = boundaries_within[OF assms]
  have "month_ordinal (origination_date terms) \<le> month_ordinal b" using b og by (simp add: month_ordinal_mono)
  moreover have "month_ordinal b \<le> month_ordinal (add_months (origination_date terms) (term_months terms))"
    using b og by (intro month_ordinal_mono) (auto simp: valid_add_months)
  moreover have "month_ordinal (add_months (origination_date terms) (term_months terms)) =
      month_ordinal (origination_date terms) + term_months terms"
    using assms(1) by (simp add: loan_on_calendar_def add_months_clamped)
  ultimately show ?thesis by (simp add: months_between_ordinal)
qed

text \<open>
  C26: the periods of a loan partition its term.  They start at the origination, at every recorded rate
  change inside the term and at every adjustment of the cadence, each once and in order; the n-th
  carries the rate in effect on its first day, the months since origination and the months the loan
  has left, and a payment in cents that is the recorded one wherever one has been recorded by then.
\<close>

theorem rate_periods_partition_term:
  assumes "loan_on_calendar terms rate_changes" "distinct (map fst recorded)"
  defines "ps \<equiv> build_rate_periods terms rate_changes recorded"
  shows "ps \<noteq> [] \<and> period_start_date (hd ps) = origination_date terms \<and>
    sorted_wrt (<) (map period_start_date ps) \<and>
    (\<forall>c \<in> set rate_changes. origination_date terms < rc_effective_date c \<and>
        rc_effective_date c < add_months (origination_date terms) (term_months terms) \<longrightarrow>
        rc_effective_date c \<in> period_start_date ` set ps) \<and>
    (\<forall>first step j. is_arm terms \<and> arm_first_adjustment_months terms = Some first \<and> 0 < first \<and>
        arm_adjustment_interval_months terms = Some step \<and> 0 < step \<and>
        first + int j * step < term_months terms \<longrightarrow>
        add_months (origination_date terms) (first + int j * step) \<in> period_start_date ` set ps) \<and>
    (\<forall>i < length ps. let p = ps ! i in
        period_index p = i \<and>
        period_start_date p < add_months (origination_date terms) (term_months terms) \<and>
        period_rate p = rate_at_date rate_changes (period_start_date p) (base_rate terms) \<and>
        start_month_index p = months_between (origination_date terms) (period_start_date p) \<and>
        start_month_index p + term_months_at_start p = term_months terms \<and>
        0 \<le> start_month_index p \<and> 0 \<le> term_months_at_start p \<and> is_cents (period_pi p) \<and>
        (\<forall>k v. in_effect_on fst recorded (period_start_date p) = Some (k, v) \<longrightarrow> period_pi p = round_money v))"
proof -
  let ?bs = "period_boundary_dates terms rate_changes"
  have starts: "map period_start_date ps = ?bs" by (simp add: ps_def build_rate_periods_def build_loop_structure(1))
  then have set: "period_start_date ` set ps = set ?bs" by (metis set_map)
  have ne: "ps \<noteq> []" using starts hd_boundaries(1)[OF assms(1)] by auto
  have first: "period_start_date (hd ps) = origination_date terms"
    using starts hd_boundaries(2)[OF assms(1)] ne by (metis hd_map)
  have at: "\<exists>b. ps ! i = period_at terms rate_changes recorded i b (?bs ! i)" if "i < length ps" for i
    using build_loop_structure(2)[of i ?bs terms rate_changes recorded 0] that starts
    by (metis add_0 build_rate_periods_def length_map ps_def)
  have each: "period_index p = i \<and>
        period_start_date p < add_months (origination_date terms) (term_months terms) \<and>
        period_rate p = rate_at_date rate_changes (period_start_date p) (base_rate terms) \<and>
        start_month_index p = months_between (origination_date terms) (period_start_date p) \<and>
        start_month_index p + term_months_at_start p = term_months terms \<and>
        0 \<le> start_month_index p \<and> 0 \<le> term_months_at_start p \<and> is_cents (period_pi p) \<and>
        (\<forall>k v. in_effect_on fst recorded (period_start_date p) = Some (k, v) \<longrightarrow> period_pi p = round_money v)"
    if i: "i < length ps" and p: "p = ps ! i" for i p
  proof -
    obtain b where p: "p = period_at terms rate_changes recorded i b (?bs ! i)" using at[OF i] p by blast
    have b: "?bs ! i \<in> set ?bs" using i starts by (metis length_map nth_mem)
    note w = boundaries_within[OF assms(1) b] period_in_term[OF assms(1) b]
    show ?thesis
      using w unfolding p
      by (simp add: period_at_def Let_def recorded_pi_at_date_select[OF assms(2)] split: option.split)
  qed
  have recorded_starts: "\<forall>c \<in> set rate_changes. origination_date terms < rc_effective_date c \<and>
        rc_effective_date c < add_months (origination_date terms) (term_months terms) \<longrightarrow>
        rc_effective_date c \<in> set ?bs"
    by (intro ballI impI, elim conjE) (rule recorded_boundary)
  have cadence_starts: "\<forall>first step j. is_arm terms \<and> arm_first_adjustment_months terms = Some first \<and> 0 < first \<and>
        arm_adjustment_interval_months terms = Some step \<and> 0 < step \<and>
        first + int j * step < term_months terms \<longrightarrow>
        add_months (origination_date terms) (first + int j * step) \<in> set ?bs"
    by (intro allI impI, elim conjE) (rule cadence_boundary)
  show ?thesis
    unfolding Let_def set starts
    by (intro conjI ne first boundaries_sorted recorded_starts cadence_starts allI impI each[OF _ refl])
qed

lemma rate_periods_partition_term_witness:
  "let ps = build_rate_periods \<lparr>origination_date = Date 2020 1 31, original_principal = 1000, base_rate = 0,
       term_months = 24, is_arm = False, arm_first_adjustment_months = None,
       arm_adjustment_interval_months = None\<rparr>
     [\<lparr>rc_effective_date = Date 2021 3 1, rc_interest_rate = 0, rc_monthly_pi = None\<rparr>] []
   in Date 2021 3 1 \<in> period_start_date ` set ps \<and> period_start_date (hd ps) = Date 2020 1 31"
proof -
  let ?t = "\<lparr>origination_date = Date 2020 1 31, original_principal = 1000, base_rate = 0,
       term_months = 24, is_arm = False, arm_first_adjustment_months = None,
       arm_adjustment_interval_months = None\<rparr>"
  let ?c = "\<lparr>rc_effective_date = Date 2021 3 1, rc_interest_rate = 0, rc_monthly_pi = None\<rparr>"
  have cal: "loan_on_calendar ?t [?c]"
    by (simp add: loan_on_calendar_def in_python_domain_def valid_date_def days_in_month_def month_ordinal_def)
  have "Date 2021 3 1 < add_months (Date 2020 1 31) 24"
    unfolding add_months_clamped[of "Date 2020 1 31" 24, simplified month_ordinal_def, simplified]
    by (rule grid.land_after) (simp_all add: month_ordinal_def)
  then show ?thesis
    using rate_periods_partition_term[OF cal, of "[]"] by (simp add: Let_def less_date_def)
qed

section \<open>The level payment\<close>

lemma fix28_lower: "0 \<le> x \<Longrightarrow> x * (1 - 1/10 ^ 27) \<le> fix28 x"
proof -
  assume x: "0 \<le> x"
  have "x - \<bar>x\<bar> / (2 * 10 ^ 27) \<le> fix28 x" using fix28_error[of x] by linarith
  moreover have "x * (1 - 1/10 ^ 27) \<le> x - \<bar>x\<bar> / (2 * 10 ^ 27)" using x by (simp add: field_simps)
  ultimately show ?thesis by linarith
qed

text \<open>The growth factor of a column's rate over fifty years at most, with the roundings of the context.\<close>

lemma level_factor_bounds:
  assumes "1/10 ^ 5 \<le> r" "r \<le> 36/100" "1 \<le> n" "n \<le> 600"
  defines "m \<equiv> ddiv r MONTHS_PER_YEAR"
  defines "f \<equiv> dpow (dadd 1 m) n"
  shows "1/10 ^ 7 \<le> m" "m \<le> 301/10000" "1 + 1/10 ^ 8 \<le> f" "f \<le> 10 ^ 8"
proof -
  have "r / 12 * (1 - 1/10 ^ 27) \<le> m" "m \<le> r / 12 * (1 + 1/10 ^ 27)"
    using assms(1) fix28_lower[of "r/12"] fix28_upper[of "r/12"]
    by (simp_all add: m_def ddiv_def MONTHS_PER_YEAR_def)
  moreover have "1/10 ^ 5 / 12 * (1 - 1/10 ^ 27) \<le> r / 12 * (1 - 1/10 ^ 27)"
    using assms(1) by (intro mult_right_mono) simp_all
  moreover have "r / 12 * (1 + 1/10 ^ 27) \<le> 36/100/12 * (1 + 1/10 ^ 27)"
    using assms(2) by (intro mult_right_mono) simp_all
  ultimately show m: "1/10 ^ 7 \<le> m" "m \<le> 301/10000" by simp_all
  define u where "u = dadd 1 m"
  have "(1 + m) * (1 - 1/10 ^ 27) \<le> u" "u \<le> (1 + m) * (1 + 1/10 ^ 27)"
    using m fix28_lower[of "1 + m"] fix28_upper[of "1 + m"] by (simp_all add: u_def dadd_def)
  moreover have "(1 + 1/10 ^ 7) * (1 - 1/10 ^ 27) \<le> (1 + m) * (1 - 1/10 ^ 27)"
    "(1 + m) * (1 + 1/10 ^ 27) \<le> (1 + 301/10000) * (1 + 1/10 ^ 27)"
    using m by (intro mult_right_mono, simp, simp)+
  ultimately have u: "1 + 9/10 ^ 8 \<le> u" "u \<le> 10302/10000" by simp_all
  have "1 * u \<le> u ^ (n - 1) * u" using u(1) by (intro mult_right_mono one_le_power) simp_all
  also have "u ^ (n - 1) * u = u ^ n" using assms(3) power_minus_mult[of n u] by simp
  finally have low: "u \<le> u ^ n" by simp
  have "u ^ n \<le> u ^ 600" using u(1) assms(4) by (intro power_increasing) simp_all
  also have "\<dots> \<le> (10302/10000) ^ 600" using u by (intro power_mono) simp_all
  also have "(10302/10000 :: rat) ^ 600 = (((10302/10000) ^ 10) ^ 10) ^ 6" by (simp flip: power_mult)
  also have "\<dots> \<le> ((135/100) ^ 10) ^ 6" by (intro power_mono) (simp_all add: power_divide)
  also have "((135/100 :: rat) ^ 10) ^ 6 \<le> (2011/100) ^ 6" by (intro power_mono) (simp_all add: power_divide)
  also have "(2011/100 :: rat) ^ 6 \<le> 9 * 10 ^ 7" by (simp add: power_divide)
  finally have high: "u ^ n \<le> 9 * 10 ^ 7" .
  have f: "u ^ n * (1 - 1/10 ^ 27) \<le> f" "f \<le> u ^ n * (1 + 1/10 ^ 27)"
    using u(1) fix28_lower[of "u ^ n"] fix28_upper[of "u ^ n"] by (simp_all add: f_def u_def[symmetric] dpow_def)
  have "(1 + 9/10 ^ 8) * (1 - 1/10 ^ 27) \<le> u ^ n * (1 - 1/10 ^ 27)"
    "u ^ n * (1 + 1/10 ^ 27) \<le> 9 * 10 ^ 7 * (1 + 1/10 ^ 27)"
    using u(1) low high by (intro mult_right_mono, simp, simp)+
  with f show "1 + 1/10 ^ 8 \<le> f" "f \<le> 10 ^ 8" by simp_all
qed

text \<open>
  the level payment of a loan.  For the money and the rates a loan record can hold and up to fifty
  years it is a figure in cents whose quotient is never one by zero, and it always covers the first
  month's interest, so a loan that starts on its derived payment starts paying down; without interest
  the payments of the term are the principal up to half a cent each.
\<close>

theorem level_payment_covers_interest:
  assumes "in_column p" "0 < p" "1 \<le> n" "n \<le> 600" "r = 0 \<or> 1/10 ^ 5 \<le> r \<and> r \<le> 36/100"
  shows "is_cents (calculate_monthly_payment p r n) \<and>
         accrue_monthly_interest p r \<le> calculate_monthly_payment p r n \<and>
         (0 < r \<longrightarrow> 0 < dsub (dpow (dadd 1 (ddiv r MONTHS_PER_YEAR)) (nat n)) 1) \<and>
         (r = 0 \<longrightarrow> \<bar>of_int n * calculate_monthly_payment p r n - p\<bar> \<le> of_int n * (1/200 + 1/10 ^ 15))"
proof (cases "r = 0")
  case True
  have pay: "calculate_monthly_payment p r n = round_money (ddiv p (of_int n))"
    using True assms(2,3) by (simp add: calculate_monthly_payment_def)
  have n: "(1::rat) \<le> of_int n" using assms(3) by simp
  have "p / of_int n \<le> p / 1" using n assms(2) by (intro divide_left_mono) simp_all
  then have "\<bar>p / of_int n\<bar> \<le> 10 ^ 10"
    using n assms(1,2) by (simp add: in_column_def MONEY_COLUMN_MAX_def)
  then have "\<bar>ddiv p (of_int n) - p / of_int n\<bar> \<le> 1 / 10 ^ 15"
    using fix28_error[of "p / of_int n"] by (simp add: ddiv_def)
  moreover have "\<bar>round_money (ddiv p (of_int n)) - ddiv p (of_int n)\<bar> \<le> 1/200" by (rule round_money_near)
  ultimately have "\<bar>calculate_monthly_payment p r n - p / of_int n\<bar> \<le> 1/200 + 1/10 ^ 15"
    unfolding pay by linarith
  then have "of_int n * \<bar>calculate_monthly_payment p r n - p / of_int n\<bar> \<le> of_int n * (1/200 + 1/10 ^ 15)"
    using n by (intro mult_left_mono) simp_all
  moreover have "of_int n * \<bar>calculate_monthly_payment p r n - p / of_int n\<bar> =
      \<bar>of_int n * (calculate_monthly_payment p r n - p / of_int n)\<bar>"
    using n by (simp add: abs_mult)
  moreover have "of_int n * (calculate_monthly_payment p r n - p / of_int n) =
      of_int n * calculate_monthly_payment p r n - p"
    using n by (simp add: right_diff_distrib)
  moreover have "0 \<le> calculate_monthly_payment p r n"
    unfolding pay using assms(2) n by (intro round_money_nonneg) (simp add: ddiv_def fix28_nonneg)
  ultimately show ?thesis using True by simp
next
  case False
  define m where "m = ddiv r MONTHS_PER_YEAR"
  define f where "f = dpow (dadd 1 m) (nat n)"
  have b: "1/10 ^ 7 \<le> m" "m \<le> 301/10000" "1 + 1/10 ^ 8 \<le> f" "f \<le> 10 ^ 8"
    using level_factor_bounds[of r "nat n"] False assms(3-5) by (simp_all add: m_def f_def)
  define c where "c = dsub f 1"
  have c: "0 < c" "c \<le> (f - 1) * (1 + 1/10 ^ 27)"
    using b(3) fix28_lower[of "f - 1"] fix28_upper[of "f - 1"] by (simp_all add: c_def dsub_def)
  define a where "a = dmul m f"
  define t where "t = dmul p a"
  let ?e = "1/10 ^ 27 :: rat"
  have a: "m * f * (1 - ?e) \<le> a" "0 \<le> a"
    using b fix28_lower[of "m * f"] fix28_nonneg[of "m * f"] by (simp_all add: a_def dmul_def)
  have "p * a * (1 - ?e) \<le> t" "0 \<le> t"
    using a(2) assms(2) fix28_lower[of "p * a"] fix28_nonneg[of "p * a"] by (simp_all add: t_def dmul_def)
  moreover have "p * (m * f * (1 - ?e)) * (1 - ?e) \<le> p * a * (1 - ?e)"
    using a(1) assms(2) by (intro mult_right_mono mult_left_mono) simp_all
  ultimately have t: "p * (m * f * (1 - ?e)) * (1 - ?e) \<le> t" "0 \<le> t" by linarith+
  have "f * ((1 + ?e) ^ 2 - (1 - ?e) ^ 3) \<le> 10 ^ 8 * ((1 + ?e) ^ 2 - (1 - ?e) ^ 3)"
    using b(4) by (intro mult_right_mono) (simp_all add: power2_eq_square power3_eq_cube)
  also have "\<dots> \<le> (1 + ?e) ^ 2" by (simp add: power2_eq_square power3_eq_cube)
  finally have gap: "(f - 1) * (1 + ?e) ^ 2 \<le> f * (1 - ?e) ^ 3"
    unfolding right_diff_distrib left_diff_distrib by linarith
  have "p * m * ((f - 1) * (1 + ?e) ^ 2) \<le> p * m * (f * (1 - ?e) ^ 3)"
    using gap b(1) assms(2) by (intro mult_left_mono) simp_all
  also have "p * m * (f * (1 - ?e) ^ 3) = p * (m * f * (1 - ?e)) * (1 - ?e) * (1 - ?e)"
    by (simp only: power3_eq_cube ac_simps)
  also have "\<dots> \<le> t * (1 - ?e)" using t(1) by (rule mult_right_mono) simp
  finally have "p * m * (1 + ?e) * ((f - 1) * (1 + ?e)) \<le> t * (1 - ?e)"
    by (simp only: power2_eq_square ac_simps)
  moreover have "p * m * (1 + ?e) * c \<le> p * m * (1 + ?e) * ((f - 1) * (1 + ?e))"
    using c(2) b(1) assms(2) by (intro mult_left_mono) simp_all
  ultimately have "p * m * (1 + ?e) * c \<le> t * (1 - ?e)" by linarith
  then have "p * m * (1 + ?e) \<le> t * (1 - ?e) / c" using c(1) by (simp only: pos_le_divide_eq)
  also have "t * (1 - ?e) / c = t / c * (1 - ?e)" by simp
  also have "\<dots> \<le> ddiv t c" unfolding ddiv_def by (rule fix28_lower) (use t(2) c(1) in simp)
  finally have "p * m * (1 + ?e) \<le> ddiv t c" .
  moreover have "dmul p m \<le> p * m * (1 + ?e)"
    unfolding dmul_def by (rule fix28_upper) (use b(1) assms(2) in simp)
  ultimately have "round_money (dmul p m) \<le> round_money (ddiv t c)" by (intro round_money_mono) linarith
  moreover have "0 < r" using False assms(5) by auto
  ultimately show ?thesis
    using False assms(2,3) c(1)
    by (simp add: calculate_monthly_payment_def accrue_monthly_interest_def Let_def m_def[symmetric]
        f_def[symmetric] c_def[symmetric] a_def[symmetric] t_def[symmetric])
qed

lemma level_payment_covers_interest_witness:
  "accrue_monthly_interest 200000 (6/100) \<le> calculate_monthly_payment 200000 (6/100) 360"
  using level_payment_covers_interest[of 200000 360 "6/100"]
  by (simp add: in_column_def MONEY_COLUMN_MAX_def)

section \<open>One allocation\<close>

text \<open>
  What one contractual month does to a balance: the allocation of \<open>apply_payment_cash\<close>, which the
  walk between periods and the replay of the confirmed payments both reduce to.
\<close>

definition contract_step :: "dec \<Rightarrow> dec \<Rightarrow> dec \<Rightarrow> dec" where
  "contract_step pi_amount r b =
     balance_after (apply_payment_cash pi_amount b (accrue_monthly_interest b r) 0)"

lemma contract_month:
  assumes "0 < b" "is_cents b" "b \<le> growth k" "k < 600" "in_column pay" "0 \<le> pay" "0 \<le> r" "r \<le> 36/100"
  defines "i \<equiv> accrue_monthly_interest b r"
  defines "s \<equiv> apply_payment_cash pay b i 0"
  shows "amount i" "0 \<le> i" "amount b" "principal s = min (pay - i) b" "balance_after s = b - min (pay - i) b"
    "is_cents (principal s)" "is_cents (balance_after s)" "0 \<le> balance_after s"
    "balance_after s \<le> growth (Suc k)" "dadd (principal s) i = principal s + i"
proof -
  have g: "growth k \<le> 10 ^ 19" using assms(4) by (intro growth_600) simp
  have i0: "0 \<le> i" using assms(1) by (simp add: i_def accrue_nonneg)
  have bi: "b + i \<le> growth (Suc k)"
    unfolding i_def growth_Suc using accrual_step[of b "growth k" r] growth_ge[of k] assms(1,3,7,8) by simp
  then have big: "b + i \<le> 2 * 10 ^ 19" using g by (simp add: growth_Suc)
  show a: "amount i" "amount b" using i0 assms(1,2) big by (auto simp: i_def intro!: amount_nonneg)
  show "0 \<le> i" by (rule i0)
  have s: "s = \<lparr>interest = i, escrow = 0, principal = min (pay - i) b,
      excess = max (pay - i - b) 0, balance_after = b - min (pay - i) b\<rparr>"
    unfolding s_def using apply_payment_cash_open[OF assms(1) in_column_amount[OF assms(5)] a(2,1) amount_0] by simp
  then show p: "principal s = min (pay - i) b" "balance_after s = b - min (pay - i) b" by simp_all
  show c: "is_cents (principal s)" "is_cents (balance_after s)"
    unfolding p using assms(2) a in_column_amount[OF assms(5)] by (auto intro!: is_cents_diff is_cents_min)
  show "0 \<le> balance_after s" "balance_after s \<le> growth (Suc k)"
    unfolding p using bi assms(1,6) i0 growth_ge[of "Suc k"] by (simp_all add: min_def)
  have "\<bar>principal s + i\<bar> < 10 ^ 26"
    unfolding p using assms(1,6) i0 big by (simp add: min_def abs_less_iff)
  then show "dadd (principal s) i = principal s + i" using c a by (simp add: dadd_exact)
qed

lemma contract_step_closed: "b \<le> 0 \<Longrightarrow> contract_step pay r b = b"
  by (simp add: contract_step_def apply_payment_cash_closed)

lemma contract_steps_closed: "(contract_step pay r ^^ n) 0 = 0"
  by (induction n) (simp_all add: contract_step_closed)

lemma contract_step_bounds:
  assumes "0 < b" "is_cents b" "b \<le> growth k" "k < 600" "in_column pay" "0 \<le> pay" "0 \<le> r" "r \<le> 36/100"
  shows "contract_step pay r b = b - min (pay - accrue_monthly_interest b r) b"
    "is_cents (contract_step pay r b)" "0 \<le> contract_step pay r b" "contract_step pay r b \<le> growth (Suc k)"
    "amount (accrue_monthly_interest b r)"
  using contract_month[OF assms] by (simp_all add: contract_step_def)

lemma amortize_loop_steps:
  assumes "0 \<le> b" "is_cents b" "b \<le> growth k" "k + n \<le> 600"
    and "in_column pay" "0 \<le> pay" "0 \<le> r" "r \<le> 36/100"
  shows "amortize_loop r pay n b = (contract_step pay r ^^ n) b"
  using assms(1-4)
proof (induction n arbitrary: b k)
  case (Suc n)
  show ?case
  proof (cases "b = 0")
    case True
    then show ?thesis using contract_steps_closed[of "Suc n" pay r] by simp
  next
    case False
    define i where "i = accrue_monthly_interest b r"
    define c where "c = contract_step pay r b"
    have b: "0 < b" "k < 600" "Suc k + n \<le> 600" using False Suc.prems by simp_all
    note m = contract_step_bounds[OF b(1) Suc.prems(2,3) b(2) assms(5-8), folded i_def c_def]
    have IH: "amortize_loop r pay n c = (contract_step pay r ^^ n) c"
      by (rule Suc.IH[OF m(3,2,4) b(3)])
    have e: "dsub pay i = pay - i" using m(5) assms(5) by (simp add: exact in_column_amount)
    have steps: "(contract_step pay r ^^ Suc n) b = (contract_step pay r ^^ n) c"
      by (simp only: funpow_Suc_right o_apply c_def)
    show ?thesis
    proof (cases "b \<le> pay - i")
      case True
      then have "c = 0" unfolding m(1) by (simp add: min_def)
      then show ?thesis unfolding steps using True b(1) by (simp add: Let_def i_def[symmetric] e contract_steps_closed)
    next
      case False
      then have s: "c = b - (pay - i)" unfolding m(1) by (simp add: min_def)
      have "is_cents (pay - i)" using m(5) assms(5) by (auto intro: is_cents_diff simp: in_column_amount)
      moreover have "\<bar>c\<bar> < 10 ^ 26" using m(3,4) growth_600[of "Suc k"] b(2) by simp
      ultimately have "dsub b (pay - i) = c" unfolding s using Suc.prems(2) by (intro dsub_exact)
      then have "round_money (dsub b (pay - i)) = c" using m(2) by simp
      then show ?thesis unfolding steps using False b(1) IH m(3) by (simp add: Let_def i_def[symmetric] e)
    qed
  qed
qed simp

lemma contract_step_decreases:
  assumes "0 \<le> b" "is_cents b" "b \<le> growth k" "k < 600" "in_column pay" "0 \<le> pay" "0 \<le> r" "r \<le> 36/100"
    and "accrue_monthly_interest b r \<le> pay"
  shows "contract_step pay r b \<le> b"
proof (cases "b = 0")
  case False
  then have "0 < b" using assms(1) by simp
  from contract_step_bounds(1)[OF this assms(2-8)] show ?thesis using assms(1,9) by (simp add: min_def)
qed (simp add: contract_step_closed)

text \<open>
  the walk that finds where a period starts is the one allocation rule applied month by month, and
  where the payment covers the first month's interest the balance it walks never rises.
\<close>

theorem amortize_forward_is_the_allocation:
  assumes "in_column b" "0 \<le> b" "m \<le> 600" "in_column pay" "0 \<le> pay" "0 \<le> r" "r \<le> 36/100"
  shows "amortize_forward b r pay m =
           ((\<lambda>x. balance_after (apply_payment_cash pay x (accrue_monthly_interest x r) 0)) ^^ nat m) b \<and>
         (accrue_monthly_interest b r \<le> pay \<longrightarrow>
            0 \<le> amortize_forward b r pay m \<and> amortize_forward b r pay m \<le> b)"
proof -
  have b: "is_cents b" "b \<le> growth 0"
    using assms(1) growth_ge[of 0] by (auto simp: in_column_def MONEY_COLUMN_MAX_def)
  have f: "amortize_forward b r pay m = (contract_step pay r ^^ nat m) b"
    unfolding amortize_forward_def using amortize_loop_steps[OF assms(2) b, of "nat m"] assms(3-7)
    by (cases "0 \<le> m") (simp_all add: b)
  have "is_cents ((contract_step pay r ^^ n) b) \<and> 0 \<le> (contract_step pay r ^^ n) b \<and> (contract_step pay r ^^ n) b \<le> b"
    if c: "accrue_monthly_interest b r \<le> pay" for n
  proof (induction n)
    case (Suc n)
    let ?x = "(contract_step pay r ^^ n) b"
    have g: "?x \<le> growth 0" using Suc b(2) by simp
    have "accrue_monthly_interest ?x r \<le> pay" using accrue_mono[of ?x b r] Suc c assms(6) by simp
    then have "contract_step pay r ?x \<le> ?x" using Suc g assms(4-7) by (intro contract_step_decreases[of _ 0]) simp_all
    moreover have "is_cents (contract_step pay r ?x) \<and> 0 \<le> contract_step pay r ?x"
    proof (cases "?x = 0")
      case False
      then show ?thesis using contract_step_bounds(2,3)[of ?x 0 pay r] Suc g assms(4-7) by simp
    qed (simp add: contract_step_closed)
    ultimately show ?case using Suc by auto
  qed (use assms(2) b in simp)
  then show ?thesis unfolding f by (simp add: contract_step_def[abs_def])
qed

lemma amortize_forward_is_the_allocation_witness:
  "0 \<le> amortize_forward 1000 0 100 4 \<and> amortize_forward 1000 0 100 4 \<le> 1000"
  using amortize_forward_is_the_allocation[of 1000 4 100 0]
  by (simp add: in_column_def MONEY_COLUMN_MAX_def)

section \<open>The replay of the confirmed payments\<close>

definition ordinary_period :: "rate_period \<Rightarrow> bool" where
  "ordinary_period p =
     (in_column (period_pi p) \<and> 0 \<le> period_pi p \<and> 0 \<le> period_rate p \<and> period_rate p \<le> 36/100)"

text \<open>What one replayed row says of the payment it stands for and of the balance before it.\<close>

definition replayed_row :: "rate_period list \<Rightarrow> date \<Rightarrow> dec \<Rightarrow> payment_dates \<Rightarrow> amortization_row \<Rightarrow> bool" where
  "replayed_row ps og b pay r =
     (\<exists>p. period_for_date ps (period_start pay) = Inr p \<and>
          row_payment_date r = due_date pay \<and> row_month r = months_between og (due_date pay) \<and>
          row_is_confirmed r \<and> row_interest_rate r = Some (period_rate p) \<and>
          row_interest r = accrue_monthly_interest b (period_rate p) \<and>
          row_principal r = min (period_pi p - row_interest r) b \<and>
          row_payment r = row_principal r + row_interest r \<and>
          row_remaining_balance r = b - row_principal r)"

fun replayed :: "rate_period list \<Rightarrow> date \<Rightarrow> dec \<Rightarrow> payment_dates list \<Rightarrow> amortization_row list \<Rightarrow> bool" where
  "replayed ps og b pays [] = (pays = [] \<or> b = 0)"
| "replayed ps og b [] (r # rs) = False"
| "replayed ps og b (pay # pays) (r # rs) =
     (0 < b \<and> replayed_row ps og b pay r \<and> replayed ps og (row_remaining_balance r) pays rs)"

lemma replay_loop_replayed:
  assumes "ps \<noteq> []" "\<forall>p \<in> set ps. ordinary_period p"
    and "0 \<le> b" "is_cents b" "b \<le> growth k" "k + length pays \<le> 600"
  shows "\<exists>rows. replay_loop ps og pays b = Inr rows \<and> replayed ps og b pays rows"
  using assms(3-6)
proof (induction pays arbitrary: b k)
  case (Cons pay pays)
  show ?case
  proof (cases "b = 0")
    case False
    then have b: "0 < b" "k < 600" using Cons.prems by simp_all
    obtain p where p: "period_for_date ps (period_start pay) = Inr p" "p \<in> set ps"
      using period_for_date_total[OF assms(1)] by blast
    then have op: "in_column (period_pi p)" "0 \<le> period_pi p" "0 \<le> period_rate p" "period_rate p \<le> 36/100"
      using assms(2) by (auto simp: ordinary_period_def)
    define r where "r = replay_payment_row b p (due_date pay) og"
    note m = contract_month[OF b(1) Cons.prems(2,3) b(2) op]
    have row: "replayed_row ps og b pay r"
      using p(1) m(4-6,10) by (auto simp: replayed_row_def r_def replay_payment_row_def Let_def is_cents_add)
    have next_b: "0 \<le> row_remaining_balance r" "is_cents (row_remaining_balance r)"
        "row_remaining_balance r \<le> growth (Suc k)"
      using m(7-9) by (simp_all add: r_def replay_payment_row_def Let_def)
    obtain rows where "replay_loop ps og pays (row_remaining_balance r) = Inr rows"
        "replayed ps og (row_remaining_balance r) pays rows"
      using Cons.IH[OF next_b] Cons.prems(4) by auto
    then show ?thesis
      using b(1) p(1) row by (intro exI[of _ "r # rows"]) (simp add: r_def[symmetric] Let_def)
  qed (intro exI[of _ "[]"], simp)
qed simp

lemma replayed_nth:
  assumes "replayed ps og b pays rows" "i < length rows"
  defines "before \<equiv> if i = 0 then b else row_remaining_balance (rows ! (i - 1))"
  shows "i < length pays \<and> 0 < before \<and> replayed_row ps og before (pays ! i) (rows ! i)"
  using assms(1,2) unfolding before_def
proof (induction ps og b pays rows arbitrary: i rule: replayed.induct)
  case (3 ps og b pay pays r rs)
  show ?case
  proof (cases i)
    case (Suc j)
    have "replayed ps og (row_remaining_balance r) pays rs" "j < length rs" using 3(2,3) Suc by simp_all
    from 3(1)[OF this] show ?thesis using Suc by (cases j) simp_all
  qed (use 3 in simp)
qed auto

lemma replayed_books:
  assumes "replayed ps og b pays rows" "0 \<le> b"
  defines "final \<equiv> if rows = [] then b else row_remaining_balance (last rows)"
  shows "length rows \<le> length pays" "map row_payment_date rows = map due_date (take (length rows) pays)"
    "final = b - sum_list (map row_principal rows)" "0 \<le> final" "length rows < length pays \<Longrightarrow> final = 0"
proof -
  have "length rows \<le> length pays \<and> map row_payment_date rows = map due_date (take (length rows) pays) \<and>
    final = b - sum_list (map row_principal rows) \<and> 0 \<le> final \<and> (length rows < length pays \<longrightarrow> final = 0)"
    using assms(1,2) unfolding final_def
  proof (induction ps og b pays rows rule: replayed.induct)
    case (3 ps og b pay pays r rs)
    have r: "replayed_row ps og b pay r" "replayed ps og (row_remaining_balance r) pays rs" using 3(2) by simp_all
    then have f: "row_remaining_balance r = b - row_principal r" "row_payment_date r = due_date pay"
        "0 \<le> row_remaining_balance r"
      by (auto simp: replayed_row_def)
    show ?case using 3(1)[OF r(2) f(3)] f by (auto split: if_splits)
  qed auto
  then show "length rows \<le> length pays" "map row_payment_date rows = map due_date (take (length rows) pays)"
    "final = b - sum_list (map row_principal rows)" "0 \<le> final" "length rows < length pays \<Longrightarrow> final = 0"
    by simp_all
qed

lemma is_cents_replayed:
  assumes "replayed ps og b pays rows" "is_cents b" "\<forall>p \<in> set ps. ordinary_period p"
  shows "is_cents (if rows = [] then b else row_remaining_balance (last rows))"
  using assms
proof (induction ps og b pays rows rule: replayed.induct)
  case (3 ps og b pay pays r rs)
  then have r: "replayed_row ps og b pay r" "replayed ps og (row_remaining_balance r) pays rs" by simp_all
  then obtain p where "period_for_date ps (period_start pay) = Inr p"
      "row_remaining_balance r = b - min (period_pi p - row_interest r) b"
      "row_interest r = accrue_monthly_interest b (period_rate p)" by (auto simp: replayed_row_def)
  moreover then have "is_cents (period_pi p)"
    using 3(4) period_for_date_in by (auto simp: ordinary_period_def in_column_def)
  ultimately have "is_cents (row_remaining_balance r)" using 3(3) by (simp add: is_cents_diff is_cents_min)
  then show ?case using 3(1)[OF r(2)] 3(4) by (auto split: if_splits)
qed auto

text \<open>
  the replay walks the confirmed payments. Of the loan's payments it takes those settled by
  the day asked for whose due date falls after the anchor, in the order of their due dates, and
  turns each into one confirmed row until the debt is gone: the row is dated by the payment, its
  interest is the month's interest on the balance before it at the rate of the period its month
  falls in, and its principal is the rest of that period's level payment, capped at the debt. The
  balance it reports is the anchor less the principal paid, never negative, and payments are left
  without a row only when it is zero.\<close>

theorem replay_walks_confirmed_payments:
  fixes as_of :: date
  assumes "ps \<noteq> []" "\<forall>p \<in> set ps. ordinary_period p"
    and "in_column (anchor_amount anchor)" "0 \<le> anchor_amount anchor" "length payments \<le> 600"
  defines "paid \<equiv> eligible_payments payments (as_of_date anchor) as_of"
  shows "\<exists>s. replay_schedule ps anchor payments pd as_of = Inr s \<and>
    (let rows = replay_rows s in
      map row_payment_date rows = map due_date (take (length rows) paid) \<and>
      (\<forall>i < length rows. replayed_row ps (period_start_date (hd ps))
         (if i = 0 then anchor_amount anchor else row_remaining_balance (rows ! (i - 1))) (paid ! i) (rows ! i)) \<and>
      balance_as_of s = anchor_amount anchor - sum_list (map row_principal rows) \<and>
      0 \<le> balance_as_of s \<and> (length rows < length paid \<longrightarrow> balance_as_of s = 0)) \<and>
    set paid = {p \<in> set payments. as_of_date anchor < due_date p \<and> has_settled_by (settled_on p) as_of} \<and>
    sorted (map due_date paid)"
proof -
  let ?b = "anchor_amount anchor" and ?og = "period_start_date (hd ps)"
  have c: "is_cents ?b" "?b \<le> growth 0" using assms(3) growth_ge[of 0]
    by (auto simp: in_column_def MONEY_COLUMN_MAX_def)
  have l: "0 + length paid \<le> 600" using assms(5) by (auto simp: paid_def eligible_payments_def intro: le_trans[OF length_filter_le])
  obtain rows where rows: "replay_loop ps ?og paid ?b = Inr rows" "replayed ps ?og ?b paid rows"
    using replay_loop_replayed[OF assms(1,2,4) c l] by blast
  obtain cur where cur: "period_for_date ps as_of = Inr cur" using period_for_date_total[OF assms(1)] by blast
  note books = replayed_books[OF rows(2) assms(4)]
  define s where "s = projr (replay_schedule ps anchor payments pd as_of)"
  have s: "replay_schedule ps anchor payments pd as_of = Inr s" "replay_rows s = rows"
      "balance_as_of s = (if rows = [] then ?b else row_remaining_balance (last rows))"
    using assms(1) rows(1) cur round_money_fixed[OF is_cents_replayed[OF rows(2) c(1) assms(2)]]
    by (auto simp: s_def replay_schedule_def paid_def Let_def)
  have sel: "set paid = {p \<in> set payments. as_of_date anchor < due_date p \<and> has_settled_by (settled_on p) as_of}"
    by (auto simp: paid_def eligible_payments_def is_confirmed_payment_eligible_def due_after_anchor_def)
  have "sorted (map (\<lambda>p. (due_date p, period_start p)) paid)" by (simp add: paid_def eligible_payments_def)
  then have ord: "sorted (map due_date paid)"
    unfolding sorted_map by (rule sorted_wrt_mono_rel[rotated]) (auto simp: less_eq_prod_def)
  have nth: "\<forall>i < length rows. replayed_row ps ?og
      (if i = 0 then ?b else row_remaining_balance (rows ! (i - 1))) (paid ! i) (rows ! i)"
    using replayed_nth[OF rows(2)] by blast
  show ?thesis unfolding Let_def
    using books[folded s(3)] by (intro conjI exI[of _ s] s(1) sel ord nth[folded s(2)]) (simp_all add: s(2))
qed

lemma replay_walks_confirmed_payments_witness:
  "let s = projr (replay_schedule [\<lparr>period_index = 0, period_start_date = Date 2025 1 1, period_rate = 3/25,
          period_pi = 40, start_month_index = 0, term_months_at_start = 24\<rparr>]
        \<lparr>anchor_amount = 100, as_of_date = Date 2026 1 15\<rparr>
        [\<lparr>period_start = Date 2026 1 20, due_date = Date 2026 2 1, settled_on = Some (Date 2026 2 1)\<rparr>] 1
        (Date 2026 3 1))
   in balance_as_of s = 100 - sum_list (map row_principal (replay_rows s)) \<and> 0 \<le> balance_as_of s"
  using replay_walks_confirmed_payments
    [of "[\<lparr>period_index = 0, period_start_date = Date 2025 1 1, period_rate = 3/25, period_pi = 40,
           start_month_index = 0, term_months_at_start = 24\<rparr>]"
        "\<lparr>anchor_amount = 100, as_of_date = Date 2026 1 15\<rparr>"
        "[\<lparr>period_start = Date 2026 1 20, due_date = Date 2026 2 1, settled_on = Some (Date 2026 2 1)\<rparr>]"
        1 "Date 2026 3 1"]
  by (auto simp: ordinary_period_def in_column_def MONEY_COLUMN_MAX_def Let_def)

end
