(* ===== verification/Loan_Resolver.thy ===== *)
theory Loan_Resolver
  imports Rate_Periods "HOL-Library.AList"
begin

text \<open>
  \<open>app/services/loan_resolver\<close>: the rate feed and the terms of a loan, the choice of the governing
  anchor, the replay from it, the contract's forward and the resolved loan of a day.  The functions
  raise (\<open>Inl\<close>) where the source does: on an empty rate feed, on an empty list of anchors and where a
  constructor refuses its arguments.  A list that may be \<open>None\<close> in the source is read by it as the
  empty list, and is one here; an instant is the number of its microseconds.
\<close>

section \<open>The loaded data of a loan\<close>

record loan_params =
  lp_account_id :: int
  lp_original_principal :: dec
  lp_term_months :: int
  lp_origination_date :: date
  lp_payment_day :: int
  lp_is_arm :: bool
  lp_arm_first_adjustment_months :: "int option"
  lp_arm_adjustment_interval_months :: "int option"

record anchor_fact =
  fact_account_id :: int
  anchor_date :: date
  anchor_balance :: dec
  fact_is_opening :: bool
  created_at :: int
  event_id :: int
  fact_is_tracking_start :: bool

definition anchor_chronology_key :: "anchor_fact \<Rightarrow> date \<times> int \<times> int" where
  "anchor_chronology_key anchor = (anchor_date anchor, created_at anchor, event_id anchor)"

text \<open>The earliest instant Python has, and the id below every stored one.\<close>

definition ORIGINATION_CREATED_AT :: int where
  "ORIGINATION_CREATED_AT = - 62135596800000000"

definition ORIGINATION_EVENT_ID :: int where
  "ORIGINATION_EVENT_ID = 0"

definition synthesize_origination_anchor :: "loan_params \<Rightarrow> anchor_fact" where
  "synthesize_origination_anchor params =
     \<lparr>fact_account_id = lp_account_id params, anchor_date = lp_origination_date params,
      anchor_balance = lp_original_principal params, fact_is_opening = True,
      created_at = ORIGINATION_CREATED_AT, event_id = ORIGINATION_EVENT_ID,
      fact_is_tracking_start = False\<rparr>"

text \<open>The stored assertions are the loader's query, an argument here.\<close>

definition load_loan_anchor_facts :: "loan_params \<Rightarrow> anchor_fact list \<Rightarrow> anchor_fact list" where
  "load_loan_anchor_facts params assertions =
     sort_key anchor_chronology_key (synthesize_origination_anchor params # assertions)"

record loan_inputs =
  input_params :: loan_params
  anchor_events :: "anchor_fact list"
  input_payments :: "payment_record list"
  input_rate_changes :: "rate_change_record list"

record confirmed_ledger_view =
  view_balance :: dec
  view_history_rows :: "amortization_row list"

section \<open>Periods and anchor\<close>

definition origination_rate :: "rate_change_record list \<Rightarrow> dec res" where
  "origination_rate rate_changes =
     (case rate_changes of [] \<Rightarrow> Inl ValueError
      | c # cs \<Rightarrow> Inr (rc_interest_rate (min_by rc_effective_date c cs)))"

definition loan_terms_from :: "loan_params \<Rightarrow> dec \<Rightarrow> loan_terms" where
  "loan_terms_from params base =
     \<lparr>origination_date = lp_origination_date params, original_principal = lp_original_principal params,
      base_rate = base, term_months = lp_term_months params, is_arm = lp_is_arm params,
      arm_first_adjustment_months = lp_arm_first_adjustment_months params,
      arm_adjustment_interval_months = lp_arm_adjustment_interval_months params\<rparr>"

definition recorded_pi_from :: "rate_change_record list \<Rightarrow> (date \<times> dec) list" where
  "recorded_pi_from rate_changes =
     fold (\<lambda>c recorded. case rc_monthly_pi c of None \<Rightarrow> recorded
        | Some p \<Rightarrow> AList.update (rc_effective_date c) p recorded) rate_changes []"

definition resolve_periods :: "loan_params \<Rightarrow> rate_change_record list \<Rightarrow> rate_period list res" where
  "resolve_periods params rate_changes =
     bind_res (origination_rate rate_changes)
       (\<lambda>base. Inr (build_rate_periods (loan_terms_from params base) rate_changes
                     (recorded_pi_from rate_changes)))"

fun terms_from_periods :: "rate_period list \<Rightarrow> period_terms list res" where
  "terms_from_periods [] = Inr []"
| "terms_from_periods (p # ps) =
     bind_res (make_period_terms (period_start_date p) (DecimalV (period_rate p)) (DecimalV (period_pi p)))
       (\<lambda>t. bind_res (terms_from_periods ps) (\<lambda>ts. Inr (t # ts)))"

definition engine_terms :: "loan_params \<Rightarrow> rate_change_record list \<Rightarrow> period_terms list res" where
  "engine_terms params rate_changes =
     bind_res (resolve_periods params rate_changes) terms_from_periods"

definition select_latest_anchor :: "anchor_fact list \<Rightarrow> anchor_fact res" where
  "select_latest_anchor events =
     (case events of [] \<Rightarrow> Inl ValueError | e # es \<Rightarrow> Inr (max_by anchor_chronology_key e es))"

definition replay_from_anchor ::
  "anchor_fact list \<Rightarrow> rate_period list \<Rightarrow> payment_dates list \<Rightarrow> int \<Rightarrow> date \<Rightarrow> schedule_replay res" where
  "replay_from_anchor events periods payments pd as_of =
     bind_res (select_latest_anchor events)
       (\<lambda>anchor. replay_schedule periods
          \<lparr>anchor_amount = anchor_balance anchor, as_of_date = anchor_date anchor\<rparr> payments pd as_of)"

section \<open>The contract's forward\<close>

record projection_prep =
  prep_inputs :: projection_inputs
  prep_history_rows :: "amortization_row list"

record payoff_scenarios =
  history_rows :: "amortization_row list"
  original_forward :: "amortization_row list"

definition surface_extra :: "dec \<Rightarrow> amortization_row \<Rightarrow> amortization_row" where
  "surface_extra contractual row =
     row\<lparr>row_extra_payment := round_money (max (dsub (row_payment row) contractual) 0)\<rparr>"

definition build_forward_inputs ::
  "loan_inputs \<Rightarrow> date \<Rightarrow> confirmed_ledger_view option \<Rightarrow> projection_prep res" where
  "build_forward_inputs inputs as_of view =
     bind_res (resolve_periods (input_params inputs) (input_rate_changes inputs)) (\<lambda>periods.
     bind_res (replay_from_anchor (anchor_events inputs) periods (map pr_dates (input_payments inputs))
       (lp_payment_day (input_params inputs)) as_of) (\<lambda>replay.
     bind_res (period_for_date periods as_of) (\<lambda>current.
     let rows = (case view of
                   Some v \<Rightarrow> view_history_rows v
                 | None \<Rightarrow> map (surface_extra (period_pi current)) (replay_rows replay));
         balance = (case view of None \<Rightarrow> balance_as_of replay | Some v \<Rightarrow> view_balance v)
     in bind_res (terms_from_periods periods) (\<lambda>terms.
        bind_res (make_projection_inputs balance (next_pay_date replay) (remaining_months_as_of replay)
          (lp_payment_day (input_params inputs)) terms) (\<lambda>projection.
        Inr \<lparr>prep_inputs = projection, prep_history_rows = rows\<rparr>)))))"

definition compute_payoff_scenarios ::
  "loan_inputs \<Rightarrow> date \<Rightarrow> confirmed_ledger_view option \<Rightarrow> payoff_scenarios res" where
  "compute_payoff_scenarios inputs as_of view =
     bind_res (build_forward_inputs inputs as_of view)
       (\<lambda>prep. Inr \<lparr>history_rows = prep_history_rows prep,
                     original_forward = project_forward (prep_inputs prep) 0\<rparr>)"

section \<open>The resolved loan\<close>

record loan_state =
  monthly_payment :: dec
  current_rate :: dec
  schedule :: "amortization_row list"
  loan_total_interest :: dec

definition compute_monthly_payment_baseline :: "loan_params \<Rightarrow> rate_change_record list \<Rightarrow> date \<Rightarrow> dec res" where
  "compute_monthly_payment_baseline params rate_changes as_of =
     bind_res (resolve_periods params rate_changes) (\<lambda>periods.
     bind_res (period_for_date periods as_of) (\<lambda>p. Inr (period_pi p)))"

definition current_rate_baseline :: "loan_params \<Rightarrow> rate_change_record list \<Rightarrow> date \<Rightarrow> dec res" where
  "current_rate_baseline params rate_changes as_of =
     bind_res (resolve_periods params rate_changes) (\<lambda>periods.
     bind_res (period_for_date periods as_of) (\<lambda>p. Inr (period_rate p)))"

definition resolve_loan :: "loan_inputs \<Rightarrow> date \<Rightarrow> confirmed_ledger_view option \<Rightarrow> loan_state res" where
  "resolve_loan inputs as_of view =
     bind_res (resolve_periods (input_params inputs) (input_rate_changes inputs)) (\<lambda>periods.
     bind_res (compute_payoff_scenarios inputs as_of view) (\<lambda>scenarios.
     let rows = history_rows scenarios @ original_forward scenarios
     in bind_res (period_for_date periods as_of) (\<lambda>current.
        Inr \<lparr>monthly_payment = period_pi current, current_rate = period_rate current, schedule = rows,
             loan_total_interest = round_money (dsum (map row_interest rows))\<rparr>)))"

section \<open>The governing anchor\<close>

lemma last_sort_key_max:
  assumes "xs \<noteq> []"
  shows "last (sort_key key xs) \<in> set xs" "y \<in> set xs \<Longrightarrow> key y \<le> key (last (sort_key key xs))"
proof -
  have ne: "sort_key key xs \<noteq> []" using assms by (metis length_0_conv length_sort)
  then show "last (sort_key key xs) \<in> set xs" using last_in_set by fastforce
  assume "y \<in> set xs"
  then have "y \<in> set (sort_key key xs)" by simp
  then obtain zs ws where s: "sort_key key xs = zs @ y # ws" by (meson split_list)
  have "sorted (map key (zs @ y # ws))" using sorted_sort_key[of key xs] unfolding s .
  then show "key y \<le> key (last (sort_key key xs))" unfolding s by (auto simp: sorted_append)
qed

lemma select_latest_anchor_max:
  assumes "select_latest_anchor events = Inr a"
  shows "a \<in> set events" "e \<in> set events \<Longrightarrow> anchor_chronology_key e \<le> anchor_chronology_key a"
  using assms max_by_in[of anchor_chronology_key] max_by_ge[where key = anchor_chronology_key]
  by (auto simp: select_latest_anchor_def split: list.splits)

lemma select_latest_anchor_total: "events \<noteq> [] \<Longrightarrow> \<exists>a. select_latest_anchor events = Inr a"
  by (simp add: select_latest_anchor_def split: list.split)

text \<open>
  the anchor the resolver seeds its replay from is the last one of the loan's chronology, which is
  where a walk over the sorted anchors ends, however the list at hand is ordered; only an empty list of
  anchors raises.\<close>

theorem governing_anchor_is_the_last:
  assumes "inj_on anchor_chronology_key (set events)"
  shows "select_latest_anchor events =
      (if events = [] then Inl ValueError else Inr (last (sort_key anchor_chronology_key events))) \<and>
    (set shuffled = set events \<longrightarrow> select_latest_anchor shuffled = select_latest_anchor events)"
proof -
  have last: "select_latest_anchor xs = Inr (last (sort_key anchor_chronology_key xs))"
    if h: "xs \<noteq> []" "set xs = set events" for xs
  proof -
    obtain a where a: "select_latest_anchor xs = Inr a" using select_latest_anchor_total[OF h(1)] by blast
    note m = select_latest_anchor_max[OF a] and l = last_sort_key_max[OF h(1), where key = anchor_chronology_key]
    have "anchor_chronology_key a = anchor_chronology_key (last (sort_key anchor_chronology_key xs))"
      using m(2)[OF l(1)] l(2)[OF m(1)] by simp
    then show ?thesis using a assms m(1) l(1) h(2) by (metis inj_onD)
  qed
  have same: "select_latest_anchor shuffled = select_latest_anchor events" if h: "set shuffled = set events"
  proof (cases "events = []")
    case False
    obtain a b where a: "select_latest_anchor shuffled = Inr a" and b: "select_latest_anchor events = Inr b"
      using select_latest_anchor_total False h by (metis set_empty2)
    have "anchor_chronology_key a = anchor_chronology_key b"
      using select_latest_anchor_max[OF a] select_latest_anchor_max[OF b] h by (intro antisym) auto
    then show ?thesis
      using a b assms h select_latest_anchor_max(1)[OF a] select_latest_anchor_max(1)[OF b] by (metis inj_onD)
  qed (use h in simp)
  show ?thesis using last[of events] same by (simp add: select_latest_anchor_def)
qed

lemma governing_anchor_is_the_last_witness:
  "select_latest_anchor
     [\<lparr>fact_account_id = 1, anchor_date = Date 2026 2 1, anchor_balance = 900, fact_is_opening = False,
        created_at = 5, event_id = 7, fact_is_tracking_start = False\<rparr>,
      \<lparr>fact_account_id = 1, anchor_date = Date 2026 2 1, anchor_balance = 800, fact_is_opening = False,
        created_at = 5, event_id = 8, fact_is_tracking_start = False\<rparr>,
      \<lparr>fact_account_id = 1, anchor_date = Date 2025 1 1, anchor_balance = 1000, fact_is_opening = False,
        created_at = 0, event_id = 1, fact_is_tracking_start = False\<rparr>] =
   Inr (last (sort_key anchor_chronology_key
     [\<lparr>fact_account_id = 1, anchor_date = Date 2026 2 1, anchor_balance = 900, fact_is_opening = False,
        created_at = 5, event_id = 7, fact_is_tracking_start = False\<rparr>,
      \<lparr>fact_account_id = 1, anchor_date = Date 2026 2 1, anchor_balance = 800, fact_is_opening = False,
        created_at = 5, event_id = 8, fact_is_tracking_start = False\<rparr>,
      \<lparr>fact_account_id = 1, anchor_date = Date 2025 1 1, anchor_balance = 1000, fact_is_opening = False,
        created_at = 0, event_id = 1, fact_is_tracking_start = False\<rparr>]))"
  using governing_anchor_is_the_last[of
    "[\<lparr>fact_account_id = 1, anchor_date = Date 2026 2 1, anchor_balance = 900, fact_is_opening = False,
        created_at = 5, event_id = 7, fact_is_tracking_start = False\<rparr>,
      \<lparr>fact_account_id = 1, anchor_date = Date 2026 2 1, anchor_balance = 800, fact_is_opening = False,
        created_at = 5, event_id = 8, fact_is_tracking_start = False\<rparr>,
      \<lparr>fact_account_id = 1, anchor_date = Date 2025 1 1, anchor_balance = 1000, fact_is_opening = False,
        created_at = 0, event_id = 1, fact_is_tracking_start = False\<rparr>]"]
  by (simp add: anchor_chronology_key_def)

section \<open>The feed a loan record can carry\<close>

text \<open>
  A rate of the column, none or at least one thousandth of a percent and at most 36%, and a recorded
  payment the constructor accepts.\<close>

definition ordinary_change :: "rate_change_record \<Rightarrow> bool" where
  "ordinary_change c =
     ((rc_interest_rate c = 0 \<or> 1/10 ^ 5 \<le> rc_interest_rate c) \<and> rc_interest_rate c \<le> 36/100 \<and>
      (case rc_monthly_pi c of None \<Rightarrow> True | Some p \<Rightarrow> 0 < p))"

lemma origination_rate_in:
  assumes "origination_rate rcs = Inr r"
  shows "r \<in> rc_interest_rate ` set rcs"
proof -
  obtain c cs where c: "rcs = c # cs" "r = rc_interest_rate (min_by rc_effective_date c cs)"
    using assms by (auto simp: origination_rate_def split: list.splits)
  have "min_by rc_effective_date c cs \<in> set rcs" unfolding c(1) using min_by_in[of rc_effective_date c cs] by simp
  then show ?thesis unfolding c(2) by blast
qed

lemma recorded_pi_from_in: "snd ` set (recorded_pi_from rcs) \<subseteq> {p. \<exists>c \<in> set rcs. rc_monthly_pi c = Some p}"
proof -
  have "snd ` set (fold (\<lambda>c recorded. case rc_monthly_pi c of None \<Rightarrow> recorded
        | Some p \<Rightarrow> AList.update (rc_effective_date c) p recorded) cs al)
      \<subseteq> snd ` set al \<union> {p. \<exists>c \<in> set cs. rc_monthly_pi c = Some p}" for al and cs :: "rate_change_record list"
  proof (induction cs arbitrary: al)
    case (Cons c cs)
    have u: "snd ` set (AList.update k p al) \<subseteq> insert p (snd ` set al)" for k p
      by (induction al) auto
    show ?case
    proof (cases "rc_monthly_pi c")
      case None
      then show ?thesis using Cons[of al] by auto
    next
      case (Some p)
      then show ?thesis using Cons[of "AList.update (rc_effective_date c) p al"] u[of "rc_effective_date c" p]
        by auto
    qed
  qed simp
  from this[of rcs "[]"] show ?thesis by (simp add: recorded_pi_from_def)
qed

lemma distinct_recorded_pi_from: "distinct (map fst (recorded_pi_from rcs))"
proof -
  have "distinct (map fst al) \<Longrightarrow> distinct (map fst (fold (\<lambda>c recorded. case rc_monthly_pi c of None \<Rightarrow> recorded
        | Some p \<Rightarrow> AList.update (rc_effective_date c) p recorded) cs al))" for al and cs :: "rate_change_record list"
    by (induction cs arbitrary: al) (simp_all add: distinct_update split: option.split)
  from this[of "[]"] show ?thesis by (simp add: recorded_pi_from_def)
qed

lemma level_payment_nonneg:
  assumes "0 \<le> r"
  shows "0 \<le> calculate_monthly_payment p r n"
proof (cases "p \<le> 0 \<or> n \<le> 0 \<or> r = 0")
  case False
  define f where "f = dpow (dadd 1 (ddiv r MONTHS_PER_YEAR)) (nat n)"
  have m: "0 \<le> ddiv r MONTHS_PER_YEAR" using assms by (simp add: ddiv_def MONTHS_PER_YEAR_def fix28_nonneg)
  have one: "fix28 1 = 1" by (intro fix28_exact[of 1 1 0]) simp_all
  have "fix28 1 \<le> fix28 (1 + ddiv r MONTHS_PER_YEAR)" using m by (intro fix28_mono) simp_all
  then have "1 \<le> dadd 1 (ddiv r MONTHS_PER_YEAR) ^ nat n" by (simp add: dadd_def one)
  then have "fix28 1 \<le> f" unfolding f_def dpow_def by (intro fix28_mono) simp_all
  then have "0 \<le> dsub f 1" "0 \<le> f" by (simp_all add: one dsub_def fix28_nonneg)
  then have "0 \<le> ddiv (dmul p (dmul (ddiv r MONTHS_PER_YEAR) f)) (dsub f 1)"
    using False m by (simp add: ddiv_def dmul_def fix28_nonneg)
  then show ?thesis using False assms by (simp add: calculate_monthly_payment_def Let_def f_def round_money_nonneg)
qed (use assms in \<open>auto simp: calculate_monthly_payment_def Let_def ddiv_def fix28_nonneg round_money_nonneg\<close>)

lemma rate_at_date_in: "rate_at_date rcs d base \<in> insert base (rc_interest_rate ` set rcs)"
proof -
  have "scan_by key val d c xs \<in> insert c (val ` set xs)"
    for key :: "'r \<Rightarrow> date" and val :: "'r \<Rightarrow> dec" and c and xs by (induction xs arbitrary: c) auto
  from this[of rc_effective_date rc_interest_rate base "sort_key rc_effective_date rcs"]
  show ?thesis by (auto simp: rate_at_date_def)
qed

lemma resolved_period:
  assumes "\<forall>c \<in> set rcs. ordinary_change c" "resolve_periods params rcs = Inr ps" "p \<in> set ps"
  shows "0 \<le> period_rate p" "0 \<le> period_pi p"
proof -
  obtain base where base: "origination_rate rcs = Inr base"
      and ps: "ps = build_rate_periods (loan_terms_from params base) rcs (recorded_pi_from rcs)"
    using assms(2) by (auto simp: resolve_periods_def elim!: bind_res_InrE)
  let ?t = "loan_terms_from params base" and ?rec = "recorded_pi_from rcs"
  let ?bs = "period_boundary_dates ?t rcs"
  obtain i where i: "i < length ps" "p = ps ! i" using assms(3) unfolding in_set_conv_nth by blast
  have "length ps = length ?bs"
    using build_loop_structure(1)[of ?t rcs ?rec 0 "original_principal ?t" ?bs] by (metis ps build_rate_periods_def length_map)
  with i obtain b where p: "p = period_at ?t rcs ?rec i b (?bs ! i)"
    using build_loop_structure(2)[of i ?bs ?t rcs ?rec 0] by (auto simp: ps build_rate_periods_def)
  have rates: "\<forall>c \<in> set rcs. 0 \<le> rc_interest_rate c" using assms(1) by (auto simp: ordinary_change_def)
  have r: "0 \<le> rate_at_date rcs d (base_rate ?t)" for d
    using rate_at_date_in[of rcs d "base_rate ?t"] origination_rate_in[OF base] rates
    by (auto simp: loan_terms_from_def)
  have "0 < v" if h: "recorded_pi_at_date ?rec d = Some v" for d v
  proof -
    obtain k where "in_effect_on fst ?rec d = Some (k, v)"
      using h by (auto simp: recorded_pi_at_date_select[OF distinct_recorded_pi_from])
    then have "v \<in> snd ` set ?rec" using in_effect_on_SomeD by force
    then obtain c where "c \<in> set rcs" "rc_monthly_pi c = Some v" using recorded_pi_from_in by blast
    then show ?thesis using assms(1) by (auto simp: ordinary_change_def)
  qed
  then show "0 \<le> period_rate p" "0 \<le> period_pi p"
    using r level_payment_nonneg[OF r]
    by (auto simp: p period_at_def Let_def round_money_nonneg less_imp_le split: option.splits)
qed

lemma resolve_periods_cases:
  "resolve_periods params [] = Inl ValueError"
  "rcs \<noteq> [] \<Longrightarrow> \<exists>ps. resolve_periods params rcs = Inr ps \<and> ps \<noteq> [] \<and> sorted (map period_start_date ps)"
proof -
  show "resolve_periods params [] = Inl ValueError" by (simp add: resolve_periods_def origination_rate_def)
  assume "rcs \<noteq> []"
  then obtain base where base: "origination_rate rcs = Inr base" by (cases rcs) (auto simp: origination_rate_def)
  let ?t = "loan_terms_from params base"
  let ?ps = "build_rate_periods ?t rcs (recorded_pi_from rcs)"
  have starts: "map period_start_date ?ps = period_boundary_dates ?t rcs"
    by (simp add: build_rate_periods_def build_loop_structure(1))
  moreover have "origination_date ?t \<in> set (period_boundary_dates ?t rcs)" by (simp add: period_boundary_dates_def Let_def)
  ultimately have "?ps \<noteq> []" by auto
  moreover have "sorted (map period_start_date ?ps)" unfolding starts by (simp add: period_boundary_dates_def Let_def)
  ultimately show "\<exists>ps. resolve_periods params rcs = Inr ps \<and> ps \<noteq> [] \<and> sorted (map period_start_date ps)"
    by (simp add: resolve_periods_def base)
qed

lemma terms_from_periods_accepted:
  assumes "\<forall>p \<in> set ps. 0 \<le> period_rate p \<and> 0 \<le> period_pi p"
  shows "terms_from_periods ps = Inr (map terms_of_period ps)"
  using assms by (induction ps) (auto simp: make_period_terms_def terms_of_period_def)

section \<open>When a loan resolves\<close>

lemma replay_schedule_total: "ps \<noteq> [] \<Longrightarrow> \<exists>s. replay_schedule ps anchor payments pd as_of = Inr s"
proof -
  assume ps: "ps \<noteq> []"
  have rows: "\<exists>rows. replay_loop ps og pays b = Inr rows" for og pays b
  proof (induction pays arbitrary: b)
    case (Cons pay pays)
    obtain p where "period_for_date ps (period_start pay) = Inr p" using period_for_date_total[OF ps] by blast
    then show ?case using Cons[of "row_remaining_balance (replay_payment_row b p (due_date pay) og)"]
      by (auto simp: Let_def)
  qed simp
  obtain rows where "replay_loop ps (period_start_date (hd ps)) (eligible_payments payments (as_of_date anchor) as_of)
      (anchor_amount anchor) = Inr rows" using rows by blast
  moreover obtain p where "period_for_date ps as_of = Inr p" using period_for_date_total[OF ps] by blast
  ultimately show ?thesis using ps by (simp add: replay_schedule_def Let_def)
qed

definition forward_inputs_of ::
  "loan_inputs \<Rightarrow> rate_period list \<Rightarrow> schedule_replay \<Rightarrow> confirmed_ledger_view option \<Rightarrow> projection_inputs" where
  "forward_inputs_of inputs ps replay view =
     \<lparr>starting_balance = (case view of None \<Rightarrow> balance_as_of replay | Some v \<Rightarrow> view_balance v),
      starting_date = next_pay_date replay, remaining_months = remaining_months_as_of replay,
      payment_day = lp_payment_day (input_params inputs), terms_schedule = map terms_of_period ps\<rparr>"

definition history_of :: "schedule_replay \<Rightarrow> rate_period \<Rightarrow> confirmed_ledger_view option \<Rightarrow> amortization_row list" where
  "history_of replay current view =
     (case view of Some v \<Rightarrow> view_history_rows v
      | None \<Rightarrow> map (surface_extra (period_pi current)) (replay_rows replay))"

lemma resolve_loan_value:
  assumes "\<forall>c \<in> set (input_rate_changes inputs). ordinary_change c"
    and "input_rate_changes inputs \<noteq> []" "anchor_events inputs \<noteq> []"
  obtains ps anchor replay current where
    "resolve_periods (input_params inputs) (input_rate_changes inputs) = Inr ps" "ps \<noteq> []"
    "sorted (map period_start_date ps)"
    "select_latest_anchor (anchor_events inputs) = Inr anchor"
    "replay_schedule ps \<lparr>anchor_amount = anchor_balance anchor, as_of_date = anchor_date anchor\<rparr>
       (map pr_dates (input_payments inputs)) (lp_payment_day (input_params inputs)) as_of = Inr replay"
    "period_for_date ps as_of = Inr current"
    "build_forward_inputs inputs as_of view =
       Inr \<lparr>prep_inputs = forward_inputs_of inputs ps replay view, prep_history_rows = history_of replay current view\<rparr>"
    "let rows = history_of replay current view @ project_forward (forward_inputs_of inputs ps replay view) 0
     in resolve_loan inputs as_of view =
          Inr \<lparr>monthly_payment = period_pi current, current_rate = period_rate current, schedule = rows,
               loan_total_interest = round_money (dsum (map row_interest rows))\<rparr>"
proof -
  let ?params = "input_params inputs" and ?rcs = "input_rate_changes inputs"
  obtain ps where ps: "resolve_periods ?params ?rcs = Inr ps" "ps \<noteq> []" "sorted (map period_start_date ps)"
    using resolve_periods_cases(2)[OF assms(2)] by blast
  obtain anchor where a: "select_latest_anchor (anchor_events inputs) = Inr anchor"
    using select_latest_anchor_total[OF assms(3)] by blast
  obtain replay where replay: "replay_schedule ps
      \<lparr>anchor_amount = anchor_balance anchor, as_of_date = anchor_date anchor\<rparr>
      (map pr_dates (input_payments inputs)) (lp_payment_day ?params) as_of = Inr replay"
    using replay_schedule_total[OF ps(2)] by blast
  obtain current where cur: "period_for_date ps as_of = Inr current" using period_for_date_total[OF ps(2)] by blast
  have terms: "terms_from_periods ps = Inr (map terms_of_period ps)"
    using resolved_period[OF assms(1) ps(1)] by (intro terms_from_periods_accepted) blast
  have prep: "build_forward_inputs inputs as_of view =
      Inr \<lparr>prep_inputs = forward_inputs_of inputs ps replay view, prep_history_rows = history_of replay current view\<rparr>"
    by (simp add: build_forward_inputs_def ps(1,2) replay_from_anchor_def a replay cur terms Let_def
        make_projection_inputs_def forward_inputs_of_def history_of_def)
  then have "let rows = history_of replay current view @ project_forward (forward_inputs_of inputs ps replay view) 0
     in resolve_loan inputs as_of view =
          Inr \<lparr>monthly_payment = period_pi current, current_rate = period_rate current, schedule = rows,
               loan_total_interest = round_money (dsum (map row_interest rows))\<rparr>"
    by (simp add: resolve_loan_def ps(1) compute_payoff_scenarios_def cur Let_def)
  then show ?thesis by (rule that[OF ps a replay cur prep])
qed

definition sample_loan :: loan_inputs where
  "sample_loan =
     \<lparr>input_params = \<lparr>lp_account_id = 1, lp_original_principal = 1000, lp_term_months = 24, lp_origination_date = Date 2026 1 31,
        lp_payment_day = 15, lp_is_arm = False, lp_arm_first_adjustment_months = None,
        lp_arm_adjustment_interval_months = None\<rparr>,
      anchor_events = [\<lparr>fact_account_id = 1, anchor_date = Date 2026 1 31, anchor_balance = 1000, fact_is_opening = False,
        created_at = 0, event_id = 0, fact_is_tracking_start = False\<rparr>],
      input_payments = [],
      input_rate_changes = [\<lparr>rc_effective_date = Date 2026 1 31, rc_interest_rate = 6/100,
        rc_monthly_pi = Some 50\<rparr>]\<rparr>"

section \<open>The schedule pays what the card shows\<close>

lemma governing_row:
  fixes d :: date
  assumes "sorted (map period_start_date ps)" "ps \<noteq> []"
    and "resolve_periods params rcs = Inr ps"
  defines "t \<equiv> governing_terms (sort_key start_date (map terms_of_period ps)) d"
  shows "compute_monthly_payment_baseline params rcs d = Inr (monthly_pi t)"
    "current_rate_baseline params rcs d = Inr (annual_rate t)"
  using governing_terms_of_periods[OF assms(1,2), of d] assms(3)
  by (auto simp: t_def compute_monthly_payment_baseline_def current_rate_baseline_def terms_of_period_def)

lemma replay_schedule_confirmed:
  assumes "replay_schedule ps anchor payments pd as_of = Inr s" "r \<in> set (replay_rows s)"
  shows "row_is_confirmed r"
proof -
  have "\<forall>r \<in> set rows. row_is_confirmed r" if "replay_loop ps og pays b = Inr rows" for og pays b rows
    using that
    by (induction pays arbitrary: b rows)
       (auto simp: Let_def replay_payment_row_def split: if_splits elim!: bind_res_InrE)
  then show ?thesis using assms
    by (auto simp: replay_schedule_def Let_def split: if_splits elim!: bind_res_InrE)
qed

text \<open>
  C25: the card and the schedule of a resolved loan agree.  The schedule is a history followed by the
  contract's forward.  The card shows the rate and the payment of the day asked for; the forward starts
  from the balance of the confirmed view, where there is one, else from the replayed one, and while a
  balance is left each of its months is charged at the rate, and pays the level payment, the same
  lookups give for its date; it ends at zero, its principal adds up to the balance it starts with, and
  the interest of the whole schedule is the loan's.\<close>

theorem schedule_pays_the_card:
  fixes view :: "confirmed_ledger_view option" and day :: date
  assumes "\<forall>c \<in> set (input_rate_changes inputs). ordinary_change c"
    and "input_rate_changes inputs \<noteq> []" "anchor_events inputs \<noteq> []"
  defines "baseline \<equiv> compute_monthly_payment_baseline (input_params inputs) (input_rate_changes inputs)"
    and "rate_on \<equiv> current_rate_baseline (input_params inputs) (input_rate_changes inputs)"
  shows "\<exists>s prep. resolve_loan inputs day view = Inr s \<and> build_forward_inputs inputs day view = Inr prep \<and>
    (let history = prep_history_rows prep; proj = prep_inputs prep; forward = project_forward proj 0 in
      schedule s = history @ forward \<and>
      (case view of None \<Rightarrow> \<forall>r \<in> set history. row_is_confirmed r
       | Some v \<Rightarrow> history = view_history_rows v \<and> starting_balance proj = view_balance v) \<and>
      baseline day = Inr (monthly_payment s) \<and> rate_on day = Inr (current_rate s) \<and>
      (ordinary_inputs proj \<longrightarrow>
        forward \<noteq> [] \<and> row_remaining_balance (last forward) = 0 \<and>
        sum_list (map row_principal forward) = starting_balance proj \<and>
        (\<forall>r \<in> set forward. \<not> row_is_confirmed r \<and>
           rate_on (row_payment_date r) = Inr (the (row_interest_rate r)) \<and>
           (row_remaining_balance r = 0 \<or> baseline (row_payment_date r) = Inr (row_payment r)))) \<and>
      loan_total_interest s = round_money (dsum (map row_interest (schedule s))))"
proof -
  obtain ps anchor replay current where
    ps: "resolve_periods (input_params inputs) (input_rate_changes inputs) = Inr ps" "ps \<noteq> []"
      "sorted (map period_start_date ps)"
    and governing: "select_latest_anchor (anchor_events inputs) = Inr anchor"
    and replay: "replay_schedule ps \<lparr>anchor_amount = anchor_balance anchor, as_of_date = anchor_date anchor\<rparr>
       (map pr_dates (input_payments inputs)) (lp_payment_day (input_params inputs)) day = Inr replay"
    and cur: "period_for_date ps day = Inr current"
    and prep: "build_forward_inputs inputs day view =
       Inr \<lparr>prep_inputs = forward_inputs_of inputs ps replay view, prep_history_rows = history_of replay current view\<rparr>"
    and result: "let rows = history_of replay current view @ project_forward (forward_inputs_of inputs ps replay view) 0
     in resolve_loan inputs day view =
          Inr \<lparr>monthly_payment = period_pi current, current_rate = period_rate current, schedule = rows,
               loan_total_interest = round_money (dsum (map row_interest rows))\<rparr>"
    by (rule resolve_loan_value[OF assms(1-3), of day view])
  let ?proj = "forward_inputs_of inputs ps replay view"
  let ?fwd = "project_forward ?proj 0" and ?hist = "history_of replay current view"
  have card: "baseline day = Inr (period_pi current)" "rate_on day = Inr (period_rate current)"
    using ps cur by (simp_all add: baseline_def rate_on_def compute_monthly_payment_baseline_def current_rate_baseline_def)
  have hist: "case view of None \<Rightarrow> \<forall>r \<in> set ?hist. row_is_confirmed r 
       | Some v \<Rightarrow> ?hist = view_history_rows v \<and> starting_balance ?proj = view_balance v"
    using replay_schedule_confirmed[OF replay] by (auto simp: history_of_def surface_extra_def forward_inputs_of_def split: option.split)
  have fwd: "?fwd \<noteq> [] \<and> row_remaining_balance (last ?fwd) = 0 \<and>
      sum_list (map row_principal ?fwd) = starting_balance ?proj \<and>
      (\<forall>r \<in> set ?fwd. \<not> row_is_confirmed r \<and> rate_on (row_payment_date r) = Inr (the (row_interest_rate r)) \<and>
         (row_remaining_balance r = 0 \<or> baseline (row_payment_date r) = Inr (row_payment r)))"
    if ord: "ordinary_inputs ?proj"
  proof -
    have sched: "schedule_from (sorted_terms ?proj) (month_ordinal (starting_date ?proj)) (payment_day ?proj)
        (remaining_months ?proj) 0 1 (starting_balance ?proj) ?fwd"
      using project_forward_schedule[OF ord amount_0] by blast
    have ne: "?fwd \<noteq> []" by (rule project_forward_nonempty[OF ord amount_0])
    have each: "\<not> row_is_confirmed r \<and> rate_on (row_payment_date r) = Inr (the (row_interest_rate r)) \<and>
        (row_remaining_balance r = 0 \<or> baseline (row_payment_date r) = Inr (row_payment r)) \<and>
        row_extra_payment r = 0" if r: "r \<in> set ?fwd" for r
    proof -
      obtain i where "i < length ?fwd" "r = ?fwd ! i" using r unfolding in_set_conv_nth by blast
      then show ?thesis
        using schedule_from_nth[OF sched, of i] governing_row[OF ps(3,2,1), of "row_payment_date r"]
        by (auto simp: projected_row_def Let_def forward_inputs_of_def baseline_def rate_on_def)
    qed
    have "map (\<lambda>r. row_principal r + row_extra_payment r) ?fwd = map row_principal ?fwd" using each by simp
    with schedule_from_sums[OF sched] have "sum_list (map row_principal ?fwd) = starting_balance ?proj" by argo
    with ne each schedule_from_last[OF sched ne] show ?thesis by blast
  qed
  show ?thesis
    using result prep card hist fwd unfolding Let_def
    by (intro exI[of _ "projr (resolve_loan inputs day view)"] exI[of _ "\<lparr>prep_inputs = ?proj, prep_history_rows = ?hist\<rparr>"])
       (cases view; simp)
qed

lemma schedule_pays_the_card_witness:
  "\<exists>s prep. resolve_loan sample_loan (Date 2026 3 1) None = Inr s \<and>
     build_forward_inputs sample_loan (Date 2026 3 1) None = Inr prep \<and>
     schedule s = project_forward (prep_inputs prep) 0 \<and>
     sum_list (map row_principal (project_forward (prep_inputs prep) 0)) = 1000"
proof -
  have bd: "period_boundary_dates (loan_terms_from (input_params sample_loan) (6/100)) (input_rate_changes sample_loan)
      = [Date 2026 1 31]"
    by (simp add: period_boundary_dates_def loan_terms_from_def sample_loan_def)
  have ps: "resolve_periods (input_params sample_loan) (input_rate_changes sample_loan) =
      Inr [\<lparr>period_index = 0, period_start_date = Date 2026 1 31, period_rate = 6/100, period_pi = 50,
            start_month_index = 0, term_months_at_start = 24\<rparr>]"
    using bd by (simp add: resolve_periods_def origination_rate_def build_rate_periods_def period_at_def Let_def
        rate_at_date_def recorded_pi_from_def recorded_pi_at_date_def months_between_ordinal sample_loan_def loan_terms_from_def)
  have prep: "build_forward_inputs sample_loan (Date 2026 3 1) None = Inr
     \<lparr>prep_inputs = \<lparr>starting_balance = 1000, starting_date = due_in_following_month (Date 2026 1 31) 15,
        remaining_months = 24, payment_day = 15,
        terms_schedule = [\<lparr>start_date = Date 2026 1 31, annual_rate = 6/100, monthly_pi = 50\<rparr>]\<rparr>,
      prep_history_rows = []\<rparr>"
    unfolding build_forward_inputs_def ps
    by (simp add: replay_from_anchor_def select_latest_anchor_def replay_schedule_def eligible_payments_def
        period_for_date_def make_period_terms_def make_projection_inputs_def sample_loan_def Let_def months_between_ordinal)
  show ?thesis
    using schedule_pays_the_card[of sample_loan "Date 2026 3 1" None] unfolding prep Let_def
    by (force simp: sample_loan_def ordinary_change_def ordinary_inputs_def ordinary_terms_def
        in_column_def MONEY_COLUMN_MAX_def)
qed

end
