(* ===== verification/Loan_Ledger.thy ===== *)
theory Loan_Ledger
  imports Loan_Resolver Escrow "HOL-Library.Multiset"
begin

text \<open>
  \<open>app/services/loan_ledger\<close>: the contract's charges, the one replay of a loan's charges, payments and
  balance assertions, and the walk it yields.  The replay is a step function over a walk state, run over the events in
  their order.  The caller's record an event carries is opaque to the replay.
\<close>

section \<open>Charges\<close>

record accrual_charge =
  charge_on_date :: date
  charge_period :: rate_period
  charge_escrow :: dec

record loan_calendar =
  cal_origination_date :: date
  cal_payment_day :: int
  cal_periods :: "rate_period list"
  cal_escrow_lines :: "escrow_line list"

fun charges_on :: "loan_calendar \<Rightarrow> date list \<Rightarrow> accrual_charge list res" where
  "charges_on calendar [] = Inr []"
| "charges_on calendar (d # ds) =
     bind_res (period_for_date (cal_periods calendar) d)
       (\<lambda>p. bind_res (charges_on calendar ds)
         (\<lambda>cs. Inr (\<lparr>charge_on_date = d, charge_period = p,
                      charge_escrow = escrow_monthly_as_of (cal_escrow_lines calendar) d\<rparr> # cs)))"

definition contract_charges :: "loan_calendar \<Rightarrow> date \<Rightarrow> accrual_charge list res" where
  "contract_charges calendar through =
     charges_on calendar
       (installment_dates (cal_origination_date calendar) (cal_payment_day calendar) through)"

definition build_loan_calendar ::
  "loan_params \<Rightarrow> rate_change_record list \<Rightarrow> escrow_line list \<Rightarrow> loan_calendar res" where
  "build_loan_calendar params rate_changes escrow_lines =
     bind_res (resolve_periods params rate_changes)
       (\<lambda>ps. Inr \<lparr>cal_origination_date = lp_origination_date params,
                   cal_payment_day = lp_payment_day params, cal_periods = ps,
                   cal_escrow_lines = escrow_lines\<rparr>)"

section \<open>The event stream\<close>

record loan_due =
  due_interest :: dec
  due_escrow :: dec
  due_extra :: dec

definition due_plus :: "loan_due \<Rightarrow> loan_due \<Rightarrow> loan_due" where
  "due_plus a b = \<lparr>due_interest = dadd (due_interest a) (due_interest b),
               due_escrow = dadd (due_escrow a) (due_escrow b),
               due_extra = dadd (due_extra a) (due_extra b)\<rparr>"

definition NOTHING_DUE :: loan_due where
  "NOTHING_DUE = \<lparr>due_interest = 0, due_escrow = 0, due_extra = 0\<rparr>"

record planned_payment =
  plan_due_date :: date
  plan_effective_date :: date
  plan_cash :: dec
  is_estimated :: bool

text \<open>What an event was read off: a settled transfer leg, named by its number, or a plan's record.\<close>

datatype event_source = Leg nat | Plan planned_payment

record loan_cash_event =
  pay_on_date :: date
  pay_cash :: dec
  pay_source :: event_source
  pay_visible_on :: date

record loan_reset_event =
  reset_on_date :: date
  reset_balance :: dec
  reset_source :: anchor_fact
  is_opening :: bool
  is_tracking_start :: bool

record loan_event_stream =
  stream_charges :: "accrual_charge list"
  stream_payments :: "loan_cash_event list"
  stream_resets :: "loan_reset_event list"
  stream_projections :: "loan_cash_event list"
  stream_calendar :: "loan_calendar option"

definition latest :: "date list \<Rightarrow> date option" where
  "latest ds = (case ds of [] \<Rightarrow> None | d # ds \<Rightarrow> Some (max_by (\<lambda>d. d) d ds))"

definition with_contract_charges :: "loan_event_stream \<Rightarrow> loan_calendar \<Rightarrow> loan_event_stream res" where
  "with_contract_charges stream calendar =
     (let last = latest (map pay_on_date (stream_payments stream) @ map reset_on_date (stream_resets stream) @
                         map pay_on_date (stream_projections stream))
      in bind_res (case last of None \<Rightarrow> Inr [] | Some d \<Rightarrow> contract_charges calendar d)
           (\<lambda>charges. Inr (stream\<lparr>stream_charges := charges, stream_calendar := Some calendar\<rparr>)))"

definition projection_boundary :: "loan_event_stream \<Rightarrow> date option" where
  "projection_boundary stream =
     map_option (\<lambda>d. add_days d 1)
       (latest (map pay_on_date (stream_payments stream) @ map reset_on_date (stream_resets stream)))"

text \<open>The kinds of the source's tagged tuples.\<close>

datatype loan_event =
    Charge accrual_charge
  | Payment loan_cash_event
  | Reset loan_reset_event
  | Projection loan_cash_event

fun event_date :: "loan_event \<Rightarrow> date" where
  "event_date (Charge c) = charge_on_date c"
| "event_date (Payment p) = pay_on_date p"
| "event_date (Reset r) = reset_on_date r"
| "event_date (Projection p) = pay_on_date p"

fun kind_order :: "loan_event \<Rightarrow> nat" where
  "kind_order (Charge c) = 0"
| "kind_order (Payment p) = 1"
| "kind_order (Reset r) = 2"
| "kind_order (Projection p) = 1"

fun walk_date :: "date option \<Rightarrow> loan_event \<Rightarrow> date" where
  "walk_date (Some boundary) (Projection p) = max (pay_on_date p) boundary"
| "walk_date boundary e = event_date e"

definition walk_key :: "date option \<Rightarrow> loan_event \<Rightarrow> date \<times> date \<times> nat" where
  "walk_key boundary e = (walk_date boundary e, event_date e, kind_order e)"

definition tagged :: "loan_event_stream \<Rightarrow> loan_event list" where
  "tagged stream =
     map Charge (stream_charges stream) @ map Payment (stream_payments stream) @
     map Reset (stream_resets stream) @ map Projection (stream_projections stream)"

definition ordered :: "loan_event_stream \<Rightarrow> date option \<Rightarrow> loan_event list" where
  "ordered stream boundary = sort_key (walk_key boundary) (tagged stream)"

section \<open>The replay\<close>

definition first_tracking_start :: "loan_reset_event list \<Rightarrow> date option" where
  "first_tracking_start resets =
     (case [reset_on_date r. r \<leftarrow> resets, \<not> is_opening r] of [] \<Rightarrow> None
      | d # ds \<Rightarrow>
          let first = min_by (\<lambda>d. d) d ds
          in if list_ex (\<lambda>r. is_tracking_start r \<and> reset_on_date r = first) resets then Some first else None)"

fun cash_before_the_next_charge :: "loan_event list \<Rightarrow> bool" where
  "cash_before_the_next_charge [] = False"
| "cash_before_the_next_charge (Charge c # es) = False"
| "cash_before_the_next_charge (Payment p # es) = True"
| "cash_before_the_next_charge (Projection p # es) = True"
| "cash_before_the_next_charge (Reset r # es) = cash_before_the_next_charge es"

fun flag_from :: "date option \<Rightarrow> bool \<Rightarrow> loan_event list \<Rightarrow> (loan_event \<times> bool) list" where
  "flag_from recharge_on unpaid_charge [] = []"
| "flag_from recharge_on unpaid_charge (Charge c # es) = (Charge c, False) # flag_from recharge_on True es"
| "flag_from recharge_on unpaid_charge (Payment p # es) = (Payment p, False) # flag_from recharge_on False es"
| "flag_from recharge_on unpaid_charge (Projection p # es) =
     (Projection p, False) # flag_from recharge_on False es"
| "flag_from recharge_on unpaid_charge (Reset r # es) =
     (Reset r, unpaid_charge \<and> is_tracking_start r \<and> Some (reset_on_date r) = recharge_on \<and>
               cash_before_the_next_charge es) # flag_from recharge_on unpaid_charge es"

definition flag_recharging_starts :: "loan_event list \<Rightarrow> date option \<Rightarrow> (loan_event \<times> bool) list" where
  "flag_recharging_starts order first_start =
     (let recharge_on =
        (if list_ex (\<lambda>e. case e of
              Reset r \<Rightarrow> \<not> is_opening r \<and> \<not> is_tracking_start r \<and> Some (reset_on_date r) = first_start
            | _ \<Rightarrow> False) order
         then None else first_start)
      in flag_from recharge_on False order)"

definition accrued :: "accrual_charge \<Rightarrow> dec \<Rightarrow> dec \<Rightarrow> date option \<Rightarrow> loan_due" where
  "accrued charge balance extra_per_period boundary =
     (if balance \<le> 0 then NOTHING_DUE
      else \<lparr>due_interest = accrue_monthly_interest balance (period_rate (charge_period charge)),
            due_escrow = charge_escrow charge,
            due_extra = (case boundary of None \<Rightarrow> extra_per_period
                         | Some b \<Rightarrow> if b \<le> charge_on_date charge then extra_per_period else 0)\<rparr>)"

record payment_outcome =
  outcome_event :: loan_cash_event
  outcome_charge :: "accrual_charge option"
  outcome_split :: payment_cash_split
  outcome_period :: rate_period
  is_projected :: bool

record reset_outcome =
  reset_event :: loan_reset_event
  balance_before :: dec

record loan_replay =
  replay_payments :: "payment_outcome list"
  replay_resets :: "reset_outcome list"

text \<open>What the loop reads beside its events, and the five variables it updates.\<close>

record replay_terms =
  rt_periods :: "rate_period list"
  rt_extra :: dec
  rt_boundary :: "date option"
  rt_first_start :: "date option"

record walk_state =
  run_balance :: dec
  run_due :: loan_due
  run_standing :: "accrual_charge option"
  run_payments :: "payment_outcome list"
  run_resets :: "reset_outcome list"

definition walk_charge :: "replay_terms \<Rightarrow> accrual_charge \<Rightarrow> walk_state \<Rightarrow> walk_state" where
  "walk_charge terms c st =
     (let due = (case rt_first_start terms of
                   Some first \<Rightarrow> if charge_on_date c \<le> first then NOTHING_DUE else run_due st
                 | None \<Rightarrow> run_due st)
      in st\<lparr>run_standing := Some c,
            run_due := due_plus due (accrued c (run_balance st) (rt_extra terms) (rt_boundary terms))\<rparr>)"

definition walk_payment ::
  "replay_terms \<Rightarrow> loan_cash_event \<Rightarrow> bool \<Rightarrow> walk_state \<Rightarrow> walk_state res" where
  "walk_payment terms event projected st =
     (let split = apply_payment_cash (dadd (pay_cash event) (due_extra (run_due st))) (run_balance st)
                    (due_interest (run_due st)) (due_escrow (run_due st))
      in bind_res (case run_standing st of None \<Rightarrow> period_for_date (rt_periods terms) (pay_on_date event)
                   | Some c \<Rightarrow> Inr (charge_period c))
           (\<lambda>period. Inr (st\<lparr>run_balance := balance_after split, run_due := NOTHING_DUE,
              run_payments := run_payments st @
                [\<lparr>outcome_event = event, outcome_charge = run_standing st, outcome_split = split,
                  outcome_period = period, is_projected = projected\<rparr>]\<rparr>)))"

definition walk_reset :: "replay_terms \<Rightarrow> loan_reset_event \<Rightarrow> bool \<Rightarrow> walk_state \<Rightarrow> walk_state" where
  "walk_reset terms event recharges st =
     st\<lparr>run_resets := run_resets st @ [\<lparr>reset_event = event, balance_before = run_balance st\<rparr>],
        run_balance := reset_balance event,
        run_due := (case run_standing st of
             Some c \<Rightarrow> if recharges then accrued c (reset_balance event) (rt_extra terms) (rt_boundary terms)
                       else NOTHING_DUE
           | None \<Rightarrow> NOTHING_DUE)\<rparr>"

fun replay_step :: "replay_terms \<Rightarrow> loan_event \<times> bool \<Rightarrow> walk_state \<Rightarrow> walk_state res" where
  "replay_step terms (Charge c, recharges) st = Inr (walk_charge terms c st)"
| "replay_step terms (Payment p, recharges) st = walk_payment terms p False st"
| "replay_step terms (Projection p, recharges) st = walk_payment terms p True st"
| "replay_step terms (Reset r, recharges) st = Inr (walk_reset terms r recharges st)"

fun replay_events :: "replay_terms \<Rightarrow> (loan_event \<times> bool) list \<Rightarrow> walk_state \<Rightarrow> walk_state res" where
  "replay_events terms [] st = Inr st"
| "replay_events terms (e # es) st = bind_res (replay_step terms e st) (replay_events terms es)"

definition replay_terms_of :: "loan_event_stream \<Rightarrow> dec \<Rightarrow> replay_terms" where
  "replay_terms_of stream extra_per_period =
     \<lparr>rt_periods = (case stream_calendar stream of None \<Rightarrow> [] | Some c \<Rightarrow> cal_periods c),
      rt_extra = extra_per_period, rt_boundary = projection_boundary stream,
      rt_first_start = first_tracking_start (stream_resets stream)\<rparr>"

definition walk_from :: "dec \<Rightarrow> walk_state" where
  "walk_from seed = \<lparr>run_balance = seed, run_due = NOTHING_DUE, run_standing = None,
                     run_payments = [], run_resets = []\<rparr>"

definition flagged_events :: "loan_event_stream \<Rightarrow> (loan_event \<times> bool) list" where
  "flagged_events stream =
     flag_recharging_starts (ordered stream (projection_boundary stream))
       (first_tracking_start (stream_resets stream))"

definition replay_loan_events :: "dec \<Rightarrow> loan_event_stream \<Rightarrow> dec \<Rightarrow> loan_replay res" where
  "replay_loan_events seed stream extra_per_period =
     bind_res (replay_events (replay_terms_of stream extra_per_period) (flagged_events stream) (walk_from seed))
       (\<lambda>st. Inr \<lparr>replay_payments = run_payments st, replay_resets = run_resets st\<rparr>)"

section \<open>The walk\<close>

record loan_anchor_correction =
  correction_anchor :: anchor_fact
  owed_before :: dec

record loan_ledger_walk =
  payment_splits :: "payment_outcome list"
  anchor_corrections :: "loan_anchor_correction list"
  walk_stream :: loan_event_stream

definition settled_splits :: "loan_ledger_walk \<Rightarrow> payment_outcome list" where
  "settled_splits walk = [ou \<leftarrow> payment_splits walk. \<not> is_projected ou]"

definition projected_splits :: "loan_ledger_walk \<Rightarrow> payment_outcome list" where
  "projected_splits walk = [ou \<leftarrow> payment_splits walk. is_projected ou]"

definition replay_loan_stream :: "loan_event_stream \<Rightarrow> dec \<Rightarrow> loan_ledger_walk res" where
  "replay_loan_stream stream extra_per_period =
     bind_res (replay_loan_events 0 stream extra_per_period)
       (\<lambda>replay. Inr \<lparr>payment_splits = replay_payments replay,
          anchor_corrections =
            [\<lparr>correction_anchor = reset_source (reset_event ou), owed_before = balance_before ou\<rparr>.
               ou \<leftarrow> replay_resets replay],
          walk_stream = stream\<rparr>)"

definition anchor_visible_on :: "date \<Rightarrow> date" where
  "anchor_visible_on d = d"

definition dated_deltas :: "loan_ledger_walk \<Rightarrow> (date \<times> dec) list" where
  "dated_deltas walk =
     (if anchor_corrections walk = [] then []
      else map (\<lambda>(visible_on, tag, delta). (visible_on, delta))
        (sort_key (\<lambda>(visible_on, tag, delta). (visible_on, tag))
          ([(anchor_visible_on (anchor_date (correction_anchor c)), 1::nat,
             dsub (anchor_balance (correction_anchor c)) (owed_before c)). c \<leftarrow> anchor_corrections walk] @
           [(pay_visible_on (outcome_event ou), 0, dsub 0 (principal (outcome_split ou))).
              ou \<leftarrow> payment_splits walk])))"

section \<open>Running the replay\<close>

lemma replay_events_append:
  "replay_events terms (xs @ ys) st = bind_res (replay_events terms xs st) (replay_events terms ys)"
proof (induction xs arbitrary: st)
  case (Cons x xs)
  then show ?case by (cases "replay_step terms x st") simp_all
qed simp

fun is_cash :: "loan_event \<Rightarrow> bool" where
  "is_cash (Payment p) = True"
| "is_cash (Projection p) = True"
| "is_cash e = False"

fun is_reset :: "loan_event \<Rightarrow> bool" where
  "is_reset (Reset r) = True"
| "is_reset e = False"

lemma map_fst_flag_from [simp]: "map fst (flag_from on u es) = es"
  by (induction on u es rule: flag_from.induct) simp_all

lemma map_fst_flagged [simp]: "map fst (flag_recharging_starts es fs) = es"
  by (simp add: flag_recharging_starts_def Let_def)

text \<open>A payment asks the calendar for its period only while no charge stands.\<close>

lemma replay_step_error:
  "replay_step terms x st = Inl e \<longleftrightarrow>
     e = ValueError \<and> rt_periods terms = [] \<and> is_cash (fst x) \<and> run_standing st = None"
  by (cases "(terms, x, st)" rule: replay_step.cases)
     (auto simp: walk_payment_def Let_def period_for_date_def split: option.splits)

lemma replay_step_total: "rt_periods terms \<noteq> [] \<Longrightarrow> \<exists>st'. replay_step terms x st = Inr st'"
  using replay_step_error[of terms x st] by (cases "replay_step terms x st") auto

lemma replay_events_total: "rt_periods terms \<noteq> [] \<Longrightarrow> \<exists>st'. replay_events terms xs st = Inr st'"
proof (induction xs arbitrary: st)
  case (Cons x xs)
  then show ?case using replay_step_total[of terms x st] by fastforce
qed simp

lemma replay_step_standing:
  "replay_step terms x st = Inr st' \<Longrightarrow>
     run_standing st' = (case fst x of Charge c \<Rightarrow> Some c | _ \<Rightarrow> run_standing st)"
  by (cases "(terms, x, st)" rule: replay_step.cases)
     (auto simp: walk_charge_def walk_payment_def walk_reset_def Let_def elim!: bind_res_InrE)

lemma replay_events_error:
  "replay_events terms xs st = Inl e \<longleftrightarrow>
     e = ValueError \<and> rt_periods terms = [] \<and> run_standing st = None \<and>
     cash_before_the_next_charge (map fst xs)"
proof (induction xs arbitrary: st)
  case (Cons x xs)
  show ?case
  proof (cases "replay_step terms x st")
    case (Inl e')
    then have h: "e' = ValueError" "rt_periods terms = []" "is_cash (fst x)" "run_standing st = None"
      by (auto simp: replay_step_error)
    then show ?thesis using Inl by (cases "fst x") auto
  next
    case (Inr st')
    note s = replay_step_standing[OF Inr]
    have "\<not> (rt_periods terms = [] \<and> is_cash (fst x) \<and> run_standing st = None)"
      using Inr replay_step_error[of terms x st ValueError] by auto
    then show ?thesis using Inr s Cons[of st'] by (cases "fst x") auto
  qed
qed simp

lemma charges_on_total: "cal_periods cal \<noteq> [] \<Longrightarrow> \<exists>cs. charges_on cal ds = Inr cs"
proof (induction ds)
  case (Cons d ds)
  then show ?case using period_for_date_total[of "cal_periods cal" d] by fastforce
qed simp

lemma charges_on_dates: "charges_on cal ds = Inr cs \<Longrightarrow> map charge_on_date cs = ds"
  by (induction ds arbitrary: cs) (auto elim!: bind_res_InrE)

lemma charges_on_error:
  "charges_on cal ds = Inl e \<longleftrightarrow> e = ValueError \<and> cal_periods cal = [] \<and> ds \<noteq> []"
proof (cases "cal_periods cal = []")
  case True
  then show ?thesis by (cases ds) (auto simp: period_for_date_def)
next
  case False
  then show ?thesis using charges_on_total[OF False, of ds] by auto
qed

text \<open>
  when a replay refuses.  A stream raises only where its calendar has no rate period at all, and
  then a ValueError: charging it does when an installment falls due by its last event, and replaying it
  does when cash arrives before the first charge; a stream with rate periods always replays.\<close>

theorem replay_refuses_without_periods:
  "(replay_loan_events seed stream extra = Inl e \<longleftrightarrow>
      e = ValueError \<and> rt_periods (replay_terms_of stream extra) = [] \<and>
      cash_before_the_next_charge (ordered stream (projection_boundary stream))) \<and>
   (contract_charges calendar through = Inl e \<longleftrightarrow>
      e = ValueError \<and> cal_periods calendar = [] \<and>
      installment_dates (cal_origination_date calendar) (cal_payment_day calendar) through \<noteq> [])"
proof -
  have fst: "map fst (flagged_events stream) = ordered stream (projection_boundary stream)"
    by (simp add: flagged_events_def)
  have err: "replay_events (replay_terms_of stream extra) (flagged_events stream) (walk_from seed) = Inl e \<longleftrightarrow>
      e = ValueError \<and> rt_periods (replay_terms_of stream extra) = [] \<and>
      cash_before_the_next_charge (ordered stream (projection_boundary stream))"
    unfolding replay_events_error fst by (simp add: walk_from_def)
  then show ?thesis
    by (cases "replay_events (replay_terms_of stream extra) (flagged_events stream) (walk_from seed)")
       (auto simp: replay_loan_events_def contract_charges_def charges_on_error)
qed

section \<open>The facts ignore the plan\<close>

lemma sort_key_parts:
  assumes "\<And>x y. x \<in> set zs \<Longrightarrow> y \<in> set zs \<Longrightarrow> P x \<Longrightarrow> \<not> P y \<Longrightarrow> k x < k y"
  shows "sort_key k zs = sort_key k (filter P zs) @ sort_key k (filter (\<lambda>x. \<not> P x) zs)"
proof (rule properties_for_sort_key)
  show "mset (sort_key k (filter P zs) @ sort_key k (filter (\<lambda>x. \<not> P x) zs)) = mset zs"
    by (simp add: multiset_partition[symmetric])
  show "sorted (map k (sort_key k (filter P zs) @ sort_key k (filter (\<lambda>x. \<not> P x) zs)))"
    using assms by (auto simp: sorted_append less_imp_le)
  fix x assume "x \<in> set (sort_key k (filter P zs) @ sort_key k (filter (\<lambda>x. \<not> P x) zs))"
  then have x: "x \<in> set zs" by auto
  have same: "P y = P x" if "y \<in> set zs" "k x = k y" for y
    using assms[OF x that(1)] assms[OF that(1) x] that(2) by auto
  have st: "filter (\<lambda>y. k x = k y) (sort_key k ws) = filter (\<lambda>y. k x = k y) ws" for ws
    using sort_key_stable[of k "k x" ws] by (simp add: eq_commute[of "k x"])
  have "filter (\<lambda>y. k x = k y) (filter P zs) = (if P x then filter (\<lambda>y. k x = k y) zs else [])"
    "filter (\<lambda>y. k x = k y) (filter (\<lambda>y. \<not> P y) zs) = (if P x then [] else filter (\<lambda>y. k x = k y) zs)"
    using same by (auto simp: filter_empty_conv intro!: filter_cong)
  then show "filter (\<lambda>y. k x = k y) (sort_key k (filter P zs) @ sort_key k (filter (\<lambda>x. \<not> P x) zs)) =
      filter (\<lambda>y. k x = k y) zs"
    unfolding filter_append st by simp
qed

text \<open>Two runs that agree on everything but what stands due.\<close>

definition same_but_due :: "walk_state \<Rightarrow> walk_state \<Rightarrow> bool" where
  "same_but_due s t \<longleftrightarrow> s\<lparr>run_due := NOTHING_DUE\<rparr> = t\<lparr>run_due := NOTHING_DUE\<rparr>"

text \<open>Terms that differ in the hypothetical extra alone, and events it does not reach.\<close>

definition without_extra :: "replay_terms \<Rightarrow> replay_terms" where
  "without_extra terms = terms\<lparr>rt_extra := 0\<rparr>"

lemma without_extra_simps [simp]:
  "rt_periods (without_extra terms) = rt_periods terms" "rt_extra (without_extra terms) = 0"
  "rt_boundary (without_extra terms) = rt_boundary terms"
  "rt_first_start (without_extra terms) = rt_first_start terms"
  by (simp_all add: without_extra_def)

definition before_boundary :: "replay_terms \<Rightarrow> loan_event \<Rightarrow> bool" where
  "before_boundary terms e \<longleftrightarrow> (\<exists>b. rt_boundary terms = Some b \<and> event_date e < b)"

lemma accrued_before_boundary:
  "before_boundary terms (Charge c) \<Longrightarrow>
     accrued c b (rt_extra terms) (rt_boundary terms) = accrued c b 0 (rt_boundary terms)"
  by (auto simp: before_boundary_def accrued_def)

lemma only_resets_ignore_due:
  assumes "\<forall>x \<in> set xs. is_reset (fst x)" "map fst xs = map fst ys" "same_but_due s t"
  shows "\<exists>s' t'. replay_events u xs s = Inr s' \<and> replay_events v ys t = Inr t' \<and> same_but_due s' t'"
  using assms
proof (induction xs arbitrary: ys s t)
  case (Cons x xs)
  obtain r f where x: "x = (Reset r, f)" using Cons.prems(1) by (cases x; cases "fst x") auto
  obtain f' ys' where ys: "ys = (Reset r, f') # ys'" "map fst xs = map fst ys'" using Cons.prems(2) x by auto
  have "same_but_due (walk_reset u r f s) (walk_reset v r f' t)"
    using Cons.prems(3) by (cases s; cases t) (simp add: same_but_due_def walk_reset_def)
  from Cons.IH[OF _ ys(2) this] show ?case using Cons.prems(1) by (simp add: x ys)
qed simp

lemma cash_before_append:
  "cash_before_the_next_charge (es @ fs) \<Longrightarrow> \<not> cash_before_the_next_charge es \<Longrightarrow> \<forall>e \<in> set es. is_reset e"
  by (induction es rule: cash_before_the_next_charge.induct) auto

lemma cash_before_prefix:
  "cash_before_the_next_charge es \<Longrightarrow> cash_before_the_next_charge (es @ fs)"
  by (induction es rule: cash_before_the_next_charge.induct) auto

text \<open>The run over the facts with a plan behind them, and the run over the facts alone.\<close>

lemma facts_run_alike:
  assumes "rt_periods terms \<noteq> []" "\<forall>e \<in> set es. before_boundary terms e"
    and "\<forall>c. run_standing st = Some c \<longrightarrow> before_boundary terms (Charge c)"
  shows "\<exists>s t. replay_events terms (take (length es) (flag_from on u (es @ fs))) st = Inr s \<and>
        replay_events (without_extra terms) (flag_from on u es) st = Inr t \<and> same_but_due s t"
  using assms(2,3)
proof (induction es arbitrary: u st)
  case Nil
  then show ?case by (simp add: same_but_due_def)
next
  case (Cons e es)
  have cash: "walk_payment (without_extra terms) p pr st = walk_payment terms p pr st" for p pr
    by (cases "run_standing st") (simp_all add: walk_payment_def)
  have pay: "\<exists>st'. walk_payment terms p pr st = Inr st' \<and> run_standing st' = run_standing st" for p pr
    using replay_step_total[OF assms(1), of "(Payment p, False)" st] replay_step_total[OF assms(1), of "(Projection p, False)" st]
      replay_step_standing[of terms "(Payment p, False)" st] replay_step_standing[of terms "(Projection p, False)" st]
    by (cases pr) fastforce+
  show ?case
  proof (cases e)
    case (Charge c)
    have b: "before_boundary terms (Charge c)" using Cons.prems Charge by simp
    have same: "walk_charge (without_extra terms) c st = walk_charge terms c st"
      using accrued_before_boundary[OF b] by (cases "rt_first_start terms") (simp_all add: walk_charge_def Let_def)
    have "run_standing (walk_charge terms c st) = Some c" by (simp add: walk_charge_def Let_def)
    then show ?thesis using Cons.IH[of "walk_charge terms c st" True] Cons.prems b by (simp add: Charge same)
  next
    case (Payment p)
    obtain st' where "walk_payment terms p False st = Inr st'" "run_standing st' = run_standing st" using pay by blast
    then show ?thesis using Cons.IH[of st' False] Cons.prems by (simp add: Payment cash)
  next
    case (Projection p)
    obtain st' where "walk_payment terms p True st = Inr st'" "run_standing st' = run_standing st" using pay by blast
    then show ?thesis using Cons.IH[of st' False] Cons.prems by (simp add: Projection cash)
  next
    case (Reset r)
    let ?cond = "u \<and> is_tracking_start r \<and> Some (reset_on_date r) = on"
    let ?f = "?cond \<and> cash_before_the_next_charge (es @ fs)" and ?g = "?cond \<and> cash_before_the_next_charge es"
    have flags: "take (length (e # es)) (flag_from on u ((e # es) @ fs)) =
          (Reset r, ?f) # take (length es) (flag_from on u (es @ fs))"
        "flag_from on u (e # es) = (Reset r, ?g) # flag_from on u es" by (simp_all add: Reset)
    have step: "replay_events terms (x # xs) st = replay_events terms xs (walk_reset terms r b st)"
        if "x = (Reset r, b)" for terms x xs b using that by simp
    show ?thesis
    proof (cases "?f = ?g")
      case True
      have "walk_reset (without_extra terms) r ?f st = walk_reset terms r ?f st"
        using accrued_before_boundary Cons.prems(2)
        by (auto simp: walk_reset_def split: option.split)
      then show ?thesis using Cons.IH[of "walk_reset terms r ?f st" u] Cons.prems
        unfolding flags step[OF refl] True by (simp add: walk_reset_def)
    next
      case False
      then have "cash_before_the_next_charge (es @ fs)" "\<not> cash_before_the_next_charge es"
        using cash_before_prefix by blast+
      then have resets: "\<forall>x \<in> set es. is_reset x" by (rule cash_before_append)
      have fst: "map fst (take (length es) (flag_from on u (es @ fs))) = es" by (simp add: take_map[symmetric])
      have "\<forall>x \<in> set (take (length es) (flag_from on u (es @ fs))). is_reset (fst x)"
        using resets arg_cong[OF fst, of set] by auto
      then show ?thesis unfolding flags step[OF refl]
        by (rule only_resets_ignore_due) (simp_all add: fst same_but_due_def walk_reset_def)
    qed
  qed
qed

text \<open>The order of a charged stream: its facts, in the order they have alone, and then the rest.\<close>

lemma latest_Some: "latest ds = Some m \<longleftrightarrow> m \<in> set ds \<and> (\<forall>d \<in> set ds. d \<le> m)"
proof (cases ds)
  case (Cons x xs)
  have "max_by (\<lambda>d. d) x xs \<in> set ds" "\<forall>d \<in> set ds. d \<le> max_by (\<lambda>d. d) x xs"
    using max_by_in[of "\<lambda>d. d" x xs] max_by_ge[where key = "\<lambda>d. d" and b = x and xs = xs] Cons by auto
  then show ?thesis using Cons by (auto simp: latest_def intro: antisym)
qed (simp add: latest_def)

lemma latest_None: "latest ds = None \<longleftrightarrow> ds = []"
  by (simp add: latest_def split: list.split)

lemma charges_on_filter:
  "charges_on cal ds = Inr cs \<Longrightarrow> charges_on cal (filter P ds) = Inr (filter (\<lambda>c. P (charge_on_date c)) cs)"
  by (induction ds arbitrary: cs) (auto elim!: bind_res_InrE)

lemma installment_dates_filter:
  assumes "valid_date a" "valid_date b" "a \<le> b"
  shows "filter (\<lambda>d. d \<le> a) (installment_dates og p b) = installment_dates og p a"
proof (rule sym, rule strict_sorted_equal)
  show "sorted_wrt (<) (filter (\<lambda>d. d \<le> a) (installment_dates og p b))"
    by (rule sorted_wrt_filter[OF installment_dates_sorted])
  show "set (installment_dates og p a) = set (filter (\<lambda>d. d \<le> a) (installment_dates og p b))"
    using assms by (auto simp: set_installment_dates)
qed (rule installment_dates_sorted)

lemma valid_installment:
  "valid_date b \<Longrightarrow> 1 \<le> p \<Longrightarrow> d \<in> set (installment_dates og p b) \<Longrightarrow> valid_date d"
  by (auto simp: set_installment_dates installment_number_def valid_clamped_day)

lemma day_after_iff:
  assumes "valid_date d" "valid_date l"
  shows "d < add_days l 1 \<longleftrightarrow> d \<le> l"
  using assms day_number_less_iff[of d "add_days l 1"] day_number_le_iff[of d l] by simp

definition fact_dates :: "loan_event_stream \<Rightarrow> date list" where
  "fact_dates s = map pay_on_date (stream_payments s) @ map reset_on_date (stream_resets s)"

lemma projection_boundary_latest: "projection_boundary s = map_option (\<lambda>d. add_days d 1) (latest (fact_dates s))"
  by (simp add: projection_boundary_def fact_dates_def)

lemma filter_tagged:
  "filter P (tagged s) =
     map Charge (filter (\<lambda>c. P (Charge c)) (stream_charges s)) @
     map Payment (filter (\<lambda>p. P (Payment p)) (stream_payments s)) @
     map Reset (filter (\<lambda>r. P (Reset r)) (stream_resets s)) @
     map Projection (filter (\<lambda>p. P (Projection p)) (stream_projections s))"
  by (simp add: tagged_def filter_map o_def)

lemma ordered_facts_first:
  assumes charged: "with_contract_charges (facts\<lparr>stream_projections := []\<rparr>) cal = Inr f"
      "with_contract_charges (facts\<lparr>stream_projections := plan\<rparr>) cal = Inr s"
    and valid: "1 \<le> cal_payment_day cal" "\<forall>d \<in> set (fact_dates facts). valid_date d"
      "\<forall>p \<in> set plan. valid_date (pay_on_date p)"
  defines "b \<equiv> projection_boundary facts"
  shows "\<exists>rest. ordered s b = ordered f b @ rest \<and>
    (\<forall>e \<in> set rest. \<not> is_reset e \<and> (\<forall>p. e \<noteq> Payment p)) \<and>
    (\<forall>e \<in> set (ordered f b). \<exists>d. b = Some d \<and> event_date e < d)"
proof -
  have shape: "stream_payments f = stream_payments facts" "stream_payments s = stream_payments facts"
      "stream_resets f = stream_resets facts" "stream_resets s = stream_resets facts"
      "stream_projections f = []" "stream_projections s = plan"
    using charged by (auto simp: with_contract_charges_def Let_def elim!: bind_res_InrE)
  show ?thesis
  proof (cases "latest (fact_dates facts)")
    case None
    then have none: "stream_payments facts = []" "stream_resets facts = []" by (simp_all add: latest_None fact_dates_def)
    then have "stream_charges f = []" using charged(1) by (auto simp: with_contract_charges_def latest_def)
    then have "ordered f b = []" using none shape by (simp add: ordered_def tagged_def)
    moreover have "\<forall>e \<in> set (ordered s b). \<not> is_reset e \<and> (\<forall>p. e \<noteq> Payment p)"
      using none shape by (auto simp: ordered_def tagged_def)
    ultimately show ?thesis by simp
  next
    case (Some l)
    then have l: "l \<in> set (fact_dates facts)" "\<forall>d \<in> set (fact_dates facts). d \<le> l" by (simp_all add: latest_Some)
    have lv: "valid_date l" using l(1) valid(2) by blast
    define m where "m = add_days l 1"
    have b: "b = Some m" by (simp add: b_def projection_boundary_latest Some m_def)
    have lm: "l < m" unfolding m_def using day_after_iff[OF lv lv] by simp
    obtain l2 where l2: "latest (fact_dates facts @ map pay_on_date plan) = Some l2"
      using l(1) latest_None[of "fact_dates facts @ map pay_on_date plan"] by fastforce
    then have l2': "l2 \<in> set (fact_dates facts) \<union> pay_on_date ` set plan" "l \<le> l2"
      using l(1) by (auto simp: latest_Some)
    then have l2v: "valid_date l2" using valid(2,3) by auto
    let ?dates = "installment_dates (cal_origination_date cal) (cal_payment_day cal)"
    obtain cs1 cs2 where cs: "charges_on cal (?dates l) = Inr cs1" "charges_on cal (?dates l2) = Inr cs2"
        "stream_charges f = cs1" "stream_charges s = cs2"
      using charged Some l2
      by (auto simp: with_contract_charges_def fact_dates_def contract_charges_def Let_def elim!: bind_res_InrE)
    have "cs1 = filter (\<lambda>c. charge_on_date c \<le> l) cs2"
      using charges_on_filter[OF cs(2), of "\<lambda>d. d \<le> l"] cs(1) installment_dates_filter[OF lv l2v l2'(2)] by simp
    moreover have "valid_date (charge_on_date c)" if "c \<in> set cs2" for c
      using charges_on_dates[OF cs(2)] that valid_installment[OF l2v valid(1)] by (metis image_eqI set_map)
    ultimately have cs1: "cs1 = filter (\<lambda>c. charge_on_date c < m) cs2"
      using day_after_iff[OF _ lv] by (auto simp: m_def intro!: filter_cong)
    let ?P = "\<lambda>e. walk_date b e < m"
    have dates: "\<forall>p \<in> set (stream_payments facts). pay_on_date p < m" "\<forall>r \<in> set (stream_resets facts). reset_on_date r < m"
      using l(2) lm by (auto simp: fact_dates_def intro: le_less_trans)
    then have part: "filter ?P (tagged s) = tagged f"
      unfolding filter_tagged shape cs by (simp add: b tagged_def shape cs cs1)
    have "walk_key b x < walk_key b y" if "?P x" "\<not> ?P y" for x y
      using that by (auto simp: walk_key_def less_prod_def')
    from sort_key_parts[of "tagged s" ?P "walk_key b", OF this]
    have ord: "ordered s b = ordered f b @ sort_key (walk_key b) (filter (\<lambda>e. \<not> ?P e) (tagged s))"
      unfolding ordered_def part by blast
    have rest: "\<forall>e \<in> set (filter (\<lambda>e. \<not> ?P e) (tagged s)). \<not> is_reset e \<and> (\<forall>p. e \<noteq> Payment p)"
      using dates by (auto simp: filter_tagged shape b)
    have "\<forall>e \<in> set (tagged f). event_date e < m"
      using dates by (auto simp: tagged_def shape cs cs1)
    then show ?thesis using ord rest b by (intro exI[of _ "sort_key (walk_key b) (filter (\<lambda>e. \<not> ?P e) (tagged s))"]) (auto simp: ordered_def)
  qed
qed

lemma plan_adds_projections_only:
  assumes "replay_events terms xs st = Inr st'" "\<forall>x \<in> set xs. \<not> is_reset (fst x) \<and> (\<forall>p. fst x \<noteq> Payment p)"
  shows "run_resets st' = run_resets st \<and>
    filter (\<lambda>ou. \<not> is_projected ou) (run_payments st') = filter (\<lambda>ou. \<not> is_projected ou) (run_payments st)"
  using assms
proof (induction xs arbitrary: st)
  case (Cons x xs)
  obtain st1 where st1: "replay_step terms x st = Inr st1" "replay_events terms xs st1 = Inr st'"
    using Cons.prems(1) by (auto elim: bind_res_InrE)
  have "run_resets st1 = run_resets st \<and>
      filter (\<lambda>ou. \<not> is_projected ou) (run_payments st1) = filter (\<lambda>ou. \<not> is_projected ou) (run_payments st)"
    using st1(1) Cons.prems(2)
    by (cases "(terms, x, st)" rule: replay_step.cases)
       (auto simp: walk_charge_def walk_payment_def Let_def elim!: bind_res_InrE)
  then show ?case using Cons.IH[OF st1(2)] Cons.prems(2) by simp
qed simp

lemma facts_are_settled:
  assumes "replay_events terms xs st = Inr st'" "\<forall>x \<in> set xs. \<forall>p. fst x \<noteq> Projection p"
    and "\<forall>ou \<in> set (run_payments st). \<not> is_projected ou"
  shows "\<forall>ou \<in> set (run_payments st'). \<not> is_projected ou"
  using assms
proof (induction xs arbitrary: st)
  case (Cons x xs)
  obtain st1 where st1: "replay_step terms x st = Inr st1" "replay_events terms xs st1 = Inr st'"
    using Cons.prems(1) by (auto elim: bind_res_InrE)
  have "\<forall>ou \<in> set (run_payments st1). \<not> is_projected ou"
    using st1(1) Cons.prems(2,3)
    by (cases "(terms, x, st)" rule: replay_step.cases)
       (auto simp: walk_charge_def walk_payment_def walk_reset_def Let_def elim!: bind_res_InrE)
  then show ?case using Cons.IH[OF st1(2)] Cons.prems(2) by simp
qed simp

definition recharge_day :: "loan_event list \<Rightarrow> date option \<Rightarrow> date option" where
  "recharge_day es first =
     (if list_ex (\<lambda>e. case e of
           Reset r \<Rightarrow> \<not> is_opening r \<and> \<not> is_tracking_start r \<and> Some (reset_on_date r) = first
         | _ \<Rightarrow> False) es then None else first)"

lemma flag_recharging_starts_from: "flag_recharging_starts es first = flag_from (recharge_day es first) False es"
  by (simp add: flag_recharging_starts_def recharge_day_def Let_def)

lemma recharge_day_append: "\<forall>e \<in> set rest. \<not> is_reset e \<Longrightarrow> recharge_day (es @ rest) first = recharge_day es first"
proof -
  assume "\<forall>e \<in> set rest. \<not> is_reset e"
  then have "\<not> list_ex (\<lambda>e. case e of
       Reset r \<Rightarrow> \<not> is_opening r \<and> \<not> is_tracking_start r \<and> Some (reset_on_date r) = first | _ \<Rightarrow> False) rest"
    by (auto simp: list_ex_iff split: loan_event.splits)
  then show ?thesis by (simp add: recharge_day_def)
qed

lemma timeline_extends_facts:
  assumes "cal_periods cal \<noteq> []" "1 \<le> cal_payment_day cal"
    and "\<forall>d \<in> set (fact_dates facts). valid_date d" "\<forall>p \<in> set plan. valid_date (pay_on_date p)"
    and "with_contract_charges (facts\<lparr>stream_projections := []\<rparr>) cal = Inr recorded"
    and "with_contract_charges (facts\<lparr>stream_projections := plan\<rparr>) cal = Inr timeline"
  shows "\<exists>w0 w. replay_loan_stream recorded 0 = Inr w0 \<and> replay_loan_stream timeline extra = Inr w \<and>
    settled_splits w = payment_splits w0 \<and> anchor_corrections w = anchor_corrections w0"
proof -
  define b where "b = projection_boundary facts"
  define terms where "terms = replay_terms_of timeline extra"
  have shape: "fact_dates recorded = fact_dates facts" "fact_dates timeline = fact_dates facts"
      "stream_resets recorded = stream_resets facts" "stream_resets timeline = stream_resets facts"
      "stream_calendar recorded = Some cal" "stream_calendar timeline = Some cal" "stream_projections recorded = []"
    using assms(5,6) by (auto simp: with_contract_charges_def fact_dates_def Let_def elim!: bind_res_InrE)
  have bs: "projection_boundary recorded = b" "projection_boundary timeline = b"
    by (simp_all add: b_def projection_boundary_latest shape)
  have terms0: "replay_terms_of recorded 0 = without_extra terms"
    by (simp add: terms_def replay_terms_of_def without_extra_def bs shape)
  have ps: "rt_periods terms \<noteq> []" "rt_boundary terms = b"
    using assms(1) by (simp_all add: terms_def replay_terms_of_def shape bs)
  let ?A = "ordered recorded b"
  obtain rest where rest: "ordered timeline b = ?A @ rest" "\<forall>e \<in> set rest. \<not> is_reset e \<and> (\<forall>p. e \<noteq> Payment p)"
      and before: "\<forall>e \<in> set ?A. before_boundary terms e"
    using ordered_facts_first[OF assms(5,6,2,3,4)] unfolding b_def[symmetric] before_boundary_def ps(2) by blast
  define on where "on = recharge_day ?A (first_tracking_start (stream_resets facts))"
  have fl: "flagged_events recorded = flag_from on False ?A" "flagged_events timeline = flag_from on False (?A @ rest)"
    using recharge_day_append[of rest ?A] rest(2)
    by (simp_all add: flagged_events_def flag_recharging_starts_from bs shape rest(1) on_def)
  define zs where "zs = take (length ?A) (flag_from on False (?A @ rest))"
  define ys where "ys = drop (length ?A) (flag_from on False (?A @ rest))"
  have ys: "map fst ys = rest" by (simp add: ys_def drop_map[symmetric])
  obtain s t where run: "replay_events terms zs (walk_from 0) = Inr s"
      "replay_events (without_extra terms) (flag_from on False ?A) (walk_from 0) = Inr t" "same_but_due s t"
    using facts_run_alike[OF ps(1) before, where st = "walk_from 0" and fs = rest and on = on and u = False] by (auto simp: walk_from_def zs_def)
  obtain s' where s': "replay_events terms ys s = Inr s'" using replay_events_total[OF ps(1)] by blast
  have "\<forall>x \<in> set ys. \<not> is_reset (fst x) \<and> (\<forall>p. fst x \<noteq> Payment p)"
    using rest(2) arg_cong[OF ys, of set] by auto
  note tail = plan_adds_projections_only[OF s' this]
  have eq: "run_resets s = run_resets t" "run_payments s = run_payments t"
    using run(3) by (cases s; cases t; simp add: same_but_due_def)+
  have "\<forall>p. x \<noteq> Projection p" if "x \<in> set ?A" for x using that shape(7) by (auto simp: ordered_def tagged_def)
  then have "\<forall>x \<in> set (flag_from on False ?A). \<forall>p. fst x \<noteq> Projection p"
    using arg_cong[OF map_fst_flag_from[of on False ?A], of set] by (metis image_eqI set_map)
  from facts_are_settled[OF run(2) this]
  have settled: "filter (\<lambda>ou. \<not> is_projected ou) (run_payments t) = run_payments t" by (simp add: walk_from_def)
  have "replay_events terms (flag_from on False (?A @ rest)) (walk_from 0) = Inr s'"
    using replay_events_append[of terms zs ys "walk_from 0"] run(1) s' by (simp add: zs_def ys_def)
  then show ?thesis
    using run(2) tail eq settled
    by (simp add: replay_loan_stream_def replay_loan_events_def fl terms0 terms_def[symmetric] settled_splits_def)
qed

text \<open>
  the recorded facts of a loan do not depend on its plan.  Charge a loan's facts from its contract
  and replay them; put any plan behind them, charge the whole and replay it with any extra per period:
  every recorded payment splits the same way, over the same charge and the same period, and every
  assertion displaces the same balance.  So what the ledger posts and what a screen shows for the past
  are one account.\<close>

theorem facts_ignore_the_plan:
  assumes "cal_periods cal \<noteq> []" "1 \<le> cal_payment_day cal"
    and "\<forall>d \<in> set (fact_dates facts). valid_date d" "\<forall>p \<in> set plan. valid_date (pay_on_date p)"
    and "with_contract_charges (facts\<lparr>stream_projections := []\<rparr>) cal = Inr recorded"
    and "with_contract_charges (facts\<lparr>stream_projections := plan\<rparr>) cal = Inr timeline"
  shows "\<exists>w0 w. replay_loan_stream recorded 0 = Inr w0 \<and> replay_loan_stream timeline extra = Inr w \<and>
    settled_splits w = payment_splits w0 \<and> anchor_corrections w = anchor_corrections w0"
  using assms by (rule timeline_extends_facts)

lemma with_contract_charges_total: "cal_periods cal \<noteq> [] \<Longrightarrow> \<exists>s. with_contract_charges stream cal = Inr s"
proof -
  assume "cal_periods cal \<noteq> []"
  then have "\<exists>cs. contract_charges cal d = Inr cs" for d unfolding contract_charges_def by (rule charges_on_total)
  then show ?thesis
    by (cases "latest (map pay_on_date (stream_payments stream) @ map reset_on_date (stream_resets stream) @
          map pay_on_date (stream_projections stream))")
       (simp_all add: with_contract_charges_def Let_def, metis bind_res_simps(2))
qed

definition sample_calendar :: loan_calendar where
  "sample_calendar =
     \<lparr>cal_origination_date = Date 2026 1 10, cal_payment_day = 1,
      cal_periods = [\<lparr>period_index = 0, period_start_date = Date 2026 1 10, period_rate = 12/100, period_pi = 100,
        start_month_index = 0, term_months_at_start = 12\<rparr>],
      cal_escrow_lines = []\<rparr>"

definition sample_opening :: anchor_fact where
  "sample_opening =
     \<lparr>fact_account_id = 1, anchor_date = Date 2026 1 10, anchor_balance = 1000, fact_is_opening = True,
      created_at = ORIGINATION_CREATED_AT, event_id = ORIGINATION_EVENT_ID, fact_is_tracking_start = False\<rparr>"

definition sample_facts :: loan_event_stream where
  "sample_facts =
     \<lparr>stream_charges = [],
      stream_payments = [\<lparr>pay_on_date = Date 2026 2 1, pay_cash = 100, pay_source = Leg 7, pay_visible_on = Date 2026 2 3\<rparr>],
      stream_resets = [\<lparr>reset_on_date = Date 2026 1 10, reset_balance = 1000, reset_source = sample_opening,
         is_opening = True, is_tracking_start = False\<rparr>],
      stream_projections = [], stream_calendar = None\<rparr>"

definition sample_plan :: "loan_cash_event list" where
  "sample_plan =
     [\<lparr>pay_on_date = Date 2026 3 1, pay_cash = 100,
       pay_source = Plan \<lparr>plan_due_date = Date 2026 3 1, plan_effective_date = Date 2026 3 1, plan_cash = 100, is_estimated = False\<rparr>,
       pay_visible_on = Date 2026 3 1\<rparr>]"

lemma facts_ignore_the_plan_witness:
  "\<exists>recorded timeline w0 w.
     with_contract_charges (sample_facts\<lparr>stream_projections := []\<rparr>) sample_calendar = Inr recorded \<and>
     with_contract_charges (sample_facts\<lparr>stream_projections := sample_plan\<rparr>) sample_calendar = Inr timeline \<and>
     replay_loan_stream recorded 0 = Inr w0 \<and> replay_loan_stream timeline 50 = Inr w \<and>
     settled_splits w = payment_splits w0 \<and> anchor_corrections w = anchor_corrections w0"
proof -
  have ps: "cal_periods sample_calendar \<noteq> []" by (simp add: sample_calendar_def)
  obtain recorded timeline where
    "with_contract_charges (sample_facts\<lparr>stream_projections := []\<rparr>) sample_calendar = Inr recorded"
    "with_contract_charges (sample_facts\<lparr>stream_projections := sample_plan\<rparr>) sample_calendar = Inr timeline"
    using with_contract_charges_total[OF ps] by meson
  then show ?thesis
    using facts_ignore_the_plan[of sample_calendar sample_facts sample_plan recorded timeline 50]
    by (auto simp: sample_calendar_def sample_facts_def sample_plan_def fact_dates_def valid_date_def days_in_month_def)
qed

section \<open>What a payment clears\<close>

text \<open>
  What stands against the loan after a run of charges on one balance, with no cash and no assertion
  between: the interest and the escrow of each.\<close>

lemma replay_charges:
  assumes "0 < run_balance st" "run_due st = NOTHING_DUE"
    and "\<forall>c \<in> set cs. \<forall>first. rt_first_start terms = Some first \<longrightarrow> first < charge_on_date c"
  shows "replay_events terms (map (\<lambda>c. (Charge c, False)) cs) st =
    Inr (st\<lparr>run_standing := (if cs = [] then run_standing st else Some (last cs)),
           run_due := foldl due_plus NOTHING_DUE
             (map (\<lambda>c. accrued c (run_balance st) (rt_extra terms) (rt_boundary terms)) cs)\<rparr>)"
  using assms(3)
proof (induction cs rule: rev_induct)
  case (snoc c cs)
  then show ?case using assms(2)
    by (auto simp: replay_events_append walk_charge_def Let_def split: option.split)
qed (use assms(2) in simp)

section \<open>The books of a replay\<close>

text \<open>
  The figures a loan carries: rates of at most 36%, a monthly escrow of at most a million, money of the
  column, and at most fifty years of charges.\<close>

definition ordinary_charge :: "accrual_charge \<Rightarrow> bool" where
  "ordinary_charge c =
     (0 \<le> period_rate (charge_period c) \<and> period_rate (charge_period c) \<le> 36/100 \<and>
      is_cents (charge_escrow c) \<and> 0 \<le> charge_escrow c \<and> charge_escrow c \<le> 10 ^ 6)"

definition plain_money :: "dec \<Rightarrow> bool" where
  "plain_money x = (in_column x \<and> 0 \<le> x)"

fun ordinary_event :: "loan_event \<Rightarrow> bool" where
  "ordinary_event (Charge c) = ordinary_charge c"
| "ordinary_event (Payment p) = plain_money (pay_cash p)"
| "ordinary_event (Projection p) = plain_money (pay_cash p)"
| "ordinary_event (Reset r) = plain_money (reset_balance r)"

definition ordinary_stream :: "loan_event_stream \<Rightarrow> bool" where
  "ordinary_stream s =
     (list_all ordinary_event (tagged s) \<and> length (stream_charges s) \<le> 600)"

text \<open>What an outcome books, and the balance the outcomes so far leave.\<close>

definition booked :: "dec \<Rightarrow> payment_outcome \<Rightarrow> bool" where
  "booked extra ou =
     (let s = outcome_split ou; joined = interest s + escrow s + principal s + excess s - pay_cash (outcome_event ou) in
      0 \<le> joined \<and> (extra = 0 \<longrightarrow> joined = 0) \<and>
      0 \<le> interest s \<and> 0 \<le> escrow s \<and> 0 \<le> excess s \<and> 0 \<le> balance_after s \<and>
      amount (principal s) \<and> (0 < excess s \<longrightarrow> balance_after s = 0))"

definition booked_balance :: "walk_state \<Rightarrow> dec" where
  "booked_balance st =
     sum_list (map (\<lambda>ou. reset_balance (reset_event ou) - balance_before ou) (run_resets st)) -
     sum_list (map (\<lambda>ou. principal (outcome_split ou)) (run_payments st))"

definition sound :: "dec \<Rightarrow> nat \<Rightarrow> walk_state \<Rightarrow> bool" where
  "sound extra k st =
     (let b = run_balance st; i = due_interest (run_due st); e = due_escrow (run_due st); x = due_extra (run_due st) in
      is_cents b \<and> is_cents i \<and> is_cents e \<and> is_cents x \<and> 0 \<le> b \<and> 0 \<le> i \<and> 0 \<le> e \<and> 0 \<le> x \<and>
      b + i + e \<le> growth k \<and> x \<le> of_nat k * 10 ^ 10 \<and> (extra = 0 \<longrightarrow> x = 0) \<and>
      (\<forall>c. run_standing st = Some c \<longrightarrow> ordinary_charge c \<and> 1 \<le> k) \<and>
      (\<forall>ou \<in> set (run_payments st). booked extra ou) \<and>
      (\<forall>ou \<in> set (run_resets st). amount (balance_before ou) \<and> 0 \<le> balance_before ou \<and> plain_money (reset_balance (reset_event ou))))"

lemma accrued_bounds:
  fixes d :: "date option"
  assumes "ordinary_charge c" "0 \<le> b" "plain_money x"
  defines "a \<equiv> accrued c b x d"
  shows "is_cents (due_interest a)" "is_cents (due_escrow a)" "is_cents (due_extra a)"
    "0 \<le> due_interest a" "0 \<le> due_escrow a" "0 \<le> due_extra a" "due_extra a \<le> 10 ^ 10" "x = 0 \<Longrightarrow> due_extra a = 0"
    "due_interest a + due_escrow a \<le> b * (305/10000) + 10 ^ 6 + 1/200"
  using assms accrual_growth[of b "period_rate (charge_period c)"] accrue_nonneg[of b]
  by (auto simp: accrued_def NOTHING_DUE_def ordinary_charge_def plain_money_def in_column_def MONEY_COLUMN_MAX_def
      split: option.split)

lemma sound_charge:
  assumes "sound (rt_extra terms) k st" "ordinary_charge c" "plain_money (rt_extra terms)" "k < 600"
  shows "sound (rt_extra terms) (Suc k) (walk_charge terms c st)"
proof -
  define d where "d = (case rt_first_start terms of
       Some first \<Rightarrow> if charge_on_date c \<le> first then NOTHING_DUE else run_due st | None \<Rightarrow> run_due st)"
  define a where "a = accrued c (run_balance st) (rt_extra terms) (rt_boundary terms)"
  define b where "b = run_balance st"
  have st: "is_cents b" "0 \<le> b" "is_cents (due_interest d)" "is_cents (due_escrow d)" "is_cents (due_extra d)"
      "0 \<le> due_interest d" "0 \<le> due_escrow d" "0 \<le> due_extra d"
      "b + due_interest d + due_escrow d \<le> growth k" "due_extra d \<le> of_nat k * 10 ^ 10"
      "rt_extra terms = 0 \<Longrightarrow> due_extra d = 0"
    using assms(1) by (auto simp: sound_def Let_def b_def d_def NOTHING_DUE_def split: option.splits if_splits)
  note ab = accrued_bounds[OF assms(2) st(2) assms(3), of "rt_boundary terms", folded a_def[folded b_def]]
  have g: "10 ^ 10 \<le> growth k" "growth (Suc k) = growth k * 1031/1000" "growth (Suc k) \<le> 10 ^ 19"
    using growth_ge growth_Suc growth_600[of "Suc k"] assms(4) by simp_all
  have kk: "of_nat k * 10 ^ 10 \<le> (600 * 10 ^ 10 :: rat)" using assms(4) by simp
  have "b * (305/10000) + 10 ^ 6 + 1/200 \<le> growth k * (31/1000)" using g st by simp
  then have tot: "b + (due_interest d + due_interest a) + (due_escrow d + due_escrow a) \<le> growth (Suc k)"
    using st(9) ab(9) g(2) by simp
  have "amount (due_interest d)" "amount (due_escrow d)" "amount (due_extra d)" "amount (due_interest a)"
      "amount (due_escrow a)" "amount (due_extra a)"
    using st ab tot g kk by (auto intro!: amount_nonneg)
  then have plus: "due_plus d a = \<lparr>due_interest = due_interest d + due_interest a, due_escrow = due_escrow d + due_escrow a,
      due_extra = due_extra d + due_extra a\<rparr>" by (simp add: due_plus_def exact)
  have "walk_charge terms c st = st\<lparr>run_standing := Some c, run_due := due_plus d a\<rparr>"
    by (simp add: walk_charge_def d_def a_def Let_def)
  then show ?thesis using assms(1,2) st ab tot
    by (auto simp: sound_def Let_def plus is_cents_add b_def algebra_simps)
qed

lemma split_parts:
  assumes "amount cash" "0 \<le> cash" "amount b" "0 \<le> b" "amount i" "0 \<le> i" "amount e" "0 \<le> e"
    and "b + i + e \<le> 10 ^ 19"
  defines "s \<equiv> apply_payment_cash cash b i e"
  shows "interest s + escrow s + principal s + excess s = cash \<and> balance_after s = b - principal s \<and>
    is_cents (balance_after s) \<and> 0 \<le> balance_after s \<and> balance_after s \<le> b + i + e \<and>
    0 \<le> interest s \<and> 0 \<le> escrow s \<and> 0 \<le> excess s \<and> (0 < excess s \<longrightarrow> balance_after s = 0 \<or> b = 0) \<and>
    amount (principal s)"
proof (cases "b = 0")
  case True
  then show ?thesis using assms by (simp add: s_def apply_payment_cash_closed)
next
  case False
  then have s: "s = \<lparr>interest = i, escrow = e, principal = min (cash - i - e) b, excess = max (cash - i - e - b) 0,
      balance_after = b - min (cash - i - e) b\<rparr>"
    unfolding s_def using assms by (intro apply_payment_cash_open) simp_all
  have "amount (min (cash - i - e) b)"
    unfolding amount_def using assms(1-9) by (auto simp: is_cents_diff is_cents_min min_def abs_le_iff)
  then show ?thesis using assms(1-9) by (auto simp: s min_def max_def is_cents_diff split: if_splits)
qed

lemma sound_payment:
  assumes "sound (rt_extra terms) k st" "plain_money (pay_cash p)" "k \<le> 600"
    and "walk_payment terms p pr st = Inr st'"
  shows "sound (rt_extra terms) k st' \<and> run_balance st' - booked_balance st' = run_balance st - booked_balance st"
proof -
  define b d where "b = run_balance st" and "d = run_due st"
  have st: "is_cents b" "0 \<le> b" "is_cents (due_interest d)" "is_cents (due_escrow d)" "is_cents (due_extra d)"
      "0 \<le> due_interest d" "0 \<le> due_escrow d" "0 \<le> due_extra d"
      "b + due_interest d + due_escrow d \<le> growth k" "due_extra d \<le> of_nat k * 10 ^ 10"
      "rt_extra terms = 0 \<Longrightarrow> due_extra d = 0"
    using assms(1) by (auto simp: sound_def Let_def b_def d_def)
  have g: "growth k \<le> 10 ^ 19" "of_nat k * 10 ^ 10 \<le> (600 * 10 ^ 10 :: rat)"
    using growth_600[OF assms(3)] assms(3) by simp_all
  have c: "amount (pay_cash p)" "0 \<le> pay_cash p" "pay_cash p \<le> 10 ^ 10"
    using assms(2) by (auto simp: plain_money_def in_column_amount in_column_def MONEY_COLUMN_MAX_def)
  have am: "amount b" "amount (due_interest d)" "amount (due_escrow d)" "amount (due_extra d)"
    using st g by (auto intro!: amount_nonneg)
  define cash where "cash = pay_cash p + due_extra d"
  have cash: "dadd (pay_cash p) (due_extra d) = cash" using c am by (simp add: exact cash_def)
  have ca: "amount cash" "0 \<le> cash" using c st g unfolding cash_def by (auto intro!: amount_nonneg is_cents_add)
  define s where "s = apply_payment_cash cash b (due_interest d) (due_escrow d)"
  have parts: "interest s + escrow s + principal s + excess s = cash" "balance_after s = b - principal s"
      "is_cents (balance_after s)" "0 \<le> balance_after s" "balance_after s \<le> b + due_interest d + due_escrow d"
      "0 \<le> interest s" "0 \<le> escrow s" "0 \<le> excess s" "0 < excess s \<longrightarrow> balance_after s = 0 \<or> b = 0" "amount (principal s)"
    using split_parts[OF ca am(1) st(2) am(2) st(6) am(3) st(7)] st(9) g(1) unfolding s_def by auto
  obtain period where st': "st' = st\<lparr>run_balance := balance_after s, run_due := NOTHING_DUE,
      run_payments := run_payments st @ [\<lparr>outcome_event = p, outcome_charge = run_standing st, outcome_split = s,
        outcome_period = period, is_projected = pr\<rparr>]\<rparr>"
    using assms(4) by (auto simp: walk_payment_def Let_def cash[unfolded d_def] s_def b_def d_def elim!: bind_res_InrE)
  have "booked (rt_extra terms) \<lparr>outcome_event = p, outcome_charge = run_standing st, outcome_split = s,
        outcome_period = period, is_projected = pr\<rparr>"
    using parts st c by (auto simp: booked_def Let_def cash_def s_def apply_payment_cash_closed)
  moreover have "balance_after s \<le> growth k" using parts(5) st(9) by linarith
  ultimately have "sound (rt_extra terms) k st'"
    using assms(1) parts by (auto simp: sound_def Let_def st' NOTHING_DUE_def)
  moreover have "run_balance st' - booked_balance st' = run_balance st - booked_balance st"
    using parts(2) by (simp add: st' booked_balance_def b_def)
  ultimately show ?thesis by blast
qed

lemma sound_reset:
  assumes "sound (rt_extra terms) k st" "plain_money (reset_balance r)" "plain_money (rt_extra terms)" "k \<le> 600"
  shows "sound (rt_extra terms) k (walk_reset terms r f st) \<and>
    run_balance (walk_reset terms r f st) - booked_balance (walk_reset terms r f st) = run_balance st - booked_balance st"
proof -
  define a where "a = (case run_standing st of
       Some c \<Rightarrow> if f then accrued c (reset_balance r) (rt_extra terms) (rt_boundary terms) else NOTHING_DUE
     | None \<Rightarrow> NOTHING_DUE)"
  have w: "walk_reset terms r f st = st\<lparr>run_resets := run_resets st @ [\<lparr>reset_event = r, balance_before = run_balance st\<rparr>],
      run_balance := reset_balance r, run_due := a\<rparr>" by (simp add: walk_reset_def a_def)
  have r: "is_cents (reset_balance r)" "0 \<le> reset_balance r" "reset_balance r \<le> 10 ^ 10"
    using assms(2) by (auto simp: plain_money_def in_column_def MONEY_COLUMN_MAX_def)
  have b: "amount (run_balance st)"
    using assms(1) growth_600[OF assms(4)] by (auto simp: sound_def Let_def intro!: amount_nonneg)
  have "a = NOTHING_DUE \<or> (\<exists>c. ordinary_charge c \<and> 1 \<le> k \<and> a = accrued c (reset_balance r) (rt_extra terms) (rt_boundary terms))"
    using assms(1) by (auto simp: a_def sound_def Let_def split: option.split)
  then have a: "is_cents (due_interest a) \<and> is_cents (due_escrow a) \<and> is_cents (due_extra a) \<and>
      0 \<le> due_interest a \<and> 0 \<le> due_escrow a \<and> 0 \<le> due_extra a \<and> due_extra a \<le> of_nat k * 10 ^ 10 \<and>
      (rt_extra terms = 0 \<longrightarrow> due_extra a = 0) \<and> reset_balance r + due_interest a + due_escrow a \<le> growth k"
  proof (elim disjE exE conjE)
    assume "a = NOTHING_DUE"
    then show ?thesis using r growth_ge[of k] by (simp add: NOTHING_DUE_def)
  next
    fix c assume c: "ordinary_charge c" "1 \<le> k" "a = accrued c (reset_balance r) (rt_extra terms) (rt_boundary terms)"
    note ab = accrued_bounds[OF c(1) r(2) assms(3), of "rt_boundary terms", folded c(3)]
    have "growth 1 \<le> growth k" by (rule growth_mono[OF c(2)])
    then have "reset_balance r + due_interest a + due_escrow a \<le> growth k" using ab(9) r(2,3) by (simp add: growth_def)
    moreover have "10 ^ 10 \<le> of_nat k * (10 ^ 10 :: rat)" using c(2) by simp
    ultimately show ?thesis using ab by linarith
  qed
  show ?thesis
    using assms(1,2) a r b by (auto simp: sound_def Let_def w booked_balance_def)
qed

definition cash_events :: "loan_event list \<Rightarrow> (loan_cash_event \<times> bool) list" where
  "cash_events es = concat (map (\<lambda>e. case e of
     Payment p \<Rightarrow> [(p, False)] | Projection p \<Rightarrow> [(p, True)] | _ \<Rightarrow> []) es)"

definition reset_events :: "loan_event list \<Rightarrow> loan_reset_event list" where
  "reset_events es = concat (map (\<lambda>e. case e of Reset r \<Rightarrow> [r] | _ \<Rightarrow> []) es)"

definition charge_count :: "loan_event list \<Rightarrow> nat" where
  "charge_count es = length (filter (\<lambda>e. case e of Charge c \<Rightarrow> True | _ \<Rightarrow> False) es)"

text \<open>
  The books of a loan, read off its outcomes alone: the balance is carried through the events in their
  order, a payment's outcome must leave what stood less the principal it paid, and an assertion's must
  have displaced what stood; \<open>None\<close> where an outcome does not fit.\<close>

fun ledger :: "dec \<Rightarrow> loan_event list \<Rightarrow> payment_outcome list \<Rightarrow> reset_outcome list \<Rightarrow> dec option" where
  "ledger b [] [] [] = Some b"
| "ledger b (Charge c # es) ps rs = ledger b es ps rs"
| "ledger b (Payment p # es) (ou # ps) rs =
     (if outcome_event ou = p \<and> \<not> is_projected ou \<and> balance_after (outcome_split ou) = b - principal (outcome_split ou)
      then ledger (balance_after (outcome_split ou)) es ps rs else None)"
| "ledger b (Projection p # es) (ou # ps) rs =
     (if outcome_event ou = p \<and> is_projected ou \<and> balance_after (outcome_split ou) = b - principal (outcome_split ou)
      then ledger (balance_after (outcome_split ou)) es ps rs else None)"
| "ledger b (Reset r # es) ps (ro # rs) =
     (if reset_event ro = r \<and> balance_before ro = b then ledger (reset_balance r) es ps rs else None)"
| "ledger b _ _ _ = None"

lemma replay_outcomes:
  assumes "replay_events terms xs st = Inr st'"
  shows "map (\<lambda>ou. (outcome_event ou, is_projected ou)) (run_payments st') =
      map (\<lambda>ou. (outcome_event ou, is_projected ou)) (run_payments st) @ cash_events (map fst xs) \<and>
    map reset_event (run_resets st') = map reset_event (run_resets st) @ reset_events (map fst xs)"
  using assms
proof (induction xs arbitrary: st)
  case (Cons x xs)
  obtain st1 where st1: "replay_step terms x st = Inr st1" "replay_events terms xs st1 = Inr st'"
    using Cons.prems by (auto elim: bind_res_InrE)
  show ?case using Cons.IH[OF st1(2)] st1(1)
    by (cases "(terms, x, st)" rule: replay_step.cases)
       (auto simp: walk_charge_def walk_payment_def walk_reset_def Let_def cash_events_def reset_events_def elim!: bind_res_InrE)
qed (simp add: cash_events_def reset_events_def)

lemma sound_step:
  assumes "replay_step terms x st = Inr st1" "ordinary_event (fst x)" "sound (rt_extra terms) k st"
    and "k + charge_count [fst x] \<le> 600" "plain_money (rt_extra terms)"
  shows "sound (rt_extra terms) (k + charge_count [fst x]) st1 \<and>
    run_balance st1 - booked_balance st1 = run_balance st - booked_balance st"
proof (cases "fst x")
  case (Charge c)
  have "sound (rt_extra terms) (Suc k) (walk_charge terms c st)"
    using assms Charge by (intro sound_charge) (auto simp: charge_count_def)
  moreover have "st1 = walk_charge terms c st" using assms(1) Charge by (cases x) simp
  ultimately show ?thesis by (simp add: charge_count_def Charge booked_balance_def walk_charge_def Let_def)
next
  case (Payment p)
  then show ?thesis using assms sound_payment[of terms k st p False st1]
    by (cases x) (auto simp: charge_count_def)
next
  case (Projection p)
  then show ?thesis using assms sound_payment[of terms k st p True st1]
    by (cases x) (auto simp: charge_count_def)
next
  case (Reset r)
  then show ?thesis using assms sound_reset[of terms k st r "snd x"]
    by (cases x) (auto simp: charge_count_def)
qed

lemma sound_run:
  assumes "replay_events terms xs st = Inr st'" "\<forall>x \<in> set xs. ordinary_event (fst x)"
    and "sound (rt_extra terms) k st" "k + charge_count (map fst xs) \<le> 600" "plain_money (rt_extra terms)"
  shows "sound (rt_extra terms) (k + charge_count (map fst xs)) st' \<and>
    run_balance st' - booked_balance st' = run_balance st - booked_balance st \<and>
    (\<exists>ps rs. run_payments st' = run_payments st @ ps \<and> run_resets st' = run_resets st @ rs \<and>
       ledger (run_balance st) (map fst xs) ps rs = Some (run_balance st'))"
  using assms(1-4)
proof (induction xs arbitrary: st k)
  case (Cons x xs)
  obtain st1 where st1: "replay_step terms x st = Inr st1" "replay_events terms xs st1 = Inr st'"
    using Cons.prems(1) by (auto elim: bind_res_InrE)
  define k1 where "k1 = k + charge_count [fst x]"
  have count: "k + charge_count (map fst (x # xs)) = k1 + charge_count (map fst xs)"
    by (simp add: k1_def charge_count_def)
  have step: "sound (rt_extra terms) k1 st1 \<and> run_balance st1 - booked_balance st1 = run_balance st - booked_balance st"
    unfolding k1_def using sound_step[OF st1(1) _ Cons.prems(3) _ assms(5)] Cons.prems(2,4) count by (simp add: k1_def)
  obtain ps rs where rest: "sound (rt_extra terms) (k1 + charge_count (map fst xs)) st'"
    "run_balance st' - booked_balance st' = run_balance st1 - booked_balance st1"
    "run_payments st' = run_payments st1 @ ps" "run_resets st' = run_resets st1 @ rs"
    "ledger (run_balance st1) (map fst xs) ps rs = Some (run_balance st')"
    using Cons.IH[OF st1(2), of k1] Cons.prems(2,4) step count by auto
  have "\<exists>ps' rs'. run_payments st' = run_payments st @ ps' \<and> run_resets st' = run_resets st @ rs' \<and>
      ledger (run_balance st) (map fst (x # xs)) ps' rs' = Some (run_balance st')"
  proof (cases "fst x")
    case (Charge c)
    then have "st1 = walk_charge terms c st" using st1(1) by (cases x) simp
    then show ?thesis using rest(3-5) Charge by (simp add: walk_charge_def Let_def)
  next
    case (Payment p)
    then obtain ou where "run_payments st1 = run_payments st @ [ou]" "run_resets st1 = run_resets st" "outcome_event ou = p"
      "\<not> is_projected ou" "balance_after (outcome_split ou) = run_balance st1"
      using st1(1) by (cases x) (auto simp: walk_payment_def Let_def elim!: bind_res_InrE)
    then show ?thesis using rest(3-5) Payment step by (intro exI[of _ "ou # ps"]) (simp add: booked_balance_def)
  next
    case (Projection p)
    then obtain ou where "run_payments st1 = run_payments st @ [ou]" "run_resets st1 = run_resets st" "outcome_event ou = p"
      "is_projected ou" "balance_after (outcome_split ou) = run_balance st1"
      using st1(1) by (cases x) (auto simp: walk_payment_def Let_def elim!: bind_res_InrE)
    then show ?thesis using rest(3-5) Projection step by (intro exI[of _ "ou # ps"]) (simp add: booked_balance_def)
  next
    case (Reset r)
    then have "st1 = walk_reset terms r (snd x) st" using st1(1) by (cases x) simp
    then show ?thesis using rest(3-5) Reset
      by (intro exI[of _ ps] exI[of _ "\<lparr>reset_event = r, balance_before = run_balance st\<rparr> # rs"]) (simp add: walk_reset_def)
  qed
  then show ?case using rest(1,2) step count by simp
qed (simp add: charge_count_def)

lemma walk_from_sound: "sound extra 0 (walk_from 0) \<and> booked_balance (walk_from 0) = 0"
  using growth_ge[of 0] by (simp add: sound_def walk_from_def NOTHING_DUE_def booked_balance_def)

text \<open>The events of a replay are a permutation of the stream's.\<close>

lemma set_ordered [simp]: "set (ordered s b) = set (tagged s)"
  by (simp add: ordered_def)

lemma charge_count_ordered: "charge_count (ordered s b) = length (stream_charges s)"
proof -
  let ?P = "\<lambda>e. case e of Charge c \<Rightarrow> True | _ \<Rightarrow> False"
  have len: "length (filter ?P xs) = size (filter_mset ?P (mset xs))" for xs by (metis mset_filter size_mset)
  have "length (filter ?P (ordered s b)) = length (filter ?P (tagged s))" unfolding len by (simp add: ordered_def)
  then show ?thesis by (simp add: charge_count_def tagged_def filter_map o_def)
qed

lemma replay_sound:
  assumes "ordinary_stream s" "plain_money extra"
    and "replay_events (replay_terms_of s extra) (flagged_events s) (walk_from 0) = Inr st"
  shows "sound extra (length (stream_charges s)) st" "run_balance st = booked_balance st"
    "ledger 0 (ordered s (projection_boundary s)) (run_payments st) (run_resets st) = Some (run_balance st)"
proof -
  have fst: "map fst (flagged_events s) = ordered s (projection_boundary s)" by (simp add: flagged_events_def)
  have "\<forall>x \<in> set (flagged_events s). ordinary_event (fst x)"
    using assms(1) arg_cong[OF fst, of set] by (auto simp: ordinary_stream_def list_all_iff)
  then show "sound extra (length (stream_charges s)) st" "run_balance st = booked_balance st"
    "ledger 0 (ordered s (projection_boundary s)) (run_payments st) (run_resets st) = Some (run_balance st)"
    using sound_run[OF assms(3), of 0] assms(1,2) walk_from_sound[of extra]
    by (simp_all add: fst charge_count_ordered ordinary_stream_def replay_terms_of_def walk_from_def)
qed

text \<open>
  C1: the replay keeps the books of a loan.  Over a stream of ordinary figures it answers every payment
  and every assertion exactly once, in walk order; the parts of a payment's split add up to its cash and
  to whatever hypothetical extra joined it (none, where there is none); interest, escrow and refund are
  never negative, a refund arises only once the loan is closed, and no balance is ever negative.  Carried
  through the events, from nothing, the balance each payment leaves is the one that stood less the
  principal it paid, and the balance an assertion displaces is the one that stood; so the balance at the
  end is what the assertions displaced less the principal paid.\<close>

theorem replay_keeps_books:
  assumes "ordinary_stream s" "plain_money extra" "replay_loan_events 0 s extra = Inr r"
  defines "es \<equiv> ordered s (projection_boundary s)"
  shows "map (\<lambda>ou. (outcome_event ou, is_projected ou)) (replay_payments r) = cash_events es \<and>
    map reset_event (replay_resets r) = reset_events es \<and>
    (\<forall>ou \<in> set (replay_payments r). booked extra ou) \<and>
    (\<forall>ou \<in> set (replay_resets r). 0 \<le> balance_before ou) \<and>
    (\<exists>final. ledger 0 es (replay_payments r) (replay_resets r) = Some final \<and> 0 \<le> final \<and>
       final = sum_list (map (\<lambda>ou. reset_balance (reset_event ou) - balance_before ou) (replay_resets r)) -
         sum_list (map (\<lambda>ou. principal (outcome_split ou)) (replay_payments r)))"
proof -
  obtain st where st: "replay_events (replay_terms_of s extra) (flagged_events s) (walk_from 0) = Inr st"
      "r = \<lparr>replay_payments = run_payments st, replay_resets = run_resets st\<rparr>"
    using assms(3) by (auto simp: replay_loan_events_def elim!: bind_res_InrE)
  have fst: "map fst (flagged_events s) = es" by (simp add: flagged_events_def es_def)
  note sd = replay_sound[OF assms(1,2) st(1), folded es_def]
  show ?thesis
    using replay_outcomes[OF st(1)] sd
    unfolding fst by (auto simp: st(2) walk_from_def sound_def Let_def booked_balance_def)
qed

definition sample_stream :: loan_event_stream where
  "sample_stream = sample_facts\<lparr>stream_charges :=
       [\<lparr>charge_on_date = Date 2026 2 1, charge_period = hd (cal_periods sample_calendar), charge_escrow = 25\<rparr>],
     stream_calendar := Some sample_calendar\<rparr>"

lemma sample_stream_ordinary: "ordinary_stream sample_stream"
  by (simp add: ordinary_stream_def sample_stream_def sample_facts_def sample_calendar_def tagged_def
      ordinary_charge_def plain_money_def in_column_def MONEY_COLUMN_MAX_def)

lemma replay_total: "rt_periods (replay_terms_of s x) \<noteq> [] \<Longrightarrow> \<exists>r. replay_loan_events b s x = Inr r"
  using replay_events_total[of "replay_terms_of s x" "flagged_events s" "walk_from b"]
  by (auto simp: replay_loan_events_def)

lemma replay_keeps_books_witness:
  "\<exists>r final. replay_loan_events 0 sample_stream 0 = Inr r \<and>
     map reset_event (replay_resets r) =
       reset_events (ordered sample_stream (projection_boundary sample_stream)) \<and>
     ledger 0 (ordered sample_stream (projection_boundary sample_stream)) (replay_payments r) (replay_resets r) = Some final \<and>
     0 \<le> final"
proof -
  have "rt_periods (replay_terms_of sample_stream 0) \<noteq> []"
    by (simp add: replay_terms_of_def sample_stream_def sample_calendar_def)
  then obtain r where r: "replay_loan_events 0 sample_stream 0 = Inr r" using replay_total by blast
  have "plain_money 0" by (simp add: plain_money_def in_column_def MONEY_COLUMN_MAX_def)
  from replay_keeps_books[OF sample_stream_ordinary this r] r show ?thesis by blast
qed

text \<open>What stands after a run of charges on one balance, the sums exact.\<close>

lemma charges_stand:
  assumes "0 < b" "b \<le> 10 ^ 10" "list_all ordinary_charge cs" "length cs \<le> 600"
  defines "i \<equiv> sum_list (map (\<lambda>c. accrue_monthly_interest b (period_rate (charge_period c))) cs)"
    and "e \<equiv> sum_list (map charge_escrow cs)" and "n \<equiv> of_nat (length cs) * 10 ^ 10"
  shows "foldl due_plus NOTHING_DUE (map (\<lambda>c. accrued c b 0 d) cs) =
      \<lparr>due_interest = i, due_escrow = e, due_extra = 0\<rparr> \<and>
    is_cents i \<and> 0 \<le> i \<and> i \<le> n \<and> is_cents e \<and> 0 \<le> e \<and> e \<le> n"
  using assms(3,4) unfolding i_def e_def n_def
proof (induction cs rule: rev_induct)
  case (snoc c cs)
  let ?i = "accrue_monthly_interest b (period_rate (charge_period c))"
  let ?I = "sum_list (map (\<lambda>c. accrue_monthly_interest b (period_rate (charge_period c))) cs)"
    and ?E = "sum_list (map charge_escrow cs)"
  have c: "is_cents ?i" "0 \<le> ?i" "?i \<le> 10 ^ 10" "is_cents (charge_escrow c)" "0 \<le> charge_escrow c" "charge_escrow c \<le> 10 ^ 10"
    using snoc.prems assms(1,2) accrual_growth[of b "period_rate (charge_period c)"] accrue_nonneg[of b]
    by (auto simp: ordinary_charge_def)
  have acc: "accrued c b 0 d = \<lparr>due_interest = ?i, due_escrow = charge_escrow c, due_extra = 0\<rparr>"
    using assms(1) by (simp add: accrued_def split: option.split)
  have n: "of_nat (length cs) * 10 ^ 10 \<le> (600 * 10 ^ 10 :: rat)" using snoc.prems(2) by simp
  have ih: "foldl due_plus NOTHING_DUE (map (\<lambda>c. accrued c b 0 d) cs) =
        \<lparr>due_interest = ?I, due_escrow = ?E, due_extra = 0\<rparr>"
      "is_cents ?I" "0 \<le> ?I" "?I \<le> of_nat (length cs) * 10 ^ 10"
      "is_cents ?E" "0 \<le> ?E" "?E \<le> of_nat (length cs) * 10 ^ 10"
    using snoc.IH snoc.prems by simp_all
  then have "amount ?i" "amount (charge_escrow c)" "amount ?I" "amount ?E"
    using c n by (auto intro!: amount_nonneg)
  then have "due_plus \<lparr>due_interest = ?I, due_escrow = ?E, due_extra = 0\<rparr>
      \<lparr>due_interest = ?i, due_escrow = charge_escrow c, due_extra = 0\<rparr> =
      \<lparr>due_interest = ?I + ?i, due_escrow = ?E + charge_escrow c, due_extra = 0\<rparr>" by (simp add: due_plus_def exact)
  then show ?case using ih c by (simp add: acc is_cents_add distrib_right)
qed (simp add: NOTHING_DUE_def)

text \<open>
  C15: what a payment clears.  Let a loan owe a balance with nothing standing against it, which is how
  every payment, and every assertion that does not charge again, leaves it.  A payment that follows a
  run of charges (none of them held by a tracking start) clears the interest each of them accrued on
  that balance and the escrow of each, and the rest of its cash is principal up to the balance; so a
  second payment inside one interval, with no charge between, clears nothing and pays pure principal,
  and a payment behind skipped months pays their arrears first.\<close>

theorem payment_clears_what_accrued:
  assumes "0 < run_balance st" "run_due st = NOTHING_DUE" "plain_money (run_balance st)" "plain_money (pay_cash p)"
    and "list_all ordinary_charge cs" "length cs \<le> 600" "rt_extra terms = 0"
    and "list_all (\<lambda>c. case rt_first_start terms of None \<Rightarrow> True | Some first \<Rightarrow> first < charge_on_date c) cs"
    and "replay_events terms (map (\<lambda>c. (Charge c, False)) cs @ [(Payment p, flag)]) st = Inr st'"
  defines "b \<equiv> run_balance st" and "s \<equiv> outcome_split (last (run_payments st'))"
  shows "interest s = sum_list (map (\<lambda>c. accrue_monthly_interest b (period_rate (charge_period c))) cs) \<and>
    escrow s = sum_list (map charge_escrow cs) \<and>
    principal s = min (pay_cash p - interest s - escrow s) b \<and>
    balance_after s = b - principal s \<and> run_due st' = NOTHING_DUE \<and>
    (cs = [] \<longrightarrow> interest s = 0 \<and> escrow s = 0 \<and> principal s = min (pay_cash p) b)"
proof -
  have b: "0 < b" "is_cents b" "b \<le> 10 ^ 10"
    using assms(1,3) by (auto simp: b_def plain_money_def in_column_def MONEY_COLUMN_MAX_def)
  define i where "i = sum_list (map (\<lambda>c. accrue_monthly_interest b (period_rate (charge_period c))) cs)"
  define e where "e = sum_list (map charge_escrow cs)"
  note stand = charges_stand[OF b(1,3) assms(5,6), folded i_def e_def]
  have "of_nat (length cs) * 10 ^ 10 \<le> (600 * 10 ^ 10 :: rat)" using assms(6) by simp
  moreover have v: "is_cents i" "0 \<le> i" "i \<le> of_nat (length cs) * 10 ^ 10" "is_cents e" "0 \<le> e" "e \<le> of_nat (length cs) * 10 ^ 10"
    using stand[of None] by simp_all
  ultimately have "i \<le> 600 * 10 ^ 10" "e \<le> 600 * 10 ^ 10" by linarith+
  then have am: "amount i" "amount e" using v by (auto intro!: amount_nonneg)
  define st1 where "st1 = st\<lparr>run_standing := (if cs = [] then run_standing st else Some (last cs)),
      run_due := \<lparr>due_interest = i, due_escrow = e, due_extra = 0\<rparr>\<rparr>"
  have "replay_events terms (map (\<lambda>c. (Charge c, False)) cs) st = Inr st1"
    using replay_charges[OF assms(1,2), of cs terms] assms(7,8) stand
    by (auto simp: st1_def b_def list_all_iff split: option.splits)
  then have "walk_payment terms p False st1 = Inr st'"
    using assms(9) by (auto simp: replay_events_append elim!: bind_res_InrE)
  moreover have "dadd (pay_cash p) 0 = pay_cash p" "amount (pay_cash p)"
    using assms(4) by (simp_all add: plain_money_def in_column_amount exact)
  ultimately have "s = apply_payment_cash (pay_cash p) b i e" "run_due st' = NOTHING_DUE"
    by (auto simp: s_def walk_payment_def Let_def st1_def b_def elim!: bind_res_InrE)
  moreover have "amount b" using b by (auto intro!: amount_nonneg)
  ultimately show ?thesis
    using apply_payment_cash_open[OF b(1) \<open>amount (pay_cash p)\<close> \<open>amount b\<close> am]
    by (auto simp: i_def e_def)
qed

lemma payment_clears_what_accrued_witness:
  "\<exists>st'. replay_events (replay_terms_of sample_stream 0)
        (map (\<lambda>c. (Charge c, False)) (stream_charges sample_stream) @
         [(Payment (hd (stream_payments sample_stream)), False)]) (walk_from 1000) = Inr st' \<and>
     escrow (outcome_split (last (run_payments st'))) = 25 \<and>
     interest (outcome_split (last (run_payments st'))) = accrue_monthly_interest 1000 (12/100)"
proof -
  let ?terms = "replay_terms_of sample_stream 0" and ?p = "hd (stream_payments sample_stream)"
  have ps: "rt_periods ?terms \<noteq> []" by (simp add: replay_terms_of_def sample_stream_def sample_calendar_def)
  then obtain st' where st': "replay_events ?terms
      (map (\<lambda>c. (Charge c, False)) (stream_charges sample_stream) @ [(Payment ?p, False)]) (walk_from 1000) = Inr st'"
    using replay_events_total by blast
  show ?thesis
    using st' payment_clears_what_accrued[of "walk_from 1000" ?p "stream_charges sample_stream" ?terms False st']
    by (auto simp: walk_from_def plain_money_def in_column_def MONEY_COLUMN_MAX_def sample_stream_def
        sample_facts_def sample_calendar_def ordinary_charge_def replay_terms_of_def first_tracking_start_def)
qed

end
