(* ===== verification/Loan_Fold.thy ===== *)
theory Loan_Fold
  imports Loan_Ledger
begin

text \<open>
  \<open>app/services/balance_at/_fold.py\<close>, \<open>_plan_fold.py\<close>, \<open>_plan_records.py\<close>, \<open>_loan_stream.py\<close> and
  \<open>_loan_interest.py\<close>: the balance of a loan at a date as the running total of its walk's dated steps,
  the questions read off it (the day it last closed, its payoff, whether it is retired) and the
  composition of a loan's recorded facts with its forward plan.
\<close>

section \<open>The fold\<close>

text \<open>The two parallel lists of the source: the distinct dates and the running total at the end of each.\<close>

fun collapse_loop :: "(date \<times> dec) list \<Rightarrow> dec \<Rightarrow> date list \<Rightarrow> dec list \<Rightarrow> date list \<times> dec list" where
  "collapse_loop [] running boundaries totals = (boundaries, totals)"
| "collapse_loop ((on_date, delta) # steps) running boundaries totals =
     (let running = dadd running delta
      in if boundaries \<noteq> [] \<and> last boundaries = on_date
         then collapse_loop steps running boundaries (butlast totals @ [running])
         else collapse_loop steps running (boundaries @ [on_date]) (totals @ [running]))"

definition collapsed_prefix :: "dec \<Rightarrow> (date \<times> dec) list \<Rightarrow> date list \<times> dec list" where
  "collapsed_prefix start steps = collapse_loop steps start [] []"

text \<open>\<open>bisect.bisect_right\<close> on an ascending list.\<close>

definition bisect_right :: "date list \<Rightarrow> date \<Rightarrow> nat" where
  "bisect_right boundaries d = length (takeWhile (\<lambda>b. b \<le> d) boundaries)"

definition sample_cumulative :: "dec \<Rightarrow> (date \<times> dec) list \<Rightarrow> date list \<Rightarrow> date \<rightharpoonup> dec" where
  "sample_cumulative start steps dates =
     (let (boundaries, totals) = collapsed_prefix start steps
      in map_of (map (\<lambda>d. let count = bisect_right boundaries d
                           in (d, round_money (if 0 < count then totals ! (count - 1) else start))) dates))"

definition fold_from_walk :: "loan_ledger_walk \<Rightarrow> date list \<Rightarrow> date \<rightharpoonup> dec" where
  "fold_from_walk walk dates = sample_cumulative 0 (dated_deltas walk) dates"

fun closing_scan :: "(date \<times> dec) list \<Rightarrow> bool \<Rightarrow> date option \<Rightarrow> bool \<times> date option" where
  "closing_scan [] was_open became_closed_on = (was_open, became_closed_on)"
| "closing_scan ((d, amt) # rest) was_open became_closed_on =
     (let is_closed = (round_money amt \<le> 0)
      in closing_scan rest (\<not> is_closed) (if is_closed \<and> was_open then Some d else became_closed_on))"

definition last_closed_on :: "loan_ledger_walk \<Rightarrow> date \<Rightarrow> date option" where
  "last_closed_on walk as_of =
     (let (boundaries, totals) = collapsed_prefix 0 (dated_deltas walk);
          count = bisect_right boundaries as_of
      in if count = 0 then None
         else let (was_open, became_closed_on) = closing_scan (take count (zip boundaries totals)) True None
              in if was_open then None else became_closed_on)"

section \<open>The forward readers\<close>

definition first_installment_at_most :: "payment_outcome list \<Rightarrow> dec \<Rightarrow> payment_outcome option" where
  "first_installment_at_most installments owed_at_most =
     find (\<lambda>ou. balance_after (outcome_split ou) \<le> owed_at_most) installments"

definition installments_payoff :: "payment_outcome list \<Rightarrow> date option" where
  "installments_payoff installments =
     map_option (\<lambda>ou. pay_on_date (outcome_event ou)) (first_installment_at_most installments 0)"

definition owed_at :: "loan_ledger_walk \<Rightarrow> date \<Rightarrow> dec" where
  "owed_at walk as_of = the (fold_from_walk walk [as_of] as_of)"

definition is_originated :: "date \<Rightarrow> date \<Rightarrow> bool" where
  "is_originated owed_from as_of = (owed_from \<le> as_of)"

definition is_retired :: "loan_ledger_walk \<Rightarrow> date \<Rightarrow> date \<Rightarrow> bool" where
  "is_retired walk owed_from as_of = (is_originated owed_from as_of \<and> owed_at walk as_of \<le> 0)"

definition timeline_payoff_date :: "loan_ledger_walk \<Rightarrow> date \<Rightarrow> date \<Rightarrow> date option" where
  "timeline_payoff_date walk owed_from as_of =
     (if is_retired walk owed_from as_of then None else installments_payoff (projected_splits walk))"

section \<open>The timeline: facts and plan\<close>

record loan_forward_plan =
  plan_payments :: "planned_payment list"
  plan_calendar :: "loan_calendar option"

definition projection_events :: "planned_payment list \<Rightarrow> loan_cash_event list" where
  "projection_events payments =
     [\<lparr>pay_on_date = plan_due_date p, pay_cash = plan_cash p, pay_source = Plan p,
       pay_visible_on = plan_effective_date p\<rparr>.
       p \<leftarrow> sort_key (\<lambda>p. (plan_due_date p, plan_effective_date p)) payments]"

definition merged_stream :: "loan_event_stream \<Rightarrow> loan_forward_plan \<Rightarrow> loan_event_stream res" where
  "merged_stream facts plan =
     (case plan_calendar plan of None \<Rightarrow> Inr facts
      | Some calendar \<Rightarrow>
          with_contract_charges (facts\<lparr>stream_projections := projection_events (plan_payments plan)\<rparr>) calendar)"

definition settled_sum_in_year :: "loan_ledger_walk \<Rightarrow> int \<Rightarrow> (payment_outcome \<Rightarrow> dec) \<Rightarrow> dec" where
  "settled_sum_in_year walk year part =
     dsum (map part [ou \<leftarrow> settled_splits walk. d_year (pay_visible_on (outcome_event ou)) = year])"

section \<open>The running total\<close>

text \<open>The total at the end of a day: the start and every step dated on or before it, added in order.\<close>

definition running_at :: "dec \<Rightarrow> (date \<times> dec) list \<Rightarrow> date \<Rightarrow> dec" where
  "running_at start steps d = foldl dadd start (map snd [s \<leftarrow> steps. fst s \<le> d])"

definition collapsed :: "dec \<Rightarrow> (date \<times> dec) list \<Rightarrow> date list \<Rightarrow> dec list \<Rightarrow> bool" where
  "collapsed start steps bs ts \<longleftrightarrow>
     length ts = length bs \<and> sorted_wrt (<) bs \<and> set bs = fst ` set steps \<and>
     (\<forall>i < length bs. ts ! i = running_at start steps (bs ! i))"

lemma running_at_all: "\<forall>s \<in> set steps. fst s \<le> d \<Longrightarrow> running_at start steps d = foldl dadd start (map snd steps)"
  by (simp add: running_at_def)

lemma running_at_snoc_before: "b < d \<Longrightarrow> running_at start (steps @ [(d, x)]) b = running_at start steps b"
  by (auto simp: running_at_def dest: leD)

lemma collapsed_snoc:
  fixes x :: dec
  assumes "collapsed start steps bs ts" "\<forall>s \<in> set steps. fst s \<le> d"
  defines "r \<equiv> dadd (foldl dadd start (map snd steps)) x"
  shows "if bs \<noteq> [] \<and> last bs = d then collapsed start (steps @ [(d, x)]) bs (butlast ts @ [r])
         else collapsed start (steps @ [(d, x)]) (bs @ [d]) (ts @ [r])"
proof -
  have c: "length ts = length bs" "sorted_wrt (<) bs" "set bs = fst ` set steps"
      "\<And>i. i < length bs \<Longrightarrow> ts ! i = running_at start steps (bs ! i)"
    using assms(1) by (auto simp: collapsed_def)
  have le: "\<forall>b \<in> set bs. b \<le> d" using c(3) assms(2) by auto
  have r: "running_at start (steps @ [(d, x)]) d = r" using assms(2) by (simp add: running_at_all r_def)
  show ?thesis
  proof (cases "bs \<noteq> [] \<and> last bs = d")
    case True
    then obtain bs' where bs: "bs = bs' @ [d]" by (metis append_butlast_last_id)
    have lt: "\<forall>b \<in> set bs'. b < d" using c(2) by (auto simp: bs sorted_wrt_append)
    have "(butlast ts @ [r]) ! i = running_at start (steps @ [(d, x)]) (bs ! i)" if "i < length bs" for i
    proof (cases "i < length bs'")
      case True
      then have "bs ! i < d" using lt by (simp add: bs nth_append)
      then show ?thesis using c(1) c(4)[of i] True that
        by (simp add: bs nth_append nth_butlast running_at_snoc_before)
    next
      case False
      then have "i = length bs'" using that by (simp add: bs)
      then show ?thesis using c(1) r by (simp add: bs nth_append)
    qed
    moreover have "set bs = fst ` set (steps @ [(d, x)])" using c(3) by (auto simp: bs)
    ultimately show ?thesis using True c(1,2) by (simp add: collapsed_def bs)
  next
    case False
    have lt: "\<forall>b \<in> set bs. b < d"
    proof (cases "bs = []")
      case False
      then have "last bs < d" using le \<open>\<not> (bs \<noteq> [] \<and> last bs = d)\<close> by (metis last_in_set order_le_less)
      moreover have "\<forall>b \<in> set bs. b \<le> last bs"
        using c(2) False by (metis (no_types) append_butlast_last_id in_set_conv_decomp less_imp_le
            order_refl rotate1.simps(2) set_ConsD set_rotate1 sorted_wrt_append)
      ultimately show ?thesis by (meson le_less_trans)
    qed simp
    then have "(ts @ [r]) ! i = running_at start (steps @ [(d, x)]) ((bs @ [d]) ! i)" if "i < length (bs @ [d])" for i
      using that c(1,4) r by (cases "i < length bs") (auto simp: nth_append running_at_snoc_before)
    then show ?thesis using False c lt by (auto simp: collapsed_def sorted_wrt_append)
  qed
qed

lemma collapse_loop_collapsed:
  assumes "collapsed start done bs ts" "sorted (map fst (done @ steps))"
  defines "r \<equiv> foldl dadd start (map snd done)"
  shows "case collapse_loop steps r bs ts of (bs', ts') \<Rightarrow> collapsed start (done @ steps) bs' ts'"
  using assms(1,2) unfolding r_def
proof (induction steps arbitrary: "done" bs ts)
  case (Cons s steps)
  obtain d x where s: "s = (d, x)" by (cases s)
  have "\<forall>s \<in> set done. fst s \<le> d" using Cons.prems(2) by (auto simp: s sorted_append)
  note c = collapsed_snoc[OF Cons.prems(1) this, of x]
  have sorted: "sorted (map fst ((done @ [(d, x)]) @ steps))" using Cons.prems(2) by (simp add: s)
  show ?case
  proof (cases "bs \<noteq> [] \<and> last bs = d")
    case True
    with c Cons.IH[OF _ sorted] show ?thesis by (simp add: s Let_def)
  next
    case False
    with c Cons.IH[OF _ sorted] show ?thesis by (auto simp: s Let_def)
  qed
qed simp

lemma collapsed_prefix_collapsed:
  assumes "sorted (map fst steps)" "collapsed_prefix start steps = (bs, ts)"
  shows "collapsed start steps bs ts"
  using collapse_loop_collapsed[of start "[]" "[]" "[]" steps] assms by (simp add: collapsed_prefix_def collapsed_def)

lemma bisect_right_collapsed:
  fixes d :: date
  assumes "collapsed start steps bs ts"
  defines "n \<equiv> bisect_right bs d"
  shows "n \<le> length bs" "n = 0 \<longleftrightarrow> (\<forall>s \<in> set steps. d < fst s)" "take n bs = [b \<leftarrow> bs. b \<le> d]"
    "(if 0 < n then ts ! (n - 1) else start) = running_at start steps d"
proof -
  have c: "length ts = length bs" "sorted_wrt (<) bs" "set bs = fst ` set steps"
      "\<And>i. i < length bs \<Longrightarrow> ts ! i = running_at start steps (bs ! i)"
    using assms(1) by (auto simp: collapsed_def)
  have "takeWhile (\<lambda>b. b \<le> d) bs = [b \<leftarrow> bs. b \<le> d]" using c(2)
  proof (induction bs)
    case (Cons b bs)
    show ?case
    proof (cases "b \<le> d")
      case False
      then have "\<forall>x \<in> set (b # bs). \<not> x \<le> d" using Cons.prems by auto
      then show ?thesis by (metis filter_False list.set_intros(1) takeWhile.simps(2))
    qed (use Cons in simp)
  qed simp
  then show tk: "take n bs = [b \<leftarrow> bs. b \<le> d]" unfolding n_def bisect_right_def by (metis takeWhile_eq_take)
  show le: "n \<le> length bs" by (simp add: n_def bisect_right_def length_takeWhile_le)
  have "n = length [b \<leftarrow> bs. b \<le> d]" using tk le by (metis length_take min.absorb2)
  then have "n = 0 \<longleftrightarrow> [b \<leftarrow> bs. b \<le> d] = []" by (metis length_0_conv)
  also have "\<dots> \<longleftrightarrow> (\<forall>b \<in> set bs. d < b)" by (auto simp: filter_empty_conv)
  also have "\<dots> \<longleftrightarrow> (\<forall>s \<in> set steps. d < fst s)" unfolding c(3) by simp
  finally show z: "n = 0 \<longleftrightarrow> (\<forall>s \<in> set steps. d < fst s)" .
  show "(if 0 < n then ts ! (n - 1) else start) = running_at start steps d"
  proof (cases "n = 0")
    case True
    then have "[s \<leftarrow> steps. fst s \<le> d] = []" using z by (auto simp: filter_empty_conv)
    then show ?thesis using True by (simp add: running_at_def)
  next
    case False
    let ?l = "bs ! (n - 1)"
    have "take n bs ! (n - 1) = ?l" "n - 1 < length (take n bs)" using False le by simp_all
    then have "?l \<in> set (take n bs)" by (metis nth_mem)
    then have l: "?l \<le> d" using tk by simp
    have "b \<le> ?l" if "b \<in> set bs" "b \<le> d" for b
    proof -
      have "b \<in> set (take n bs)" using that tk by simp
      then obtain j where "j < n" "b = bs ! j" using le by (auto simp: in_set_conv_nth)
      then show ?thesis using c(2) le by (cases "j = n - 1") (auto simp: sorted_wrt_iff_nth_less intro: less_imp_le)
    qed
    then have "[s \<leftarrow> steps. fst s \<le> d] = [s \<leftarrow> steps. fst s \<le> ?l]" using l c(3) by (auto intro!: filter_cong)
    then show ?thesis using False c(4)[of "n - 1"] le by (simp add: running_at_def)
  qed
qed

lemma sample_cumulative_at:
  assumes "sorted (map fst steps)"
  shows "sample_cumulative start steps dates d =
     (if d \<in> set dates then Some (round_money (running_at start steps d)) else None)"
proof -
  obtain bs ts where bt: "collapsed_prefix start steps = (bs, ts)" by (cases "collapsed_prefix start steps")
  note c = bisect_right_collapsed(4)[OF collapsed_prefix_collapsed[OF assms bt]]
  have m: "map_of (map (\<lambda>d. (d, f d)) dates) d = (if d \<in> set dates then Some (f d) else None)" for f :: "date \<Rightarrow> dec"
    by (simp add: map_of_map_restrict)
  show ?thesis unfolding sample_cumulative_def bt by (simp add: Let_def c m)
qed

lemma plain_moneyD: "plain_money x \<Longrightarrow> is_cents x \<and> 0 \<le> x \<and> x \<le> 10 ^ 10"
  by (auto simp: plain_money_def in_column_def MONEY_COLUMN_MAX_def)

section \<open>The fold is the walk\<close>

text \<open>What a walk's events visible by a day say is owed: the jumps of its assertions less its principal.\<close>

definition owed_by_events :: "loan_ledger_walk \<Rightarrow> date \<Rightarrow> dec" where
  "owed_by_events walk d =
     sum_list (map (\<lambda>c. anchor_balance (correction_anchor c) - owed_before c)
       [c \<leftarrow> anchor_corrections walk. anchor_date (correction_anchor c) \<le> d]) -
     sum_list (map (\<lambda>ou. principal (outcome_split ou))
       [ou \<leftarrow> payment_splits walk. pay_visible_on (outcome_event ou) \<le> d])"

text \<open>A walk of figures whose sums are exact.\<close>

definition exact_walk :: "loan_ledger_walk \<Rightarrow> bool" where
  "exact_walk walk \<longleftrightarrow>
     anchor_corrections walk \<noteq> [] \<and>
     length (anchor_corrections walk) + length (payment_splits walk) \<le> 100000 \<and>
     (\<forall>c \<in> set (anchor_corrections walk). amount (owed_before c) \<and> 0 \<le> owed_before c \<and>
        plain_money (anchor_balance (correction_anchor c))) \<and>
     (\<forall>ou \<in> set (payment_splits walk). amount (principal (outcome_split ou)))"

lemma sorted_dated_deltas: "sorted (map fst (dated_deltas walk))"
proof -
  have "sorted (map fst xs)" if "sorted (map (\<lambda>(v, t, x). (v, t)) xs)" for xs :: "(date \<times> nat \<times> dec) list"
    using that unfolding sorted_map by (rule sorted_wrt_mono_rel[rotated]) (auto simp: less_eq_prod_def)
  note s = this[OF sorted_sort_key]
  show ?thesis unfolding dated_deltas_def using s by (simp add: case_prod_beta' o_def)
qed

lemma mset_dated_deltas:
  assumes "exact_walk walk"
  shows "mset (dated_deltas walk) =
    mset (map (\<lambda>c. (anchor_date (correction_anchor c), anchor_balance (correction_anchor c) - owed_before c)) (anchor_corrections walk) @
          map (\<lambda>ou. (pay_visible_on (outcome_event ou), - principal (outcome_split ou))) (payment_splits walk))"
proof -
  have "dsub (anchor_balance (correction_anchor c)) (owed_before c) = anchor_balance (correction_anchor c) - owed_before c"
    if "c \<in> set (anchor_corrections walk)" for c
    using assms that by (simp add: exact_walk_def plain_money_def in_column_amount exact)
  moreover have "dsub 0 (principal (outcome_split ou)) = - principal (outcome_split ou)" if "ou \<in> set (payment_splits walk)" for ou
    using assms that by (simp add: exact_walk_def exact)
  moreover define f :: "date \<times> nat \<times> dec \<Rightarrow> date \<times> dec" where "f = (\<lambda>(visible_on, tag, delta). (visible_on, delta))"
  define ts where "ts = [(anchor_visible_on (anchor_date (correction_anchor c)), 1::nat,
       dsub (anchor_balance (correction_anchor c)) (owed_before c)). c \<leftarrow> anchor_corrections walk] @
     [(pay_visible_on (outcome_event ou), 0, dsub 0 (principal (outcome_split ou))). ou \<leftarrow> payment_splits walk]"
  have "dated_deltas walk = map f (sort_key (\<lambda>(visible_on, tag, delta). (visible_on, tag)) ts)"
    using assms by (simp add: dated_deltas_def exact_walk_def f_def ts_def)
  then have "mset (dated_deltas walk) = mset (map f ts)" by simp
  moreover have "map f ts = map (\<lambda>c. (anchor_date (correction_anchor c), dsub (anchor_balance (correction_anchor c)) (owed_before c)))
        (anchor_corrections walk) @
      map (\<lambda>ou. (pay_visible_on (outcome_event ou), dsub 0 (principal (outcome_split ou)))) (payment_splits walk)"
    by (simp add: f_def ts_def anchor_visible_on_def)
  ultimately show ?thesis by (simp cong: map_cong image_mset_cong)
qed

lemma running_at_dated_deltas:
  assumes "exact_walk walk"
  shows "running_at 0 (dated_deltas walk) d = owed_by_events walk d" "is_cents (owed_by_events walk d)"
proof -
  let ?xs = "map (\<lambda>c. (anchor_date (correction_anchor c), anchor_balance (correction_anchor c) - owed_before c)) (anchor_corrections walk) @
          map (\<lambda>ou. (pay_visible_on (outcome_event ou), - principal (outcome_split ou))) (payment_splits walk)"
  let ?vis = "\<lambda>xs. map snd [s \<leftarrow> xs. fst s \<le> d]"
  have m: "mset (?vis (dated_deltas walk)) = mset (?vis ?xs)"
    using mset_dated_deltas[OF assms] by (metis (no_types, lifting) mset_filter mset_map)
  have fig: "is_cents x \<and> \<bar>x\<bar> \<le> 10 ^ 20" if h: "x \<in> set (?vis ?xs)" for x
  proof -
    consider c where "c \<in> set (anchor_corrections walk)" "x = anchor_balance (correction_anchor c) - owed_before c"
      | ou where "ou \<in> set (payment_splits walk)" "x = - principal (outcome_split ou)"
      using h by auto
    then show ?thesis
    proof cases
      case 1
      then have "amount (owed_before c)" "0 \<le> owed_before c" "plain_money (anchor_balance (correction_anchor c))"
        using assms by (simp_all add: exact_walk_def)
      then have "is_cents (anchor_balance (correction_anchor c))" "0 \<le> anchor_balance (correction_anchor c)"
          "anchor_balance (correction_anchor c) \<le> 10 ^ 10" "is_cents (owed_before c)" "0 \<le> owed_before c" "owed_before c \<le> 10 ^ 20"
        by (auto simp: amount_def dest!: plain_moneyD)
      then show ?thesis by (simp add: 1(2) is_cents_diff abs_le_iff)
    next
      case 2
      then show ?thesis using assms is_cents_diff[of 0 "principal (outcome_split ou)"] by (auto simp: exact_walk_def amount_def)
    qed
  qed
  have len: "length (?vis (dated_deltas walk)) \<le> 100000"
  proof -
    have "length (?vis (dated_deltas walk)) \<le> length (dated_deltas walk)" by simp
    also have "length (dated_deltas walk) = length ?xs" using arg_cong[OF mset_dated_deltas[OF assms], of size] by simp
    finally show ?thesis using assms by (simp add: exact_walk_def)
  qed
  have fig': "is_cents x \<and> \<bar>x\<bar> \<le> 10 ^ 20" if "x \<in> set (?vis (dated_deltas walk))" for x
    using fig[of x] that mset_eq_setD[OF m] by blast
  have "sum_list (map abs (?vis (dated_deltas walk))) \<le> of_nat (length (?vis (dated_deltas walk))) * 10 ^ 20"
    using sum_list_bounds[of "?vis (dated_deltas walk)" 0 abs "10 ^ 20"] fig' by simp
  also have "\<dots> \<le> 100000 * 10 ^ 20" using len by (intro mult_right_mono) simp_all
  finally have "sum_list (map abs (?vis (dated_deltas walk))) < 10 ^ 26" by simp
  then have "running_at 0 (dated_deltas walk) d = sum_list (?vis (dated_deltas walk))"
    unfolding running_at_def dsum_def[symmetric] using fig' by (intro dsum_exact) auto
  also have "\<dots> = sum_list (?vis ?xs)" using arg_cong[OF m, of sum_mset] by (simp only: sum_mset_sum_list)
  also have "\<dots> = owed_by_events walk d"
    by (simp add: owed_by_events_def filter_map o_def uminus_sum_list_map[unfolded o_def, symmetric])
  finally show r: "running_at 0 (dated_deltas walk) d = owed_by_events walk d" .
  have "is_cents (sum_list (?vis ?xs))" using fig by (intro is_cents_sum_list) auto
  then show "is_cents (owed_by_events walk d)"
    by (simp add: owed_by_events_def filter_map o_def uminus_sum_list_map[unfolded o_def, symmetric])
qed

lemma length_filter_ordered: "length (filter P (ordered s b)) = length (filter P (tagged s))"
proof -
  have len: "length (filter P xs) = size (filter_mset P (mset xs))" for xs by (metis mset_filter size_mset)
  show ?thesis unfolding len by (simp add: ordered_def)
qed

lemma length_events:
  "length (reset_events es) = length (filter is_reset es)" "length (cash_events es) = length (filter is_cash es)"
proof -
  have "length (reset_events (e # es)) = (if is_reset e then 1 else 0) + length (reset_events es)"
    "length (cash_events (e # es)) = (if is_cash e then 1 else 0) + length (cash_events es)" for e es
    by (cases e; simp add: reset_events_def cash_events_def)+
  then show "length (reset_events es) = length (filter is_reset es)" "length (cash_events es) = length (filter is_cash es)"
    by (induction es) (simp_all add: reset_events_def cash_events_def)
qed

lemma walk_lengths:
  assumes "replay_loan_stream s extra = Inr w"
  shows "length (anchor_corrections w) = length (stream_resets s)"
    "length (payment_splits w) = length (stream_payments s) + length (stream_projections s)"
proof -
  obtain st where st: "replay_events (replay_terms_of s extra) (flagged_events s) (walk_from 0) = Inr st"
      "payment_splits w = run_payments st" "length (anchor_corrections w) = length (run_resets st)"
    using assms by (auto simp: replay_loan_stream_def replay_loan_events_def elim!: bind_res_InrE)
  let ?es = "ordered s (projection_boundary s)"
  have "map (\<lambda>ou. (outcome_event ou, is_projected ou)) (run_payments st) = cash_events ?es"
      "map reset_event (run_resets st) = reset_events ?es"
    using replay_outcomes[OF st(1)] by (simp_all add: walk_from_def flagged_events_def)
  then have "length (run_payments st) = length (cash_events ?es)" "length (run_resets st) = length (reset_events ?es)"
    by (metis length_map)+
  then show "length (anchor_corrections w) = length (stream_resets s)"
    "length (payment_splits w) = length (stream_payments s) + length (stream_projections s)"
    by (simp_all add: st(2,3) length_events length_filter_ordered tagged_def filter_map o_def)
qed

definition sourced :: "loan_event_stream \<Rightarrow> bool" where
  "sourced s = list_all (\<lambda>r. anchor_balance (reset_source r) = reset_balance r) (stream_resets s)"

lemma walk_of_stream:
  assumes "ordinary_stream s" "plain_money extra" "sourced s" "replay_loan_stream s extra = Inr w"
    and "stream_resets s \<noteq> []"
    and "length (stream_resets s) + length (stream_payments s) + length (stream_projections s) \<le> 100000"
  obtains st where "replay_events (replay_terms_of s extra) (flagged_events s) (walk_from 0) = Inr st" "exact_walk w"
    "payment_splits w = run_payments st" "0 \<le> run_balance st"
    "run_balance st = sum_list (map (\<lambda>c. anchor_balance (correction_anchor c) - owed_before c) (anchor_corrections w)) -
       sum_list (map (\<lambda>ou. principal (outcome_split ou)) (payment_splits w))"
proof -
  obtain st where st: "replay_events (replay_terms_of s extra) (flagged_events s) (walk_from 0) = Inr st"
      "payment_splits w = run_payments st"
      "anchor_corrections w = map (\<lambda>ou. \<lparr>correction_anchor = reset_source (reset_event ou), owed_before = balance_before ou\<rparr>) (run_resets st)"
    using assms(4) by (auto simp: replay_loan_stream_def replay_loan_events_def elim!: bind_res_InrE)
  note sd = replay_sound[OF assms(1,2) st(1)]
  have "map reset_event (run_resets st) = reset_events (ordered s (projection_boundary s))"
    using replay_outcomes[OF st(1)] by (simp add: walk_from_def flagged_events_def)
  then have "reset_event ` set (run_resets st) = set (reset_events (ordered s (projection_boundary s)))" by (metis set_map)
  also have "\<dots> \<subseteq> set (stream_resets s)" by (auto simp: reset_events_def tagged_def)
  finally have src: "anchor_balance (reset_source (reset_event ou)) = reset_balance (reset_event ou)"
      if "ou \<in> set (run_resets st)" for ou
    using assms(3) that by (auto simp: sourced_def list_all_iff)
  have "exact_walk w" unfolding exact_walk_def
    using assms(5,6) walk_lengths[OF assms(4)] sd(1) src by (auto simp: st(2,3) sound_def Let_def booked_def)
  moreover have "map (\<lambda>c. anchor_balance (correction_anchor c) - owed_before c) (anchor_corrections w) =
      map (\<lambda>ou. reset_balance (reset_event ou) - balance_before ou) (run_resets st)"
    using src by (simp add: st(3))
  moreover have "0 \<le> run_balance st" using sd(1) by (simp add: sound_def Let_def)
  ultimately show ?thesis using that[OF st(1)] st(2) sd(2) by (simp add: booked_balance_def)
qed

lemma fold_from_walk_at:
  assumes "exact_walk w"
  shows "fold_from_walk w ds d = (if d \<in> set ds then Some (owed_by_events w d) else None)"
  using running_at_dated_deltas[OF assms]
  by (simp add: fold_from_walk_def sample_cumulative_at[OF sorted_dated_deltas])

lemma owed_at_events: "exact_walk w \<Longrightarrow> owed_at w d = owed_by_events w d"
  by (simp add: owed_at_def fold_from_walk_at)

lemma owed_after_everything:
  assumes "\<forall>c \<in> set (anchor_corrections w). anchor_date (correction_anchor c) \<le> d"
    and "\<forall>ou \<in> set (payment_splits w). pay_visible_on (outcome_event ou) \<le> d"
  shows "owed_by_events w d =
    sum_list (map (\<lambda>c. anchor_balance (correction_anchor c) - owed_before c) (anchor_corrections w)) -
    sum_list (map (\<lambda>ou. principal (outcome_split ou)) (payment_splits w))"
  using assms by (simp add: owed_by_events_def)

text \<open>
  C2: the fold of a loan is its walk, read by the day.  On any day asked for, the balance the fold
  samples is exactly the jumps of the assertions made by that day less the principal of the payments
  whose money had moved by it, to the cent and whatever the order in which the walk split them; other
  days it does not answer; and from the day everything has become visible it is the balance the replay
  itself ended on, which is never negative.\<close>

theorem fold_is_the_walk:
  fixes d :: date
  assumes "ordinary_stream s" "plain_money extra" "sourced s" "replay_loan_stream s extra = Inr w"
    and "stream_resets s \<noteq> []"
    and "length (stream_resets s) + length (stream_payments s) + length (stream_projections s) \<le> 100000"
  shows "fold_from_walk w ds d = (if d \<in> set ds then Some (owed_by_events w d) else None) \<and>
    owed_at w d = owed_by_events w d \<and>
    ((\<forall>c \<in> set (anchor_corrections w). anchor_date (correction_anchor c) \<le> d) \<and>
     (\<forall>ou \<in> set (payment_splits w). pay_visible_on (outcome_event ou) \<le> d) \<longrightarrow>
     (\<exists>st. replay_events (replay_terms_of s extra) (flagged_events s) (walk_from 0) = Inr st \<and>
           owed_at w d = run_balance st \<and> 0 \<le> run_balance st))"
proof -
  obtain st where st: "replay_events (replay_terms_of s extra) (flagged_events s) (walk_from 0) = Inr st"
      "exact_walk w" "payment_splits w = run_payments st" "0 \<le> run_balance st"
      "run_balance st = sum_list (map (\<lambda>c. anchor_balance (correction_anchor c) - owed_before c) (anchor_corrections w)) -
         sum_list (map (\<lambda>ou. principal (outcome_split ou)) (payment_splits w))"
    by (rule walk_of_stream[OF assms])
  show ?thesis
    using st(1,4,5) owed_after_everything[of w d]
    by (auto simp: fold_from_walk_at[OF st(2)] owed_at_events[OF st(2)])
qed

lemma fold_is_the_walk_witness:
  "\<exists>w. replay_loan_stream sample_stream 0 = Inr w \<and> owed_at w (Date 2026 2 28) = owed_by_events w (Date 2026 2 28)"
proof -
  have "rt_periods (replay_terms_of sample_stream 0) \<noteq> []"
    by (simp add: replay_terms_of_def sample_stream_def sample_calendar_def)
  then obtain r where r: "replay_loan_events 0 sample_stream 0 = Inr r" using replay_total by blast
  then obtain w where w: "replay_loan_stream sample_stream 0 = Inr w" by (simp add: replay_loan_stream_def)
  have "ordinary_stream sample_stream" by (rule sample_stream_ordinary)
  moreover have "plain_money 0" by (simp add: plain_money_def in_column_def MONEY_COLUMN_MAX_def)
  moreover have "sourced sample_stream"
    by (simp add: sourced_def sample_stream_def sample_facts_def sample_opening_def)
  ultimately have "owed_at w (Date 2026 2 28) = owed_by_events w (Date 2026 2 28)"
    using fold_is_the_walk[of sample_stream 0 w "[]" "Date 2026 2 28"] w
    by (simp add: sample_stream_def sample_facts_def)
  then show ?thesis using w by blast
qed

section \<open>The day a loan last closed\<close>

lemma owed_at_running: "owed_at w d = round_money (running_at 0 (dated_deltas w) d)"
  by (simp add: owed_at_def fold_from_walk_def sample_cumulative_at[OF sorted_dated_deltas])

abbreviation closed_total :: "date \<times> dec \<Rightarrow> bool" where
  "closed_total x \<equiv> round_money (snd x) \<le> 0"

lemma bisect_right_less:
  assumes "sorted_wrt (<) bs" "i < length bs"
  shows "i < bisect_right bs t \<longleftrightarrow> bs ! i \<le> t"
proof
  assume "i < bisect_right bs t"
  then show "bs ! i \<le> t" using assms(2) unfolding bisect_right_def
    by (metis nth_mem set_takeWhileD takeWhile_nth)
next
  assume "bs ! i \<le> t"
  then have "\<forall>j \<le> i. bs ! j \<le> t" using assms by (metis le_neq_implies_less less_imp_le order_trans sorted_wrt_nth_less)
  then show "i < bisect_right bs t" using assms(2) unfolding bisect_right_def
    by (metis (mono_tags, lifting) length_takeWhile_le linorder_not_less nth_length_takeWhile le_less_trans)
qed

lemma bisect_right_mono:
  assumes "sorted_wrt (<) bs" "t \<le> u"
  shows "bisect_right bs t \<le> bisect_right bs u"
proof (rule ccontr)
  assume h: "\<not> bisect_right bs t \<le> bisect_right bs u"
  then have "bisect_right bs u < length bs"
    by (metis bisect_right_def length_takeWhile_le linorder_not_less order_less_le_trans)
  then show False using h bisect_right_less[OF assms(1)] assms(2) by (metis less_irrefl linorder_not_less order_trans)
qed

lemma closing_scan_snoc:
  "closing_scan (xs @ [x]) was_open c =
     (case closing_scan xs was_open c of (o', c') \<Rightarrow>
        (\<not> closed_total x, if closed_total x \<and> o' then Some (fst x) else c'))"
  by (induction xs was_open c rule: closing_scan.induct) (cases x, auto simp: Let_def)

lemma closing_scan_open:
  "xs \<noteq> [] \<Longrightarrow> fst (closing_scan xs was_open c) = (\<not> closed_total (last xs))"
  by (cases xs rule: rev_cases) (auto simp: closing_scan_snoc split: prod.split)

lemma closing_scan_run:
  assumes "xs \<noteq> []" "closed_total (last xs)"
  shows "\<exists>i < length xs. snd (closing_scan xs True None) = Some (fst (xs ! i)) \<and>
    (\<forall>j < length xs. i \<le> j \<longrightarrow> closed_total (xs ! j)) \<and> (0 < i \<longrightarrow> \<not> closed_total (xs ! (i - 1)))"
  using assms
proof (induction xs rule: rev_induct)
  case (snoc x xs)
  show ?case
  proof (cases "xs \<noteq> [] \<and> closed_total (last xs)")
    case True
    then obtain i where i: "i < length xs" "snd (closing_scan xs True None) = Some (fst (xs ! i))"
      "\<forall>j < length xs. i \<le> j \<longrightarrow> closed_total (xs ! j)" "0 < i \<longrightarrow> \<not> closed_total (xs ! (i - 1))"
      using snoc.IH by blast
    have "fst (closing_scan xs True None) = False" using True closing_scan_open by blast
    then have "snd (closing_scan (xs @ [x]) True None) = Some (fst (xs ! i))"
      using i(2) by (auto simp: closing_scan_snoc split: prod.splits)
    moreover have "closed_total ((xs @ [x]) ! j)" if "j < length (xs @ [x])" "i \<le> j" for j
      using that i(3) snoc.prems(2) by (cases "j < length xs") (auto simp: nth_append not_less_less_Suc_eq)
    ultimately show ?thesis using i(1,4) by (intro exI[of _ i]) (auto simp: nth_append)
  next
    case False
    then have o: "fst (closing_scan xs True None)" using closing_scan_open[of xs] by (cases "xs = []") auto
    then have "snd (closing_scan (xs @ [x]) True None) = Some (fst x)"
      using snoc.prems(2) by (auto simp: closing_scan_snoc split: prod.splits)
    moreover have "\<not> closed_total (xs ! (length xs - 1))" if "0 < length xs"
      using False that by (simp add: last_conv_nth)
    ultimately show ?thesis using snoc.prems(2)
      by (intro exI[of _ "length xs"]) (auto simp: nth_append not_less_less_Suc_eq)
  qed
qed simp

text \<open>
  C16: the day a loan last closed.  There is none exactly when the loan has no recorded fact by the day
  asked for or owes something on it; otherwise it is a day on which something became visible, the loan
  owes nothing on any day from it to the day asked for, and either nothing became visible before it or
  on the last such day before it the loan still owed: the later of two closings, and never the zero
  before the loan existed.\<close>

theorem last_closed_on_is_the_closing:
  defines "days \<equiv> \<lambda>w. fst ` set (dated_deltas w)"
  shows "case last_closed_on w as_of of
      None \<Rightarrow> (\<forall>e \<in> days w. as_of < e) \<or> 0 < owed_at w as_of
    | Some d \<Rightarrow> d \<in> days w \<and> d \<le> as_of \<and> (\<forall>t. d \<le> t \<and> t \<le> as_of \<longrightarrow> owed_at w t \<le> 0) \<and>
        (\<forall>e \<in> days w. e < d \<and> (\<forall>e' \<in> days w. e' < d \<longrightarrow> e' \<le> e) \<longrightarrow> 0 < owed_at w e)"
proof -
  obtain bs ts where bt: "collapsed_prefix 0 (dated_deltas w) = (bs, ts)" by (cases "collapsed_prefix 0 (dated_deltas w)")
  note c = collapsed_prefix_collapsed[OF sorted_dated_deltas bt]
  have cs: "length ts = length bs" "sorted_wrt (<) bs" "set bs = days w"
      "\<And>i. i < length bs \<Longrightarrow> round_money (ts ! i) = owed_at w (bs ! i)"
    using c by (auto simp: collapsed_def days_def owed_at_running)
  define n where "n = bisect_right bs as_of"
  note b = bisect_right_collapsed[OF c, of as_of, folded n_def]
  define xs where "xs = take n (zip bs ts)"
  have len: "length xs = n" using b(1) cs(1) by (simp add: xs_def)
  have nth: "fst (xs ! i) = bs ! i" "closed_total (xs ! i) \<longleftrightarrow> owed_at w (bs ! i) \<le> 0" if "i < n" for i
    using that b(1) cs(1,4) by (simp_all add: xs_def)
  have at: "owed_at w t = owed_at w (bs ! (bisect_right bs t - 1))" if "0 < bisect_right bs t" for t
    using bisect_right_collapsed(1,4)[OF c, of t] that cs(4)[of "bisect_right bs t - 1"] by (simp add: owed_at_running)
  have result: "last_closed_on w as_of = (if n = 0 then None
      else if fst (closing_scan xs True None) then None else snd (closing_scan xs True None))"
    by (simp add: last_closed_on_def bt Let_def n_def[symmetric] xs_def case_prod_beta')
  show ?thesis
  proof (cases "n = 0")
    case True
    then show ?thesis using b(2) result by (auto simp: days_def)
  next
    case False
    then have ne: "xs \<noteq> []" "last xs = xs ! (n - 1)" using len by (auto simp: last_conv_nth)
    have last: "closed_total (last xs) \<longleftrightarrow> owed_at w as_of \<le> 0"
      using nth(2)[of "n - 1"] at[of as_of] False by (simp add: ne n_def)
    show ?thesis
    proof (cases "closed_total (last xs)")
      case False
      then show ?thesis using closing_scan_open[OF ne(1)] last result by auto
    next
      case True
      obtain i where i: "i < n" "snd (closing_scan xs True None) = Some (bs ! i)"
        "\<forall>j < n. i \<le> j \<longrightarrow> owed_at w (bs ! j) \<le> 0" "0 < i \<longrightarrow> \<not> owed_at w (bs ! (i - 1)) \<le> 0"
        using closing_scan_run[OF ne(1) True] nth len by (metis less_imp_diff_less)
      have d: "last_closed_on w as_of = Some (bs ! i)" using result False closing_scan_open[OF ne(1)] True i(2) by simp
      have il: "i < length bs" using i(1) b(1) by simp
      have mono: "bs ! j < bs ! k \<longleftrightarrow> j < k" if "j < length bs" "k < length bs" for j k
        using cs(2) that by (metis linorder_neqE_nat not_less_iff_gr_or_eq sorted_wrt_nth_less)
      have "bs ! i \<in> set (take n bs)" using i(1) il by (metis in_set_conv_nth length_take min_less_iff_conj nth_take)
      then have le: "bs ! i \<le> as_of" using b(3) by simp
      have "owed_at w t \<le> 0" if t: "bs ! i \<le> t" "t \<le> as_of" for t
      proof -
        have "i < bisect_right bs t" "bisect_right bs t \<le> n"
          unfolding n_def using t by (simp_all add: bisect_right_less[OF cs(2) il] bisect_right_mono[OF cs(2)])
        then show ?thesis using at[of t] i(3) by (simp add: less_eq_Suc_le)
      qed
      moreover have "0 < owed_at w e"
        if e: "e \<in> days w" "e < bs ! i" "\<forall>e' \<in> days w. e' < bs ! i \<longrightarrow> e' \<le> e" for e
      proof -
        obtain k where k: "k < length bs" "e = bs ! k" using e(1) cs(3) by (metis in_set_conv_nth)
        have "k < i" using e(2) k mono il by simp
        moreover have "bs ! (i - 1) \<le> bs ! k"
          using e(3) k(2) cs(3) mono[of "i - 1" i] il \<open>k < i\<close> by (metis diff_less less_imp_diff_less nth_mem zero_less_one gr_implies_not0 neq0_conv)
        ultimately have "k = i - 1" using mono[of k "i - 1"] k(1) il by (metis Suc_pred' gr_implies_not0 less_Suc_eq not_less neq0_conv less_imp_diff_less)
        then show ?thesis using i(4) \<open>k < i\<close> k(2) by simp
      qed
      ultimately show ?thesis using le il cs(3) by (auto simp: d)
    qed
  qed
qed

definition paid_off_walk :: loan_ledger_walk where
  "paid_off_walk =
     \<lparr>payment_splits =
        [\<lparr>outcome_event = \<lparr>pay_on_date = Date 2026 2 1, pay_cash = 1000, pay_source = Leg 7, pay_visible_on = Date 2026 2 3\<rparr>,
          outcome_charge = None,
          outcome_split = \<lparr>interest = 0, escrow = 0, principal = 1000, excess = 0, balance_after = 0\<rparr>,
          outcome_period = hd (cal_periods sample_calendar), is_projected = False\<rparr>],
      anchor_corrections = [\<lparr>correction_anchor = sample_opening, owed_before = 0\<rparr>],
      walk_stream = sample_facts\<rparr>"

lemma last_closed_on_is_the_closing_witness:
  "last_closed_on paid_off_walk (Date 2026 3 1) = Some (Date 2026 2 3) \<and> owed_at paid_off_walk (Date 2026 2 20) \<le> 0"
proof -
  have dd: "dated_deltas paid_off_walk = [(Date 2026 1 10, 1000), (Date 2026 2 3, - 1000)]"
    by (simp add: dated_deltas_def paid_off_walk_def sample_opening_def anchor_visible_on_def) code_simp
  have c: "last_closed_on paid_off_walk (Date 2026 3 1) = Some (Date 2026 2 3)"
    unfolding last_closed_on_def dd by code_simp
  show ?thesis
    using last_closed_on_is_the_closing[of paid_off_walk "Date 2026 3 1"] c by (auto simp: less_eq_date_def)
qed

section \<open>The plan moves no recorded day\<close>

lemma fold_by_visible:
  assumes "anchor_corrections w = anchor_corrections w0"
    and "[ou \<leftarrow> payment_splits w. pay_visible_on (outcome_event ou) \<le> d] =
      [ou \<leftarrow> payment_splits w0. pay_visible_on (outcome_event ou) \<le> d]"
  shows "owed_at w d = owed_at w0 d"
proof -
  have s: "[x \<leftarrow> dated_deltas v. fst x \<le> d] =
      (if anchor_corrections v = [] then [] else
       map (\<lambda>(visible_on, tag, delta). (visible_on, delta))
        (sort_key (\<lambda>(visible_on, tag, delta). (visible_on, tag))
          ([(anchor_visible_on (anchor_date (correction_anchor c)), 1::nat,
             dsub (anchor_balance (correction_anchor c)) (owed_before c)).
              c \<leftarrow> [c \<leftarrow> anchor_corrections v. anchor_visible_on (anchor_date (correction_anchor c)) \<le> d]] @
           [(pay_visible_on (outcome_event ou), 0, dsub 0 (principal (outcome_split ou))).
              ou \<leftarrow> [ou \<leftarrow> payment_splits v. pay_visible_on (outcome_event ou) \<le> d]])))" for v
    by (simp add: dated_deltas_def filter_map filter_sort o_def case_prod_beta')
  have "[x \<leftarrow> dated_deltas w. fst x \<le> d] = [x \<leftarrow> dated_deltas w0. fst x \<le> d]"
    unfolding s assms ..
  then show ?thesis by (simp add: owed_at_running running_at_def)
qed

lemma projected_are_streamed:
  assumes "replay_loan_stream s extra = Inr w" "ou \<in> set (payment_splits w)" "is_projected ou"
  shows "outcome_event ou \<in> set (stream_projections s)"
proof -
  obtain st where st: "replay_events (replay_terms_of s extra) (flagged_events s) (walk_from 0) = Inr st"
      "payment_splits w = run_payments st"
    using assms(1) by (auto simp: replay_loan_stream_def replay_loan_events_def elim!: bind_res_InrE)
  let ?es = "ordered s (projection_boundary s)"
  have "map (\<lambda>ou. (outcome_event ou, is_projected ou)) (run_payments st) = cash_events ?es"
    using replay_outcomes[OF st(1)] by (simp add: walk_from_def flagged_events_def)
  then have "(\<lambda>ou. (outcome_event ou, is_projected ou)) ` set (run_payments st) = set (cash_events ?es)" by (metis set_map)
  moreover have "(outcome_event ou, True) \<in> (\<lambda>ou. (outcome_event ou, is_projected ou)) ` set (run_payments st)"
    using assms(2,3) unfolding st(2) by (intro image_eqI[of _ _ ou]) simp_all
  ultimately have "(outcome_event ou, True) \<in> set (cash_events ?es)" by simp
  then show ?thesis by (auto simp: cash_events_def tagged_def split: loan_event.splits)
qed

lemma merged_stream_plan:
  assumes "merged_stream facts plan = Inr s" "plan_calendar plan = Some cal"
  shows "with_contract_charges (facts\<lparr>stream_projections := projection_events (plan_payments plan)\<rparr>) cal = Inr s"
    "stream_projections s = projection_events (plan_payments plan)"
  using assms by (auto simp: merged_stream_def with_contract_charges_def Let_def elim!: bind_res_InrE)

text \<open>
  C3: a plan moves no recorded day.  Whatever payments are planned after the day of the read, and
  whatever extra is hypothetically added to them, the timeline (the recorded facts with the plan behind
  them) owes on every day up to the read exactly what the recorded facts alone say, and so gives the
  same answer to whether the loan is retired.\<close>

theorem plan_moves_no_recorded_day:
  assumes "cal_periods cal \<noteq> []" "1 \<le> cal_payment_day cal"
    and "\<forall>d \<in> set (fact_dates facts). valid_date d" "\<forall>p \<in> set payments. valid_date (plan_due_date p)"
    and "\<forall>p \<in> set payments. as_of < plan_effective_date p"
    and "merged_stream facts \<lparr>plan_payments = [], plan_calendar = Some cal\<rparr> = Inr recorded"
    and "merged_stream facts \<lparr>plan_payments = payments, plan_calendar = Some cal\<rparr> = Inr timeline"
    and "d \<le> as_of"
  shows "\<exists>w0 w. replay_loan_stream recorded 0 = Inr w0 \<and> replay_loan_stream timeline extra = Inr w \<and>
    owed_at w d = owed_at w0 d \<and> is_retired w owed_from d = is_retired w0 owed_from d \<and>
    settled_sum_in_year w year part = settled_sum_in_year w0 year part"
proof -
  note r = merged_stream_plan[OF assms(6), simplified] and t = merged_stream_plan[OF assms(7), simplified]
  have "projection_events [] = []" by (simp add: projection_events_def)
  then have r1: "with_contract_charges (facts\<lparr>stream_projections := []\<rparr>) cal = Inr recorded" using r(1) by simp
  have v: "\<forall>p \<in> set (projection_events payments). valid_date (pay_on_date p) \<and> as_of < pay_visible_on p"
    using assms(4,5) by (auto simp: projection_events_def)
  obtain w0 w where w: "replay_loan_stream recorded 0 = Inr w0" "replay_loan_stream timeline extra = Inr w"
      "settled_splits w = payment_splits w0" "anchor_corrections w = anchor_corrections w0"
    using timeline_extends_facts[OF assms(1-3) _ r1 t(1)] v by blast
  have "\<not> is_projected ou" if "ou \<in> set (payment_splits w)" "pay_visible_on (outcome_event ou) \<le> d" for ou
  proof
    assume "is_projected ou"
    then have "as_of < pay_visible_on (outcome_event ou)" using projected_are_streamed[OF w(2) that(1)] v t(2) by simp
    then show False using that(2) assms(8) by simp
  qed
  then have vis: "[ou \<leftarrow> payment_splits w. pay_visible_on (outcome_event ou) \<le> d] =
      [ou \<leftarrow> settled_splits w. pay_visible_on (outcome_event ou) \<le> d]"
    unfolding settled_splits_def filter_filter by (intro filter_cong) auto
  have "owed_at w d = owed_at w0 d" by (rule fold_by_visible[OF w(4) vis[unfolded w(3)]])
  moreover have "settled_splits w0 = settled_splits w"
    unfolding settled_splits_def[of w0] w(3)[symmetric] by (simp add: settled_splits_def)
  ultimately show ?thesis using w by (auto simp: is_retired_def settled_sum_in_year_def)
qed

lemma plan_moves_no_recorded_day_witness:
  "\<exists>recorded timeline w0 w.
     merged_stream sample_facts \<lparr>plan_payments = [], plan_calendar = Some sample_calendar\<rparr> = Inr recorded \<and>
     merged_stream sample_facts
       \<lparr>plan_payments = [\<lparr>plan_due_date = Date 2026 3 1, plan_effective_date = Date 2026 3 1, plan_cash = 100, is_estimated = False\<rparr>],
        plan_calendar = Some sample_calendar\<rparr> = Inr timeline \<and>
     replay_loan_stream recorded 0 = Inr w0 \<and> replay_loan_stream timeline 50 = Inr w \<and>
     owed_at w (Date 2026 2 10) = owed_at w0 (Date 2026 2 10)"
proof -
  have ps: "cal_periods sample_calendar \<noteq> []" by (simp add: sample_calendar_def)
  have ok: "\<exists>s. merged_stream sample_facts \<lparr>plan_payments = p, plan_calendar = Some sample_calendar\<rparr> = Inr s" for p
    using with_contract_charges_total[OF ps] by (simp add: merged_stream_def)
  let ?p = "[\<lparr>plan_due_date = Date 2026 3 1, plan_effective_date = Date 2026 3 1, plan_cash = 100, is_estimated = False\<rparr>]"
  obtain recorded timeline where m:
    "merged_stream sample_facts \<lparr>plan_payments = [], plan_calendar = Some sample_calendar\<rparr> = Inr recorded"
    "merged_stream sample_facts \<lparr>plan_payments = ?p, plan_calendar = Some sample_calendar\<rparr> = Inr timeline"
    using ok by meson
  have "1 \<le> cal_payment_day sample_calendar" by (simp add: sample_calendar_def)
  moreover have "\<forall>d \<in> set (fact_dates sample_facts). valid_date d"
    by (simp add: fact_dates_def sample_facts_def valid_date_def days_in_month_def)
  moreover have "\<forall>p \<in> set ?p. valid_date (plan_due_date p)" "\<forall>p \<in> set ?p. Date 2026 2 15 < plan_effective_date p"
    "Date 2026 2 10 \<le> Date 2026 2 15"
    by (simp_all add: valid_date_def days_in_month_def less_date_def less_eq_date_def)
  ultimately obtain w0 w where "replay_loan_stream recorded 0 = Inr w0" "replay_loan_stream timeline 50 = Inr w"
      "owed_at w (Date 2026 2 10) = owed_at w0 (Date 2026 2 10)"
    using plan_moves_no_recorded_day[OF ps _ _ _ _ m(1,2), of "Date 2026 2 15" "Date 2026 2 10" 50] by blast
  then show ?thesis using m by blast
qed

end
