(* ===== verification/Row_Ids.thy ===== *)
theory Row_Ids
  imports Prelude
begin

text \<open>
  \<open>app/utils/digit_strings.py\<close>: which row a submitted string names.  A Python string is its list of
  code points.  \<open>int()\<close> on ASCII digits is written out with CPython's limit on the number of digits,
  an argument (0 for none); on any other string it is an argument of \<open>integer_arg\<close>.
\<close>

type_synonym pystr = "nat list"

definition MIN_ROW_ID :: int where "MIN_ROW_ID = 1"
definition MIN_INTEGER_COLUMN :: int where "MIN_INTEGER_COLUMN = - 2147483648"
definition MAX_INTEGER_COLUMN :: int where "MAX_INTEGER_COLUMN = 2147483647"

section \<open>Digits\<close>

definition is_digit :: "nat \<Rightarrow> bool" where
  "is_digit c = (48 \<le> c \<and> c \<le> 57)"

text \<open>On ASCII strings \<open>str.isdigit\<close> is: not empty, and nothing but the ten digits.\<close>

definition is_ascii_digits :: "pystr \<Rightarrow> bool" where
  "is_ascii_digits s = (list_all (\<lambda>c. c < 128) s \<and> s \<noteq> [] \<and> list_all is_digit s)"

definition digits_value :: "pystr \<Rightarrow> int" where
  "digits_value s = foldl (\<lambda>n c. 10 * n + (int c - 48)) 0 s"

definition int_of_digits :: "nat \<Rightarrow> pystr \<Rightarrow> int res" where
  "int_of_digits limit s = (if limit \<noteq> 0 \<and> limit < length s then Inl ValueError else Inr (digits_value s))"

text \<open>\<open>str\<close> of a non-negative integer.\<close>

fun str_of_nat :: "nat \<Rightarrow> pystr" where
  "str_of_nat n = (if n < 10 then [48 + n] else str_of_nat (n div 10) @ [48 + n mod 10])"

declare str_of_nat.simps [simp del]

section \<open>Rows\<close>

definition parse_row_id :: "nat \<Rightarrow> pystr option \<Rightarrow> int option" where
  "parse_row_id limit raw =
     (case raw of None \<Rightarrow> None
      | Some s \<Rightarrow>
          if \<not> is_ascii_digits s then None
          else case int_of_digits limit s of Inl _ \<Rightarrow> None
               | Inr row_id \<Rightarrow>
                   if \<not> (MIN_ROW_ID \<le> row_id \<and> row_id \<le> MAX_INTEGER_COLUMN) \<or> str_of_nat (nat row_id) \<noteq> s then None
                   else Some row_id)"

definition integer_arg :: "(pystr \<Rightarrow> int res) \<Rightarrow> pystr \<Rightarrow> int res" where
  "integer_arg py_int raw =
     bind_res (py_int raw)
       (\<lambda>v. if \<not> (MIN_INTEGER_COLUMN \<le> v \<and> v \<le> MAX_INTEGER_COLUMN) then Inl ValueError else Inr v)"

definition parse_row_ids :: "nat \<Rightarrow> pystr list \<Rightarrow> int set" where
  "parse_row_ids limit raws = set (List.map_filter (\<lambda>raw. parse_row_id limit (Some raw)) raws)"

section \<open>One spelling for each row\<close>

lemma row_ids_in: "n \<in> parse_row_ids limit raws \<longleftrightarrow> (\<exists>raw \<in> set raws. parse_row_id limit (Some raw) = Some n)"
  by (force simp: parse_row_ids_def List.map_filter_def)

lemma str_of_nat_digits: "str_of_nat n \<noteq> [] \<and> list_all is_digit (str_of_nat n)"
proof (induction n rule: str_of_nat.induct)
  case (1 n)
  then show ?case by (cases "n < 10") (simp_all add: str_of_nat.simps[of n] is_digit_def)
qed

lemma digits_value_snoc: "digits_value (s @ [c]) = 10 * digits_value s + (int c - 48)"
  by (simp add: digits_value_def)

lemma digits_value_str_of_nat: "digits_value (str_of_nat n) = int n"
proof (induction n rule: str_of_nat.induct)
  case (1 n)
  show ?case
  proof (cases "n < 10")
    case True
    then show ?thesis by (simp add: str_of_nat.simps[of n] digits_value_def)
  next
    case False
    then have "digits_value (str_of_nat n) = 10 * int (n div 10) + int (n mod 10)"
      using 1 by (simp add: str_of_nat.simps[of n] digits_value_snoc)
    then show ?thesis by (simp add: zdiv_int zmod_int)
  qed
qed

lemma length_str_of_nat: "n < 10 ^ k \<Longrightarrow> 0 < k \<Longrightarrow> length (str_of_nat n) \<le> k"
proof (induction k arbitrary: n)
  case (Suc k)
  show ?case
  proof (cases "n < 10")
    case False
    then have "n div 10 < 10 ^ k" "0 < k" using Suc.prems(1) by (auto simp: less_mult_imp_div_less mult.commute intro: Nat.gr0I)
    then show ?thesis using Suc.IH[of "n div 10"] False by (simp add: str_of_nat.simps[of n])
  qed (simp add: str_of_nat.simps)
qed simp

text \<open>
  C21: printing a row's id and reading it back.  A submitted string names a row exactly when it is the
  spelling \<open>str\<close> gives of an id a column can hold, so each id has one spelling and reading it back
  gives the id; a leading zero, a sign, a space, another script's digits, zero, a number past the
  column or a missing value name none, and nothing raises, whatever the length.  A list of ticked boxes
  names the rows its spellings name.\<close>

theorem row_ids_roundtrip:
  assumes "limit = 0 \<or> 640 \<le> limit"
  shows "(parse_row_id limit raw = Some n \<longleftrightarrow>
      1 \<le> n \<and> n \<le> MAX_INTEGER_COLUMN \<and> raw = Some (str_of_nat (nat n))) \<and>
    parse_row_ids limit raws = {n. 1 \<le> n \<and> n \<le> MAX_INTEGER_COLUMN \<and> str_of_nat (nat n) \<in> set raws}"
proof -
  have parse: "parse_row_id limit raw = Some n \<longleftrightarrow>
      1 \<le> n \<and> n \<le> MAX_INTEGER_COLUMN \<and> raw = Some (str_of_nat (nat n))" for raw n
  proof
    assume "parse_row_id limit raw = Some n"
    then show "1 \<le> n \<and> n \<le> MAX_INTEGER_COLUMN \<and> raw = Some (str_of_nat (nat n))"
      by (auto simp: parse_row_id_def MIN_ROW_ID_def split: option.splits sum.splits if_splits)
  next
    assume h: "1 \<le> n \<and> n \<le> MAX_INTEGER_COLUMN \<and> raw = Some (str_of_nat (nat n))"
    then have "length (str_of_nat (nat n)) \<le> 10"
      by (intro length_str_of_nat) (auto simp: MAX_INTEGER_COLUMN_def nat_less_iff)
    then have "int_of_digits limit (str_of_nat (nat n)) = Inr n"
      using assms h by (auto simp: int_of_digits_def digits_value_str_of_nat)
    moreover have "is_ascii_digits (str_of_nat (nat n))"
      using str_of_nat_digits[of "nat n"] by (auto simp: is_ascii_digits_def is_digit_def list_all_iff)
    ultimately show "parse_row_id limit raw = Some n" using h by (simp add: parse_row_id_def MIN_ROW_ID_def)
  qed
  then have "parse_row_ids limit raws = {n. 1 \<le> n \<and> n \<le> MAX_INTEGER_COLUMN \<and> str_of_nat (nat n) \<in> set raws}"
    by (auto simp: row_ids_in)
  then show ?thesis using parse by blast
qed

lemma row_ids_roundtrip_witness:
  "parse_row_id 4300 (Some [49, 48, 54]) = Some 106 \<and> parse_row_id 4300 (Some [48, 55]) = None"
proof -
  have s: "str_of_nat 106 = [49, 48, 54]" "str_of_nat 7 = [55]" by (simp_all add: str_of_nat.simps)
  have "parse_row_id 4300 (Some [49, 48, 54]) = Some 106"
    using row_ids_roundtrip[of 4300 "Some [49, 48, 54]" 106 "[]"] s by (simp add: MAX_INTEGER_COLUMN_def)
  moreover have "parse_row_id 4300 (Some [48, 55]) = None"
    using s(2) by (simp add: parse_row_id_def is_ascii_digits_def is_digit_def int_of_digits_def digits_value_def)
  ultimately show ?thesis by blast
qed

end
