(* ===== verification/Spec2Isabelle.thy ===== *)
theory Spec2Isabelle
  imports Occurrences Money Paycheck_Year Pay_Stubs Installments Effective_Dated Escrow Status_Machine Debt_Strategy Loan_Fold Tax_Calculator Row_Ids
begin

text \<open>
  Shekel is a self-hosted budget built around paychecks: a Flask application over PostgreSQL whose pure
  core lies in \<open>src/app/services\<close>, \<open>src/app/utils\<close> and \<open>src/app/tax_law\<close>.  This development is that core's
  specification.  Every definition is a translation of a function, class or constant of the source under
  the source's name where HOL allows it; \<open>PROJECT.json\<close> names the lines of each.  The properties of the
  program are the theorems preceded by a text that starts with their number (C1 to C40).

  \<^bold>\<open>The program and the theories.\<close>

  \<^item> \<^bold>\<open>Ground.\<close> \<open>Prelude\<close> has the result type of an operation that may raise (\<open>py_error + 'a\<close>, the
    constructors named after the Python classes) and shared list lemmas.  \<open>Decimals\<close> is Python's
    \<open>decimal\<close> in its default context: a Decimal is its value, a rational, and every operation rounds
    the exact result to 28 digits, half to even (\<open>fix28\<close>); what every quantization mode
    guarantees is the locale \<open>rounding\<close>.  \<open>Money\<close> is \<open>utils/money.py\<close>.  \<open>Civil_Dates\<close> and \<open>Civil_Days\<close> are
    \<open>datetime.date\<close> and \<open>utils/dates.py\<close>; the month grid is the locale \<open>monthly_grid\<close>.  Two functions raise
    outside a domain: \<open>round_money_py\<close> and \<open>clamped_day_py\<close> are they, and \<open>round_money\<close> and \<open>clamped_day\<close>
    their values within it (\<open>round_money_py_defined\<close>, \<open>clamped_day_python\<close>), which the other definitions use.  \<open>Row_Ids\<close> is
    \<open>utils/digit_strings.py\<close>.
  \<^item> \<^bold>\<open>Pay calendar.\<close> \<open>Business_Days\<close> (\<open>utils/business_days.py\<close>: the federal holidays and the one
    displacement of a payday; locale \<open>displacement\<close>), \<open>Pay_Grid\<close> (\<open>pay_rhythm.py\<close>,
    \<open>pay_calendar/_grid.py\<close>: the three kinds of cadence; locale \<open>pay_grid\<close> of a grid and its inverse, and
    \<open>displaced_grid\<close>, which joins the two and is interpreted on every validated era), \<open>Pay_Eras\<close>
    (\<open>_eras.py\<close>: the plan across an owner's eras and the planned payday a recorded one stands for),
    \<open>Pay_Calendar\<close> (\<open>_derive.py\<close>, \<open>_searches.py\<close>: paydays in, periods out), \<open>Pay_Projection\<close>
    (\<open>_projection.py\<close>), \<open>Pay_Cadence\<close> (\<open>_cadence.py\<close>), \<open>Pay_Views\<close> (\<open>_window.py\<close>, \<open>_views.py\<close>,
    \<open>_calendar.py\<close>, \<open>_walks.py\<close>) and \<open>Pay_Counts\<close> (\<open>_rhythm.py\<close>).  The periods tile (\<open>tiles\<close>); a projected period is the
    plan's at a position of an era (\<open>plan_period\<close>).
  \<^item> \<^bold>\<open>Taxes.\<close> \<open>Tax_Law\<close> (\<open>tax_law\<close>, \<open>tax_config_service.py\<close>: the law's records with the checks of their
    construction, the shipped figures, the year a pay year is priced on) and \<open>Tax_Calculator\<close>
    (\<open>tax_calculator.py\<close>).
  \<^item> \<^bold>\<open>Paychecks.\<close> \<open>Salary_Raises\<close> (\<open>salary_raises.py\<close>: the raises due in a span of days), \<open>Payroll_Basis\<close>
    (\<open>payroll_basis.py\<close>: the walk from the pay entry in force through raises and changes of rhythm to the
    base pay of a payday; an event is a constructor of \<open>pay_event\<close>, the walk's state a triple), \<open>Paycheck\<close>
    (\<open>paycheck_calculator\<close>, \<open>utils/deduction_cap.py\<close>: a paycheck's lines, caps, withholdings and pay stubs),
    \<open>Paycheck_Year\<close> (what a calendar year of paychecks adds up to) and \<open>Pay_Stubs\<close> (which stub prices a
    paycheck, and how).
  \<^item> \<^bold>\<open>Recurrence.\<close> \<open>Recurrence_Rules\<close> (\<open>recurrence/\<close>: the vocabulary, cadences, closing bounds, what may be
    authored, the resolution of a rule against a pay calendar; \<open>utils/books_boundary.py\<close>) and \<open>Occurrences\<close>
    (\<open>_occurrence.py\<close>, \<open>_placement.py\<close>, \<open>_reading.py\<close>, \<open>_authoring.py\<close>: the days a rule fires, the periods that
    host them, the stored row).
  \<^item> \<^bold>\<open>Loans.\<close> \<open>Effective_Dated\<close> (\<open>utils/effective_dated.py\<close>; locale \<open>effective_dated\<close>, interpreted on the
    resolver and on the walks that restate it), \<open>Installments\<close>, \<open>Escrow\<close>, \<open>Amortization\<close>
    (\<open>amortization_engine\<close>), \<open>Rate_Periods\<close> (\<open>rate_period_engine.py\<close>), \<open>Loan_Resolver\<close>
    (\<open>loan_resolver\<close>), \<open>Loan_Ledger\<close> (\<open>loan_ledger\<close>: the one replay of charges, payments and balance
    assertions) and \<open>Loan_Fold\<close> (\<open>balance_at\<close>: the balance of a day as the running total of the walk's
    steps, recorded and planned).  \<open>Debt_Strategy\<close> simulates the payoff of several debts.
  \<^item> \<^bold>\<open>Statuses.\<close> \<open>Status_Machine\<close> (\<open>state_machine.py\<close>, \<open>utils/balance_predicates.py\<close>): the two workflows as
    tables, and their reachable statuses as the inductive relation \<open>status_step\<close>.

  The components meet as they do in the program: the resolver feeds the ledger its rate periods and the
  installment calendar its due days; the ledger calls \<open>Money\<close> for every accrual and allocation; the fold
  reads the ledger's walk; the calendar reads the eras, which read the grid and the business days; the
  tax calculator reads the law, a paycheck the tax calculator, the calendar and the base pay, and a
  rule's occurrences are walked on the calendar.

  \<^bold>\<open>What the theorems show.\<close>  Conservation: a replay keeps the books, its balance carried from event to
  event; a paycheck adds up to the cent; a strategy, a projection and a single payment account for every
  cent.  Refinement and equivalence: the running-total fold is the walk, the marginal loop is the ladder
  of brackets, withholding is the annual liability spread over the periods, base pay is walked on through
  the raises and rhythms in between, the raises of a span split at any day of it.  Calendars: derived
  periods tile, a record stands for the nearest planned payday, the projection continues the record and
  numbers on, any range is drawn with each day in one column, a rule of months or of paychecks fires on
  its grid days and no others; grids and their inverses, displacements and counts are exact.  Bounds: a
  capped line over a year takes the lesser of its cap and what it comes to, payroll taxes over a year are
  the statutory ones but for rounding.  Safety: a plan moves no recorded day; an accepted merge charges
  what the two escrow lines charged together, and moves the escrow of a loan with other lines by at most
  two cents (\<open>merge_moves_the_loans_escrow\<close> is a loan where it moves by one).  Every branch of the
  payoff search's answer, the last scheduled month's zero included.  Checks: a law that loads has
  consecutive years and a bracket for every income.  Round trips: row ids and their spelling.  A locale's lemmas
  are proved once and reach the properties through its interpretations.

  \<^bold>\<open>Bounds and loops.\<close>  Where a property bounds its inputs, the bound keeps the 28-digit context exact or
  its error below half a cent, and lies far beyond what the columns hold: amounts in cents up to
  \<open>10 ^ 20\<close> (a column holds twelve digits), rates of at most 36 percent on projections of up to 600
  months, spans of up to \<open>10 ^ 6\<close> months, 100 debts, 4,000 escrow lines, \<open>10 ^ 5\<close> steps of a fold.  The payoff
  search runs 100 bisection steps, as the source's does.  Loops over dates are recursive
  functions with a termination proof; \<open>days_from\<close>, \<open>landing_day\<close>, \<open>nominal_scan\<close>, \<open>matched_scan\<close> and
  \<open>projected_from\<close> carry a guard (a calendar date, a validated era) that every call of the program
  satisfies and under which they are known to end.  Generators are the lists of what they yield.

  \<^bold>\<open>Conventions.\<close>  Python's \<open>date\<close> stops at 9999-12-31, where it raises and the model goes on.  An instant is its
  number of microseconds.  The exponent of a Decimal zero, which no operation here reads, is not
  modelled; \<open>dpow\<close> is the correctly rounded power.  A division by zero is not reached: each divisor is
  shown or checked positive.  Python's type checks are the typing of the model.

  \<^bold>\<open>Not modelled.\<close>  The loaders and writers (SQLAlchemy sessions, rows, queries), which the definitions
  take as arguments, with the ids of reference-table rows; the routes, schemas and templates; labels and
  messages; authentication, logging, scripts and tests; time zones; the memos of \<open>payroll_basis.py\<close>, where a
  line's recurrence is the set of paydays it admits.  Of the services, the picker, the descriptions and the
  books opening of recurrences, the double-entry postings, transfers, statement import and matching, growth
  and retirement projections, carry-forward, card statements, the status seam and the cash ledger are
  left for further work.
\<close>

end
